(* ===== verification/Prelude.thy ===== *)
theory Prelude
  imports Main "HOL-Library.Word" "HOL-Library.Multiset" "HOL-Library.AList"
    "HOL-Library.Monad_Syntax"
begin

text \<open>
  Shared vocabulary of the development: the machine types of the Go sources, Go maps as
  association lists with distinct keys, the generic lemmas about both, and the locale that
  lifts a one-step invariant to every run of a component.

  A Go \<open>map\<close> is an association list; \<open>m[k]\<close> is \<open>map_of m k\<close>, a store is
  \<open>AList.update\<close>, \<open>delete(m, k)\<close> is \<open>AList.delete\<close>, and \<open>len(m)\<close> is
  \<open>length m\<close>. A \<open>range\<close> loop visits the pairs in list order. Go leaves that order
  unspecified, so the list order stands for whichever order the run time picks: the theorems
  are stated for every list with distinct keys.
\<close>

section \<open>Machine types\<close>

type_synonym uint64 = "64 word"
type_synonym address = "160 word"
type_synonym hash = "256 word"
type_synonym byte = "8 word"

text \<open>\<open>*big.Int\<close> values are unbounded integers.\<close>

type_synonym bigint = int

section \<open>Collections of facts\<close>

named_theorems list_facts \<open>multiset, set and length of the list operations of the model\<close>
named_theorems inv_intros \<open>one-step preservation lemmas of component invariants\<close>

section \<open>Go maps\<close>

type_synonym ('k, 'v) gomap = "('k \<times> 'v) list"

abbreviation keys :: "('k, 'v) gomap \<Rightarrow> 'k list" where
  "keys m \<equiv> map fst m"

definition gomap_ok :: "('k, 'v) gomap \<Rightarrow> bool" where
  "gomap_ok m \<longleftrightarrow> distinct (keys m)"

lemma gomap_ok_Nil [simp]: "gomap_ok []"
  by (simp add: gomap_ok_def)

lemma gomap_ok_update [simp]: "gomap_ok m \<Longrightarrow> gomap_ok (AList.update k v m)"
  by (simp add: gomap_ok_def distinct_update)

lemma gomap_ok_delete [simp]: "gomap_ok m \<Longrightarrow> gomap_ok (AList.delete k m)"
  by (simp add: gomap_ok_def distinct_delete)

lemma gomap_ok_filter [simp]: "gomap_ok m \<Longrightarrow> gomap_ok (filter P m)"
  by (simp add: gomap_ok_def distinct_map_filter)

lemma set_update_subset: "set (AList.update k v m) \<subseteq> insert (k, v) (set m)"
  by (induction m) auto

lemma update_fresh: "k \<notin> fst ` set m \<Longrightarrow> AList.update k v m = m @ [(k, v)]"
  by (induction m) auto

lemma set_delete_subset: "set (AList.delete k m) \<subseteq> set m"
  by (auto simp: AList.delete_eq)

lemma map_of_gomap: "gomap_ok m \<Longrightarrow> map_of m k = Some v \<longleftrightarrow> (k, v) \<in> set m"
  by (simp add: gomap_ok_def)

lemma map_of_keys: "map_of m k \<noteq> None \<longleftrightarrow> k \<in> set (keys m)"
  by (metis map_of_eq_None_iff list.set_map)

lemma map_of_filter_gomap:
  "gomap_ok m \<Longrightarrow> map_of (filter P m) k =
     (case map_of m k of None \<Rightarrow> None | Some v \<Rightarrow> if P (k, v) then Some v else None)"
  by (induction m) (force simp: gomap_ok_def split: option.splits)+

lemma delete_as_filter: "AList.delete k m = filter (\<lambda>p. fst p \<noteq> k) m"
  unfolding AList.delete_eq by (rule filter_cong) auto

lemma delete_fresh [simp]: "k \<notin> set (keys m) \<Longrightarrow> AList.delete k m = m"
  by (auto simp: delete_as_filter filter_id_conv)

lemma mset_keys_delete:
  "gomap_ok m \<Longrightarrow> mset (keys (AList.delete k m)) = mset (keys m) - {#k#}"
proof (induction m)
  case (Cons p m)
  from Cons.prems have ok: "gomap_ok m" "fst p \<notin> set (keys m)"
    by (auto simp: gomap_ok_def)
  show ?case
  proof (cases "fst p = k")
    case True
    with ok have "AList.delete k (p # m) = m"
      using delete_fresh [of k m] by (simp add: delete_as_filter)
    with True show ?thesis by simp
  next
    case False
    with Cons.IH ok show ?thesis by (simp add: delete_as_filter)
  qed
qed simp

lemma image_mset_delete:
  "gomap_ok m \<Longrightarrow> image_mset fst (mset (AList.delete k m)) = image_mset fst (mset m) - {#k#}"
  using mset_keys_delete [of m k] by simp

lemma length_delete:
  assumes "gomap_ok m" and "k \<in> set (keys m)"
  shows "Suc (length (AList.delete k m)) = length m"
proof -
  have "size (mset (keys (AList.delete k m))) = size (mset (keys m)) - 1"
    using assms by (simp only: mset_keys_delete size_Diff_singleton set_mset_mset)
  moreover have "0 < length m"
    using assms(2) by (cases m) auto
  ultimately show ?thesis by simp
qed

section \<open>Lists\<close>

definition swap :: "nat \<Rightarrow> nat \<Rightarrow> 'a list \<Rightarrow> 'a list" where
  "swap i j xs = xs[i := xs ! j, j := xs ! i]"

lemma length_swap [simp]: "length (swap i j xs) = length xs"
  by (simp add: swap_def)

lemma mset_swap_eq [simp]:
  "i < length xs \<Longrightarrow> j < length xs \<Longrightarrow> mset (swap i j xs) = mset xs"
  by (metis swap_def mset_swap)

lemma nth_swap:
  "i < length xs \<Longrightarrow> j < length xs \<Longrightarrow> k < length xs \<Longrightarrow>
   swap i j xs ! k = (if k = j then xs ! i else if k = i then xs ! j else xs ! k)"
  by (simp add: swap_def nth_list_update)

section \<open>Slices that panic out of range\<close>

text \<open>
  Indexing and slicing return \<open>None\<close> where Go panics. An operation of type \<open>'a option\<close> is
  one that may panic, and the theorems show that it does not on well-formed states.
\<close>

definition index_at :: "'a list \<Rightarrow> nat \<Rightarrow> 'a option" where
  "index_at xs i = (if i < length xs then Some (xs ! i) else None)"

definition slice_from :: "nat \<Rightarrow> 'a list \<Rightarrow> 'a list option" where
  "slice_from n xs = (if n \<le> length xs then Some (drop n xs) else None)"

definition slice_to :: "int \<Rightarrow> 'a list \<Rightarrow> 'a list option" where
  "slice_to n xs = (if 0 \<le> n \<and> n \<le> int (length xs) then Some (take (nat n) xs) else None)"

lemma index_at_less [simp]: "i < length xs \<Longrightarrow> index_at xs i = Some (xs ! i)"
  by (simp add: index_at_def)

section \<open>Runs of a component\<close>

text \<open>
  A component driven by events: a step returns \<open>None\<close> where the code panics. Where every admissible
  event succeeds on a state with the invariant and keeps it, so does every sequence of them.
\<close>

fun run :: "('e \<Rightarrow> 's \<Rightarrow> 's option) \<Rightarrow> 'e list \<Rightarrow> 's \<Rightarrow> 's option" where
  "run step [] s = Some s"
| "run step (ev # evs) s = do { s' \<leftarrow> step ev s; run step evs s' }"

locale event_system =
  fixes step :: "'e \<Rightarrow> 's \<Rightarrow> 's option"
    and adm :: "'e \<Rightarrow> bool"
    and inv :: "'s \<Rightarrow> bool"
  assumes step_inv: "inv s \<Longrightarrow> adm ev \<Longrightarrow> \<exists>s'. step ev s = Some s' \<and> inv s'"
begin

lemma run_inv: "inv s \<Longrightarrow> list_all adm evs \<Longrightarrow> \<exists>s'. run step evs s = Some s' \<and> inv s'"
proof (induction evs arbitrary: s)
  case (Cons ev evs)
  then obtain s1 where "step ev s = Some s1" "inv s1" using step_inv [of s ev] by auto
  with Cons show ?case by simp
qed simp

end

end
