(* ===== verification/GoHeap.thy ===== *)
theory GoHeap
  imports Prelude
begin

text \<open>
  The binary heap of Go's \<open>container/heap\<close>, which the transaction pool instantiates twice
  (\<open>nonceHeap\<close> and \<open>priceHeap\<close> of \<open>core/tx_list.go\<close>). The slice is a list, and the
  \<open>Less\<close> of the instance is \<open>\<lambda>x y. key x < key y\<close> for a key into a linear order.
  The interface a client relies on is the locale \<open>heap_queue\<close> at the end, interpreted on
  these operations.
\<close>

section \<open>Operations\<close>

abbreviation parent :: "nat \<Rightarrow> nat" where
  "parent k \<equiv> (k - 1) div 2"

function heap_up :: "('a \<Rightarrow> 'k::linorder) \<Rightarrow> nat \<Rightarrow> 'a list \<Rightarrow> 'a list" where
  "heap_up key j xs =
     (if parent j = j \<or> \<not> key (xs ! j) < key (xs ! parent j) then xs
      else heap_up key (parent j) (swap (parent j) j xs))"
  by pat_completeness auto
termination
  by (relation "measure (\<lambda>(key, j, xs). j)") auto

declare heap_up.simps [simp del]

text \<open>The loop of \<open>down\<close>, with the position it ends at.\<close>

definition down_child :: "('a \<Rightarrow> 'k::linorder) \<Rightarrow> nat \<Rightarrow> nat \<Rightarrow> 'a list \<Rightarrow> nat" where
  "down_child key i n xs =
     (let j1 = 2 * i + 1; j2 = j1 + 1
      in if j2 < n \<and> key (xs ! j2) < key (xs ! j1) then j2 else j1)"

lemma down_child_gt: "i < down_child key i n xs"
  by (simp add: down_child_def Let_def)

function down_loop :: "('a \<Rightarrow> 'k::linorder) \<Rightarrow> nat \<Rightarrow> nat \<Rightarrow> 'a list \<Rightarrow> 'a list \<times> nat" where
  "down_loop key i n xs =
     (if n \<le> 2 * i + 1 then (xs, i)
      else let j = down_child key i n xs
           in if \<not> key (xs ! j) < key (xs ! i) then (xs, i)
              else down_loop key j n (swap i j xs))"
  by pat_completeness auto
termination
  by (relation "measure (\<lambda>(key, i, n, xs). n - i)")
    (auto simp: down_child_def Let_def)

declare down_loop.simps [simp del]

definition heap_down :: "('a \<Rightarrow> 'k::linorder) \<Rightarrow> nat \<Rightarrow> nat \<Rightarrow> 'a list \<Rightarrow> 'a list \<times> bool" where
  "heap_down key i0 n xs = (case down_loop key i0 n xs of (ys, i) \<Rightarrow> (ys, i0 < i))"

fun init_loop :: "('a \<Rightarrow> 'k::linorder) \<Rightarrow> nat \<Rightarrow> nat \<Rightarrow> 'a list \<Rightarrow> 'a list" where
  "init_loop key n 0 xs = xs"
| "init_loop key n (Suc i) xs = init_loop key n i (fst (heap_down key i n xs))"

definition heap_init :: "('a \<Rightarrow> 'k::linorder) \<Rightarrow> 'a list \<Rightarrow> 'a list" where
  "heap_init key xs = init_loop key (length xs) (length xs div 2) xs"

definition heap_push :: "('a \<Rightarrow> 'k::linorder) \<Rightarrow> 'a \<Rightarrow> 'a list \<Rightarrow> 'a list" where
  "heap_push key x xs = heap_up key (length xs) (xs @ [x])"

text \<open>\<open>Pop\<close> and \<open>Remove\<close> on an empty heap, or at an index out of range, panic.\<close>

definition heap_pop :: "('a \<Rightarrow> 'k::linorder) \<Rightarrow> 'a list \<Rightarrow> ('a \<times> 'a list) option" where
  "heap_pop key xs =
     (if xs = [] then None
      else let n = length xs - 1; ys = fst (heap_down key 0 n (swap 0 n xs))
           in Some (last ys, butlast ys))"

definition heap_remove :: "('a \<Rightarrow> 'k::linorder) \<Rightarrow> nat \<Rightarrow> 'a list \<Rightarrow> ('a \<times> 'a list) option" where
  "heap_remove key i xs =
     (if length xs \<le> i then None
      else let n = length xs - 1;
               ys = (if n = i then xs
                     else case heap_down key i n (swap i n xs) of
                            (zs, moved) \<Rightarrow> if moved then zs else heap_up key i zs)
           in Some (last ys, butlast ys))"

section \<open>The heap order\<close>

text \<open>
  \<open>edges_ok key xs n p\<close>: every edge of the first \<open>n\<close> cells that satisfies \<open>p\<close> (on the child)
  is ordered. The order of the whole heap is the case where \<open>p\<close> is always true.
\<close>

definition edges_ok :: "('a \<Rightarrow> 'k::linorder) \<Rightarrow> 'a list \<Rightarrow> nat \<Rightarrow> (nat \<Rightarrow> bool) \<Rightarrow> bool" where
  "edges_ok key xs n p \<longleftrightarrow> (\<forall>k<n. 0 < k \<longrightarrow> p k \<longrightarrow> key (xs ! parent k) \<le> key (xs ! k))"

definition is_heap :: "('a \<Rightarrow> 'k::linorder) \<Rightarrow> 'a list \<Rightarrow> bool" where
  "is_heap key xs \<longleftrightarrow> edges_ok key xs (length xs) (\<lambda>_. True)"

text \<open>The children of \<open>h\<close> are not below the parent of \<open>h\<close> (as far as edges above \<open>i0\<close> go).\<close>

definition skip_ok :: "('a \<Rightarrow> 'k::linorder) \<Rightarrow> 'a list \<Rightarrow> nat \<Rightarrow> nat \<Rightarrow> nat \<Rightarrow> bool" where
  "skip_ok key xs n i0 h \<longleftrightarrow>
     (\<forall>k<n. 0 < k \<longrightarrow> parent k = h \<longrightarrow> 0 < h \<longrightarrow> i0 \<le> parent h \<longrightarrow>
        key (xs ! parent h) \<le> key (xs ! k))"

lemma edges_okD: "edges_ok key xs n p \<Longrightarrow> k < n \<Longrightarrow> 0 < k \<Longrightarrow> p k \<Longrightarrow> key (xs ! parent k) \<le> key (xs ! k)"
  by (simp add: edges_ok_def)

lemma length_down_loop [simp]: "length (fst (down_loop key i n xs)) = length xs"
  by (induction key i n xs rule: down_loop.induct)
    (subst down_loop.simps, simp add: Let_def)

lemma mset_down_loop [simp]:
  "n \<le> length xs \<Longrightarrow> mset (fst (down_loop key i n xs)) = mset xs"
proof (induction key i n xs rule: down_loop.induct)
  case (1 key i n xs)
  show ?case
  proof (cases "n \<le> 2 * i + 1")
    case False
    then have "down_child key i n xs < n" "i < n"
      by (auto simp: down_child_def Let_def)
    with False 1 show ?thesis
      by (subst down_loop.simps) (simp add: Let_def)
  qed (simp add: down_loop.simps [of key i n xs])
qed

lemma nth_down_loop:
  "n \<le> length xs \<Longrightarrow> n \<le> k \<Longrightarrow> fst (down_loop key i n xs) ! k = xs ! k"
proof (induction key i n xs rule: down_loop.induct)
  case (1 key i n xs)
  show ?case
  proof (cases "n \<le> 2 * i + 1")
    case False
    then have "down_child key i n xs < n" "i < n"
      by (auto simp: down_child_def Let_def)
    with False 1 show ?thesis
      by (subst down_loop.simps) (simp add: Let_def swap_def)
  qed (simp add: down_loop.simps [of key i n xs])
qed

lemma length_heap_up [simp]: "length (heap_up key j xs) = length xs"
  by (induction key j xs rule: heap_up.induct) (subst heap_up.simps, simp)

lemma mset_heap_up [simp]: "j < length xs \<Longrightarrow> mset (heap_up key j xs) = mset xs"
  by (induction key j xs rule: heap_up.induct) (subst heap_up.simps, simp)

lemma down_child_facts:
  assumes "\<not> n \<le> 2 * i + 1"
  shows "down_child key i n xs < n" and "parent (down_child key i n xs) = i"
    and "k < n \<Longrightarrow> 0 < k \<Longrightarrow> parent k = i \<Longrightarrow> key (xs ! down_child key i n xs) \<le> key (xs ! k)"
proof -
  show "down_child key i n xs < n" "parent (down_child key i n xs) = i"
    using assms by (auto simp: down_child_def Let_def)
  assume k: "k < n" "0 < k" "parent k = i"
  then have "k = 2 * i + 1 \<or> k = 2 * i + 2" by linarith
  with k show "key (xs ! down_child key i n xs) \<le> key (xs ! k)"
    by (auto simp: down_child_def Let_def not_less)
qed

lemma down_step_edges:
  assumes len: "n \<le> length xs" and big: "\<not> n \<le> 2 * i + 1"
    and ok: "edges_ok key xs n (\<lambda>k. i0 \<le> parent k \<and> parent k \<noteq> i)"
    and skip: "skip_ok key xs n i0 i" and i0: "i0 \<le> i"
    and j: "j = down_child key i n xs" and lt: "key (xs ! j) < key (xs ! i)"
  shows "edges_ok key (swap i j xs) n (\<lambda>k. i0 \<le> parent k \<and> parent k \<noteq> j)"
    and "skip_ok key (swap i j xs) n i0 j"
proof -
  note ch = down_child_facts [OF big, where key = key and xs = xs, folded j]
  have ij: "i < j" using down_child_gt [of i key n xs] j by simp
  have inl: "i < length xs" "j < length xs" using ij ch(1) len by auto
  show "edges_ok key (swap i j xs) n (\<lambda>k. i0 \<le> parent k \<and> parent k \<noteq> j)"
    unfolding edges_ok_def
  proof (intro allI impI)
    fix k assume k: "k < n" "0 < k" "i0 \<le> parent k \<and> parent k \<noteq> j"
    have pk: "parent k < length xs" "k < length xs" using k len by auto
    consider (child) "parent k = i" | (hole) "k = i" | (other) "parent k \<noteq> i" "k \<noteq> i" by blast
    then show "key (swap i j xs ! parent k) \<le> key (swap i j xs ! k)"
    proof cases
      case child
      with k ch(3) [of k] lt ij inl pk show ?thesis
        by (cases "k = j") (auto simp: nth_swap)
    next
      case hole
      with k ij have "parent k \<noteq> i" "parent k \<noteq> j" by auto
      moreover have "key (xs ! parent i) \<le> key (xs ! j)"
        using skip ch k hole unfolding skip_ok_def by auto
      ultimately show ?thesis using hole ij inl pk by (simp add: nth_swap)
    next
      case other
      with k have "k \<noteq> j" using ch(2) by auto
      with other k inl pk ok show ?thesis by (auto simp: nth_swap edges_ok_def)
    qed
  qed
  show "skip_ok key (swap i j xs) n i0 j"
    unfolding skip_ok_def
  proof (intro allI impI)
    fix k assume k: "k < n" "0 < k" "parent k = j"
    then have "j < k" by linarith
    have "key (xs ! j) \<le> key (xs ! k)"
      using edges_okD [OF ok, of k] k ij i0 by simp
    with k ij inl \<open>j < k\<close> len ch(2) show "key (swap i j xs ! parent j) \<le> key (swap i j xs ! k)"
      by (simp add: nth_swap)
  qed
qed

lemma down_loop_edges:
  "n \<le> length xs \<Longrightarrow> edges_ok key xs n (\<lambda>k. i0 \<le> parent k \<and> parent k \<noteq> i) \<Longrightarrow>
   skip_ok key xs n i0 i \<Longrightarrow> i0 \<le> i \<Longrightarrow>
   edges_ok key (fst (down_loop key i n xs)) n (\<lambda>k. i0 \<le> parent k)"
proof (induction key i n xs rule: down_loop.induct)
  case (1 key i n xs)
  define j where "j = down_child key i n xs"
  show ?case
  proof (cases "n \<le> 2 * i + 1")
    case True
    then have "\<And>k. k < n \<Longrightarrow> 0 < k \<Longrightarrow> parent k \<noteq> i" by linarith
    with True 1 show ?thesis by (subst down_loop.simps) (auto simp: edges_ok_def)
  next
    case big: False
    show ?thesis
    proof (cases "key (xs ! j) < key (xs ! i)")
      case True
      note step = down_step_edges [OF "1.prems"(1) big "1.prems"(2-4) j_def True]
      from down_child_gt [of i key n xs] have "i0 \<le> j" using "1.prems"(4) by (simp add: j_def)
      with 1 big True step show ?thesis
        by (subst down_loop.simps) (simp add: j_def [symmetric] Let_def)
    next
      case False
      with down_child_facts(3) [OF big, where key = key and xs = xs, folded j_def]
      have "\<And>k. k < n \<Longrightarrow> 0 < k \<Longrightarrow> parent k = i \<Longrightarrow> key (xs ! i) \<le> key (xs ! k)" by force
      with False 1 big show ?thesis
        by (subst down_loop.simps) (auto simp: j_def [symmetric] Let_def edges_ok_def)
    qed
  qed
qed

lemma up_step_edges:
  assumes j: "j < n" "n \<le> length xs" "parent j \<noteq> j" and lt: "key (xs ! j) < key (xs ! parent j)"
    and ok: "edges_ok key xs n (\<lambda>k. k \<noteq> j)" and skip: "skip_ok key xs n 0 j"
  shows "edges_ok key (swap (parent j) j xs) n (\<lambda>k. k \<noteq> parent j)"
    and "skip_ok key (swap (parent j) j xs) n 0 (parent j)"
proof -
  define p where "p = parent j"
  have p: "p < j" "0 < j" "p < length xs" using j by (auto simp: p_def)
  have ge: "key (xs ! p) \<le> key (xs ! k)" if "k < n" "0 < k" "parent k = p" "k \<noteq> j" for k
    using edges_okD [OF ok, of k] that by simp
  have "edges_ok key (swap p j xs) n (\<lambda>k. k \<noteq> p)"
    unfolding edges_ok_def
  proof (intro allI impI)
    fix k assume k: "k < n" "0 < k" "k \<noteq> p"
    have pk: "parent k < length xs" "k < length xs" "parent k < k" using k j by auto
    consider (self) "k = j" | (sib) "k \<noteq> j" "parent k = p" | (child) "parent k = j"
      | (other) "k \<noteq> j" "parent k \<noteq> p" "parent k \<noteq> j" by blast
    then show "key (swap p j xs ! parent k) \<le> key (swap p j xs ! k)"
    proof cases
      case child
      with skip k p have "key (xs ! p) \<le> key (xs ! k)" by (auto simp: skip_ok_def p_def)
      with child k p pk j show ?thesis by (auto simp: nth_swap)
    next
      case sib
      with ge [of k] lt k p pk j show ?thesis by (auto simp: nth_swap p_def)
    qed (use lt k p pk j ok in \<open>auto simp: nth_swap p_def edges_ok_def\<close>)
  qed
  then show "edges_ok key (swap (parent j) j xs) n (\<lambda>k. k \<noteq> parent j)"
    by (simp add: p_def)
  have "skip_ok key (swap p j xs) n 0 p"
    unfolding skip_ok_def
  proof (intro allI impI)
    fix k assume k: "k < n" "0 < k" "parent k = p" "0 < p"
    have gp: "parent p < p" using k(4) by auto
    have "key (xs ! parent p) \<le> key (xs ! p)" using edges_okD [OF ok, of p] p k(4) j by simp
    with ge [of k] k p gp j show "key (swap p j xs ! parent p) \<le> key (swap p j xs ! k)"
      by (cases "k = j") (auto simp: nth_swap)
  qed
  then show "skip_ok key (swap (parent j) j xs) n 0 (parent j)"
    by (simp add: p_def)
qed

lemma heap_up_edges:
  "j < n \<Longrightarrow> n \<le> length xs \<Longrightarrow> edges_ok key xs n (\<lambda>k. k \<noteq> j) \<Longrightarrow>
   skip_ok key xs n 0 j \<Longrightarrow> edges_ok key (heap_up key j xs) n (\<lambda>_. True)"
proof (induction key j xs rule: heap_up.induct)
  case (1 key j xs)
  show ?case
  proof (cases "parent j = j \<or> \<not> key (xs ! j) < key (xs ! parent j)")
    case True
    with "1.prems" have "edges_ok key xs n (\<lambda>_. True)"
      by (auto simp: edges_ok_def not_less)
    with True show ?thesis by (subst heap_up.simps) simp
  next
    case False
    with up_step_edges [of j n xs key] 1 show ?thesis by (subst heap_up.simps) auto
  qed
qed

lemma nth_heap_up: "j < k \<Longrightarrow> heap_up key j xs ! k = xs ! k"
  by (induction key j xs rule: heap_up.induct)
    (subst heap_up.simps, auto simp: swap_def nth_list_update)

section \<open>Correctness of the operations\<close>

lemma is_heap_root_min:
  assumes "is_heap key xs" and "i < length xs"
  shows "key (xs ! 0) \<le> key (xs ! i)"
  using assms(2)
proof (induction i rule: less_induct)
  case (less i)
  show ?case
  proof (cases "i = 0")
    case False
    then have "key (xs ! 0) \<le> key (xs ! parent i)" using less by auto
    moreover have "key (xs ! parent i) \<le> key (xs ! i)"
      using assms(1) less.prems False by (auto simp: is_heap_def edges_ok_def)
    ultimately show ?thesis by simp
  qed simp
qed

lemma is_heap_head: "is_heap key xs \<Longrightarrow> y \<in> set xs \<Longrightarrow> key (xs ! 0) \<le> key y"
  by (metis in_set_conv_nth is_heap_root_min)

lemma init_loop_edges:
  "length xs = n \<Longrightarrow> edges_ok key xs n (\<lambda>k. i \<le> parent k) \<Longrightarrow> is_heap key (init_loop key n i xs)"
proof (induction i arbitrary: xs)
  case (Suc i)
  have "edges_ok key (fst (down_loop key i n xs)) n (\<lambda>k. i \<le> parent k)"
  proof (rule down_loop_edges)
    show "edges_ok key xs n (\<lambda>k. i \<le> parent k \<and> parent k \<noteq> i)"
      using Suc.prems(2) by (auto simp: edges_ok_def)
    show "skip_ok key xs n i i" by (auto simp: skip_ok_def)
  qed (use Suc.prems in auto)
  with Suc show ?case by (simp add: heap_down_def split_beta)
qed (auto simp: is_heap_def edges_ok_def)

lemma mset_init_loop: "length xs = n \<Longrightarrow> mset (init_loop key n i xs) = mset xs"
  by (induction i arbitrary: xs) (auto simp: heap_down_def split_beta)

lemma heap_init_heap: "is_heap key (heap_init key xs)"
proof -
  have "edges_ok key xs (length xs) (\<lambda>k. length xs div 2 \<le> parent k)"
    unfolding edges_ok_def by (intro allI impI) linarith
  then show ?thesis by (simp add: heap_init_def init_loop_edges)
qed

lemma mset_heap_init [simp]: "mset (heap_init key xs) = mset xs"
  by (simp add: heap_init_def mset_init_loop)

lemma heap_push_heap: "is_heap key xs \<Longrightarrow> is_heap key (heap_push key x xs)"
  unfolding heap_push_def is_heap_def length_heap_up
proof (rule heap_up_edges)
  assume h: "edges_ok key xs (length xs) (\<lambda>_. True)"
  show "edges_ok key (xs @ [x]) (length (xs @ [x])) (\<lambda>k. k \<noteq> length xs)"
    unfolding edges_ok_def
  proof (intro allI impI)
    fix k assume "k < length (xs @ [x])" "0 < k" "k \<noteq> length xs"
    then have "k < length xs" "parent k < length xs" "0 < k" by auto
    with h show "key ((xs @ [x]) ! parent k) \<le> key ((xs @ [x]) ! k)"
      by (simp add: edges_ok_def nth_append)
  qed
qed (auto simp: skip_ok_def)

lemma mset_heap_push [simp]: "mset (heap_push key x xs) = add_mset x (mset xs)"
  by (simp add: heap_push_def)

lemma butlast_heap:
  assumes "edges_ok key ys (length ys - 1) (\<lambda>_. True)"
  shows "is_heap key (butlast ys)"
  unfolding is_heap_def edges_ok_def
proof (intro allI impI)
  fix k assume "k < length (butlast ys)" "0 < k"
  then have "k < length ys - 1" "parent k < length ys - 1" "0 < k" by auto
  with assms show "key (butlast ys ! parent k) \<le> key (butlast ys ! k)"
    by (simp add: nth_butlast edges_ok_def)
qed

lemma mset_last_butlast: "ys \<noteq> [] \<Longrightarrow> mset ys = add_mset (last ys) (mset (butlast ys))"
  by (metis add_mset_commute append_butlast_last_id mset.simps(1,2) mset_append union_mset_add_mset_right add.right_neutral)

lemma heap_pop_spec:
  assumes h: "is_heap key xs" and ne: "xs \<noteq> []"
  obtains ys where "heap_pop key xs = Some (xs ! 0, ys)" and "is_heap key ys"
    and "mset xs = add_mset (xs ! 0) (mset ys)"
proof -
  define n where "n = length xs - 1"
  define zs where "zs = fst (down_loop key 0 n (swap 0 n xs))"
  have n: "n < length xs" "0 < length xs" using ne by (auto simp: n_def)
  have len: "length zs = length xs" by (simp add: zs_def)
  have "edges_ok key zs n (\<lambda>k. 0 \<le> parent k)"
    unfolding zs_def
  proof (rule down_loop_edges)
    show "edges_ok key (swap 0 n xs) n (\<lambda>k. 0 \<le> parent k \<and> parent k \<noteq> 0)"
      unfolding edges_ok_def
    proof (intro allI impI)
      fix k assume "k < n" "0 < k" "0 \<le> parent k \<and> parent k \<noteq> 0"
      with h n show "key (swap 0 n xs ! parent k) \<le> key (swap 0 n xs ! k)"
        by (auto simp: nth_swap is_heap_def edges_ok_def)
    qed
  qed (use n in \<open>auto simp: skip_ok_def\<close>)
  then have "is_heap key (butlast zs)"
    using len by (intro butlast_heap) (simp add: n_def)
  moreover have "last zs = xs ! 0"
  proof -
    have "zs \<noteq> []" using len ne by auto
    then have "last zs = zs ! n" using len by (simp add: last_conv_nth n_def)
    also have "\<dots> = swap 0 n xs ! n" using n by (simp add: zs_def nth_down_loop)
    also have "\<dots> = xs ! 0" using n by (simp add: nth_swap)
    finally show ?thesis .
  qed
  moreover have "mset xs = add_mset (last zs) (mset (butlast zs))"
  proof -
    have "mset zs = mset xs" using n by (simp add: zs_def)
    with mset_last_butlast [of zs] len ne show ?thesis by (metis length_0_conv)
  qed
  ultimately show ?thesis
    using ne by (intro that [of "butlast zs"])
      (simp_all add: heap_pop_def heap_down_def Let_def split_beta n_def zs_def)
qed

text \<open>\<open>Remove\<close>: the last cell moves into the hole, and sinks or rises from there.\<close>

lemma down_loop_unmoved:
  "snd (down_loop key i n xs) = i \<Longrightarrow> fst (down_loop key i n xs) = xs"
proof -
  have le: "i \<le> snd (down_loop key i n xs)" for key :: "'a \<Rightarrow> 'b" and i n and xs
    by (induction key i n xs rule: down_loop.induct)
      (subst down_loop.simps, auto simp: Let_def dest: less_imp_le [OF down_child_gt, THEN order_trans])
  show "snd (down_loop key i n xs) = i \<Longrightarrow> fst (down_loop key i n xs) = xs"
    using le [of "down_child key i n xs" key n "swap i (down_child key i n xs) xs"]
      down_child_gt [of i key n xs]
    by (simp add: down_loop.simps [of key i n xs] Let_def split: if_splits)
qed

lemma down_loop_stays:
  assumes "\<And>k. k < n \<Longrightarrow> 0 < k \<Longrightarrow> parent k = i \<Longrightarrow> key (xs ! i) \<le> key (xs ! k)"
  shows "down_loop key i n xs = (xs, i)"
proof (cases "n \<le> 2 * i + 1")
  case False
  note ch = down_child_facts(1,2) [OF False, where key = key and xs = xs]
  have "0 < down_child key i n xs" using down_child_gt [of i key n xs] by simp
  with assms ch have "\<not> key (xs ! down_child key i n xs) < key (xs ! i)" by (simp add: not_less)
  with False show ?thesis by (subst down_loop.simps) (simp add: Let_def)
qed (simp add: down_loop.simps)

lemma heap_hole:
  assumes h: "is_heap key xs" and n: "n = length xs - 1" "i < n"
  shows "edges_ok key (swap i n xs) n (\<lambda>k. parent k \<noteq> i \<and> k \<noteq> i)"
    and "skip_ok key (swap i n xs) n 0 i"
proof -
  have nth: "swap i n xs ! k = xs ! k" if "k < n" "k \<noteq> i" for k
    using that n by (simp add: nth_swap)
  have e: "key (xs ! parent k) \<le> key (xs ! k)" if "k < n" "0 < k" for k
    using h that n by (simp add: is_heap_def edges_ok_def)
  have lt: "parent k < k" if "0 < k" for k :: nat using that by auto
  show "edges_ok key (swap i n xs) n (\<lambda>k. parent k \<noteq> i \<and> k \<noteq> i)"
    unfolding edges_ok_def
  proof (intro allI impI)
    fix k assume "k < n" "0 < k" "parent k \<noteq> i \<and> k \<noteq> i"
    with e [of k] nth [of k] nth [of "parent k"] lt [of k]
    show "key (swap i n xs ! parent k) \<le> key (swap i n xs ! k)" by simp
  qed
  show "skip_ok key (swap i n xs) n 0 i"
    unfolding skip_ok_def
  proof (intro allI impI)
    fix k assume k: "k < n" "0 < k" "parent k = i" "0 < i"
    with e [of k] e [of i] n have "key (xs ! parent i) \<le> key (xs ! k)" by simp
    with k n lt [of k] lt [of i] nth [of k] nth [of "parent i"]
    show "key (swap i n xs ! parent i) \<le> key (swap i n xs ! k)" by simp
  qed
qed

lemma heap_fix_edges:
  assumes n: "n \<le> length zs" "i < n"
    and ok: "edges_ok key zs n (\<lambda>k. parent k \<noteq> i \<and> k \<noteq> i)" and skip: "skip_ok key zs n 0 i"
    and d: "heap_down key i n zs = (ds, moved)"
  shows "edges_ok key (if moved then ds else heap_up key i ds) n (\<lambda>_. True)"
proof (cases "0 < i \<and> key (zs ! i) < key (zs ! parent i)")
  case True
  then have "down_loop key i n zs = (zs, i)"
    using skip n by (intro down_loop_stays) (force simp: skip_ok_def)
  with d have m: "ds = zs" "\<not> moved" by (auto simp: heap_down_def)
  have "edges_ok key zs n (\<lambda>k. k \<noteq> i)"
    unfolding edges_ok_def
  proof (intro allI impI)
    fix k assume "k < n" "0 < k" "k \<noteq> i"
    with ok skip True show "key (zs ! parent k) \<le> key (zs ! k)"
      by (cases "parent k = i") (force simp: edges_ok_def skip_ok_def)+
  qed
  with n skip m show ?thesis by (simp add: heap_up_edges)
next
  case False
  with ok have "edges_ok key zs n (\<lambda>k. 0 \<le> parent k \<and> parent k \<noteq> i)"
    by (auto simp: edges_ok_def not_less)
  with n skip have e: "edges_ok key (fst (down_loop key i n zs)) n (\<lambda>k. 0 \<le> parent k)"
    by (intro down_loop_edges) auto
  show ?thesis
  proof (cases moved)
    case True
    with e d show ?thesis by (auto simp: heap_down_def split: prod.splits)
  next
    case stay: False
    with d have "fst (down_loop key i n zs) = ds" "snd (down_loop key i n zs) \<le> i"
      by (auto simp: heap_down_def split: prod.splits)
    moreover have "heap_up key i ds = ds"
      using e calculation n False down_loop_unmoved [of key i n zs]
      by (subst heap_up.simps) (auto simp: edges_ok_def not_less)
    ultimately show ?thesis using stay e by simp
  qed
qed

lemma heap_remove_spec:
  assumes h: "is_heap key xs" and i: "i < length xs"
  obtains ys where "heap_remove key i xs = Some (xs ! i, ys)" and "is_heap key ys"
    and "mset xs = add_mset (xs ! i) (mset ys)"
proof -
  define n where "n = length xs - 1"
  define ys where "ys = (if n = i then xs
     else case heap_down key i n (swap i n xs) of
            (zs, moved) \<Rightarrow> if moved then zs else heap_up key i zs)"
  have n: "n < length xs" "i \<le> n" using i by (auto simp: n_def)
  have ys: "length ys = length xs \<and> mset ys = mset xs \<and> ys ! n = xs ! i \<and> edges_ok key ys n (\<lambda>_. True)"
  proof (cases "n = i")
    case True
    with h i show ?thesis by (simp add: ys_def is_heap_def edges_ok_def n_def)
  next
    case False
    with n have lt: "i < n" by simp
    obtain ds moved where d: "heap_down key i n (swap i n xs) = (ds, moved)" by fastforce
    then have ds: "ds = fst (down_loop key i n (swap i n xs))"
      by (auto simp: heap_down_def split: prod.splits)
    from heap_hole [OF h n_def lt] have "edges_ok key ys n (\<lambda>_. True)"
      using heap_fix_edges [OF _ lt _ _ d] False n d by (simp add: ys_def)
    moreover have "length ds = length xs" "mset ds = mset xs" "ds ! n = xs ! i"
      using n lt by (auto simp: ds nth_down_loop nth_swap)
    ultimately show ?thesis using False n lt d by (auto simp: ys_def nth_heap_up)
  qed
  then have "ys \<noteq> []" "length ys - 1 = n" using n by (auto simp: n_def)
  with ys have "last ys = xs ! i" "is_heap key (butlast ys)"
    by (auto simp: last_conv_nth intro: butlast_heap)
  moreover have "heap_remove key i xs = Some (last ys, butlast ys)"
    using i by (simp only: heap_remove_def Let_def n_def ys_def not_le if_False)
      (simp add: not_le [symmetric])
  ultimately show ?thesis
    using mset_last_butlast [of ys] ys \<open>ys \<noteq> []\<close> by (intro that [of "butlast ys"]) simp_all
qed

section \<open>The interface of a heap\<close>

text \<open>
  What \<open>core/tx_list.go\<close> relies on: \<open>Push\<close>, \<open>Pop\<close>, \<open>Remove\<close> and \<open>Init\<close> keep the
  order and the multiset, and the root is a minimum. The lemmas after the contract are what the
  loops of the clients use.
\<close>

locale heap_queue =
  fixes key :: "'a \<Rightarrow> 'k::linorder"
    and push :: "'a \<Rightarrow> 'a list \<Rightarrow> 'a list"
    and pop :: "'a list \<Rightarrow> ('a \<times> 'a list) option"
    and remove :: "nat \<Rightarrow> 'a list \<Rightarrow> ('a \<times> 'a list) option"
    and init :: "'a list \<Rightarrow> 'a list"
    and invar :: "'a list \<Rightarrow> bool"
  assumes invar_Nil: "invar []"
    and invar_push: "invar q \<Longrightarrow> invar (push x q)"
    and mset_push: "mset (push x q) = add_mset x (mset q)"
    and invar_init: "invar (init q)"
    and mset_init: "mset (init q) = mset q"
    and pop_Nil: "pop [] = None"
    and pop_Some: "invar q \<Longrightarrow> q \<noteq> [] \<Longrightarrow>
      \<exists>r. pop q = Some (q ! 0, r) \<and> invar r \<and> mset q = add_mset (q ! 0) (mset r)"
    and remove_Some: "invar q \<Longrightarrow> i < length q \<Longrightarrow>
      \<exists>r. remove i q = Some (q ! i, r) \<and> invar r \<and> mset q = add_mset (q ! i) (mset r)"
    and head_min: "invar q \<Longrightarrow> y \<in> set q \<Longrightarrow> key (q ! 0) \<le> key y"
begin

lemma set_push: "set (push x q) = insert x (set q)"
  by (metis mset_push set_mset_add_mset_insert set_mset_mset)

lemma set_init: "set (init q) = set q"
  by (metis mset_init set_mset_mset)

lemma distinct_init: "distinct (init q) \<longleftrightarrow> distinct q"
  by (metis mset_init mset_eq_imp_distinct_iff)

lemma distinct_push: "distinct (push x q) \<longleftrightarrow> x \<notin> set q \<and> distinct q"
  using mset_eq_imp_distinct_iff [of "push x q" "x # q"] by (simp add: mset_push)

lemma length_init: "length (init q) = length q"
  by (metis mset_init size_mset)

lemma pop_cases:
  assumes "invar q" and "pop q = Some (x, r)"
  shows "x = q ! 0" and "invar r" and "mset q = add_mset x (mset r)"
    and "set q = insert x (set r)" and "length q = Suc (length r)"
    and "distinct q \<longleftrightarrow> x \<notin> set r \<and> distinct r"
    and "\<And>y. y \<in> set r \<Longrightarrow> key x \<le> key y"
proof -
  from assms pop_Nil have "q \<noteq> []" by auto
  with pop_Some [OF assms(1)] assms(2)
  show x: "x = q ! 0" and "invar r" and m: "mset q = add_mset x (mset r)" by auto
  from m have mm: "mset q = mset (x # r)" by simp
  show s: "set q = insert x (set r)" using mset_eq_setD [OF mm] by simp
  show "length q = Suc (length r)" using mset_eq_length [OF mm] by simp
  show "distinct q \<longleftrightarrow> x \<notin> set r \<and> distinct r" using mset_eq_imp_distinct_iff [OF mm] by simp
  show "key x \<le> key y" if "y \<in> set r" for y
    using head_min [OF assms(1), of y] s x that by simp
qed

lemma remove_cases:
  assumes "invar q" and "i < length q"
  obtains r where "remove i q = Some (q ! i, r)" and "invar r" and "mset r = mset q - {#q ! i#}"
  using remove_Some [OF assms] by (metis add_mset_remove_trivial)

end

interpretation goheap: heap_queue key "heap_push key" "heap_pop key" "heap_remove key"
  "heap_init key" "is_heap key"
proof
  show "\<exists>r. heap_pop key q = Some (q ! 0, r) \<and> is_heap key r \<and> mset q = add_mset (q ! 0) (mset r)"
    if "is_heap key q" "q \<noteq> []" for q
    using heap_pop_spec [OF that] by metis
  show "\<exists>r. heap_remove key i q = Some (q ! i, r) \<and> is_heap key r \<and> mset q = add_mset (q ! i) (mset r)"
    if "is_heap key q" "i < length q" for i q
    using heap_remove_spec [OF that] by metis
  show "is_heap key []" by (simp add: is_heap_def edges_ok_def)
qed (simp_all add: heap_pop_def is_heap_head heap_push_heap heap_init_heap)

end
