(* ===== verification/TxSortedMap.thy ===== *)
theory TxSortedMap
  imports GoHeap
begin

text \<open>
  \<open>core/tx_list.go\<close>, first part: \<open>nonceHeap\<close> and \<open>txSortedMap\<close>, the nonce-indexed hash map
  with a heap of nonces and a cached sorted view. Transactions are values of the library type
  \<open>types.Transaction\<close>; the record below holds what its accessor methods return.
  An operation returns \<open>None\<close> where the Go code panics; a \<open>nil\<close> transaction taken from the map
  counts as the panic its first use causes.
\<close>

section \<open>Transactions\<close>

record tx =
  Hash :: hash
  Nonce :: uint64
  GasPrice :: bigint
  GasLimit :: bigint
  Value :: bigint
  Cost :: bigint
  Data :: "byte list"
  To :: "address option"
  Via :: "address option"
  Size :: nat
  ChainId :: bigint
  IsClassic :: bool
  ShardingFlag :: uint64
  SystemFlag :: uint64
  DirCallSent :: bool

section \<open>State\<close>

abbreviation nonceHeap_Push :: "uint64 \<Rightarrow> uint64 list \<Rightarrow> uint64 list" where
  "nonceHeap_Push \<equiv> heap_push (\<lambda>n. n)"

abbreviation nonceHeap_Pop :: "uint64 list \<Rightarrow> (uint64 \<times> uint64 list) option" where
  "nonceHeap_Pop \<equiv> heap_pop (\<lambda>n. n)"

record txSortedMap =
  items :: "(uint64, tx) gomap"
  index :: "uint64 list"
  cache :: "tx list option"

definition newTxSortedMap :: txSortedMap where
  "newTxSortedMap = \<lparr>items = [], index = [], cache = None\<rparr>"

section \<open>Operations\<close>

definition sm_Get :: "txSortedMap \<Rightarrow> uint64 \<Rightarrow> tx option" where
  "sm_Get m nonce = map_of (items m) nonce"

definition sm_Put :: "tx \<Rightarrow> txSortedMap \<Rightarrow> txSortedMap" where
  "sm_Put t m =
     (let nonce = Nonce t;
          m' = (if map_of (items m) nonce = None
                then m\<lparr>index := nonceHeap_Push nonce (index m)\<rparr> else m)
      in m'\<lparr>items := AList.update nonce t (items m'), cache := None\<rparr>)"

lemma heap_pop_length: "heap_pop key xs = Some (x, ys) \<Longrightarrow> length xs = Suc (length ys)"
  by (auto simp: heap_pop_def Let_def heap_down_def split_beta split: if_splits)

function forward_loop ::
  "uint64 \<Rightarrow> uint64 list \<Rightarrow> (uint64, tx) gomap \<Rightarrow> (tx list \<times> uint64 list \<times> (uint64, tx) gomap) option"
where
  "forward_loop threshold idx its =
     (if idx \<noteq> [] \<and> idx ! 0 < threshold then do {
        (nonce, idx') \<leftarrow> nonceHeap_Pop idx;
        t \<leftarrow> map_of its nonce;
        (removed, idx'', its'') \<leftarrow> forward_loop threshold idx' (AList.delete nonce its);
        Some (t # removed, idx'', its'')
      } else Some ([], idx, its))"
  by pat_completeness auto
termination
  by (relation "measure (\<lambda>(t, idx, its). length idx)") (auto dest: heap_pop_length)

declare forward_loop.simps [simp del]

definition sm_Forward :: "uint64 \<Rightarrow> txSortedMap \<Rightarrow> (tx list \<times> txSortedMap) option" where
  "sm_Forward threshold m = do {
     (removed, idx, its) \<leftarrow> forward_loop threshold (index m) (items m);
     c \<leftarrow> (case cache m of None \<Rightarrow> Some None
           | Some c \<Rightarrow> do { c' \<leftarrow> slice_from (length removed) c; Some (Some c') });
     Some (removed, m\<lparr>items := its, index := idx, cache := c\<rparr>)
   }"

definition sm_Filter :: "(tx \<Rightarrow> bool) \<Rightarrow> txSortedMap \<Rightarrow> tx list \<times> txSortedMap" where
  "sm_Filter f m =
     (let removed = map snd (filter (\<lambda>p. f (snd p)) (items m));
          its = filter (\<lambda>p. \<not> f (snd p)) (items m);
          m' = m\<lparr>items := its\<rparr>
      in if 0 < length removed
         then (removed, m'\<lparr>index := heap_init (\<lambda>n. n) (keys its), cache := None\<rparr>)
         else (removed, m'))"

fun cap_loop ::
  "int \<Rightarrow> nat \<Rightarrow> uint64 list \<Rightarrow> (uint64, tx) gomap \<Rightarrow> (tx list \<times> (uint64, tx) gomap) option"
where
  "cap_loop threshold 0 idx its = (if threshold < 0 then None else Some ([], its))"
| "cap_loop threshold (Suc sz) idx its =
     (if threshold < int (Suc sz) then do {
        nonce \<leftarrow> index_at idx sz;
        t \<leftarrow> map_of its nonce;
        (drops, its') \<leftarrow> cap_loop threshold sz idx (AList.delete nonce its);
        Some (t # drops, its')
      } else Some ([], its))"

definition sm_Cap :: "int \<Rightarrow> txSortedMap \<Rightarrow> (tx list \<times> txSortedMap) option" where
  "sm_Cap threshold m =
     (if int (length (items m)) \<le> threshold then Some ([], m)
      else do {
        let idx = sort (index m);
        (drops, its) \<leftarrow> cap_loop threshold (length (items m)) idx (items m);
        idx' \<leftarrow> slice_to threshold idx;
        c \<leftarrow> (case cache m of None \<Rightarrow> Some None
              | Some c \<Rightarrow> do { c' \<leftarrow> slice_to (int (length c) - int (length drops)) c; Some (Some c') });
        Some (drops, m\<lparr>items := its, index := heap_init (\<lambda>n. n) idx', cache := c\<rparr>)
      })"

fun find_index :: "nat \<Rightarrow> 'a \<Rightarrow> 'a list \<Rightarrow> nat option" where
  "find_index i x [] = None"
| "find_index i x (y # ys) = (if y = x then Some i else find_index (Suc i) x ys)"

definition sm_Remove :: "uint64 \<Rightarrow> txSortedMap \<Rightarrow> (bool \<times> txSortedMap) option" where
  "sm_Remove nonce m =
     (case map_of (items m) nonce of None \<Rightarrow> Some (False, m)
      | Some _ \<Rightarrow> do {
          idx \<leftarrow> (case find_index 0 nonce (index m) of None \<Rightarrow> Some (index m)
                  | Some i \<Rightarrow> map_option snd (heap_remove (\<lambda>n. n) i (index m)));
          Some (True, m\<lparr>items := AList.delete nonce (items m), index := idx, cache := None\<rparr>)
        })"

function ready_loop ::
  "uint64 \<Rightarrow> uint64 list \<Rightarrow> (uint64, tx) gomap \<Rightarrow> (tx list \<times> uint64 list \<times> (uint64, tx) gomap) option"
where
  "ready_loop next idx its =
     (if idx \<noteq> [] \<and> idx ! 0 = next then do {
        t \<leftarrow> map_of its next;
        (_, idx') \<leftarrow> nonceHeap_Pop idx;
        (ready, idx'', its'') \<leftarrow> ready_loop (next + 1) idx' (AList.delete next its);
        Some (t # ready, idx'', its'')
      } else Some ([], idx, its))"
  by pat_completeness auto
termination
  by (relation "measure (\<lambda>(t, idx, its). length idx)") (auto dest: heap_pop_length)

declare ready_loop.simps [simp del]

definition sm_Ready :: "uint64 \<Rightarrow> txSortedMap \<Rightarrow> (tx list \<times> txSortedMap) option" where
  "sm_Ready start m =
     (if index m = [] \<or> start < index m ! 0 then Some ([], m)
      else do {
        (ready, idx, its) \<leftarrow> ready_loop (index m ! 0) (index m) (items m);
        Some (ready, m\<lparr>items := its, index := idx, cache := None\<rparr>)
      })"

definition sm_Len :: "txSortedMap \<Rightarrow> nat" where
  "sm_Len m = length (items m)"

definition sm_Flatten :: "txSortedMap \<Rightarrow> tx list \<times> txSortedMap" where
  "sm_Flatten m =
     (case cache m of
        None \<Rightarrow> let c = sort_key Nonce (map snd (items m)) in (c, m\<lparr>cache := Some c\<rparr>)
      | Some c \<Rightarrow> (c, m))"

section \<open>The sorted view of the hash map\<close>

definition its_ok :: "(uint64, tx) gomap \<Rightarrow> bool" where
  "its_ok its \<longleftrightarrow> gomap_ok its \<and> (\<forall>p \<in> set its. Nonce (snd p) = fst p)"

definition flat :: "(uint64, tx) gomap \<Rightarrow> tx list" where
  "flat its = sort_key Nonce (map snd its)"

abbreviation nonce_sorted :: "tx list \<Rightarrow> bool" where
  "nonce_sorted ts \<equiv> sorted_wrt (\<lambda>a b. Nonce a < Nonce b) ts"

lemma its_ok_Nil [simp]: "its_ok []"
  by (simp add: its_ok_def)

lemma its_ok_filter [simp]: "its_ok its \<Longrightarrow> its_ok (filter P its)"
  by (auto simp: its_ok_def)

lemma its_ok_delete [simp]: "its_ok its \<Longrightarrow> its_ok (AList.delete n its)"
  by (simp add: delete_as_filter)

lemma its_ok_update: "its_ok its \<Longrightarrow> its_ok (AList.update (Nonce t) t its)"
  unfolding its_ok_def
proof (intro conjI ballI)
  fix p assume ok: "gomap_ok its \<and> (\<forall>p \<in> set its. Nonce (snd p) = fst p)"
    and p: "p \<in> set (AList.update (Nonce t) t its)"
  then have "map_of (AList.update (Nonce t) t its) (fst p) = Some (snd p)"
    by (simp add: map_of_gomap)
  then show "Nonce (snd p) = fst p"
    using ok by (auto simp: AList.update_conv' map_of_gomap split: if_splits)
qed simp

lemma its_keys: "its_ok its \<Longrightarrow> keys its = map Nonce (map snd its)"
  by (simp add: its_ok_def)

lemma map_of_flat: "its_ok its \<Longrightarrow> map_of its n = Some t \<longleftrightarrow> t \<in> set (flat its) \<and> Nonce t = n"
  by (force simp: its_ok_def flat_def map_of_gomap)

lemma set_flat: "set (flat its) = snd ` set its"
  by (simp add: flat_def)

lemma mset_flat: "mset (flat its) = mset (map snd its)"
  by (simp add: flat_def)

lemma length_flat [simp]: "length (flat its) = length its"
  by (simp add: flat_def)

lemma flat_Nil [simp]: "flat [] = []"
  by (simp add: flat_def)

lemma flat_nonce_sorted:
  assumes "its_ok its"
  shows "nonce_sorted (flat its)"
proof -
  have "distinct (map Nonce (map snd its))"
    using assms its_keys [OF assms] by (simp add: its_ok_def gomap_ok_def)
  then have "distinct (map Nonce (flat its))"
    using mset_flat [of its] by (metis mset_eq_imp_distinct_iff mset_map)
  moreover have "sorted (map Nonce (flat its))"
    by (simp add: flat_def)
  ultimately have "sorted_wrt (<) (map Nonce (flat its))"
    by (simp add: strict_sorted_iff)
  then show ?thesis by (simp add: sorted_wrt_map)
qed

lemma flat_filter: "flat (filter (\<lambda>p. P (snd p)) its) = filter P (flat its)"
  by (simp add: flat_def filter_sort filter_map comp_def)

lemma its_filter_nonce:
  "its_ok its \<Longrightarrow> filter (\<lambda>p. P (fst p)) its = filter (\<lambda>p. P (Nonce (snd p))) its"
  by (rule filter_cong) (auto simp: its_ok_def)

lemma flat_delete: "its_ok its \<Longrightarrow> flat (AList.delete n its) = filter (\<lambda>t. Nonce t \<noteq> n) (flat its)"
  by (simp add: delete_as_filter its_filter_nonce [where P = "\<lambda>k. k \<noteq> n"]
      flat_filter [where P = "\<lambda>t. Nonce t \<noteq> n"])

lemma nonce_sorted_hd_filter:
  "nonce_sorted (t # ts) \<Longrightarrow> filter (\<lambda>u. Nonce u \<noteq> Nonce t) (t # ts) = ts"
  by (auto simp: filter_id_conv)

lemma nonce_sorted_last_filter:
  "nonce_sorted (ts @ [t]) \<Longrightarrow> filter (\<lambda>u. Nonce u \<noteq> Nonce t) (ts @ [t]) = ts"
  by (auto simp: filter_id_conv sorted_wrt_append)

lemma nonce_sorted_filter: "nonce_sorted ts \<Longrightarrow> nonce_sorted (filter P ts)"
  by (rule sorted_wrt_filter)

lemma nonce_sorted_unique:
  "nonce_sorted ts \<Longrightarrow> t \<in> set ts \<Longrightarrow> u \<in> set ts \<Longrightarrow> Nonce t = Nonce u \<Longrightarrow> t = u"
  by (induction ts) auto

text \<open>Popping the least nonce takes the head off the sorted view.\<close>

lemma flat_min:
  assumes ok: "its_ok its" and n: "n \<in> set (keys its)"
    and min: "\<And>k. k \<in> set (keys its) \<Longrightarrow> n \<le> k"
  obtains t where "map_of its n = Some t" and "Nonce t = n"
    and "flat its = t # flat (AList.delete n its)"
proof -
  from n have "its \<noteq> []" by auto
  then obtain t ts where f: "flat its = t # ts"
    by (metis length_flat length_0_conv neq_Nil_conv)
  from ok n obtain u where u: "u \<in> set (flat its)" "Nonce u = n"
    by (metis map_of_keys map_of_flat not_None_eq)
  have t: "t \<in> set (flat its)" using f by simp
  then have "Nonce t \<in> set (keys its)"
    using ok by (auto simp: set_flat its_ok_def)
  with min have "n \<le> Nonce t" by blast
  moreover have "Nonce t \<le> n"
    using flat_nonce_sorted [OF ok] f u by auto
  ultimately have tn: "Nonce t = n" by simp
  moreover have "flat (AList.delete n its) = ts"
    using flat_nonce_sorted [OF ok] nonce_sorted_hd_filter [of t ts]
    by (simp only: flat_delete [OF ok] f tn)
  ultimately show ?thesis
    using t f ok by (intro that [of t]) (simp_all add: map_of_flat)
qed

lemma flat_max:
  assumes ok: "its_ok its" and ne: "its \<noteq> []"
  obtains t where "map_of its (Nonce t) = Some t" and "t = last (flat its)"
    and "flat (AList.delete (Nonce t) its) = butlast (flat its)"
proof -
  define t where "t = last (flat its)"
  from ne have "flat its \<noteq> []" by (metis length_flat length_0_conv)
  then have f: "flat its = butlast (flat its) @ [t]" by (simp add: t_def)
  then have t: "t \<in> set (flat its)" by (metis in_set_conv_decomp)
  have "flat (AList.delete (Nonce t) its) = butlast (flat its)"
    using nonce_sorted_last_filter [of "butlast (flat its)" t] flat_nonce_sorted [OF ok] f
    by (simp add: flat_delete [OF ok])
  with t ok show ?thesis by (intro that [of t]) (simp_all add: map_of_flat t_def)
qed

section \<open>The invariant\<close>

text \<open>
  The index is a heap of exactly the stored nonces, each transaction is stored under its own
  nonce, and a cached order is the sorted order.
\<close>

definition idx_ok :: "uint64 list \<Rightarrow> (uint64, tx) gomap \<Rightarrow> bool" where
  "idx_ok idx its \<longleftrightarrow> is_heap (\<lambda>n. n) idx \<and> mset idx = mset (keys its)"

definition sm_ok :: "txSortedMap \<Rightarrow> bool" where
  "sm_ok m \<longleftrightarrow> its_ok (items m) \<and> idx_ok (index m) (items m) \<and>
     (\<forall>c. cache m = Some c \<longrightarrow> c = flat (items m))"

lemma idx_ok_set: "idx_ok idx its \<Longrightarrow> set idx = set (keys its)"
  by (metis idx_ok_def mset_eq_setD)

lemma idx_ok_empty: "idx_ok idx its \<Longrightarrow> idx = [] \<longleftrightarrow> its = []"
  by (auto simp: idx_ok_def)

lemma idx_ok_pop:
  assumes ok: "its_ok its" and idx: "idx_ok idx its" and ne: "idx \<noteq> []"
  obtains t idx' where "nonceHeap_Pop idx = Some (Nonce t, idx')" and "Nonce t = idx ! 0"
    and "map_of its (Nonce t) = Some t" and "flat its = t # flat (AList.delete (Nonce t) its)"
    and "idx_ok idx' (AList.delete (Nonce t) its)"
proof -
  from goheap.pop_Some [of "\<lambda>n. n" idx] idx ne obtain idx' where
    pop: "nonceHeap_Pop idx = Some (idx ! 0, idx')" and h: "is_heap (\<lambda>n. n) idx'"
    and m: "mset idx = add_mset (idx ! 0) (mset idx')"
    by (auto simp: idx_ok_def)
  have "idx ! 0 \<in> set (keys its)"
    using idx_ok_set [OF idx] ne by (metis length_greater_0_conv nth_mem)
  moreover have "\<And>k. k \<in> set (keys its) \<Longrightarrow> idx ! 0 \<le> k"
    using goheap.head_min [of "\<lambda>n. n" idx] idx idx_ok_set [OF idx] by (auto simp: idx_ok_def)
  ultimately obtain t where t: "map_of its (idx ! 0) = Some t" "Nonce t = idx ! 0"
      "flat its = t # flat (AList.delete (idx ! 0) its)"
    using flat_min [OF ok] by metis
  moreover have "idx_ok idx' (AList.delete (Nonce t) its)"
    using h m idx ok t(2) by (auto simp: idx_ok_def image_mset_delete its_ok_def dest: sym)
  ultimately show ?thesis using pop by (intro that [of t idx']) simp_all
qed

lemma idx_ok_head_le:
  "idx_ok idx its \<Longrightarrow> its_ok its \<Longrightarrow> t \<in> set (flat its) \<Longrightarrow> idx ! 0 \<le> Nonce t"
  using goheap.head_min [of "\<lambda>n. n" idx] idx_ok_set [of idx its]
  by (force simp: idx_ok_def set_flat its_ok_def)

section \<open>Specifications of the loops\<close>

lemma forward_loop_spec:
  "its_ok its \<Longrightarrow> idx_ok idx its \<Longrightarrow>
   \<exists>idx'. forward_loop n idx its =
       Some (takeWhile (\<lambda>t. Nonce t < n) (flat its), idx', filter (\<lambda>p. \<not> fst p < n) its)
     \<and> idx_ok idx' (filter (\<lambda>p. \<not> fst p < n) its)"
proof (induction n idx its rule: forward_loop.induct)
  case (1 n idx its)
  show ?case
  proof (cases "idx \<noteq> [] \<and> idx ! 0 < n")
    case True
    then have "idx \<noteq> []" by simp
    from idx_ok_pop [OF "1.prems" this] obtain t idx' where
      pop: "nonceHeap_Pop idx = Some (Nonce t, idx')" "Nonce t = idx ! 0"
        "map_of its (Nonce t) = Some t" "flat its = t # flat (AList.delete (Nonce t) its)"
        "idx_ok idx' (AList.delete (Nonce t) its)"
      by blast
    have "filter (\<lambda>p. \<not> fst p < n) (AList.delete (Nonce t) its) = filter (\<lambda>p. \<not> fst p < n) its"
      using True pop(2) by (auto simp: delete_as_filter intro!: filter_cong)
    with "1.IH" [OF True pop(1) refl pop(3)] pop "1.prems" True show ?thesis
      by (subst forward_loop.simps) (auto simp del: filter_filter)
  next
    case False
    have all: "\<not> Nonce t < n" if "t \<in> set (flat its)" for t
      using False idx_ok_head_le [OF "1.prems"(2,1) that] idx_ok_empty [OF "1.prems"(2)] that
      by (auto simp: set_flat)
    then have "takeWhile (\<lambda>t. Nonce t < n) (flat its) = []"
      by (cases "flat its") auto
    moreover have "filter (\<lambda>p. \<not> fst p < n) its = its"
      using all "1.prems"(1) by (force simp: filter_id_conv set_flat its_ok_def)
    ultimately show ?thesis using False "1.prems" by (subst forward_loop.simps) auto
  qed
qed

lemma cap_loop_spec:
  "its_ok its \<Longrightarrow> sz = length its \<Longrightarrow> take sz idx = map Nonce (flat its) \<Longrightarrow> 0 \<le> lim \<Longrightarrow>
   \<exists>its'. cap_loop lim sz idx its = Some (rev (drop (nat lim) (flat its)), its')
     \<and> its_ok its' \<and> flat its' = take (nat lim) (flat its)"
proof (induction sz arbitrary: its)
  case (Suc sz)
  show ?case
  proof (cases "lim < int (Suc sz)")
    case True
    from Suc.prems have ne: "its \<noteq> []" by auto
    from flat_max [OF Suc.prems(1) ne] obtain t where t: "map_of its (Nonce t) = Some t"
        "t = last (flat its)" "flat (AList.delete (Nonce t) its) = butlast (flat its)" by blast
    define its1 where "its1 = AList.delete (Nonce t) its"
    have fn: "flat its \<noteq> []" using ne by (metis length_flat length_0_conv)
    have len: "length (flat its) = Suc sz" using Suc.prems(2) by simp
    have idx: "sz < length idx" "idx ! sz = Nonce t"
    proof -
      have "length (take (Suc sz) idx) = Suc sz" using Suc.prems len by simp
      then show lt: "sz < length idx" by simp
      have "idx ! sz = map Nonce (flat its) ! sz" using Suc.prems(3) by (metis lessI nth_take)
      then show "idx ! sz = Nonce t" using len fn t(2) by (simp add: last_conv_nth)
    qed
    have "take sz idx = map Nonce (flat its1)"
      using arg_cong [OF Suc.prems(3), of butlast] idx(1) t(3)
      by (simp add: its1_def butlast_take map_butlast)
    moreover have "length its1 = sz" using t(3) len by (metis its1_def length_flat length_butlast diff_Suc_1)
    ultimately obtain its' where its': "cap_loop lim sz idx its1 =
        Some (rev (drop (nat lim) (flat its1)), its')" "its_ok its'" "flat its' = take (nat lim) (flat its1)"
      using Suc.IH [of its1] Suc.prems by (auto simp: its1_def)
    have "flat its = flat its1 @ [t]" using t fn by (simp add: its1_def)
    with its' True idx t(1) \<open>length its1 = sz\<close> show ?thesis
      by (auto simp: its1_def [symmetric])
  next
    case False
    then have "cap_loop lim (Suc sz) idx its = Some ([], its)" by simp
    moreover have "length (flat its) \<le> nat lim" using False Suc.prems(2) by simp
    ultimately show ?thesis using Suc.prems(1) by simp
  qed
qed auto

text \<open>Reference definition of \<open>Ready\<close>: the longest prefix with nonces \<open>n, n + 1, \<dots>\<close>\<close>

fun consecutive :: "uint64 \<Rightarrow> tx list \<Rightarrow> tx list" where
  "consecutive n [] = []"
| "consecutive n (t # ts) = (if Nonce t = n then t # consecutive (n + 1) ts else [])"

lemma ready_loop_spec:
  "its_ok its \<Longrightarrow> idx_ok idx its \<Longrightarrow>
   \<exists>idx' its'. ready_loop n idx its = Some (consecutive n (flat its), idx', its')
     \<and> its_ok its' \<and> idx_ok idx' its' \<and> flat its = consecutive n (flat its) @ flat its'"
proof (induction n idx its rule: ready_loop.induct)
  case (1 n idx its)
  show ?case
  proof (cases "idx = []")
    case True
    with idx_ok_empty [OF "1.prems"(2)] "1.prems" show ?thesis by (subst ready_loop.simps) auto
  next
    case ne: False
    from idx_ok_pop [OF "1.prems" ne] obtain t idx' where
      pop: "nonceHeap_Pop idx = Some (Nonce t, idx')" "Nonce t = idx ! 0"
        "map_of its (Nonce t) = Some t" "flat its = t # flat (AList.delete (Nonce t) its)"
        "idx_ok idx' (AList.delete (Nonce t) its)"
      by blast
    show ?thesis
    proof (cases "idx ! 0 = n")
      case True
      with "1.IH" [of t "(Nonce t, idx')" "Nonce t" idx'] pop ne "1.prems" show ?thesis
        by (subst ready_loop.simps) (auto simp: True)
    next
      case False
      with pop(2,4) "1.prems" show ?thesis by (subst ready_loop.simps) auto
    qed
  qed
qed

section \<open>Refinement: the map is the nonce-sorted list of its transactions\<close>

definition sm_view :: "txSortedMap \<Rightarrow> tx list" where
  "sm_view m = flat (items m)"

lemma idx_ok_init: "idx_ok (heap_init (\<lambda>n. n) (keys its)) its"
  by (simp add: idx_ok_def goheap.invar_init)

lemma sm_okD:
  "sm_ok m \<Longrightarrow> its_ok (items m)" "sm_ok m \<Longrightarrow> idx_ok (index m) (items m)"
  "sm_ok m \<Longrightarrow> cache m = Some c \<Longrightarrow> c = flat (items m)"
  by (auto simp: sm_ok_def)

lemma newTxSortedMap_ok: "sm_ok newTxSortedMap" and sm_view_new: "sm_view newTxSortedMap = []"
  by (simp_all add: sm_ok_def newTxSortedMap_def idx_ok_def goheap.invar_Nil sm_view_def)

lemma sm_view_sorted: "sm_ok m \<Longrightarrow> nonce_sorted (sm_view m)"
  by (simp add: sm_view_def sm_okD flat_nonce_sorted)

lemma sm_Get_view: "sm_ok m \<Longrightarrow> sm_Get m n = Some t \<longleftrightarrow> t \<in> set (sm_view m) \<and> Nonce t = n"
  by (simp add: sm_Get_def sm_view_def sm_okD map_of_flat)

lemma sm_Len_view: "sm_Len m = length (sm_view m)"
  by (simp add: sm_Len_def sm_view_def)

lemma sm_Put_ok:
  assumes "sm_ok m"
  shows "sm_ok (sm_Put t m)"
proof -
  have "mset (keys (AList.update k v its)) =
      (if map_of its k = None then add_mset k (mset (keys its)) else mset (keys its))"
    for k and v :: tx and its :: "(uint64, tx) gomap"
    by (induction its) (auto split: if_splits)
  with assms show ?thesis
    by (auto simp: sm_ok_def sm_Put_def Let_def its_ok_update idx_ok_def goheap.invar_push goheap.mset_push)
qed

lemma set_sm_Put:
  assumes ok: "sm_ok m"
  shows "set (sm_view (sm_Put t m)) = insert t {u \<in> set (sm_view m). Nonce u \<noteq> Nonce t}"
proof (rule set_eqI)
  fix u
  have "u \<in> set (sm_view (sm_Put t m)) \<longleftrightarrow> sm_Get (sm_Put t m) (Nonce u) = Some u"
    using sm_Get_view [OF sm_Put_ok [OF ok]] by simp
  also have "\<dots> \<longleftrightarrow> (if Nonce u = Nonce t then u = t else sm_Get m (Nonce u) = Some u)"
    by (auto simp: sm_Get_def sm_Put_def Let_def AList.update_conv')
  also have "\<dots> \<longleftrightarrow> u \<in> insert t {u \<in> set (sm_view m). Nonce u \<noteq> Nonce t}"
    using sm_Get_view [OF ok] by auto
  finally show "u \<in> set (sm_view (sm_Put t m)) \<longleftrightarrow> u \<in> insert t {u \<in> set (sm_view m). Nonce u \<noteq> Nonce t}" .
qed

lemma flat_dropWhile:
  assumes "its_ok its"
  shows "flat (filter (\<lambda>p. \<not> fst p < n) its) = dropWhile (\<lambda>t. Nonce t < n) (flat its)"
proof -
  have "filter (\<lambda>t. \<not> Nonce t < n) ts = dropWhile (\<lambda>t. Nonce t < n) ts" if "nonce_sorted ts" for ts
    using that
  proof (induction ts)
    case (Cons t ts)
    have "filter (\<lambda>t. \<not> Nonce t < n) ts = ts" if "\<not> Nonce t < n"
      using Cons.prems that by (force simp: filter_id_conv)
    with Cons show ?case by auto
  qed simp
  with flat_nonce_sorted [OF assms] show ?thesis
    by (simp add: its_filter_nonce [OF assms, where P = "\<lambda>k. \<not> k < n"]
        flat_filter [where P = "\<lambda>t. \<not> Nonce t < n"])
qed

lemma sm_Forward_spec:
  assumes ok: "sm_ok m"
  obtains m' where "sm_Forward n m = Some (takeWhile (\<lambda>t. Nonce t < n) (sm_view m), m')"
    and "sm_ok m'" and "sm_view m' = dropWhile (\<lambda>t. Nonce t < n) (sm_view m)"
proof -
  define its' where "its' = filter (\<lambda>p. \<not> fst p < n) (items m)"
  define rem where "rem = takeWhile (\<lambda>t. Nonce t < n) (flat (items m))"
  from forward_loop_spec [OF sm_okD(1,2) [OF ok], of n] obtain idx' where
    loop: "forward_loop n (index m) (items m) = Some (rem, idx', its')" "idx_ok idx' its'"
    by (auto simp: its'_def rem_def)
  have f: "flat its' = dropWhile (\<lambda>t. Nonce t < n) (flat (items m))"
    using sm_okD(1) [OF ok] by (simp add: its'_def flat_dropWhile)
  then have "flat (items m) = rem @ flat its'" by (simp add: rem_def)
  then have d: "drop (length rem) (flat (items m)) = flat its'" "length rem \<le> length (flat (items m))"
    by simp_all
  define c where "c = map_option (\<lambda>_. flat its') (cache m)"
  have "sm_Forward n m = Some (rem, m\<lparr>items := its', index := idx', cache := c\<rparr>)"
    using loop sm_okD(3) [OF ok] d
    by (auto simp: sm_Forward_def c_def slice_from_def split: option.splits)
  moreover have "sm_ok (m\<lparr>items := its', index := idx', cache := c\<rparr>)"
    using loop sm_okD(1) [OF ok] by (auto simp: sm_ok_def c_def its'_def)
  ultimately show ?thesis using f by (intro that) (auto simp: sm_view_def rem_def)
qed

lemma sm_Filter_spec:
  assumes ok: "sm_ok m" and f: "sm_Filter P m = (removed, m')"
  shows "sm_ok m'" and "sm_view m' = filter (\<lambda>t. \<not> P t) (sm_view m)"
    and "mset removed = mset (filter P (sm_view m))"
proof -
  define its where "its = filter (\<lambda>p. \<not> P (snd p)) (items m)"
  have rem: "removed = map snd (filter (\<lambda>p. P (snd p)) (items m))"
    and m': "m' = (if removed = [] then m\<lparr>items := its\<rparr>
      else m\<lparr>items := its, index := heap_init (\<lambda>n. n) (keys its), cache := None\<rparr>)"
    using f unfolding sm_Filter_def Let_def its_def [symmetric] by (auto split: if_splits)
  then have "items m' = its" by simp
  have ito: "its_ok its" using sm_okD(1) [OF ok] by (simp add: its_def)
  have "its = items m" if "removed = []"
    using that by (auto simp: its_def rem filter_empty_conv filter_id_conv)
  then show "sm_ok m'"
    using ok ito idx_ok_init [of its] by (simp add: m' sm_ok_def)
  show "sm_view m' = filter (\<lambda>t. \<not> P t) (sm_view m)"
    by (simp add: sm_view_def \<open>items m' = its\<close> its_def flat_filter [where P = "\<lambda>t. \<not> P t"])
  have "mset removed = mset (flat (filter (\<lambda>p. P (snd p)) (items m)))"
    by (simp add: rem mset_flat)
  then show "mset removed = mset (filter P (sm_view m))"
    by (simp only: flat_filter [where P = P] sm_view_def)
qed

lemma sort_index:
  assumes "its_ok its" and "idx_ok idx its"
  shows "sort idx = map Nonce (flat its)"
proof (rule properties_for_sort)
  have "mset (map Nonce (flat its)) = mset (keys its)"
    using assms(1) by (simp only: mset_map mset_flat its_keys)
  then show "mset (map Nonce (flat its)) = mset idx"
    using assms(2) by (simp add: idx_ok_def)
  show "sorted (map Nonce (flat its))" by (simp add: flat_def)
qed

lemma sm_Cap_spec:
  assumes ok: "sm_ok m" and lim: "0 \<le> lim"
  obtains m' where "sm_Cap lim m = Some (rev (drop (nat lim) (sm_view m)), m')"
    and "sm_ok m'" and "sm_view m' = take (nat lim) (sm_view m)"
proof (cases "int (length (items m)) \<le> lim")
  case True
  then have "length (flat (items m)) \<le> nat lim" by simp
  with True ok show ?thesis by (intro that [of m]) (auto simp: sm_Cap_def sm_view_def)
next
  case False
  note its = sm_okD(1) [OF ok]
  note idx = sort_index [OF its sm_okD(2) [OF ok]]
  define drops where "drops = rev (drop (nat lim) (flat (items m)))"
  from cap_loop_spec [OF its refl _ lim, of "sort (index m)"] idx obtain its' where
    loop: "cap_loop lim (length (items m)) (sort (index m)) (items m) = Some (drops, its')"
      "its_ok its'" "flat its' = take (nat lim) (flat (items m))"
    by (auto simp: drops_def)
  define i' where "i' = take (nat lim) (sort (index m))"
  have s: "slice_to lim (sort (index m)) = Some i'"
    using False lim idx by (simp add: slice_to_def i'_def)
  have "i' = map Nonce (flat its')" by (simp only: i'_def idx loop(3) take_map)
  then have "mset i' = mset (keys its')"
    using its_keys [OF loop(2)] by (simp only: mset_map mset_flat)
  then have io: "idx_ok (heap_init (\<lambda>n. n) i') its'"
    by (simp add: idx_ok_def goheap.invar_init)
  define c where "c = map_option (\<lambda>_. flat its') (cache m)"
  have "slice_to (int (length (flat (items m))) - int (length drops)) (flat (items m)) = Some (flat its')"
    using False lim loop(3) by (simp add: slice_to_def drops_def)
  then have "sm_Cap lim m = Some (drops, m\<lparr>items := its', index := heap_init (\<lambda>n. n) i', cache := c\<rparr>)"
    using False loop(1) s sm_okD(3) [OF ok] by (auto simp: sm_Cap_def c_def split: option.splits)
  moreover have "sm_ok (m\<lparr>items := its', index := heap_init (\<lambda>n. n) i', cache := c\<rparr>)"
    using loop(2) io by (auto simp: sm_ok_def c_def)
  ultimately show ?thesis
    using loop(3) by (intro that) (auto simp: sm_view_def drops_def)
qed

lemma find_index_Some: "x \<in> set xs \<Longrightarrow> \<exists>j. find_index i x xs = Some (i + j) \<and> j < length xs \<and> xs ! j = x"
proof (induction i x xs rule: find_index.induct)
  case (2 i x y ys)
  show ?case
  proof (cases "y = x")
    case False
    with 2 obtain j where "find_index (Suc i) x ys = Some (Suc i + j)" "j < length ys" "ys ! j = x" by auto
    with False show ?thesis by (intro exI [of _ "Suc j"]) simp
  qed (auto intro: exI [of _ 0])
qed simp

lemma sm_Remove_spec:
  assumes ok: "sm_ok m"
  obtains m' where "sm_Remove n m = Some (\<exists>t \<in> set (sm_view m). Nonce t = n, m')"
    and "sm_ok m'" and "sm_view m' = filter (\<lambda>t. Nonce t \<noteq> n) (sm_view m)"
proof (cases "map_of (items m) n")
  case None
  then have no: "\<not> (\<exists>t \<in> set (sm_view m). Nonce t = n)"
    using map_of_flat [OF sm_okD(1) [OF ok], of n] by (auto simp: sm_view_def)
  then have "filter (\<lambda>t. Nonce t \<noteq> n) (sm_view m) = sm_view m" by (auto simp: filter_id_conv)
  with None no ok show ?thesis by (intro that [of m]) (auto simp: sm_Remove_def)
next
  case (Some t)
  note its = sm_okD(1) [OF ok] and idx = sm_okD(2) [OF ok]
  from Some have "n \<in> set (index m)"
    using idx_ok_set [OF idx] map_of_keys [of "items m" n] by simp
  then obtain i where i: "find_index 0 n (index m) = Some i" "i < length (index m)" "index m ! i = n"
    using find_index_Some [of n "index m" 0] by auto
  from goheap.remove_cases [of "\<lambda>n. n" "index m" i] i idx obtain r where
    r: "heap_remove (\<lambda>n. n) i (index m) = Some (n, r)" "is_heap (\<lambda>n. n) r" "mset r = mset (index m) - {#n#}"
    by (auto simp: idx_ok_def)
  have io: "idx_ok r (AList.delete n (items m))"
    using r idx its by (simp add: idx_ok_def image_mset_delete its_ok_def)
  from Some have yes: "\<exists>t \<in> set (sm_view m). Nonce t = n"
    using map_of_flat [OF its, of n] by (auto simp: sm_view_def)
  define m' where "m' = m\<lparr>items := AList.delete n (items m), index := r, cache := None\<rparr>"
  have "sm_Remove n m = Some (True, m')"
    using Some i(1) r(1) by (simp add: sm_Remove_def m'_def)
  moreover have "sm_ok m'" using io its by (simp add: sm_ok_def m'_def)
  moreover have "sm_view m' = filter (\<lambda>t. Nonce t \<noteq> n) (sm_view m)"
    by (simp add: m'_def sm_view_def flat_delete [OF its])
  ultimately show ?thesis using yes by (intro that [of m']) simp_all
qed

lemma sm_head:
  assumes "sm_ok m" and "sm_view m = t # ts"
  shows "index m \<noteq> []" and "index m ! 0 = Nonce t"
proof -
  have "items m \<noteq> []" using assms(2) by (auto simp: sm_view_def)
  then show ne: "index m \<noteq> []" using idx_ok_empty [OF sm_okD(2) [OF assms(1)]] by simp
  from idx_ok_pop [OF sm_okD(1,2) [OF assms(1)] ne] show "index m ! 0 = Nonce t"
    using assms(2) by (metis list.inject sm_view_def)
qed

lemma sm_Ready_spec:
  assumes ok: "sm_ok m"
  obtains ready m' where "sm_Ready start m = Some (ready, m')"
    and "ready = (case sm_view m of [] \<Rightarrow> [] | t # _ \<Rightarrow>
           if start < Nonce t then [] else consecutive (Nonce t) (sm_view m))"
    and "sm_ok m'" and "sm_view m = ready @ sm_view m'"
proof (cases "sm_view m")
  case Nil
  then have "index m = []"
    using idx_ok_empty [OF sm_okD(2) [OF ok]] by (metis length_0_conv length_flat sm_view_def)
  with Nil ok show ?thesis by (intro that [of "[]" m]) (auto simp: sm_Ready_def)
next
  case (Cons t ts)
  note hd = sm_head [OF ok Cons]
  show ?thesis
  proof (cases "start < Nonce t")
    case True
    with hd Cons ok show ?thesis by (intro that [of "[]" m]) (auto simp: sm_Ready_def)
  next
    case False
    from ready_loop_spec [OF sm_okD(1,2) [OF ok], of "Nonce t"] obtain idx' its' where
      l: "ready_loop (Nonce t) (index m) (items m) = Some (consecutive (Nonce t) (sm_view m), idx', its')"
        "its_ok its'" "idx_ok idx' its'" "sm_view m = consecutive (Nonce t) (sm_view m) @ flat its'"
      by (auto simp: sm_view_def)
    define m' where "m' = m\<lparr>items := its', index := idx', cache := None\<rparr>"
    have "sm_Ready start m = Some (consecutive (Nonce t) (sm_view m), m')"
      using l(1) hd False by (simp add: sm_Ready_def m'_def)
    moreover have "sm_ok m'" using l by (simp add: sm_ok_def m'_def)
    moreover have "sm_view m' = flat its'" by (simp add: m'_def sm_view_def)
    ultimately show ?thesis
      using l(4) False Cons by (intro that [of "consecutive (Nonce t) (sm_view m)" m']) simp_all
  qed
qed

lemma sm_Flatten_spec:
  assumes "sm_ok m"
  shows "fst (sm_Flatten m) = sm_view m" and "sm_ok (snd (sm_Flatten m))"
    and "sm_view (snd (sm_Flatten m)) = sm_view m"
  using assms by (auto simp: sm_Flatten_def sm_ok_def sm_view_def flat_def Let_def split: option.splits)

section \<open>The interface of the sorted map\<close>

text \<open>
  What \<open>txList\<close> relies on, as a contract over the sorted view. The consequences are the facts
  its strict mode needs: after a removal everything above the removed nonce goes too, which leaves
  a prefix of the list.
\<close>

locale nonce_list =
  fixes ok :: "'m \<Rightarrow> bool" and view :: "'m \<Rightarrow> tx list"
    and get :: "'m \<Rightarrow> uint64 \<Rightarrow> tx option" and put :: "tx \<Rightarrow> 'm \<Rightarrow> 'm"
    and filt :: "(tx \<Rightarrow> bool) \<Rightarrow> 'm \<Rightarrow> tx list \<times> 'm"
    and remove :: "uint64 \<Rightarrow> 'm \<Rightarrow> (bool \<times> 'm) option"
  assumes view_sorted: "ok m \<Longrightarrow> nonce_sorted (view m)"
    and get_view: "ok m \<Longrightarrow> get m n = Some t \<longleftrightarrow> t \<in> set (view m) \<and> Nonce t = n"
    and ok_put: "ok m \<Longrightarrow> ok (put t m)"
    and set_put: "ok m \<Longrightarrow> set (view (put t m)) = insert t {u \<in> set (view m). Nonce u \<noteq> Nonce t}"
    and ok_filt: "ok m \<Longrightarrow> ok (snd (filt P m))"
    and view_filt: "ok m \<Longrightarrow> view (snd (filt P m)) = filter (\<lambda>t. \<not> P t) (view m)"
    and mset_filt: "ok m \<Longrightarrow> mset (fst (filt P m)) = mset (filter P (view m))"
    and remove_view: "ok m \<Longrightarrow> \<exists>m'. remove n m = Some (\<exists>t \<in> set (view m). Nonce t = n, m') \<and>
      ok m' \<and> view m' = filter (\<lambda>t. Nonce t \<noteq> n) (view m)"
begin

lemma get_None: "ok m \<Longrightarrow> get m n = None \<longleftrightarrow> (\<forall>t \<in> set (view m). Nonce t \<noteq> n)"
  using get_view [of m n] by (metis not_None_eq)

lemma get_put: "ok m \<Longrightarrow> get (put t m) n = (if n = Nonce t then Some t else get m n)"
proof (rule option.expand)
  assume ok: "ok m"
  show "(get (put t m) n = None) = ((if n = Nonce t then Some t else get m n) = None)"
    using get_None [OF ok_put [OF ok], of t n] get_None [OF ok, of n] set_put [OF ok, of t] by auto
  show "the (get (put t m) n) = the (if n = Nonce t then Some t else get m n)"
    if "get (put t m) n \<noteq> None" "(if n = Nonce t then Some t else get m n) \<noteq> None"
  proof -
    from that(1) obtain u where u: "get (put t m) n = Some u" by auto
    then have "u \<in> set (view (put t m))" "Nonce u = n"
      using get_view [OF ok_put [OF ok]] by auto
    then have "u = t \<or> u \<in> set (view m) \<and> Nonce u \<noteq> Nonce t"
      using set_put [OF ok, of t] by auto
    with u \<open>Nonce u = n\<close> get_view [OF ok, of n u] show ?thesis by auto
  qed
qed

lemma set_filt: "ok m \<Longrightarrow> set (fst (filt P m)) = {t \<in> set (view m). P t}"
  using mset_filt [of m P] by (metis mset_eq_setD set_filter)

lemma strict_remove:
  assumes "ok m" and "remove n m = Some (True, m1)"
  shows "view (snd (filt (\<lambda>t. n < Nonce t) m1)) = takeWhile (\<lambda>t. Nonce t < n) (view m)"
proof -
  have m1: "ok m1" "view m1 = filter (\<lambda>t. Nonce t \<noteq> n) (view m)"
    using remove_view [OF assms(1), of n] assms(2) by auto
  have "filter (\<lambda>t. Nonce t \<noteq> n \<and> \<not> n < Nonce t) ts = takeWhile (\<lambda>t. Nonce t < n) ts"
    if "nonce_sorted ts" for ts
    using that
  proof (induction ts)
    case (Cons t ts)
    have "filter (\<lambda>t. Nonce t \<noteq> n \<and> \<not> n < Nonce t) ts = []" if "\<not> Nonce t < n"
      using Cons.prems that by (force simp: filter_empty_conv)
    with Cons show ?case by auto
  qed simp
  from this [OF view_sorted [OF assms(1)]]
  show ?thesis by (simp only: view_filt [OF m1(1)] m1(2) filter_filter)
qed

lemma strict_filter:
  assumes ok: "ok m" and f: "filt P m = (removed, m1)" and ne: "removed \<noteq> []"
    and low: "low \<in> Nonce ` set removed" "\<And>t. t \<in> set removed \<Longrightarrow> low \<le> Nonce t"
  shows "view (snd (filt (\<lambda>t. low < Nonce t) m1)) = takeWhile (\<lambda>t. \<not> P t) (view m)"
proof -
  have m1: "ok m1" "view m1 = filter (\<lambda>t. \<not> P t) (view m)"
    using ok_filt [OF ok, of P] view_filt [OF ok, of P] f by auto
  have low': "\<exists>u \<in> set (view m). P u \<and> Nonce u = low" "\<And>t. t \<in> set (view m) \<Longrightarrow> P t \<Longrightarrow> low \<le> Nonce t"
    using low set_filt [OF ok, of P] f by auto
  have prefix: "filter (\<lambda>t. \<not> P t \<and> \<not> low < Nonce t) ts = takeWhile (\<lambda>t. \<not> P t) ts"
    if "nonce_sorted ts" "\<exists>u \<in> set ts. P u \<and> Nonce u = low" "\<forall>t \<in> set ts. P t \<longrightarrow> low \<le> Nonce t" for ts
    using that
  proof (induction ts)
    case (Cons t ts)
    show ?case
    proof (cases "P t")
      case True
      then have "low < Nonce u" if "u \<in> set ts" for u
        using Cons.prems(1,3) that by (auto intro: le_less_trans [of low "Nonce t"])
      then have "filter (\<lambda>t. \<not> P t \<and> \<not> low < Nonce t) ts = []"
        by (simp add: filter_empty_conv)
      with True show ?thesis by simp
    next
      case False
      with Cons.prems(1,2) have "Nonce t < low" by auto
      moreover from False Cons.prems have
        "filter (\<lambda>t. \<not> P t \<and> \<not> low < Nonce t) ts = takeWhile (\<lambda>t. \<not> P t) ts"
        by (intro Cons.IH) auto
      ultimately show ?thesis using False by (simp add: less_imp_le not_less)
    qed
  qed simp
  have "filter (\<lambda>t. \<not> P t \<and> \<not> low < Nonce t) (view m) = takeWhile (\<lambda>t. \<not> P t) (view m)"
    by (rule prefix [OF view_sorted [OF ok] low'(1)]) (simp add: low'(2))
  then show ?thesis by (simp only: view_filt [OF m1(1)] m1(2) filter_filter)
qed

end

interpretation sm: nonce_list sm_ok sm_view sm_Get sm_Put sm_Filter sm_Remove
proof
  show "\<exists>m'. sm_Remove n m = Some (\<exists>t \<in> set (sm_view m). Nonce t = n, m') \<and>
      sm_ok m' \<and> sm_view m' = filter (\<lambda>t. Nonce t \<noteq> n) (sm_view m)" if "sm_ok m" for m n
    by (rule sm_Remove_spec [OF that, of n]) blast
  show "sm_ok (snd (sm_Filter P m))" and "sm_view (snd (sm_Filter P m)) = filter (\<lambda>t. \<not> P t) (sm_view m)"
    and "mset (fst (sm_Filter P m)) = mset (filter P (sm_view m))" if "sm_ok m" for m P
    by (rule sm_Filter_spec [OF that prod.collapse [symmetric]])+
qed (simp_all add: sm_view_sorted sm_Get_view sm_Put_ok set_sm_Put)

section \<open>Properties\<close>

text \<open>A transaction with given hash, nonce and price, for concrete inputs.\<close>

definition sample_tx :: "hash \<Rightarrow> uint64 \<Rightarrow> bigint \<Rightarrow> tx" where
  "sample_tx h n p = \<lparr>Hash = h, Nonce = n, GasPrice = p, GasLimit = 21000, Value = 0, Cost = 21000 * p,
     Data = [], To = None, Via = None, Size = 100, ChainId = 1, IsClassic = False, ShardingFlag = 0,
     SystemFlag = 0, DirCallSent = False\<rparr>"

lemma sample_tx_sel [simp]:
  "Hash (sample_tx h n p) = h" "Nonce (sample_tx h n p) = n" "GasPrice (sample_tx h n p) = p"
  "GasLimit (sample_tx h n p) = 21000" "Cost (sample_tx h n p) = 21000 * p"
  by (simp_all add: sample_tx_def)

text \<open>
  \<open>Forward\<close> on a well-formed map returns, in nonce order, exactly the transactions below the
  threshold, leaves exactly the others, and keeps the map, the heap of nonces and the cache in step.
\<close>

theorem sm_Forward_correct:
  "sm_ok m \<Longrightarrow> \<exists>m'. sm_Forward n m = Some (takeWhile (\<lambda>t. Nonce t < n) (sm_view m), m') \<and> sm_ok m' \<and>
     sm_view m' = dropWhile (\<lambda>t. Nonce t < n) (sm_view m)"
  using sm_Forward_spec by blast

theorem sm_Forward_correct_witness:
  "\<exists>m'. sm_Forward 5 (sm_Put (sample_tx 1 7 1) (sm_Put (sample_tx 2 3 1) newTxSortedMap))
     = Some ([sample_tx 2 3 1], m') \<and> sm_ok m' \<and> sm_view m' = [sample_tx 1 7 1]"
proof -
  let ?m = "sm_Put (sample_tx 1 7 1) (sm_Put (sample_tx 2 3 1) newTxSortedMap)"
  have "sm_ok ?m" by (intro sm_Put_ok newTxSortedMap_ok)
  moreover have "sm_view ?m = [sample_tx 2 3 1, sample_tx 1 7 1]"
    by (simp add: sm_view_def flat_def sm_Put_def newTxSortedMap_def)
  ultimately show ?thesis using sm_Forward_correct [of ?m 5] by simp
qed

text \<open>
  \<open>Ready\<close> returns nothing when the lowest nonce is above \<open>start\<close>, and otherwise the longest run of
  consecutive nonces from the lowest one; what it returns is cut off the front of the sorted view.
\<close>

theorem sm_Ready_correct:
  assumes "sm_ok m"
  shows "\<exists>ready m'. sm_Ready start m = Some (ready, m') \<and> sm_ok m' \<and> sm_view m = ready @ sm_view m' \<and>
     ready = (case sm_view m of [] \<Rightarrow> [] | t # _ \<Rightarrow>
                if start < Nonce t then [] else consecutive (Nonce t) (sm_view m))"
  by (rule sm_Ready_spec [OF assms, of start], intro exI conjI, assumption+)

theorem sm_Ready_correct_witness:
  "\<exists>m'. sm_Ready 3 (sm_Put (sample_tx 1 5 1) (sm_Put (sample_tx 3 4 1) (sm_Put (sample_tx 2 3 1) newTxSortedMap)))
     = Some ([sample_tx 2 3 1, sample_tx 3 4 1, sample_tx 1 5 1], m') \<and> sm_view m' = []"
proof -
  let ?m = "sm_Put (sample_tx 1 5 1) (sm_Put (sample_tx 3 4 1) (sm_Put (sample_tx 2 3 1) newTxSortedMap))"
  have "sm_ok ?m" by (intro sm_Put_ok newTxSortedMap_ok)
  moreover have "sm_view ?m = [sample_tx 2 3 1, sample_tx 3 4 1, sample_tx 1 5 1]"
    by (simp add: sm_view_def flat_def sm_Put_def newTxSortedMap_def)
  ultimately show ?thesis using sm_Ready_correct [of ?m 3] by simp metis
qed

text \<open>
  C36: \<open>Cap\<close> with a non-negative threshold never panics; it drops exactly the transactions with the
  highest nonces above the threshold, highest first, and keeps the rest.
\<close>

theorem sm_Cap_correct:
  "sm_ok m \<Longrightarrow> 0 \<le> lim \<Longrightarrow> \<exists>m'. sm_Cap lim m = Some (rev (drop (nat lim) (sm_view m)), m') \<and> sm_ok m' \<and>
     sm_view m' = take (nat lim) (sm_view m)"
  using sm_Cap_spec by blast

theorem sm_Cap_correct_witness:
  "\<exists>m'. sm_Cap 1 (sm_Put (sample_tx 1 7 1) (sm_Put (sample_tx 2 3 1) newTxSortedMap))
     = Some ([sample_tx 1 7 1], m') \<and> sm_view m' = [sample_tx 2 3 1]"
proof -
  let ?m = "sm_Put (sample_tx 1 7 1) (sm_Put (sample_tx 2 3 1) newTxSortedMap)"
  have "sm_ok ?m" by (intro sm_Put_ok newTxSortedMap_ok)
  moreover have "sm_view ?m = [sample_tx 2 3 1, sample_tx 1 7 1]"
    by (simp add: sm_view_def flat_def sm_Put_def newTxSortedMap_def)
  ultimately show ?thesis using sm_Cap_correct [of ?m 1] by auto
qed

end
