(* ===== verification/TxList.thy ===== *)
theory TxList
  imports TxSortedMap
begin

text \<open>
  \<open>core/tx_list.go\<close>, second part: \<open>txList\<close>, one account's transactions with the cost and gas
  caps, and \<open>txPricedList\<close>, the price heap over the whole pool. The pool map \<open>all\<close> that the priced
  list points to is an argument of its operations. \<open>accountSet\<close> of \<open>core/tx_pool.go\<close> is here too,
  since the priced list asks it which transactions are local. \<open>types.Sender\<close> is library code: the
  parameter \<open>sender\<close>, \<open>None\<close> where it returns an error.
\<close>

section \<open>txList\<close>

record txList =
  strict :: bool
  txs :: txSortedMap
  costcap :: bigint
  gascap :: bigint

definition newTxList :: "bool \<Rightarrow> txList" where
  "newTxList str = \<lparr>strict = str, txs = newTxSortedMap, costcap = 0, gascap = 0\<rparr>"

definition tl_Overlaps :: "txList \<Rightarrow> tx \<Rightarrow> bool" where
  "tl_Overlaps l t \<longleftrightarrow> sm_Get (txs l) (Nonce t) \<noteq> None"

text \<open>\<open>big.NewInt(100+int64(priceBump))\<close> adds in 64-bit two's complement.\<close>

definition price_threshold :: "tx \<Rightarrow> uint64 \<Rightarrow> bigint" where
  "price_threshold old priceBump = GasPrice old * sint (100 + priceBump) div 100"

definition tl_Add :: "tx \<Rightarrow> uint64 \<Rightarrow> txList \<Rightarrow> bool \<times> tx option \<times> txList" where
  "tl_Add t priceBump l =
     (let old = sm_Get (txs l) (Nonce t)
      in if (case old of None \<Rightarrow> False | Some o' \<Rightarrow> GasPrice t \<le> price_threshold o' priceBump)
         then (False, None, l)
         else let l1 = l\<lparr>txs := sm_Put t (txs l)\<rparr>;
                  l2 = (if costcap l1 < Cost t then l1\<lparr>costcap := Cost t\<rparr> else l1);
                  l3 = (if gascap l2 < GasLimit t then l2\<lparr>gascap := GasLimit t\<rparr> else l2)
              in (True, old, l3))"

definition tl_Forward :: "uint64 \<Rightarrow> txList \<Rightarrow> (tx list \<times> txList) option" where
  "tl_Forward threshold l = do {
     (removed, m) \<leftarrow> sm_Forward threshold (txs l);
     Some (removed, l\<lparr>txs := m\<rparr>)
   }"

definition lowest_nonce :: "tx list \<Rightarrow> uint64" where
  "lowest_nonce removed = foldl (\<lambda>low t. if Nonce t < low then Nonce t else low) (- 1) removed"

definition tl_Filter :: "bigint \<Rightarrow> bigint \<Rightarrow> txList \<Rightarrow> tx list \<times> tx list \<times> txList" where
  "tl_Filter costLimit gasLimit l =
     (if costcap l \<le> costLimit \<and> gascap l \<le> gasLimit then ([], [], l)
      else let l1 = l\<lparr>costcap := costLimit, gascap := gasLimit\<rparr>;
               (removed, m) = sm_Filter (\<lambda>t. costLimit < Cost t \<or> gasLimit < GasLimit t) (txs l1)
           in if strict l \<and> 0 < length removed
              then let lowest = lowest_nonce removed;
                       (invalids, m') = sm_Filter (\<lambda>t. lowest < Nonce t) m
                   in (removed, invalids, l1\<lparr>txs := m'\<rparr>)
              else (removed, [], l1\<lparr>txs := m\<rparr>))"

definition tl_Cap :: "int \<Rightarrow> txList \<Rightarrow> (tx list \<times> txList) option" where
  "tl_Cap threshold l = do {
     (drops, m) \<leftarrow> sm_Cap threshold (txs l);
     Some (drops, l\<lparr>txs := m\<rparr>)
   }"

definition tl_Remove :: "tx \<Rightarrow> txList \<Rightarrow> (bool \<times> tx list \<times> txList) option" where
  "tl_Remove t l = do {
     (removed, m) \<leftarrow> sm_Remove (Nonce t) (txs l);
     if \<not> removed then Some (False, [], l\<lparr>txs := m\<rparr>)
     else if strict l
     then let (invalids, m') = sm_Filter (\<lambda>u. Nonce t < Nonce u) m
          in Some (True, invalids, l\<lparr>txs := m'\<rparr>)
     else Some (True, [], l\<lparr>txs := m\<rparr>)
   }"

definition tl_Ready :: "uint64 \<Rightarrow> txList \<Rightarrow> (tx list \<times> txList) option" where
  "tl_Ready start l = do {
     (ready, m) \<leftarrow> sm_Ready start (txs l);
     Some (ready, l\<lparr>txs := m\<rparr>)
   }"

definition tl_Len :: "txList \<Rightarrow> nat" where
  "tl_Len l = sm_Len (txs l)"

definition tl_Empty :: "txList \<Rightarrow> bool" where
  "tl_Empty l \<longleftrightarrow> tl_Len l = 0"

definition tl_Flatten :: "txList \<Rightarrow> tx list \<times> txList" where
  "tl_Flatten l = (case sm_Flatten (txs l) of (ts, m) \<Rightarrow> (ts, l\<lparr>txs := m\<rparr>))"

section \<open>accountSet\<close>

record accountSet =
  accounts :: "(address, unit) gomap"

definition newAccountSet :: accountSet where
  "newAccountSet = \<lparr>accounts = []\<rparr>"

definition as_contains :: "accountSet \<Rightarrow> address \<Rightarrow> bool" where
  "as_contains as addr \<longleftrightarrow> map_of (accounts as) addr \<noteq> None"

definition as_containsTx :: "(tx \<Rightarrow> address option) \<Rightarrow> accountSet \<Rightarrow> tx \<Rightarrow> bool" where
  "as_containsTx sender as t = (case sender t of Some addr \<Rightarrow> as_contains as addr | None \<Rightarrow> False)"

definition as_add :: "address \<Rightarrow> accountSet \<Rightarrow> accountSet" where
  "as_add addr as = as\<lparr>accounts := AList.update addr () (accounts as)\<rparr>"

section \<open>txPricedList\<close>

type_synonym allmap = "(hash, tx) gomap"

abbreviation priceHeap_Push :: "tx \<Rightarrow> tx list \<Rightarrow> tx list" where
  "priceHeap_Push \<equiv> heap_push GasPrice"

abbreviation priceHeap_Pop :: "tx list \<Rightarrow> (tx \<times> tx list) option" where
  "priceHeap_Pop \<equiv> heap_pop GasPrice"

record txPricedList =
  pl_items :: "tx list"
  stales :: int

definition newTxPricedList :: txPricedList where
  "newTxPricedList = \<lparr>pl_items = [], stales = 0\<rparr>"

definition pl_Put :: "tx \<Rightarrow> txPricedList \<Rightarrow> txPricedList" where
  "pl_Put t l = l\<lparr>pl_items := priceHeap_Push t (pl_items l)\<rparr>"

definition pl_Removed :: "allmap \<Rightarrow> txPricedList \<Rightarrow> txPricedList" where
  "pl_Removed all l =
     (let l1 = l\<lparr>stales := stales l + 1\<rparr>
      in if stales l1 \<le> int (length (pl_items l1) div 4) then l1
         else l1\<lparr>stales := 0, pl_items := heap_init GasPrice (map snd all)\<rparr>)"

text \<open>The pop loops end when the heap is empty, which is when \<open>heap_pop\<close> has no result.\<close>

function pl_cap_loop ::
  "allmap \<Rightarrow> (tx \<Rightarrow> bool) \<Rightarrow> bigint \<Rightarrow> tx list \<Rightarrow> int \<Rightarrow> tx list \<Rightarrow> tx list \<Rightarrow>
   tx list \<times> int \<times> tx list \<times> tx list"
where
  "pl_cap_loop all loc threshold its st dropped saved =
     (case priceHeap_Pop its of
        None \<Rightarrow> (its, st, dropped, saved)
      | Some (t, its') \<Rightarrow>
          if map_of all (Hash t) = None then pl_cap_loop all loc threshold its' (st - 1) dropped saved
          else if threshold \<le> GasPrice t then (its', st, dropped, saved @ [t])
          else if loc t then pl_cap_loop all loc threshold its' st dropped (saved @ [t])
          else pl_cap_loop all loc threshold its' st (dropped @ [t]) saved)"
  by pat_completeness auto
termination
  by (relation "measure (\<lambda>(all, loc, threshold, its, st, dropped, saved). length its)")
    (auto dest!: heap_pop_length)

definition pl_Cap :: "allmap \<Rightarrow> (tx \<Rightarrow> bool) \<Rightarrow> bigint \<Rightarrow> txPricedList \<Rightarrow> tx list \<times> txPricedList" where
  "pl_Cap all loc threshold l =
     (case pl_cap_loop all loc threshold (pl_items l) (stales l) [] [] of
        (its, st, dropped, saved) \<Rightarrow> (dropped, l\<lparr>pl_items := fold priceHeap_Push saved its, stales := st\<rparr>))"

function pl_fresh_loop :: "allmap \<Rightarrow> tx list \<Rightarrow> int \<Rightarrow> tx list \<times> int" where
  "pl_fresh_loop all its st =
     (if its \<noteq> [] \<and> map_of all (Hash (its ! 0)) = None
      then (case priceHeap_Pop its of None \<Rightarrow> (its, st)
            | Some (_, its') \<Rightarrow> pl_fresh_loop all its' (st - 1))
      else (its, st))"
  by pat_completeness auto
termination
  by (relation "measure (\<lambda>(all, its, st). length its)") (auto dest!: heap_pop_length)

definition pl_Underpriced :: "allmap \<Rightarrow> (tx \<Rightarrow> bool) \<Rightarrow> tx \<Rightarrow> txPricedList \<Rightarrow> bool \<times> txPricedList" where
  "pl_Underpriced all loc t l =
     (if loc t then (False, l)
      else case pl_fresh_loop all (pl_items l) (stales l) of
        (its, st) \<Rightarrow>
          let l' = l\<lparr>pl_items := its, stales := st\<rparr>
          in if its = [] then (False, l') else (GasPrice t \<le> GasPrice (its ! 0), l'))"

function pl_discard_loop ::
  "allmap \<Rightarrow> (tx \<Rightarrow> bool) \<Rightarrow> int \<Rightarrow> tx list \<Rightarrow> int \<Rightarrow> tx list \<Rightarrow> tx list \<Rightarrow>
   tx list \<times> int \<times> tx list \<times> tx list"
where
  "pl_discard_loop all loc cnt its st dropped saved =
     (if cnt \<le> 0 then (its, st, dropped, saved)
      else case priceHeap_Pop its of
        None \<Rightarrow> (its, st, dropped, saved)
      | Some (t, its') \<Rightarrow>
          if map_of all (Hash t) = None then pl_discard_loop all loc cnt its' (st - 1) dropped saved
          else if loc t then pl_discard_loop all loc cnt its' st dropped (saved @ [t])
          else pl_discard_loop all loc (cnt - 1) its' st (dropped @ [t]) saved)"
  by pat_completeness auto
termination
  by (relation "measure (\<lambda>(all, loc, cnt, its, st, dropped, saved). length its)")
    (auto dest!: heap_pop_length)

definition pl_Discard :: "allmap \<Rightarrow> (tx \<Rightarrow> bool) \<Rightarrow> int \<Rightarrow> txPricedList \<Rightarrow> tx list \<times> txPricedList" where
  "pl_Discard all loc cnt l =
     (case pl_discard_loop all loc cnt (pl_items l) (stales l) [] [] of
        (its, st, dropped, saved) \<Rightarrow> (dropped, l\<lparr>pl_items := fold priceHeap_Push saved its, stales := st\<rparr>))"

declare pl_cap_loop.simps [simp del] pl_fresh_loop.simps [simp del] pl_discard_loop.simps [simp del]

section \<open>Correctness of txList\<close>

definition tl_view :: "txList \<Rightarrow> tx list" where
  "tl_view l = sm_view (txs l)"

text \<open>The caps bound every stored transaction, which is what makes the short circuit of \<open>Filter\<close> sound.\<close>

definition tl_ok :: "txList \<Rightarrow> bool" where
  "tl_ok l \<longleftrightarrow> sm_ok (txs l) \<and> (\<forall>t \<in> set (tl_view l). Cost t \<le> costcap l \<and> GasLimit t \<le> gascap l)"

abbreviation unaffordable :: "bigint \<Rightarrow> bigint \<Rightarrow> tx \<Rightarrow> bool" where
  "unaffordable costLimit gasLimit t \<equiv> costLimit < Cost t \<or> gasLimit < GasLimit t"

lemma tl_ok_sm: "tl_ok l \<Longrightarrow> sm_ok (txs l)"
  by (simp add: tl_ok_def)

lemma newTxList_ok [simp]: "tl_ok (newTxList b)" and tl_view_new [simp]: "tl_view (newTxList b) = []"
  by (simp_all add: tl_ok_def newTxList_def newTxSortedMap_ok tl_view_def sm_view_new)

lemma tl_ok_subset:
  "tl_ok l \<Longrightarrow> sm_ok m \<Longrightarrow> set (sm_view m) \<subseteq> set (tl_view l) \<Longrightarrow> tl_ok (l\<lparr>txs := m\<rparr>)"
  by (auto simp: tl_ok_def tl_view_def)

lemma tl_view_sorted: "tl_ok l \<Longrightarrow> nonce_sorted (tl_view l)"
  by (simp add: tl_ok_sm tl_view_def sm.view_sorted)

lemma tl_Len_view: "tl_Len l = length (tl_view l)"
  by (simp add: tl_Len_def tl_view_def sm_Len_view)

lemma tl_Empty_view: "tl_Empty l \<longleftrightarrow> tl_view l = []"
  by (simp add: tl_Empty_def tl_Len_view)

lemma tl_Add_reject:
  assumes "sm_Get (txs l) (Nonce t) = Some old" and "GasPrice t \<le> price_threshold old pb"
  shows "tl_Add t pb l = (False, None, l)"
  using assms by (simp add: tl_Add_def)

lemma tl_Add_accept:
  assumes ok: "tl_ok l"
    and acc: "\<And>old. sm_Get (txs l) (Nonce t) = Some old \<Longrightarrow> price_threshold old pb < GasPrice t"
  obtains l' where "tl_Add t pb l = (True, sm_Get (txs l) (Nonce t), l')" and "tl_ok l'"
    and "strict l' = strict l" and "txs l' = sm_Put t (txs l)"
    and "set (tl_view l') = insert t {u \<in> set (tl_view l). Nonce u \<noteq> Nonce t}"
proof -
  define l1 where "l1 = l\<lparr>txs := sm_Put t (txs l), costcap := max (costcap l) (Cost t),
    gascap := max (gascap l) (GasLimit t)\<rparr>"
  have "\<not> (case sm_Get (txs l) (Nonce t) of None \<Rightarrow> False | Some o' \<Rightarrow> GasPrice t \<le> price_threshold o' pb)"
    using acc by (auto split: option.splits dest: leD)
  then have "tl_Add t pb l = (True, sm_Get (txs l) (Nonce t), l1)"
    by (simp add: tl_Add_def Let_def l1_def max_def)
  moreover have v: "set (tl_view l1) = insert t {u \<in> set (tl_view l). Nonce u \<noteq> Nonce t}"
    using sm.set_put [OF tl_ok_sm [OF ok]] by (simp add: tl_view_def l1_def)
  moreover have "tl_ok l1"
    unfolding tl_ok_def v
    using ok sm.ok_put [OF tl_ok_sm [OF ok]] by (auto simp: tl_ok_def l1_def max_def)
  ultimately show ?thesis by (intro that [of l1]) (simp_all add: l1_def)
qed

lemma tl_Add_ok:
  assumes "tl_ok l"
  shows "tl_ok (snd (snd (tl_Add t pb l)))"
proof (cases "\<exists>old. sm_Get (txs l) (Nonce t) = Some old \<and> GasPrice t \<le> price_threshold old pb")
  case True
  with assms show ?thesis by (auto simp: tl_Add_reject)
next
  case False
  then have acc: "\<And>old. sm_Get (txs l) (Nonce t) = Some old \<Longrightarrow> price_threshold old pb < GasPrice t"
    by (auto simp: not_le)
  show ?thesis by (rule tl_Add_accept [OF assms acc]) simp_all
qed

lemma tl_Forward_spec:
  assumes "tl_ok l"
  obtains l' where "tl_Forward n l = Some (takeWhile (\<lambda>t. Nonce t < n) (tl_view l), l')"
    and "tl_ok l'" and "strict l' = strict l"
    and "tl_view l' = dropWhile (\<lambda>t. Nonce t < n) (tl_view l)"
proof (rule sm_Forward_spec [OF tl_ok_sm [OF assms], of n])
  fix m' assume m: "sm_Forward n (txs l) = Some (takeWhile (\<lambda>t. Nonce t < n) (sm_view (txs l)), m')"
    "sm_ok m'" "sm_view m' = dropWhile (\<lambda>t. Nonce t < n) (sm_view (txs l))"
  moreover have "tl_ok (l\<lparr>txs := m'\<rparr>)"
    using assms m by (intro tl_ok_subset) (auto simp: tl_view_def dest: set_dropWhileD)
  ultimately show thesis by (intro that [of "l\<lparr>txs := m'\<rparr>"]) (simp_all add: tl_Forward_def tl_view_def)
qed

lemma tl_Cap_spec:
  assumes "tl_ok l" and "0 \<le> lim"
  obtains l' where "tl_Cap lim l = Some (rev (drop (nat lim) (tl_view l)), l')"
    and "tl_ok l'" and "strict l' = strict l" and "tl_view l' = take (nat lim) (tl_view l)"
proof (rule sm_Cap_spec [OF tl_ok_sm [OF assms(1)] assms(2)])
  fix m' assume m: "sm_Cap lim (txs l) = Some (rev (drop (nat lim) (sm_view (txs l))), m')"
    "sm_ok m'" "sm_view m' = take (nat lim) (sm_view (txs l))"
  moreover have "tl_ok (l\<lparr>txs := m'\<rparr>)"
    using assms m by (intro tl_ok_subset) (auto simp: tl_view_def dest: in_set_takeD)
  ultimately show thesis by (intro that [of "l\<lparr>txs := m'\<rparr>"]) (simp_all add: tl_Cap_def tl_view_def)
qed

lemma tl_Flatten_spec:
  assumes "tl_ok l"
  shows "fst (tl_Flatten l) = tl_view l" and "tl_ok (snd (tl_Flatten l))"
    and "tl_view (snd (tl_Flatten l)) = tl_view l" and "strict (snd (tl_Flatten l)) = strict l"
  using assms sm_Flatten_spec [OF tl_ok_sm [OF assms]]
  by (auto simp: tl_Flatten_def tl_view_def tl_ok_def split_beta)

lemma lowest_nonce_fold:
  "foldl (\<lambda>low t. if Nonce t < low then Nonce t else low) b ts = Min (insert b (Nonce ` set ts))"
proof (induction ts arbitrary: b)
  case (Cons t ts)
  have "(if Nonce t < b then Nonce t else b) = min (Nonce t) b" by (auto simp: min_def le_less)
  with Cons show ?case by (cases "ts = []") (simp_all add: min.assoc min.commute insert_commute)
qed simp

lemma lowest_nonce:
  assumes "ts \<noteq> []"
  shows "lowest_nonce ts \<in> Nonce ` set ts" and "t \<in> set ts \<Longrightarrow> lowest_nonce ts \<le> Nonce t"
proof -
  have "Min (Nonce ` set ts) \<le> - 1" by simp
  then have "lowest_nonce ts = Min (Nonce ` set ts)"
    using assms by (simp add: lowest_nonce_def lowest_nonce_fold min_absorb2)
  with assms show "lowest_nonce ts \<in> Nonce ` set ts" "t \<in> set ts \<Longrightarrow> lowest_nonce ts \<le> Nonce t"
    by simp_all
qed

lemma tl_Filter_spec:
  assumes ok: "tl_ok l" and f: "tl_Filter cl gl l = (removed, invalids, l')"
  shows "tl_ok l'" and "strict l' = strict l"
    and "tl_view l' = (if strict l then takeWhile (\<lambda>t. \<not> unaffordable cl gl t) (tl_view l)
                       else filter (\<lambda>t. \<not> unaffordable cl gl t) (tl_view l))"
    and "mset removed = mset (filter (unaffordable cl gl) (tl_view l))"
    and "set invalids = {t \<in> set (tl_view l). \<not> unaffordable cl gl t \<and> t \<notin> set (tl_view l')}"
proof -
  let ?bad = "unaffordable cl gl"
  note sok = tl_ok_sm [OF ok]
  obtain rem m where fm: "sm_Filter ?bad (txs l) = (rem, m)" by fastforce
  have m: "sm_ok m" "sm_view m = filter (\<lambda>t. \<not> ?bad t) (tl_view l)" "mset rem = mset (filter ?bad (tl_view l))"
    using sm.ok_filt [OF sok, of ?bad] sm.view_filt [OF sok, of ?bad] sm.mset_filt [OF sok, of ?bad] fm
    by (auto simp: tl_view_def)
  have full: "tl_ok l' \<and> strict l' = strict l \<and>
     tl_view l' = (if strict l then takeWhile (\<lambda>t. \<not> ?bad t) (tl_view l) else filter (\<lambda>t. \<not> ?bad t) (tl_view l)) \<and>
     mset removed = mset (filter ?bad (tl_view l)) \<and>
     set invalids = {t \<in> set (tl_view l). \<not> ?bad t \<and> t \<notin> set (tl_view l')}"
  proof (cases "costcap l \<le> cl \<and> gascap l \<le> gl")
    case True
    then have r: "removed = []" "invalids = []" "l' = l" using f by (auto simp: tl_Filter_def)
    have all: "\<forall>t \<in> set (tl_view l). \<not> ?bad t"
      using True ok by (auto simp: tl_ok_def)
    then have tw: "takeWhile (\<lambda>t. \<not> ?bad t) (tl_view l) = tl_view l"
      "filter (\<lambda>t. \<not> ?bad t) (tl_view l) = tl_view l" "filter ?bad (tl_view l) = []"
      by (simp_all add: takeWhile_eq_all_conv filter_id_conv filter_empty_conv)
    show ?thesis unfolding r tw using ok by simp
  next
    case False
    show ?thesis
    proof (cases "strict l \<and> 0 < length rem")
      case True
      define low where "low = lowest_nonce rem"
      obtain inv m' where fm': "sm_Filter (\<lambda>t. low < Nonce t) m = (inv, m')" by fastforce
      have r: "removed = rem" "invalids = inv" "l' = l\<lparr>costcap := cl, gascap := gl, txs := m'\<rparr>"
        using f False True fm fm' by (auto simp: tl_Filter_def low_def)
      have m': "sm_ok m'" "set inv = {t \<in> set (sm_view m). low < Nonce t}"
        "sm_view m' = filter (\<lambda>t. \<not> low < Nonce t) (sm_view m)"
        using sm.ok_filt [OF m(1), of "\<lambda>t. low < Nonce t"] sm.set_filt [OF m(1), of "\<lambda>t. low < Nonce t"]
          sm.view_filt [OF m(1), of "\<lambda>t. low < Nonce t"] fm' by auto
      have ne: "rem \<noteq> []" using True by auto
      have v: "sm_view m' = takeWhile (\<lambda>t. \<not> ?bad t) (tl_view l)"
        using sm.strict_filter [OF sok fm ne lowest_nonce(1,2) [OF ne]] fm'
        by (simp add: tl_view_def low_def)
      have "set inv = {t \<in> set (tl_view l). \<not> ?bad t \<and> t \<notin> set (sm_view m')}"
        using m'(2,3) m(2) by auto
      moreover have "tl_ok l'"
        using m'(1) v by (auto simp: tl_ok_def tl_view_def r dest: set_takeWhileD)
      ultimately show ?thesis using r v m True by (auto simp: tl_view_def)
    next
      case nostrict: False
      have r: "removed = rem" "invalids = []" "l' = l\<lparr>costcap := cl, gascap := gl, txs := m\<rparr>"
        using f False nostrict fm by (auto simp: tl_Filter_def)
      have "takeWhile (\<lambda>t. \<not> ?bad t) (tl_view l) = filter (\<lambda>t. \<not> ?bad t) (tl_view l)" if "strict l"
      proof -
        from that nostrict m(3) have "filter ?bad (tl_view l) = []" by simp
        then have "\<forall>t \<in> set (tl_view l). \<not> ?bad t" by (simp add: filter_empty_conv)
        then have "takeWhile (\<lambda>t. \<not> ?bad t) (tl_view l) = tl_view l"
          "filter (\<lambda>t. \<not> ?bad t) (tl_view l) = tl_view l"
          by (simp_all add: takeWhile_eq_all_conv filter_id_conv)
        then show ?thesis by simp
      qed
      then show ?thesis using r m by (auto simp: tl_ok_def tl_view_def)
    qed
  qed
  then show "tl_ok l'" "strict l' = strict l"
    "tl_view l' = (if strict l then takeWhile (\<lambda>t. \<not> ?bad t) (tl_view l) else filter (\<lambda>t. \<not> ?bad t) (tl_view l))"
    "mset removed = mset (filter ?bad (tl_view l))"
    "set invalids = {t \<in> set (tl_view l). \<not> ?bad t \<and> t \<notin> set (tl_view l')}"
    by blast+
qed

lemma tl_Remove_spec:
  assumes ok: "tl_ok l"
  obtains found invalids l' where "tl_Remove t l = Some (found, invalids, l')"
    and "found \<longleftrightarrow> (\<exists>u \<in> set (tl_view l). Nonce u = Nonce t)"
    and "tl_ok l'" and "strict l' = strict l"
    and "tl_view l' = (if strict l \<and> found then takeWhile (\<lambda>u. Nonce u < Nonce t) (tl_view l)
                       else filter (\<lambda>u. Nonce u \<noteq> Nonce t) (tl_view l))"
    and "set invalids = (if strict l \<and> found then {u \<in> set (tl_view l). Nonce t < Nonce u} else {})"
proof -
  note sok = tl_ok_sm [OF ok]
  let ?found = "\<exists>u \<in> set (tl_view l). Nonce u = Nonce t"
  from sm.remove_view [OF sok, of "Nonce t"] obtain m where
    m: "sm_Remove (Nonce t) (txs l) = Some (?found, m)" "sm_ok m"
      "sm_view m = filter (\<lambda>u. Nonce u \<noteq> Nonce t) (tl_view l)"
    by (auto simp: tl_view_def)
  show ?thesis
  proof (cases "?found \<and> strict l")
    case True
    let ?P = "\<lambda>u. Nonce t < Nonce u"
    obtain inv m' where fm: "sm_Filter ?P m = (inv, m')" by fastforce
    have m': "sm_ok m'" "set inv = {u \<in> set (sm_view m). ?P u}"
        "sm_view m' = takeWhile (\<lambda>u. Nonce u < Nonce t) (tl_view l)"
      using sm.ok_filt [OF m(2), of ?P] sm.set_filt [OF m(2), of ?P] fm
        sm.strict_remove [OF sok, of "Nonce t" m] m(1) True by (auto simp: tl_view_def)
    have 1: "tl_Remove t l = Some (True, inv, l\<lparr>txs := m'\<rparr>)"
      using m(1) True fm by (simp add: tl_Remove_def)
    have 2: "tl_ok (l\<lparr>txs := m'\<rparr>)"
      using m' by (intro tl_ok_subset [OF ok]) (auto dest: set_takeWhileD)
    have 3: "set inv = {u \<in> set (tl_view l). Nonce t < Nonce u}"
      unfolding m'(2) m(3) set_filter by (rule Collect_cong) (use less_irrefl in force)
    have 4: "tl_view (l\<lparr>txs := m'\<rparr>) = takeWhile (\<lambda>u. Nonce u < Nonce t) (tl_view l)"
      using m'(3) by (simp add: tl_view_def)
    show ?thesis by (rule that [OF 1 _ 2]) (use True 3 4 in simp_all)
  next
    case False
    have 1: "tl_Remove t l = Some (?found, [], l\<lparr>txs := m\<rparr>)"
      using m(1) False by (cases "?found") (auto simp: tl_Remove_def)
    have 2: "tl_ok (l\<lparr>txs := m\<rparr>)" using m by (intro tl_ok_subset [OF ok]) auto
    have 4: "tl_view (l\<lparr>txs := m\<rparr>) = filter (\<lambda>u. Nonce u \<noteq> Nonce t) (tl_view l)"
      using m(3) by (simp add: tl_view_def)
    from False have 5: "\<not> (strict l \<and> ?found)" by blast
    show ?thesis by (rule that [OF 1 refl 2]) (simp_all only: 4 5 if_False simp_thms list.set, simp)
  qed
qed

lemma tl_Ready_spec:
  assumes "tl_ok l"
  obtains ready l' where "tl_Ready start l = Some (ready, l')"
    and "ready = (case tl_view l of [] \<Rightarrow> [] | t # _ \<Rightarrow>
           if start < Nonce t then [] else consecutive (Nonce t) (tl_view l))"
    and "tl_ok l'" and "strict l' = strict l" and "tl_view l = ready @ tl_view l'"
proof (rule sm_Ready_spec [OF tl_ok_sm [OF assms], of start])
  fix ready m' assume m: "sm_Ready start (txs l) = Some (ready, m')"
    "ready = (case sm_view (txs l) of [] \<Rightarrow> [] | t # _ \<Rightarrow>
       if start < Nonce t then [] else consecutive (Nonce t) (sm_view (txs l)))"
    "sm_ok m'" "sm_view (txs l) = ready @ sm_view m'"
  have 1: "tl_Ready start l = Some (ready, l\<lparr>txs := m'\<rparr>)" by (simp add: tl_Ready_def m(1))
  have 2: "tl_view l = ready @ tl_view (l\<lparr>txs := m'\<rparr>)" by (simp add: tl_view_def m(4))
  then have 3: "tl_ok (l\<lparr>txs := m'\<rparr>)" by (intro tl_ok_subset [OF assms m(3)]) (simp add: tl_view_def)
  show thesis by (rule that [OF 1 m(2) [folded tl_view_def] 3 _ 2]) simp
qed

section \<open>Correctness of txPricedList\<close>

text \<open>A heap entry is live when the pool still holds its hash; the others are stale.\<close>

abbreviation live :: "allmap \<Rightarrow> tx \<Rightarrow> bool" where
  "live all t \<equiv> map_of all (Hash t) \<noteq> None"

text \<open>
  What a pop loop does to the heap: the popped live entries are in \<open>D\<close> (dropped) or \<open>S\<close> (saved),
  the others were stale and each lowered the counter by one.
\<close>

definition pop_split ::
  "allmap \<Rightarrow> tx list \<Rightarrow> int \<Rightarrow> tx list \<Rightarrow> int \<Rightarrow> tx list \<Rightarrow> tx list \<Rightarrow> bool"
where
  "pop_split all its st its' st' D S \<longleftrightarrow>
     is_heap GasPrice its' \<and> set its' \<subseteq> set its \<and> set D \<union> set S \<subseteq> {t \<in> set its. live all t} \<and>
     {t \<in> set its. live all t} \<subseteq> set its' \<union> set D \<union> set S \<and>
     int (length its') - st' + int (length D) + int (length S) = int (length its) - st"

lemma pop_split_refl: "is_heap GasPrice its \<Longrightarrow> pop_split all its st its st [] []"
  by (auto simp: pop_split_def)

lemma pop_split_stale:
  assumes "is_heap GasPrice its" "priceHeap_Pop its = Some (t, its1)" "map_of all (Hash t) = None"
    and "pop_split all its1 (st - 1) its' st' D S"
  shows "pop_split all its st its' st' D S"
  using assms(3,4) goheap.pop_cases [OF assms(1,2)] by (auto simp: pop_split_def)

lemma pop_split_drop:
  assumes "is_heap GasPrice its" "priceHeap_Pop its = Some (t, its1)" "live all t"
    and "pop_split all its1 st its' st' D S"
  shows "pop_split all its st its' st' (t # D) S"
  using assms(3,4) goheap.pop_cases [OF assms(1,2)] by (auto simp: pop_split_def)

lemma pop_split_save:
  assumes "is_heap GasPrice its" "priceHeap_Pop its = Some (t, its1)" "live all t"
    and "pop_split all its1 st its' st' D S"
  shows "pop_split all its st its' st' D (t # S)"
  using assms(3,4) goheap.pop_cases [OF assms(1,2)] by (auto simp: pop_split_def)

lemma pop_None: "heap_pop key its = None \<longleftrightarrow> its = []"
  by (simp add: heap_pop_def Let_def)

lemma pl_cap_loop_spec:
  "is_heap GasPrice its \<Longrightarrow>
   \<exists>its' st' D S. pl_cap_loop all loc th its st dropped saved = (its', st', dropped @ D, saved @ S) \<and>
     pop_split all its st its' st' D S \<and>
     set D = {t \<in> set its. live all t \<and> \<not> loc t \<and> GasPrice t < th}"
proof (induction all loc th its st dropped saved rule: pl_cap_loop.induct)
  case (1 all loc th its st dropped saved)
  show ?case
  proof (cases "priceHeap_Pop its")
    case None
    with pop_None [of GasPrice its] pop_split_refl [OF "1.prems"] show ?thesis
      by (subst pl_cap_loop.simps) auto
  next
    case (Some p)
    obtain t its1 where pop: "priceHeap_Pop its = Some (t, its1)" using Some by (cases p) auto
    note pc = goheap.pop_cases [OF "1.prems" pop]
    note IH = "1.IH" [OF pop refl]
    consider (stale) "map_of all (Hash t) = None" | (stop) "live all t" "th \<le> GasPrice t"
      | (save) "live all t" "\<not> th \<le> GasPrice t" "loc t" | (drop) "live all t" "\<not> th \<le> GasPrice t" "\<not> loc t"
      by blast
    then show ?thesis
    proof cases
      case stale
      from IH(1) [OF stale pc(2)] obtain its' st' D S where
        "pl_cap_loop all loc th its1 (st - 1) dropped saved = (its', st', dropped @ D, saved @ S)"
        and sp: "pop_split all its1 (st - 1) its' st' D S"
        and D: "set D = {t \<in> set its1. live all t \<and> \<not> loc t \<and> GasPrice t < th}" by blast
      moreover have "set D = {t \<in> set its. live all t \<and> \<not> loc t \<and> GasPrice t < th}"
        unfolding D pc(4) using stale by auto
      ultimately show ?thesis
        using pop stale pop_split_stale [OF "1.prems" pop stale sp] by (subst pl_cap_loop.simps) auto
    next
      case stop
      have "{u \<in> set its. live all u \<and> \<not> loc u \<and> GasPrice u < th} = {}"
        unfolding pc(4) using stop(2) pc(7) by force
      with pop stop pop_split_save [OF "1.prems" pop stop(1) pop_split_refl [OF pc(2)]]
      show ?thesis by (subst pl_cap_loop.simps) auto
    next
      case save
      from IH(2) [OF save(1,2,3) pc(2)] obtain its' st' D S where
        "pl_cap_loop all loc th its1 st dropped (saved @ [t]) = (its', st', dropped @ D, saved @ t # S)"
        and sp: "pop_split all its1 st its' st' D S"
        and D: "set D = {t \<in> set its1. live all t \<and> \<not> loc t \<and> GasPrice t < th}" by auto
      moreover have "set D = {t \<in> set its. live all t \<and> \<not> loc t \<and> GasPrice t < th}"
        unfolding D pc(4) using save by auto
      ultimately show ?thesis
        using pop save pop_split_save [OF "1.prems" pop save(1) sp] by (subst pl_cap_loop.simps) auto
    next
      case drop
      from IH(3) [OF drop pc(2)] obtain its' st' D S where
        "pl_cap_loop all loc th its1 st (dropped @ [t]) saved = (its', st', dropped @ t # D, saved @ S)"
        and sp: "pop_split all its1 st its' st' D S"
        and D: "set D = {t \<in> set its1. live all t \<and> \<not> loc t \<and> GasPrice t < th}" by auto
      moreover have "set (t # D) = {t \<in> set its. live all t \<and> \<not> loc t \<and> GasPrice t < th}"
        unfolding pc(4) using D drop by auto
      ultimately show ?thesis
        using pop drop pop_split_drop [OF "1.prems" pop drop(1) sp] by (subst pl_cap_loop.simps) auto
    qed
  qed
qed

lemma pl_discard_loop_spec:
  "is_heap GasPrice its \<Longrightarrow>
   \<exists>its' st' D S. pl_discard_loop all loc cnt its st dropped saved = (its', st', dropped @ D, saved @ S) \<and>
     pop_split all its st its' st' D S \<and> (\<forall>t \<in> set D. \<not> loc t) \<and> (\<forall>t \<in> set S. loc t) \<and>
     int (length D) \<le> max 0 cnt \<and> (int (length D) < cnt \<longrightarrow> its' = []) \<and>
     (\<forall>d \<in> set D. \<forall>t \<in> set its'. GasPrice d \<le> GasPrice t)"
proof (induction all loc cnt its st dropped saved rule: pl_discard_loop.induct)
  case (1 all loc cnt its st dropped saved)
  show ?case
  proof (cases "cnt \<le> 0 \<or> its = []")
    case True
    with pop_None [of GasPrice its] pop_split_refl [OF "1.prems"] show ?thesis
      by (subst pl_discard_loop.simps) auto
  next
    case False
    then have cnt: "\<not> cnt \<le> 0" and "priceHeap_Pop its \<noteq> None"
      using pop_None [of GasPrice its] by auto
    then obtain t its1 where pop: "priceHeap_Pop its = Some (t, its1)" by fastforce
    note pc = goheap.pop_cases [OF "1.prems" pop]
    note IH = "1.IH" [OF cnt pop refl]
    consider (stale) "map_of all (Hash t) = None" | (save) "live all t" "loc t"
      | (drop) "live all t" "\<not> loc t" by blast
    then show ?thesis
    proof cases
      case stale
      from IH(1) [OF stale pc(2)] pop stale cnt pop_split_stale [OF "1.prems" pop stale]
      show ?thesis by (subst pl_discard_loop.simps) fastforce
    next
      case save
      from IH(2) [OF save pc(2)] obtain its' st' D S where
        "pl_discard_loop all loc cnt its1 st dropped (saved @ [t]) = (its', st', dropped @ D, saved @ t # S)"
        and sp: "pop_split all its1 st its' st' D S"
        and "\<forall>t \<in> set D. \<not> loc t" "\<forall>t \<in> set S. loc t" "int (length D) \<le> max 0 cnt"
          "int (length D) < cnt \<longrightarrow> its' = []" "\<forall>d \<in> set D. \<forall>t \<in> set its'. GasPrice d \<le> GasPrice t"
        by auto
      moreover from this have "pl_discard_loop all loc cnt its st dropped saved =
          (its', st', dropped @ D, saved @ (t # S))"
        using pop save cnt by (subst pl_discard_loop.simps) auto
      ultimately show ?thesis using pop_split_save [OF "1.prems" pop save(1) sp] save(2)
        by (metis set_ConsD)
    next
      case drop
      from IH(3) [OF drop pc(2)] obtain its' st' D S where
        "pl_discard_loop all loc (cnt - 1) its1 st (dropped @ [t]) saved = (its', st', dropped @ t # D, saved @ S)"
        and sp: "pop_split all its1 st its' st' D S"
        and "\<forall>t \<in> set D. \<not> loc t" "\<forall>t \<in> set S. loc t" "int (length D) \<le> max 0 (cnt - 1)"
          "int (length D) < cnt - 1 \<longrightarrow> its' = []" "\<forall>d \<in> set D. \<forall>t \<in> set its'. GasPrice d \<le> GasPrice t"
        by auto
      moreover have "\<forall>u \<in> set its'. GasPrice t \<le> GasPrice u"
        using sp pc(7) by (auto simp: pop_split_def)
      moreover from calculation have "pl_discard_loop all loc cnt its st dropped saved =
          (its', st', dropped @ (t # D), saved @ S)"
        using pop drop cnt by (subst pl_discard_loop.simps) auto
      moreover have "int (length (t # D)) \<le> max 0 cnt" "int (length (t # D)) < cnt \<longrightarrow> its' = []"
        using calculation(5,6) cnt by auto
      ultimately show ?thesis using pop_split_drop [OF "1.prems" pop drop(1) sp] drop(2)
        by (metis set_ConsD)
    qed
  qed
qed

lemma pl_fresh_loop_spec:
  "is_heap GasPrice its \<Longrightarrow>
   \<exists>its' st'. pl_fresh_loop all its st = (its', st') \<and> pop_split all its st its' st' [] [] \<and>
     (its' \<noteq> [] \<longrightarrow> live all (its' ! 0))"
proof (induction all its st rule: pl_fresh_loop.induct)
  case (1 all its st)
  show ?case
  proof (cases "its \<noteq> [] \<and> map_of all (Hash (its ! 0)) = None")
    case True
    then obtain t its1 where pop: "priceHeap_Pop its = Some (t, its1)"
      using pop_None [of GasPrice its] by fastforce
    note pc = goheap.pop_cases [OF "1.prems" pop]
    have stale: "map_of all (Hash t) = None" using True pc(1) by simp
    from "1.IH" [OF True pop refl pc(2)] obtain its' st' where
      "pl_fresh_loop all its1 (st - 1) = (its', st')" "pop_split all its1 (st - 1) its' st' [] []"
      "its' \<noteq> [] \<longrightarrow> live all (its' ! 0)" by blast
    with pop True pop_split_stale [OF "1.prems" pop stale] show ?thesis
      by (subst pl_fresh_loop.simps) auto
  next
    case False
    with pop_split_refl [OF "1.prems"] show ?thesis by (subst pl_fresh_loop.simps) auto
  qed
qed

lemma fold_push:
  "is_heap GasPrice its \<Longrightarrow> is_heap GasPrice (fold priceHeap_Push S its)"
  "set (fold priceHeap_Push S its) = set its \<union> set S"
  "length (fold priceHeap_Push S its) = length its + length S"
proof -
  have len: "length (priceHeap_Push t its) = Suc (length its)" for t its
    by (metis goheap.mset_push size_add_mset size_mset)
  show "is_heap GasPrice its \<Longrightarrow> is_heap GasPrice (fold priceHeap_Push S its)"
    by (induction S arbitrary: its) (auto simp: goheap.invar_push)
  show "set (fold priceHeap_Push S its) = set its \<union> set S"
    by (induction S arbitrary: its) (auto simp: goheap.set_push)
  show "length (fold priceHeap_Push S its) = length its + length S"
    by (induction S arbitrary: its) (auto simp: len)
qed

text \<open>The heap order, and every pool transaction on the heap.\<close>

definition pl_ok :: "allmap \<Rightarrow> txPricedList \<Rightarrow> bool" where
  "pl_ok all l \<longleftrightarrow> is_heap GasPrice (pl_items l) \<and> (\<forall>p \<in> set all. snd p \<in> set (pl_items l))"

text \<open>The number of entries the counter holds to be live.\<close>

definition pl_live :: "txPricedList \<Rightarrow> int" where
  "pl_live l = int (length (pl_items l)) - stales l"

definition all_ok :: "allmap \<Rightarrow> bool" where
  "all_ok all \<longleftrightarrow> gomap_ok all \<and> (\<forall>p \<in> set all. Hash (snd p) = fst p)"

lemma all_ok_live: "all_ok all \<Longrightarrow> p \<in> set all \<Longrightarrow> live all (snd p)"
  unfolding map_of_keys all_ok_def by force

lemma all_ok_Nil [simp]: "all_ok []"
  by (simp add: all_ok_def)

lemma all_ok_update: "all_ok all \<Longrightarrow> all_ok (AList.update (Hash t) t all)"
  unfolding all_ok_def
proof (intro conjI ballI)
  fix p assume ok: "gomap_ok all \<and> (\<forall>p \<in> set all. Hash (snd p) = fst p)"
    and p: "p \<in> set (AList.update (Hash t) t all)"
  then have "map_of (AList.update (Hash t) t all) (fst p) = Some (snd p)"
    by (simp add: map_of_gomap)
  then show "Hash (snd p) = fst p"
    using ok by (auto simp: AList.update_conv' map_of_gomap split: if_splits)
qed simp

lemma all_ok_delete: "all_ok all \<Longrightarrow> all_ok (AList.delete h all)"
  by (auto simp: all_ok_def delete_as_filter)

lemma all_values: "all_ok all \<Longrightarrow> t \<in> snd ` set all \<longleftrightarrow> map_of all (Hash t) = Some t"
  by (force simp: all_ok_def map_of_gomap)

lemma newTxPricedList_ok [simp]: "pl_ok [] newTxPricedList"
  by (simp add: pl_ok_def newTxPricedList_def goheap.invar_Nil)

lemma pl_Put_ok: "pl_ok all l \<Longrightarrow> pl_ok (AList.update h t all) (pl_Put t l)"
  using set_update_subset [of h t all]
  by (auto simp: pl_ok_def pl_Put_def goheap.invar_push goheap.set_push)

lemma pl_Removed_ok: "pl_ok all l \<Longrightarrow> pl_ok (AList.delete h all) (pl_Removed (AList.delete h all) l)"
  using set_delete_subset [of h all]
  by (auto simp: pl_ok_def pl_Removed_def Let_def goheap.invar_init goheap.set_init)

lemma pl_Cap_spec:
  assumes "is_heap GasPrice (pl_items l)" and "pl_Cap all loc th l = (D, l')"
  shows "is_heap GasPrice (pl_items l')"
    and "set D = {t \<in> set (pl_items l). live all t \<and> \<not> loc t \<and> GasPrice t < th}"
    and "{t \<in> set (pl_items l). live all t} \<subseteq> set (pl_items l') \<union> set D"
    and "pl_live l' + int (length D) = pl_live l"
proof -
  from pl_cap_loop_spec [OF assms(1), of all loc th "stales l" "[]" "[]"] obtain its' st' S where
    r: "pl_cap_loop all loc th (pl_items l) (stales l) [] [] = (its', st', D, S)"
      "pop_split all (pl_items l) (stales l) its' st' D S"
      "set D = {t \<in> set (pl_items l). live all t \<and> \<not> loc t \<and> GasPrice t < th}"
    using assms(2) by (auto simp: pl_Cap_def)
  then have l': "l' = l\<lparr>pl_items := fold priceHeap_Push S its', stales := st'\<rparr>"
    using assms(2) by (auto simp: pl_Cap_def)
  show "is_heap GasPrice (pl_items l')" "{t \<in> set (pl_items l). live all t} \<subseteq> set (pl_items l') \<union> set D"
    "pl_live l' + int (length D) = pl_live l"
    using r(2) by (auto simp: l' pop_split_def fold_push pl_live_def)
  show "set D = {t \<in> set (pl_items l). live all t \<and> \<not> loc t \<and> GasPrice t < th}" by (fact r(3))
qed

lemma pl_Discard_spec:
  assumes "is_heap GasPrice (pl_items l)" and "pl_Discard all loc cnt l = (D, l')"
  shows "is_heap GasPrice (pl_items l')"
    and "\<forall>t \<in> set D. t \<in> set (pl_items l) \<and> live all t \<and> \<not> loc t"
    and "{t \<in> set (pl_items l). live all t} \<subseteq> set (pl_items l') \<union> set D"
    and "int (length D) \<le> max 0 cnt"
    and "\<forall>d \<in> set D. \<forall>t \<in> set (pl_items l'). \<not> loc t \<longrightarrow> GasPrice d \<le> GasPrice t"
    and "int (length D) < cnt \<longrightarrow> (\<forall>t \<in> set (pl_items l'). loc t)"
    and "pl_live l' + int (length D) = pl_live l"
proof -
  from pl_discard_loop_spec [OF assms(1), of all loc cnt "stales l" "[]" "[]"] obtain its' st' S where
    r: "pl_discard_loop all loc cnt (pl_items l) (stales l) [] [] = (its', st', D, S)"
      "pop_split all (pl_items l) (stales l) its' st' D S" "\<forall>t \<in> set D. \<not> loc t" "\<forall>t \<in> set S. loc t"
      "int (length D) \<le> max 0 cnt" "int (length D) < cnt \<longrightarrow> its' = []"
      "\<forall>d \<in> set D. \<forall>t \<in> set its'. GasPrice d \<le> GasPrice t"
    using assms(2) by (auto simp: pl_Discard_def)
  then have l': "l' = l\<lparr>pl_items := fold priceHeap_Push S its', stales := st'\<rparr>"
    using assms(2) by (auto simp: pl_Discard_def)
  show "is_heap GasPrice (pl_items l')" "{t \<in> set (pl_items l). live all t} \<subseteq> set (pl_items l') \<union> set D"
    "\<forall>t \<in> set D. t \<in> set (pl_items l) \<and> live all t \<and> \<not> loc t"
    "pl_live l' + int (length D) = pl_live l"
    using r(2,3) by (auto simp: l' pop_split_def fold_push pl_live_def)
  show "int (length D) \<le> max 0 cnt" by (fact r(5))
  show "\<forall>d \<in> set D. \<forall>t \<in> set (pl_items l'). \<not> loc t \<longrightarrow> GasPrice d \<le> GasPrice t"
    using r(4,7) by (auto simp: l' fold_push)
  show "int (length D) < cnt \<longrightarrow> (\<forall>t \<in> set (pl_items l'). loc t)"
    using r(4,6) by (auto simp: l' fold_push)
qed

lemma pl_Underpriced_spec:
  assumes ok: "all_ok all" "pl_ok all l" and u: "pl_Underpriced all loc t l = (b, l')"
  shows "pl_ok all l'" and "pl_live l' = pl_live l"
    and "b \<longleftrightarrow> \<not> loc t \<and> (\<exists>v \<in> set (pl_items l). live all v) \<and>
           (\<forall>v \<in> set (pl_items l). live all v \<longrightarrow> GasPrice t \<le> GasPrice v)"
proof -
  have h: "is_heap GasPrice (pl_items l)" using ok(2) by (simp add: pl_ok_def)
  from pl_fresh_loop_spec [OF h, of all "stales l"] obtain its' st' where
    f: "pl_fresh_loop all (pl_items l) (stales l) = (its', st')"
      "pop_split all (pl_items l) (stales l) its' st' [] []" "its' \<noteq> [] \<longrightarrow> live all (its' ! 0)"
    by blast
  then have sub: "set its' \<subseteq> set (pl_items l)" "{v \<in> set (pl_items l). live all v} \<subseteq> set its'"
    and h': "is_heap GasPrice its'" by (auto simp: pop_split_def)
  show "pl_ok all l'" "pl_live l' = pl_live l"
    using u f ok sub h' all_ok_live [OF ok(1)]
    by (auto simp: pl_Underpriced_def pl_ok_def pop_split_def pl_live_def Let_def split: if_splits)
  show "b \<longleftrightarrow> \<not> loc t \<and> (\<exists>v \<in> set (pl_items l). live all v) \<and>
           (\<forall>v \<in> set (pl_items l). live all v \<longrightarrow> GasPrice t \<le> GasPrice v)"
  proof (cases "loc t \<or> its' = []")
    case True
    with u f sub show ?thesis by (auto simp: pl_Underpriced_def Let_def split: if_splits)
  next
    case False
    then have b: "b \<longleftrightarrow> GasPrice t \<le> GasPrice (its' ! 0)"
      using u f by (auto simp: pl_Underpriced_def Let_def)
    have hd: "its' ! 0 \<in> set its'" "live all (its' ! 0)" using False f(3) by auto
    have "GasPrice (its' ! 0) \<le> GasPrice v" if "v \<in> set (pl_items l)" "live all v" for v
      using sub(2) that goheap.head_min [OF h', of v] by blast
    with b hd sub False show ?thesis by (meson order_trans subsetD)
  qed
qed

section \<open>Properties\<close>

lemma tl_Get_view: "tl_ok l \<Longrightarrow> sm_Get (txs l) n = Some u \<longleftrightarrow> u \<in> set (tl_view l) \<and> Nonce u = n"
  using sm.get_view [OF tl_ok_sm] by (simp add: tl_view_def)

text \<open>
  C37: \<open>txList.Add\<close> inserts exactly when no stored transaction of the same nonce has a bumped price at
  or above the new one. A rejected transaction changes nothing; an inserted one takes the place of
  the old one, which is returned, and the caps keep bounding every stored transaction.
\<close>

theorem tl_Add_correct:
  assumes ok: "tl_ok l" and add: "tl_Add t pb l = (inserted, old, l')"
  shows "tl_ok l' \<and> strict l' = strict l \<and>
     (inserted \<longleftrightarrow> (\<forall>u \<in> set (tl_view l). Nonce u = Nonce t \<longrightarrow> price_threshold u pb < GasPrice t)) \<and>
     (\<not> inserted \<longrightarrow> l' = l \<and> old = None) \<and>
     (inserted \<longrightarrow> set (tl_view l') = insert t {u \<in> set (tl_view l). Nonce u \<noteq> Nonce t} \<and>
        (\<forall>u. old = Some u \<longleftrightarrow> u \<in> set (tl_view l) \<and> Nonce u = Nonce t))"
proof (cases "\<exists>o'. sm_Get (txs l) (Nonce t) = Some o' \<and> GasPrice t \<le> price_threshold o' pb")
  case True
  then obtain o' where o': "sm_Get (txs l) (Nonce t) = Some o'" "GasPrice t \<le> price_threshold o' pb" by blast
  then have r: "inserted = False" "old = None" "l' = l" using add by (auto simp: tl_Add_reject)
  have "\<not> (\<forall>u \<in> set (tl_view l). Nonce u = Nonce t \<longrightarrow> price_threshold u pb < GasPrice t)"
    using o' tl_Get_view [OF ok] by (auto simp: not_less)
  with r ok show ?thesis by simp
next
  case False
  then have acc: "\<And>o'. sm_Get (txs l) (Nonce t) = Some o' \<Longrightarrow> price_threshold o' pb < GasPrice t"
    by (auto simp: not_le)
  show ?thesis
  proof (rule tl_Add_accept [OF ok acc])
    fix l1 assume l1: "tl_Add t pb l = (True, sm_Get (txs l) (Nonce t), l1)" "tl_ok l1" "strict l1 = strict l"
      "set (tl_view l1) = insert t {u \<in> set (tl_view l). Nonce u \<noteq> Nonce t}"
    have r: "inserted = True" "old = sm_Get (txs l) (Nonce t)" "l' = l1" using add l1(1) by simp_all
    have "\<forall>u \<in> set (tl_view l). Nonce u = Nonce t \<longrightarrow> price_threshold u pb < GasPrice t"
      using acc tl_Get_view [OF ok] by blast
    then show ?thesis unfolding r using l1 tl_Get_view [OF ok] by simp
  qed
qed

lemma tl_Add_fresh:
  assumes "tl_ok l" and "\<forall>u \<in> set (tl_view l). Nonce u \<noteq> Nonce t"
  shows "tl_ok (snd (snd (tl_Add t pb l)))" "set (tl_view (snd (snd (tl_Add t pb l)))) = insert t (set (tl_view l))"
proof -
  have "sm_Get (txs l) (Nonce t) = None"
    using sm.get_None [OF tl_ok_sm [OF assms(1)]] assms(2) by (simp add: tl_view_def)
  then obtain l' where "tl_Add t pb l = (True, None, l')" "tl_ok l'"
    "set (tl_view l') = insert t {u \<in> set (tl_view l). Nonce u \<noteq> Nonce t}"
    by (rule_tac tl_Add_accept [OF assms(1), of t pb]) simp_all
  moreover have "{u \<in> set (tl_view l). Nonce u \<noteq> Nonce t} = set (tl_view l)" using assms(2) by blast
  ultimately show "tl_ok (snd (snd (tl_Add t pb l)))"
    "set (tl_view (snd (snd (tl_Add t pb l)))) = insert t (set (tl_view l))" by simp_all
qed

text \<open>A one-transaction list for concrete inputs.\<close>

definition one_list :: "bool \<Rightarrow> tx \<Rightarrow> txList" where
  "one_list str t = snd (snd (tl_Add t 10 (newTxList str)))"

lemma one_list: "tl_ok (one_list str t)" "tl_view (one_list str t) = [t]" "strict (one_list str t) = str"
  by (simp_all add: one_list_def tl_Add_fresh)
    (simp_all add: one_list_def tl_Add_def newTxList_def newTxSortedMap_def sm_Get_def sm_Put_def tl_view_def sm_view_def flat_def Let_def)

theorem tl_Add_correct_witness:
  "tl_Add (sample_tx 2 5 115) 10 (one_list False (sample_tx 1 5 100)) =
     (True, Some (sample_tx 1 5 100), snd (snd (tl_Add (sample_tx 2 5 115) 10 (one_list False (sample_tx 1 5 100)))))"
proof -
  let ?l = "one_list False (sample_tx 1 5 100)"
  obtain ins old l' where a: "tl_Add (sample_tx 2 5 115) 10 ?l = (ins, old, l')" by (rule prod_cases3)
  have c: "sint (100 + 10 :: uint64) = 110" by simp
  from tl_Add_correct [OF one_list(1) a] have "ins" "old = Some (sample_tx 1 5 100)"
    by (simp_all add: one_list(2) price_threshold_def c)
  with a show ?thesis by simp
qed

text \<open>
  C38: \<open>txList.Filter\<close>, with its cap-based short circuit, returns what a direct scan of the sorted
  transactions would: all unaffordable ones are removed, and in a strict list those behind the first
  of them are invalidated, so that a strict list keeps the longest affordable prefix.
\<close>

theorem tl_Filter_correct:
  assumes "tl_ok l" and "tl_Filter cl gl l = (removed, invalids, l')"
  shows "tl_ok l' \<and> strict l' = strict l \<and>
     tl_view l' = (if strict l then takeWhile (\<lambda>t. \<not> unaffordable cl gl t) (tl_view l)
                   else filter (\<lambda>t. \<not> unaffordable cl gl t) (tl_view l)) \<and>
     mset removed = mset (filter (unaffordable cl gl) (tl_view l)) \<and>
     set invalids = {t \<in> set (tl_view l). \<not> unaffordable cl gl t \<and> t \<notin> set (tl_view l')}"
  by (intro conjI tl_Filter_spec [OF assms])

theorem tl_Filter_correct_witness:
  "\<exists>removed invalids l'. tl_Filter 100 30000 (one_list True (sample_tx 1 5 100)) = (removed, invalids, l') \<and>
     mset removed = {#sample_tx 1 5 100#} \<and> tl_view l' = []"
proof -
  let ?l = "one_list True (sample_tx 1 5 100)"
  obtain r i l' where a: "tl_Filter 100 30000 ?l = (r, i, l')" by (rule prod_cases3)
  from tl_Filter_correct [OF one_list(1) a] have "tl_view l' = []" "mset r = {#sample_tx 1 5 100#}"
    by (simp_all add: one_list(2,3))
  with a show ?thesis by blast
qed



text \<open>
  C40: \<open>txPricedList.Underpriced\<close> tells exactly whether a non-local transaction is no more expensive
  than every transaction of the pool (and the pool is not empty), although the heap it looks at
  holds stale entries.
\<close>

theorem pl_Underpriced_correct:
  assumes ok: "all_ok all" "pl_ok all l" and u: "pl_Underpriced all loc t l = (b, l')"
    and stale: "\<forall>v \<in> set (pl_items l). live all v \<longrightarrow> v \<in> snd ` set all"
  shows "pl_ok all l' \<and> (b \<longleftrightarrow> \<not> loc t \<and> all \<noteq> [] \<and> (\<forall>p \<in> set all. GasPrice t \<le> GasPrice (snd p)))"
proof -
  have 1: "(\<exists>v \<in> set (pl_items l). live all v) \<longleftrightarrow> all \<noteq> []"
  proof
    assume "all \<noteq> []"
    then have "hd all \<in> set all" by simp
    with all_ok_live [OF ok(1) this] ok(2) show "\<exists>v \<in> set (pl_items l). live all v" by (auto simp: pl_ok_def)
  qed auto
  have 2: "(\<forall>v \<in> set (pl_items l). live all v \<longrightarrow> GasPrice t \<le> GasPrice v) \<longleftrightarrow>
      (\<forall>p \<in> set all. GasPrice t \<le> GasPrice (snd p))"
    using stale all_ok_live [OF ok(1)] ok(2) unfolding pl_ok_def by (metis (no_types, lifting) imageE)
  show ?thesis using pl_Underpriced_spec(1,3) [OF ok u] unfolding 1 2 by blast
qed

theorem pl_Underpriced_correct_witness:
  "fst (pl_Underpriced [(1, sample_tx 1 5 100)] (\<lambda>t. False) (sample_tx 2 5 100)
     (pl_Put (sample_tx 1 5 100) newTxPricedList))"
proof -
  let ?all = "[(1, sample_tx 1 5 100)]" and ?l = "pl_Put (sample_tx 1 5 100) newTxPricedList"
  obtain b l' where a: "pl_Underpriced ?all (\<lambda>t. False) (sample_tx 2 5 100) ?l = (b, l')" by fastforce
  have 1: "all_ok ?all" by (simp add: all_ok_def gomap_ok_def)
  have s: "set (pl_items ?l) = {sample_tx 1 5 100}"
    by (simp add: pl_Put_def newTxPricedList_def goheap.set_push)
  have 2: "pl_ok ?all ?l"
    using s by (simp add: pl_ok_def) (simp add: pl_Put_def newTxPricedList_def goheap.invar_push goheap.invar_Nil)
  have "b" using pl_Underpriced_correct [OF 1 2 a] s by simp
  with a show ?thesis by simp
qed

end
