(* ===== verification/Gas.thy ===== *)
theory Gas
  imports Prelude
begin

text \<open>
  \<open>core/gaspool.go\<close> and \<open>IntrinsicGas\<close> of \<open>core/state_transition.go\<close>. The gas constants are
  values of the library package \<open>params\<close>: the argument \<open>gasParams\<close>.
\<close>

datatype gas_error = ErrGasLimitReached

record gasParams =
  TxGas :: uint64
  TxGasContractCreation :: uint64
  TxDataNonZeroGas :: uint64
  TxDataZeroGas :: uint64

section \<open>The block gas pool\<close>

type_synonym gasPool = bigint

definition AddGas :: "gasPool \<Rightarrow> bigint \<Rightarrow> gasPool" where
  "AddGas gp amount = gp + amount"

definition SubGas :: "gasPool \<Rightarrow> bigint \<Rightarrow> gas_error + gasPool" where
  "SubGas gp amount = (if gp < amount then Inl ErrGasLimitReached else Inr (gp - amount))"

lemma SubGas_Inr: "SubGas gp amount = Inr gp' \<longleftrightarrow> amount \<le> gp \<and> gp' = gp - amount"
  by (auto simp: SubGas_def)

lemma AddGas_SubGas: "SubGas gp amount = Inr gp' \<Longrightarrow> AddGas gp' amount = gp"
  by (simp add: SubGas_Inr AddGas_def)

section \<open>Intrinsic gas\<close>

fun count_nz :: "byte list \<Rightarrow> int" where
  "count_nz [] = 0"
| "count_nz (b # bs) = (if b \<noteq> 0 then 1 else 0) + count_nz bs"

definition IntrinsicGas :: "gasParams \<Rightarrow> byte list \<Rightarrow> bool \<Rightarrow> bool \<Rightarrow> bigint" where
  "IntrinsicGas gp data contractCreation pangu =
     (let igas = (if contractCreation \<and> pangu then uint (TxGasContractCreation gp) else uint (TxGas gp))
      in if 0 < length data
         then let nz = count_nz data
              in igas + nz * uint (TxDataNonZeroGas gp) + (int (length data) - nz) * uint (TxDataZeroGas gp)
         else igas)"

lemma count_nz_bounds: "0 \<le> count_nz data" "count_nz data \<le> int (length data)"
  by (induction data) auto

lemma count_nz_append: "count_nz (xs @ ys) = count_nz xs + count_nz ys"
  by (induction xs) auto

text \<open>Reference form: each byte costs its own price.\<close>

definition byte_gas :: "gasParams \<Rightarrow> byte \<Rightarrow> bigint" where
  "byte_gas gp b = (if b = 0 then uint (TxDataZeroGas gp) else uint (TxDataNonZeroGas gp))"

lemma sum_byte_gas:
  "count_nz data * uint (TxDataNonZeroGas gp) + (int (length data) - count_nz data) * uint (TxDataZeroGas gp)
     = sum_list (map (byte_gas gp) data)"
  by (induction data) (auto simp: byte_gas_def algebra_simps)

lemma IntrinsicGas_sum:
  "IntrinsicGas gp data cc pangu =
     (if cc \<and> pangu then uint (TxGasContractCreation gp) else uint (TxGas gp)) + sum_list (map (byte_gas gp) data)"
  unfolding IntrinsicGas_def Let_def sum_byte_gas [symmetric] by simp

lemma IntrinsicGas_nonneg: "0 \<le> IntrinsicGas gp data cc pangu"
proof -
  have "0 \<le> sum_list (map (byte_gas gp) data)"
    by (rule sum_list_nonneg) (auto simp: byte_gas_def)
  then show ?thesis by (simp add: IntrinsicGas_sum)
qed

lemma IntrinsicGas_pos: "0 < TxGas gp \<Longrightarrow> 0 < TxGasContractCreation gp \<Longrightarrow> 0 < IntrinsicGas gp data cc pangu"
proof -
  assume "0 < TxGas gp" "0 < TxGasContractCreation gp"
  moreover have "0 \<le> sum_list (map (byte_gas gp) data)"
    by (rule sum_list_nonneg) (auto simp: byte_gas_def)
  ultimately show ?thesis by (auto simp: IntrinsicGas_sum word_less_def)
qed

section \<open>Properties\<close>

text \<open>
  \<open>IntrinsicGas\<close>, which counts the non-zero bytes and multiplies, charges the base price of the
  transaction kind plus, for every data byte, the price of that byte; it is additive over the data,
  so padding or splitting the data cannot make it cheaper.
\<close>

theorem IntrinsicGas_reference:
  "IntrinsicGas gp data cc pangu =
     (if cc \<and> pangu then uint (TxGasContractCreation gp) else uint (TxGas gp)) +
     sum_list (map (byte_gas gp) data) \<and>
   IntrinsicGas gp (data @ extra) cc pangu = IntrinsicGas gp data cc pangu + sum_list (map (byte_gas gp) extra) \<and>
   0 \<le> IntrinsicGas gp data cc pangu"
  by (simp add: IntrinsicGas_nonneg) (simp add: IntrinsicGas_sum)

end
