(* ===== verification/TxPool.thy ===== *)
theory TxPool
  imports TxList Gas
begin

text \<open>
  \<open>core/tx_pool.go\<close>: the transaction pool. The state is the record \<open>txpool\<close>; each method is a
  function on it. A method returns \<open>None\<close> where the Go code panics. Library code is a field of
  \<open>env\<close>: the signer, \<open>UpdateNonce\<close>, the constants of \<open>params\<close>, the network relay's \<open>Priority\<close>
  (absent when the singleton is nil), the third-party priority queue \<open>prque\<close> (its whole pop order)
  and set \<open>set.v0\<close> (the element \<open>Pop\<close> takes), \<open>state.ManagedState\<close> (\<open>ms_get\<close>, \<open>ms_set\<close>,
  \<open>ms_new\<close> on an abstract state \<open>'p\<close>), the chain's \<open>GetBlock\<close> and \<open>StateAt\<close>,
  \<open>types.TxDifference\<close>, and the relay's \<open>VnodePushMsg\<close> (whether it returns no error).
  Locks, metrics and logging have no counterpart; \<open>txFeed\<close> and \<open>shardingTxFeed\<close> collect the
  transactions announced.
\<close>

section \<open>State\<close>

datatype pool_error =
    KnownTransaction | ErrInvalidSender | ErrNonceTooLow | ErrUnderpriced | ErrReplaceUnderpriced
  | ErrInsufficientFunds | ErrIntrinsicGas | ErrGasLimit | ErrNegativeValue | ErrOversizedData
  | ErrClassicTxFields | ErrMaximumChainId | ErrClassicTxNotEnabled
  | MarkedTransaction | NoRelayInstance

record TxPoolConfig =
  NoLocals :: bool
  Journal :: string
  Rejournal :: int
  PriceLimit :: uint64
  PriceBump :: uint64
  AccountSlots :: uint64
  GlobalSlots :: uint64
  AccountQueue :: uint64
  GlobalQueue :: uint64
  Lifetime :: int

definition second :: int where "second = 1000000000"

definition DefaultTxPoolConfig :: TxPoolConfig where
  "DefaultTxPoolConfig = \<lparr>NoLocals = False, Journal = ''transactions.rlp'', Rejournal = 3600 * second,
     PriceLimit = 1000000000, PriceBump = 10, AccountSlots = 16, GlobalSlots = 40960,
     AccountQueue = 64, GlobalQueue = 1024, Lifetime = 3 * 3600 * second\<rparr>"

definition sanitize :: "TxPoolConfig \<Rightarrow> TxPoolConfig" where
  "sanitize config =
     (let c1 = (if Rejournal config < second then config\<lparr>Rejournal := second\<rparr> else config);
          c2 = (if PriceLimit c1 < 1 then c1\<lparr>PriceLimit := PriceLimit DefaultTxPoolConfig\<rparr> else c1)
      in if PriceBump c2 < 1 then c2\<lparr>PriceBump := PriceBump DefaultTxPoolConfig\<rparr> else c2)"

record chainState =
  GetNonce :: "address \<Rightarrow> uint64"
  GetBalance :: "address \<Rightarrow> bigint"

text \<open>What the pool reads of a block: the library type \<open>types.Block\<close> with its header.\<close>

record block =
  b_hash :: hash
  b_parent :: hash
  b_number :: uint64
  b_gasLimit :: bigint
  b_txs :: "tx list"

record 'p env =
  sender :: "tx \<Rightarrow> address option"
  UpdateNonce :: "tx \<Rightarrow> uint64 \<Rightarrow> tx"
  relay :: "(address \<Rightarrow> address \<Rightarrow> byte list \<Rightarrow> bool) option"
  MaximumTxSize :: uint64
  MaxChainId :: bigint
  minSpecGasPrice :: uint64
  EnableClassicTx :: uint64
  CurrentBlock :: block
  enc_ok :: "tx \<Rightarrow> bool"
  gas :: gasParams
  prque_order :: "(address \<times> nat) list \<Rightarrow> address list"
  ms_get :: "'p \<Rightarrow> address \<Rightarrow> uint64"
  ms_set :: "address \<Rightarrow> uint64 \<Rightarrow> 'p \<Rightarrow> 'p"
  ms_new :: "chainState \<Rightarrow> 'p"
  GetBlock :: "hash \<Rightarrow> uint64 \<Rightarrow> block option"
  StateAt :: "block \<Rightarrow> chainState option"
  TxDifference :: "tx list \<Rightarrow> tx list \<Rightarrow> tx list"
  pushMsg :: "(tx \<Rightarrow> bool) option"
  set_pop :: "hash list \<Rightarrow> hash"

text \<open>
  \<open>core/tx_journal.go\<close>: the journal of local transactions. \<open>disk\<close> is the content of the file at the
  journal's path, absent when there is none; \<open>writer\<close> tells that an output stream is open. RLP
  encoding into a stream fails exactly on what \<open>enc_ok\<close> rejects; a failing system call of
  \<open>rotate\<close> is its argument.
\<close>

record txJournal =
  writer :: bool
  disk :: "tx list option"

datatype journal_error = errNoActiveJournal | errWrite | errIO | errDecode

datatype rotate_fault = CloseFails | CreateFails | RenameFails | ReopenFails

definition newTxJournal :: "tx list option \<Rightarrow> txJournal" where
  "newTxJournal file = \<lparr>writer = False, disk = file\<rparr>"

definition jr_insert :: "'p env \<Rightarrow> tx \<Rightarrow> txJournal \<Rightarrow> (journal_error + unit) \<times> txJournal" where
  "jr_insert e t j =
     (if \<not> writer j then (Inl errNoActiveJournal, j)
      else if \<not> enc_ok e t then (Inl errWrite, j)
      else (Inr (), j\<lparr>disk := Some ((case disk j of None \<Rightarrow> [] | Some ts \<Rightarrow> ts) @ [t])\<rparr>))"

definition jr_rotate ::
  "'p env \<Rightarrow> rotate_fault option \<Rightarrow> (address, tx list) gomap \<Rightarrow> txJournal \<Rightarrow> (journal_error + unit) \<times> txJournal"
where
  "jr_rotate e fault m j =
     (let new = concat (map snd m); j1 = j\<lparr>writer := False\<rparr>
      in if writer j \<and> fault = Some CloseFails then (Inl errIO, j)
         else if fault = Some CreateFails then (Inl errIO, j1)
         else if \<not> list_all (enc_ok e) new then (Inl errWrite, j1)
         else if fault = Some RenameFails then (Inl errIO, j1)
         else let j2 = j1\<lparr>disk := Some new\<rparr>
              in if fault = Some ReopenFails then (Inl errIO, j2) else (Inr (), j2\<lparr>writer := True\<rparr>))"

definition jr_close :: "txJournal \<Rightarrow> txJournal" where
  "jr_close j = j\<lparr>writer := False\<rparr>"

text \<open>
  \<open>load\<close> hands the decoded transactions to \<open>add\<close>, whose errors are only counted. The stream decodes
  the first \<open>k\<close> transactions of the file; it stops early when the file is damaged.
\<close>

fun load_each :: "(tx \<Rightarrow> 's \<Rightarrow> (('e + unit) \<times> 's) option) \<Rightarrow> tx list \<Rightarrow> nat \<Rightarrow> 's \<Rightarrow> (nat \<times> 's) option" where
  "load_each addf [] dropped s = Some (dropped, s)"
| "load_each addf (t # ts) dropped s = do {
     (r, s') \<leftarrow> addf t s;
     load_each addf ts (case r of Inl _ \<Rightarrow> Suc dropped | Inr _ \<Rightarrow> dropped) s'
   }"

definition jr_load ::
  "(tx \<Rightarrow> 's \<Rightarrow> (('e + unit) \<times> 's) option) \<Rightarrow> nat \<Rightarrow> txJournal \<Rightarrow> 's \<Rightarrow> ((journal_error + unit) \<times> 's) option"
where
  "jr_load addf k j s =
     (case disk j of None \<Rightarrow> Some (Inr (), s)
      | Some ts \<Rightarrow> do {
          (dropped, s') \<leftarrow> load_each addf (take k ts) 0 s;
          Some ((if k < length ts then Inl errDecode else Inr ()), s')
        })"

record 'p txpool =
  config :: TxPoolConfig
  gasPrice :: bigint
  currentState :: chainState
  pendingState :: 'p
  currentMaxGas :: bigint
  locals :: accountSet
  journal :: "txJournal option"
  pending :: "(address, txList) gomap"
  queue :: "(address, txList) gomap"
  beats :: "(address, int) gomap"
  all :: allmap
  priced :: txPricedList
  directCalls :: "(address, txList) gomap"
  KnownDirectTxs :: "hash list"
  pangu :: bool
  txFeed :: "tx list"
  shardingTxFeed :: "tx list"

text \<open>\<open>from, _ := types.Sender(...)\<close>: the zero address when the signer returns an error.\<close>

definition from_addr :: "('p, 'x) env_scheme \<Rightarrow> tx \<Rightarrow> address" where
  "from_addr e t = (case sender e t of Some a \<Rightarrow> a | None \<Rightarrow> 0)"

section \<open>Validation\<close>

definition validateTx :: "'p env \<Rightarrow> tx \<Rightarrow> bool \<Rightarrow> 'p txpool \<Rightarrow> pool_error + tx" where
  "validateTx e t loc pool =
     (if uint (MaximumTxSize e) < int (Size t) then Inl ErrOversizedData
      else if Value t < 0 then Inl ErrNegativeValue
      else if IsClassic t \<and> b_number (CurrentBlock e) < EnableClassicTx e then Inl ErrClassicTxNotEnabled
      else if IsClassic t \<and> (ShardingFlag t \<noteq> 0 \<or> Via t \<noteq> None \<or> SystemFlag t \<noteq> 0) then Inl ErrClassicTxFields
      else if MaxChainId e \<le> ChainId t then Inl ErrMaximumChainId
      else if currentMaxGas pool < GasLimit t then Inl ErrGasLimit
      else case sender e t of None \<Rightarrow> Inl ErrInvalidSender
      | Some from \<Rightarrow>
        let loc = loc \<or> as_contains (locals pool) from;
            special = (case (relay e, To t) of
                         (Some prio, Some to) \<Rightarrow> 4 \<le> length (Data t) \<and> prio to from (take 4 (Data t))
                       | _ \<Rightarrow> False);
            underpriced = (if special then word_of_int (GasPrice t) < minSpecGasPrice e
                           else GasPrice t < gasPrice pool)
        in if \<not> loc \<and> underpriced then Inl ErrUnderpriced
           else let t' = (if 0 < SystemFlag t \<and> Nonce t = 0
                          then UpdateNonce e t (GetNonce (currentState pool) from) else t)
                in if Nonce t' < GetNonce (currentState pool) from then Inl ErrNonceTooLow
                   else if GetBalance (currentState pool) from < Cost t' then Inl ErrInsufficientFunds
                   else if SystemFlag t' = 0 \<and>
                     GasLimit t' < IntrinsicGas (gas e) (Data t') (To t' = None) (pangu pool)
                   then Inl ErrIntrinsicGas
                   else Inr t')"

section \<open>Moving transactions between the lists\<close>

text \<open>\<open>delete(pool.all, hash); pool.priced.Removed()\<close>\<close>

definition drop_all :: "hash \<Rightarrow> 'p txpool \<Rightarrow> 'p txpool" where
  "drop_all h pool =
     (let a = AList.delete h (all pool) in pool\<lparr>all := a, priced := pl_Removed a (priced pool)\<rparr>)"

definition put_all :: "hash \<Rightarrow> tx \<Rightarrow> 'p txpool \<Rightarrow> 'p txpool" where
  "put_all h t pool = pool\<lparr>all := AList.update h t (all pool), priced := pl_Put t (priced pool)\<rparr>"

definition drop_old :: "tx option \<Rightarrow> 'p txpool \<Rightarrow> 'p txpool" where
  "drop_old old pool = (case old of None \<Rightarrow> pool | Some t \<Rightarrow> drop_all (Hash t) pool)"

definition get_list :: "bool \<Rightarrow> address \<Rightarrow> (address, txList) gomap \<Rightarrow> txList" where
  "get_list str a m = (case map_of m a of None \<Rightarrow> newTxList str | Some l \<Rightarrow> l)"

definition enqueueTx :: "'p env \<Rightarrow> hash \<Rightarrow> tx \<Rightarrow> 'p txpool \<Rightarrow> (pool_error + bool) \<times> 'p txpool" where
  "enqueueTx e h t pool =
     (let from = from_addr e t;
          (inserted, old, l) = tl_Add t (PriceBump (config pool)) (get_list False from (queue pool));
          pool1 = pool\<lparr>queue := AList.update from l (queue pool)\<rparr>
      in if \<not> inserted then (Inl ErrReplaceUnderpriced, pool1)
         else (Inr (old \<noteq> None), put_all h t (drop_old old pool1)))"

definition journalTx :: "'p env \<Rightarrow> address \<Rightarrow> tx \<Rightarrow> 'p txpool \<Rightarrow> 'p txpool" where
  "journalTx e from t pool =
     (case journal pool of None \<Rightarrow> pool
      | Some j \<Rightarrow> if as_contains (locals pool) from then pool\<lparr>journal := Some (snd (jr_insert e t j))\<rparr>
                 else pool)"

definition promoteTx :: "'p env \<Rightarrow> int \<Rightarrow> address \<Rightarrow> hash \<Rightarrow> tx \<Rightarrow> 'p txpool \<Rightarrow> 'p txpool" where
  "promoteTx e now addr h t pool =
     (let (inserted, old, l) = tl_Add t (PriceBump (config pool)) (get_list True addr (pending pool));
          pool1 = pool\<lparr>pending := AList.update addr l (pending pool)\<rparr>
      in if \<not> inserted then drop_all h pool1
         else let pool2 = drop_old old pool1;
                  pool3 = (if map_of (all pool2) h = None then put_all h t pool2 else pool2)
              in pool3\<lparr>beats := AList.update addr now (beats pool3),
                       pendingState := ms_set e addr (Nonce t + 1) (pendingState pool3),
                       txFeed := txFeed pool3 @ [t]\<rparr>)"

definition lower_nonce :: "'p env \<Rightarrow> address \<Rightarrow> uint64 \<Rightarrow> 'p txpool \<Rightarrow> 'p txpool" where
  "lower_nonce e addr nonce pool =
     (if nonce < ms_get e (pendingState pool) addr
      then pool\<lparr>pendingState := ms_set e addr nonce (pendingState pool)\<rparr> else pool)"

fun enqueue_each :: "'p env \<Rightarrow> tx list \<Rightarrow> 'p txpool \<Rightarrow> 'p txpool" where
  "enqueue_each e [] pool = pool"
| "enqueue_each e (t # ts) pool = enqueue_each e ts (snd (enqueueTx e (Hash t) t pool))"

fun drop_each :: "tx list \<Rightarrow> 'p txpool \<Rightarrow> 'p txpool" where
  "drop_each [] pool = pool"
| "drop_each (t # ts) pool = drop_each ts (drop_all (Hash t) pool)"

fun promote_each :: "'p env \<Rightarrow> int \<Rightarrow> address \<Rightarrow> tx list \<Rightarrow> 'p txpool \<Rightarrow> 'p txpool" where
  "promote_each e now addr [] pool = pool"
| "promote_each e now addr (t # ts) pool = promote_each e now addr ts (promoteTx e now addr (Hash t) t pool)"

definition remove_queued :: "address \<Rightarrow> tx \<Rightarrow> 'p txpool \<Rightarrow> 'p txpool option" where
  "remove_queued addr t pool =
     (case map_of (queue pool) addr of None \<Rightarrow> Some pool
      | Some future \<Rightarrow> do {
          (_, _, l) \<leftarrow> tl_Remove t future;
          Some (pool\<lparr>queue := (if tl_Empty l then AList.delete addr (queue pool)
                               else AList.update addr l (queue pool))\<rparr>)
        })"

definition removeTx :: "'p env \<Rightarrow> hash \<Rightarrow> 'p txpool \<Rightarrow> 'p txpool option" where
  "removeTx e h pool =
     (case map_of (all pool) h of None \<Rightarrow> Some pool
      | Some t \<Rightarrow>
          let addr = from_addr e t; pool1 = drop_all h pool
          in case map_of (pending pool1) addr of None \<Rightarrow> remove_queued addr t pool1
             | Some plist \<Rightarrow> do {
                 (removed, invalids, l) \<leftarrow> tl_Remove t plist;
                 let pool2 = pool1\<lparr>pending := AList.update addr l (pending pool1)\<rparr>;
                 if removed then
                   let pool3 = (if tl_Empty l
                                then pool2\<lparr>pending := AList.delete addr (pending pool2),
                                           beats := AList.delete addr (beats pool2)\<rparr>
                                else enqueue_each e invalids pool2)
                   in Some (lower_nonce e addr (Nonce t) pool3)
                 else remove_queued addr t pool2
               })"

fun remove_each :: "'p env \<Rightarrow> tx list \<Rightarrow> 'p txpool \<Rightarrow> 'p txpool option" where
  "remove_each e [] pool = Some pool"
| "remove_each e (t # ts) pool = do { pool1 \<leftarrow> removeTx e (Hash t) pool; remove_each e ts pool1 }"

section \<open>Promotion\<close>

text \<open>
  The loop body of \<open>promoteExecutables\<close> for one account, in its four steps: drop what is too old or
  too costly, promote what is ready, cap the rest, delete an empty entry. The list of the account is
  the entry of the queue throughout.
\<close>

definition clean_queue :: "address \<Rightarrow> 'p txpool \<Rightarrow> 'p txpool option" where
  "clean_queue addr pool = do {
     l0 \<leftarrow> map_of (queue pool) addr;
     (olds, l1) \<leftarrow> tl_Forward (GetNonce (currentState pool) addr) l0;
     let pool1 = drop_each olds (pool\<lparr>queue := AList.update addr l1 (queue pool)\<rparr>);
     let (drops, invs, l2) = tl_Filter (GetBalance (currentState pool) addr) (currentMaxGas pool) l1;
     Some (drop_each drops (pool1\<lparr>queue := AList.update addr l2 (queue pool1)\<rparr>))
   }"

definition promote_ready :: "'p env \<Rightarrow> int \<Rightarrow> address \<Rightarrow> 'p txpool \<Rightarrow> 'p txpool option" where
  "promote_ready e now addr pool = do {
     l \<leftarrow> map_of (queue pool) addr;
     (ready, l') \<leftarrow> tl_Ready (ms_get e (pendingState pool) addr) l;
     Some (promote_each e now addr ready (pool\<lparr>queue := AList.update addr l' (queue pool)\<rparr>))
   }"

definition cap_queue :: "address \<Rightarrow> 'p txpool \<Rightarrow> 'p txpool option" where
  "cap_queue addr pool =
     (if as_contains (locals pool) addr then Some pool
      else do {
        l \<leftarrow> map_of (queue pool) addr;
        (caps, l') \<leftarrow> tl_Cap (sint (AccountQueue (config pool))) l;
        Some (drop_each caps (pool\<lparr>queue := AList.update addr l' (queue pool)\<rparr>))
      })"

definition drop_empty :: "address \<Rightarrow> 'p txpool \<Rightarrow> 'p txpool" where
  "drop_empty addr pool =
     (case map_of (queue pool) addr of None \<Rightarrow> pool
      | Some l \<Rightarrow> if tl_Empty l then pool\<lparr>queue := AList.delete addr (queue pool)\<rparr> else pool)"

definition promote_account :: "'p env \<Rightarrow> int \<Rightarrow> address \<Rightarrow> 'p txpool \<Rightarrow> 'p txpool option" where
  "promote_account e now addr pool =
     (if map_of (queue pool) addr = None then Some pool
      else do {
        pool1 \<leftarrow> clean_queue addr pool;
        pool2 \<leftarrow> promote_ready e now addr pool1;
        pool3 \<leftarrow> cap_queue addr pool2;
        Some (drop_empty addr pool3)
      })"

fun promote_accounts :: "'p env \<Rightarrow> int \<Rightarrow> address list \<Rightarrow> 'p txpool \<Rightarrow> 'p txpool option" where
  "promote_accounts e now [] pool = Some pool"
| "promote_accounts e now (a # as) pool =
     do { pool1 \<leftarrow> promote_account e now a pool; promote_accounts e now as pool1 }"

text \<open>The pending limit: offenders lose their last transaction, in rounds.\<close>

definition count_txs :: "(address, txList) gomap \<Rightarrow> uint64" where
  "count_txs m = foldl (\<lambda>n p. n + of_nat (tl_Len (snd p))) 0 m"

fun cap_each :: "'p env \<Rightarrow> address \<Rightarrow> tx list \<Rightarrow> 'p txpool \<Rightarrow> 'p txpool" where
  "cap_each e addr [] pool = pool"
| "cap_each e addr (t # ts) pool = cap_each e addr ts (lower_nonce e addr (Nonce t) (drop_all (Hash t) pool))"

definition cap_one :: "'p env \<Rightarrow> address \<Rightarrow> 'p txpool \<Rightarrow> 'p txpool option" where
  "cap_one e addr pool = do {
     l \<leftarrow> map_of (pending pool) addr;
     (drops, l') \<leftarrow> tl_Cap (int (tl_Len l) - 1) l;
     Some (cap_each e addr drops (pool\<lparr>pending := AList.update addr l' (pending pool)\<rparr>))
   }"

fun cap_round :: "'p env \<Rightarrow> address list \<Rightarrow> uint64 \<Rightarrow> 'p txpool \<Rightarrow> (uint64 \<times> 'p txpool) option" where
  "cap_round e [] n pool = Some (n, pool)"
| "cap_round e (a # as) n pool = do { pool1 \<leftarrow> cap_one e a pool; cap_round e as (n - 1) pool1 }"

text \<open>
  Both reduction loops: rounds over \<open>addrs\<close> while the total is above the limit and the last of
  \<open>addrs\<close> is longer than \<open>threshold\<close>. Each round shortens that list by one, so its length is
  enough fuel.
\<close>

fun reduce_loop ::
  "'p env \<Rightarrow> nat \<Rightarrow> address list \<Rightarrow> nat \<Rightarrow> uint64 \<Rightarrow> 'p txpool \<Rightarrow> (uint64 \<times> 'p txpool) option"
where
  "reduce_loop e 0 addrs threshold n pool = None"
| "reduce_loop e (Suc fuel) addrs threshold n pool =
     (if GlobalSlots (config pool) < n then do {
        l \<leftarrow> map_of (pending pool) (last addrs);
        if threshold < tl_Len l then do {
          (n', pool') \<leftarrow> cap_round e addrs n pool;
          reduce_loop e fuel addrs threshold n' pool'
        } else Some (n, pool)
      } else Some (n, pool))"

definition pending_fuel :: "'p txpool \<Rightarrow> address \<Rightarrow> nat" where
  "pending_fuel pool a = (case map_of (pending pool) a of None \<Rightarrow> 1 | Some l \<Rightarrow> Suc (tl_Len l))"

fun offender_loop ::
  "'p env \<Rightarrow> address list \<Rightarrow> address list \<Rightarrow> uint64 \<Rightarrow> 'p txpool \<Rightarrow>
   (address list \<times> uint64 \<times> 'p txpool) option"
where
  "offender_loop e [] offenders n pool = Some (offenders, n, pool)"
| "offender_loop e (off # spammers) offenders n pool =
     (if GlobalSlots (config pool) < n then do {
        let offenders' = offenders @ [off];
        (n', pool') \<leftarrow> (if 1 < length offenders' then do {
             l \<leftarrow> map_of (pending pool) off;
             reduce_loop e (pending_fuel pool (last offenders)) offenders (tl_Len l) n pool
           } else Some (n, pool));
        offender_loop e spammers offenders' n' pool'
      } else Some (offenders, n, pool))"

definition truncate_pending :: "'p env \<Rightarrow> 'p txpool \<Rightarrow> 'p txpool option" where
  "truncate_pending e pool =
     (let n = count_txs (pending pool)
      in if GlobalSlots (config pool) < n then
           let high = filter (\<lambda>p. \<not> as_contains (locals pool) (fst p) \<and>
                        AccountSlots (config pool) < of_nat (tl_Len (snd p))) (pending pool);
               spammers = prque_order e (map (\<lambda>p. (fst p, tl_Len (snd p))) high)
           in do {
             (offenders, n1, pool1) \<leftarrow> offender_loop e spammers [] n pool;
             if GlobalSlots (config pool1) < n1 \<and> offenders \<noteq> [] then do {
               (n2, pool2) \<leftarrow> reduce_loop e (pending_fuel pool1 (last offenders)) offenders
                  (unat (AccountSlots (config pool1))) n1 pool1;
               Some pool2
             } else Some pool1
           }
         else Some pool)"

text \<open>The queue limit.\<close>

definition heartbeat :: "'p txpool \<Rightarrow> address \<Rightarrow> int" where
  "heartbeat pool a = (case map_of (beats pool) a of None \<Rightarrow> 0 | Some tm \<Rightarrow> tm)"

definition flatten_queue :: "address \<Rightarrow> txList \<Rightarrow> 'p txpool \<Rightarrow> tx list \<times> 'p txpool" where
  "flatten_queue a l pool =
     (case tl_Flatten l of (ts, l') \<Rightarrow> (ts, pool\<lparr>queue := AList.update a l' (queue pool)\<rparr>))"

fun queue_drop_loop :: "'p env \<Rightarrow> address list \<Rightarrow> uint64 \<Rightarrow> 'p txpool \<Rightarrow> 'p txpool option" where
  "queue_drop_loop e [] n pool = Some pool"
| "queue_drop_loop e (a # as) n pool =
     (if 0 < n then do {
        l \<leftarrow> map_of (queue pool) a;
        let sz = of_nat (tl_Len l);
        let (ts, pool1) = flatten_queue a l pool;
        if sz \<le> n then do {
          pool2 \<leftarrow> remove_each e ts pool1;
          queue_drop_loop e as (n - sz) pool2
        } else do {
          pool2 \<leftarrow> remove_each e (take (unat n) (rev ts)) pool1;
          queue_drop_loop e as 0 pool2
        }
      } else Some pool)"

definition truncate_queue :: "'p env \<Rightarrow> 'p txpool \<Rightarrow> 'p txpool option" where
  "truncate_queue e pool =
     (let queued = count_txs (queue pool)
      in if GlobalQueue (config pool) < queued then
           let addresses = sort_key (heartbeat pool)
                 (filter (\<lambda>a. \<not> as_contains (locals pool) a) (keys (queue pool)))
           in queue_drop_loop e (rev addresses) (queued - GlobalQueue (config pool)) pool
         else Some pool)"

definition promoteExecutables :: "'p env \<Rightarrow> int \<Rightarrow> address list option \<Rightarrow> 'p txpool \<Rightarrow> 'p txpool option" where
  "promoteExecutables e now accts pool = do {
     let as = (case accts of None \<Rightarrow> keys (queue pool) | Some as \<Rightarrow> as);
     pool1 \<leftarrow> promote_accounts e now as pool;
     pool2 \<leftarrow> truncate_pending e pool1;
     truncate_queue e pool2
   }"

section \<open>Demotion\<close>

text \<open>
  The loop body of \<open>demoteUnexecutables\<close>: drop what is too old or too costly and queue what that
  invalidates, postpone everything when there is a gap in front, delete an empty entry.
\<close>

definition clean_pending :: "'p env \<Rightarrow> address \<Rightarrow> 'p txpool \<Rightarrow> 'p txpool option" where
  "clean_pending e addr pool = do {
     l0 \<leftarrow> map_of (pending pool) addr;
     (olds, l1) \<leftarrow> tl_Forward (GetNonce (currentState pool) addr) l0;
     let pool1 = drop_each olds (pool\<lparr>pending := AList.update addr l1 (pending pool)\<rparr>);
     let (drops, invalids, l2) = tl_Filter (GetBalance (currentState pool) addr) (currentMaxGas pool) l1;
     let pool2 = drop_each drops (pool1\<lparr>pending := AList.update addr l2 (pending pool1)\<rparr>);
     Some (enqueue_each e invalids pool2)
   }"

definition demote_gap :: "'p env \<Rightarrow> address \<Rightarrow> 'p txpool \<Rightarrow> 'p txpool option" where
  "demote_gap e addr pool = do {
     l \<leftarrow> map_of (pending pool) addr;
     if 0 < tl_Len l \<and> sm_Get (txs l) (GetNonce (currentState pool) addr) = None then do {
       (caps, l') \<leftarrow> tl_Cap 0 l;
       Some (enqueue_each e caps (pool\<lparr>pending := AList.update addr l' (pending pool)\<rparr>))
     } else Some pool
   }"

definition drop_empty_pending :: "address \<Rightarrow> 'p txpool \<Rightarrow> 'p txpool" where
  "drop_empty_pending addr pool =
     (case map_of (pending pool) addr of None \<Rightarrow> pool
      | Some l \<Rightarrow> if tl_Empty l
                  then pool\<lparr>pending := AList.delete addr (pending pool), beats := AList.delete addr (beats pool)\<rparr>
                  else pool)"

definition demote_account :: "'p env \<Rightarrow> address \<Rightarrow> 'p txpool \<Rightarrow> 'p txpool option" where
  "demote_account e addr pool = do {
     pool1 \<leftarrow> clean_pending e addr pool;
     pool2 \<leftarrow> demote_gap e addr pool1;
     Some (drop_empty_pending addr pool2)
   }"

fun demote_accounts :: "'p env \<Rightarrow> address list \<Rightarrow> 'p txpool \<Rightarrow> 'p txpool option" where
  "demote_accounts e [] pool = Some pool"
| "demote_accounts e (a # as) pool = do { pool1 \<leftarrow> demote_account e a pool; demote_accounts e as pool1 }"

definition demoteUnexecutables :: "'p env \<Rightarrow> 'p txpool \<Rightarrow> 'p txpool option" where
  "demoteUnexecutables e pool = demote_accounts e (keys (pending pool)) pool"

section \<open>Direct calls\<close>

definition maxKnownTxs :: nat where "maxKnownTxs = 32768"

text \<open>\<open>for Size() >= maxKnownTxs { Pop() }\<close>: one turn per element above the bound.\<close>

fun pop_known :: "'p env \<Rightarrow> nat \<Rightarrow> hash list \<Rightarrow> hash list" where
  "pop_known e 0 ks = ks"
| "pop_known e (Suc n) ks = pop_known e n (remove1 (set_pop e ks) ks)"

definition MarkDirectTx :: "'p env \<Rightarrow> hash \<Rightarrow> 'p txpool \<Rightarrow> 'p txpool" where
  "MarkDirectTx e h pool =
     (let ks = KnownDirectTxs pool;
          ks' = pop_known e (length ks + 1 - maxKnownTxs) ks
      in pool\<lparr>KnownDirectTxs := List.insert h ks'\<rparr>)"

text \<open>The flag is set through the pointer, so the copy in the account's list changes with it.\<close>

definition mark_sent :: "tx \<Rightarrow> txList \<Rightarrow> txList" where
  "mark_sent t l =
     (let f = (\<lambda>u. if u = t then u\<lparr>DirCallSent := True\<rparr> else u)
      in l\<lparr>txs := (txs l)\<lparr>items := map (\<lambda>p. (fst p, f (snd p))) (items (txs l)),
                         cache := map_option (map f) (cache (txs l))\<rparr>\<rparr>)"

definition sendDirectCall :: "'p env \<Rightarrow> address \<Rightarrow> tx \<Rightarrow> 'p txpool \<Rightarrow> (pool_error + unit) \<times> 'p txpool" where
  "sendDirectCall e addr t pool =
     (if Hash t \<in> set (KnownDirectTxs pool) then (Inl MarkedTransaction, pool)
      else let pool1 = MarkDirectTx e (Hash t) pool
           in case pushMsg e of None \<Rightarrow> (Inl NoRelayInstance, pool1)
              | Some push \<Rightarrow>
                  let pool2 = (if push t
                               then pool1\<lparr>directCalls := AList.map_entry addr (mark_sent t) (directCalls pool1)\<rparr>
                               else pool1);
                      t' = (if push t then t\<lparr>DirCallSent := True\<rparr> else t)
                  in (Inr (), pool2\<lparr>shardingTxFeed := shardingTxFeed pool2 @ [t']\<rparr>))"

definition manageDirectCall :: "'p env \<Rightarrow> address \<Rightarrow> tx \<Rightarrow> 'p txpool \<Rightarrow> (pool_error + unit) \<times> 'p txpool" where
  "manageDirectCall e addr t pool =
     (let t' = t\<lparr>DirCallSent := False\<rparr>;
          (inserted, old, l) = tl_Add t' 0 (get_list True addr (directCalls pool))
      in sendDirectCall e addr t' (pool\<lparr>directCalls := AList.update addr l (directCalls pool)\<rparr>))"

definition initDirectCallList :: "'p txpool \<Rightarrow> 'p txpool" where
  "initDirectCallList pool = pool\<lparr>directCalls := []\<rparr>"

fun cleanup_list :: "tx list \<Rightarrow> txList \<Rightarrow> txList option" where
  "cleanup_list [] l = Some l"
| "cleanup_list (t # ts) l =
     (if DirCallSent t then do { (_, _, l') \<leftarrow> tl_Remove t l; cleanup_list ts l' } else cleanup_list ts l)"

fun cleanup_each :: "(address, txList) gomap \<Rightarrow> (address, txList) gomap option" where
  "cleanup_each [] = Some []"
| "cleanup_each (p # ps) = do {
     l \<leftarrow> cleanup_list (map snd (items (txs (snd p)))) (snd p);
     ps' \<leftarrow> cleanup_each ps;
     Some ((fst p, l) # ps')
   }"

definition CleanUpDirectCalls :: "'p txpool \<Rightarrow> 'p txpool option" where
  "CleanUpDirectCalls pool = do { m \<leftarrow> cleanup_each (directCalls pool); Some (pool\<lparr>directCalls := m\<rparr>) }"

section \<open>Adding transactions\<close>

text \<open>Making room when the pool is full; the flag tells that the new transaction is underpriced.\<close>

definition make_room :: "'p env \<Rightarrow> tx \<Rightarrow> 'p txpool \<Rightarrow> (bool \<times> 'p txpool) option" where
  "make_room e t pool =
     (let slots = GlobalSlots (config pool) + GlobalQueue (config pool);
          loc = as_containsTx (sender e) (locals pool)
      in if slots \<le> of_nat (length (all pool)) then
           let (under, pr) = pl_Underpriced (all pool) loc t (priced pool)
           in if under then Some (True, pool\<lparr>priced := pr\<rparr>)
              else let (dropped, pr') = pl_Discard (all pool) loc (int (length (all pool)) - sint (slots - 1)) pr
                   in do {
                     pool1 \<leftarrow> remove_each e dropped (pool\<lparr>priced := pr'\<rparr>);
                     Some (False, pool1)
                   }
         else Some (False, pool))"

definition replace_pending :: "'p env \<Rightarrow> address \<Rightarrow> tx \<Rightarrow> txList \<Rightarrow> 'p txpool \<Rightarrow> (pool_error + bool) \<times> 'p txpool" where
  "replace_pending e from t l pool =
     (let (inserted, old, l') = tl_Add t (PriceBump (config pool)) l;
          pool1 = pool\<lparr>pending := AList.update from l' (pending pool)\<rparr>
      in if \<not> inserted then (Inl ErrReplaceUnderpriced, pool1)
         else let pool2 = journalTx e from t (put_all (Hash t) t (drop_old old pool1))
              in (Inr (old \<noteq> None), pool2\<lparr>txFeed := txFeed pool2 @ [t]\<rparr>))"

definition queue_new ::
  "'p env \<Rightarrow> hash \<Rightarrow> tx \<Rightarrow> address \<Rightarrow> bool \<Rightarrow> 'p txpool \<Rightarrow> (pool_error + bool) \<times> 'p txpool"
where
  "queue_new e h t from loc pool =
     (case enqueueTx e h t pool of
        (Inl err, pool1) \<Rightarrow> (Inl err, pool1)
      | (Inr replaced, pool1) \<Rightarrow>
          let pool2 = (if loc then pool1\<lparr>locals := as_add from (locals pool1)\<rparr> else pool1)
          in (Inr replaced, journalTx e from t pool2))"

definition add :: "'p env \<Rightarrow> tx \<Rightarrow> bool \<Rightarrow> 'p txpool \<Rightarrow> ((pool_error + bool) \<times> 'p txpool) option" where
  "add e t0 loc pool =
     (let h = Hash t0
      in if map_of (all pool) h \<noteq> None then Some (Inl KnownTransaction, pool)
         else case validateTx e t0 loc pool of Inl err \<Rightarrow> Some (Inl err, pool)
         | Inr t \<Rightarrow> do {
             (under, pool1) \<leftarrow> make_room e t pool;
             if under then Some (Inl ErrUnderpriced, pool1)
             else let from = from_addr e t
                  in case map_of (pending pool1) from of
                       Some l \<Rightarrow> if tl_Overlaps l t then Some (replace_pending e from t l pool1)
                                 else Some (queue_new e h t from loc pool1)
                     | None \<Rightarrow> Some (queue_new e h t from loc pool1)
           })"

definition addTx :: "'p env \<Rightarrow> int \<Rightarrow> tx \<Rightarrow> bool \<Rightarrow> 'p txpool \<Rightarrow> ((pool_error + unit) \<times> 'p txpool) option" where
  "addTx e now t loc pool =
     (case sender e t of None \<Rightarrow> Some (Inl ErrInvalidSender, pool)
      | Some from \<Rightarrow>
          if ShardingFlag t \<noteq> 0 then Some (manageDirectCall e from t pool)
          else do {
            (r, pool1) \<leftarrow> add e t loc pool;
            case r of Inl err \<Rightarrow> Some (Inl err, pool1)
            | Inr replaced \<Rightarrow>
                if \<not> replaced then do {
                  pool2 \<leftarrow> promoteExecutables e now (Some [from]) pool1;
                  Some (Inr (), pool2)
                } else Some (Inr (), pool1)
          })"

definition AddLocal :: "'p env \<Rightarrow> int \<Rightarrow> tx \<Rightarrow> 'p txpool \<Rightarrow> ((pool_error + unit) \<times> 'p txpool) option" where
  "AddLocal e now t pool = addTx e now t (\<not> NoLocals (config pool)) pool"

definition AddRemote :: "'p env \<Rightarrow> int \<Rightarrow> tx \<Rightarrow> 'p txpool \<Rightarrow> ((pool_error + unit) \<times> 'p txpool) option" where
  "AddRemote e now t pool = addTx e now t False pool"

fun add_each ::
  "'p env \<Rightarrow> tx list \<Rightarrow> bool \<Rightarrow> address list \<Rightarrow> 'p txpool \<Rightarrow> (address list \<times> 'p txpool) option"
where
  "add_each e [] loc dirty pool = Some (dirty, pool)"
| "add_each e (t # ts) loc dirty pool =
     (let from = from_addr e t
      in if ShardingFlag t \<noteq> 0 then add_each e ts loc dirty (snd (manageDirectCall e from t pool))
         else do {
           (r, pool1) \<leftarrow> add e t loc pool;
           add_each e ts loc (case r of Inr False \<Rightarrow> List.insert from dirty | _ \<Rightarrow> dirty) pool1
         })"

definition addTxsLocked :: "'p env \<Rightarrow> int \<Rightarrow> tx list \<Rightarrow> bool \<Rightarrow> 'p txpool \<Rightarrow> 'p txpool option" where
  "addTxsLocked e now ts loc pool = do {
     (dirty, pool1) \<leftarrow> add_each e ts loc [] pool;
     if 0 < length dirty then promoteExecutables e now (Some dirty) pool1 else Some pool1
   }"

section \<open>Chain events\<close>

text \<open>
  The walks of \<open>reset\<close> from both heads to their common ancestor. \<open>Some None\<close> is the early return
  on an unrooted chain. Each turn goes to the block one number below, so the number of the block
  bounds the turns, and the fuel is taken from it (lemmas \<open>walk_down_total\<close> and
  \<open>walk_both_total\<close>).
\<close>

fun walk_down :: "'p env \<Rightarrow> nat \<Rightarrow> uint64 \<Rightarrow> block \<Rightarrow> tx list \<Rightarrow> (block \<times> tx list) option option" where
  "walk_down e 0 n b acc = None"
| "walk_down e (Suc fuel) n b acc =
     (if n < b_number b
      then case GetBlock e (b_parent b) (b_number b - 1) of None \<Rightarrow> Some None
           | Some b' \<Rightarrow> walk_down e fuel n b' (acc @ b_txs b)
      else Some (Some (b, acc)))"

fun walk_both ::
  "'p env \<Rightarrow> nat \<Rightarrow> block \<Rightarrow> block \<Rightarrow> tx list \<Rightarrow> tx list \<Rightarrow> (tx list \<times> tx list) option option"
where
  "walk_both e 0 rem ad discarded included = None"
| "walk_both e (Suc fuel) rem ad discarded included =
     (if b_hash rem \<noteq> b_hash ad
      then case GetBlock e (b_parent rem) (b_number rem - 1) of None \<Rightarrow> Some None
           | Some rem' \<Rightarrow>
               (case GetBlock e (b_parent ad) (b_number ad - 1) of None \<Rightarrow> Some None
                | Some ad' \<Rightarrow> walk_both e fuel rem' ad' (discarded @ b_txs rem) (included @ b_txs ad))
      else Some (Some (discarded, included)))"

definition reorg_txs :: "'p env \<Rightarrow> block \<Rightarrow> block \<Rightarrow> tx list option option" where
  "reorg_txs e oldHead newHead = do {
     rem0 \<leftarrow> GetBlock e (b_hash oldHead) (b_number oldHead);
     add0 \<leftarrow> GetBlock e (b_hash newHead) (b_number newHead);
     w1 \<leftarrow> walk_down e (Suc (unat (b_number rem0))) (b_number add0) rem0 [];
     case w1 of None \<Rightarrow> Some None
     | Some (rem1, discarded) \<Rightarrow> do {
         w2 \<leftarrow> walk_down e (Suc (unat (b_number add0))) (b_number rem1) add0 [];
         case w2 of None \<Rightarrow> Some None
         | Some (add1, included) \<Rightarrow> do {
             w3 \<leftarrow> walk_both e (Suc (Suc (unat (b_number rem1)))) rem1 add1 discarded included;
             case w3 of None \<Rightarrow> Some None
             | Some (discarded', included') \<Rightarrow> Some (Some (TxDifference e discarded' included'))
           }
       }
   }"

fun set_pending_nonces :: "'p env \<Rightarrow> address list \<Rightarrow> 'p txpool \<Rightarrow> 'p txpool option" where
  "set_pending_nonces e [] pool = Some pool"
| "set_pending_nonces e (a # as) pool = do {
     l \<leftarrow> map_of (pending pool) a;
     let (ts, l') = tl_Flatten l;
     t \<leftarrow> (if ts = [] then None else Some (last ts));
     set_pending_nonces e as (pool\<lparr>pending := AList.update a l' (pending pool),
        pendingState := ms_set e a (Nonce t + 1) (pendingState pool)\<rparr>)
   }"

text \<open>
  The transactions to inject again. Comparing with the parent of a nil new head is a panic.
  The depth is computed in \<open>float64\<close> by the code, which is exact below \<open>2 ^ 53\<close>.
\<close>

definition reinject :: "'p env \<Rightarrow> block option \<Rightarrow> block option \<Rightarrow> tx list option option" where
  "reinject e oldHead newHead =
     (case oldHead of None \<Rightarrow> Some (Some [])
      | Some oh \<Rightarrow>
          (case newHead of None \<Rightarrow> None
           | Some nh \<Rightarrow>
               if b_hash oh = b_parent nh \<or> 64 < \<bar>uint (b_number oh) - uint (b_number nh)\<bar>
               then Some (Some []) else reorg_txs e oh nh))"

definition reset :: "'p env \<Rightarrow> int \<Rightarrow> block option \<Rightarrow> block option \<Rightarrow> 'p txpool \<Rightarrow> 'p txpool option" where
  "reset e now oldHead newHead pool0 = do {
     let pool = initDirectCallList pool0;
     r \<leftarrow> reinject e oldHead newHead;
     case r of None \<Rightarrow> Some pool
     | Some ts \<Rightarrow>
         let nh = (case newHead of None \<Rightarrow> CurrentBlock e | Some nh \<Rightarrow> nh)
         in case StateAt e nh of None \<Rightarrow> Some pool
            | Some st \<Rightarrow> do {
                let pool1 = pool\<lparr>currentState := st, pendingState := ms_new e st,
                                 currentMaxGas := b_gasLimit nh\<rparr>;
                pool2 \<leftarrow> addTxsLocked e now ts False pool1;
                pool3 \<leftarrow> demoteUnexecutables e pool2;
                pool4 \<leftarrow> set_pending_nonces e (keys (pending pool3)) pool3;
                promoteExecutables e now None pool4
              }
   }"

text \<open>The eviction tick of \<open>loop\<close>: queued transactions of silent remote accounts go.\<close>

fun evict_accounts :: "'p env \<Rightarrow> int \<Rightarrow> address list \<Rightarrow> 'p txpool \<Rightarrow> 'p txpool option" where
  "evict_accounts e now [] pool = Some pool"
| "evict_accounts e now (a # as) pool =
     (if \<not> as_contains (locals pool) a \<and> Lifetime (config pool) < now - heartbeat pool a then do {
        l \<leftarrow> map_of (queue pool) a;
        let (ts, pool1) = flatten_queue a l pool;
        pool2 \<leftarrow> remove_each e ts pool1;
        evict_accounts e now as pool2
      } else evict_accounts e now as pool)"

definition evict :: "'p env \<Rightarrow> int \<Rightarrow> 'p txpool \<Rightarrow> 'p txpool option" where
  "evict e now pool = evict_accounts e now (keys (queue pool)) pool"

definition SetGasPrice :: "'p env \<Rightarrow> bigint \<Rightarrow> 'p txpool \<Rightarrow> 'p txpool option" where
  "SetGasPrice e price pool =
     (let pool1 = pool\<lparr>gasPrice := price\<rparr>;
          (dropped, pr) = pl_Cap (all pool1) (as_containsTx (sender e) (locals pool1)) price (priced pool1)
      in remove_each e dropped (pool1\<lparr>priced := pr\<rparr>))"

section \<open>Queries\<close>

definition stats :: "'p txpool \<Rightarrow> nat \<times> nat" where
  "stats pool = (sum_list (map (\<lambda>p. tl_Len (snd p)) (pending pool)),
                 sum_list (map (\<lambda>p. tl_Len (snd p)) (queue pool)))"

definition Get :: "hash \<Rightarrow> 'p txpool \<Rightarrow> tx option" where
  "Get h pool = map_of (all pool) h"

definition flatten_all :: "(address, txList) gomap \<Rightarrow> (address, tx list) gomap" where
  "flatten_all m = map (\<lambda>p. (fst p, fst (tl_Flatten (snd p)))) m"

definition Content :: "'p txpool \<Rightarrow> (address, tx list) gomap \<times> (address, tx list) gomap" where
  "Content pool = (flatten_all (pending pool), flatten_all (queue pool))"

definition Pending :: "'p txpool \<Rightarrow> (address, tx list) gomap" where
  "Pending pool = flatten_all (pending pool)"

definition PendingByRole :: "'p env \<Rightarrow> 'p txpool \<Rightarrow> (address, tx list) gomap \<times> (address, tx list) gomap" where
  "PendingByRole e pool =
     (case relay e of None \<Rightarrow> ([], flatten_all (pending pool))
      | Some prio \<Rightarrow>
          let high = (\<lambda>a t. case To t of None \<Rightarrow> False
                            | Some to \<Rightarrow> 4 \<le> length (Data t) \<and> prio to a (take 4 (Data t)));
              part = (\<lambda>sel. filter (\<lambda>p. snd p \<noteq> [])
                       (map (\<lambda>p. (fst p, filter (\<lambda>t. sel (high (fst p) t)) (snd p))) (flatten_all (pending pool))))
          in (part (\<lambda>b. b), part Not))"

definition local_txs :: "'p txpool \<Rightarrow> (address, tx list) gomap" where
  "local_txs pool =
     (let flat_of = (\<lambda>m a. case map_of m a of None \<Rightarrow> [] | Some l \<Rightarrow> fst (tl_Flatten l))
      in map (\<lambda>a. (a, flat_of (pending pool) a @ flat_of (queue pool) a))
           (filter (\<lambda>a. map_of (pending pool) a \<noteq> None \<or> map_of (queue pool) a \<noteq> None)
              (keys (accounts (locals pool)))))"

text \<open>The arms of the event loop and the public methods, as events on the head and the pool.\<close>

datatype pool_event =
    ChainHead "block option" bool
  | EvictTick
  | JournalTick "rotate_fault option"
  | EvLocal tx
  | EvRemote tx
  | EvLocals "tx list"
  | EvRemotes "tx list"
  | EvSetGasPrice bigint
  | EvCleanUp

definition rotate_journal :: "'p env \<Rightarrow> rotate_fault option \<Rightarrow> 'p txpool \<Rightarrow> 'p txpool" where
  "rotate_journal e fault pool =
     (case journal pool of None \<Rightarrow> pool
      | Some j \<Rightarrow> pool\<lparr>journal := Some (snd (jr_rotate e fault (local_txs pool) j))\<rparr>)"

text \<open>The flag of \<open>ChainHead\<close> is \<open>chainconfig.IsPangu\<close> of the block's number.\<close>

fun pool_step :: "'p env \<Rightarrow> int \<Rightarrow> pool_event \<Rightarrow> block \<times> 'p txpool \<Rightarrow> (block \<times> 'p txpool) option" where
  "pool_step e now (ChainHead None _) (head, pool) = Some (head, pool)"
| "pool_step e now (ChainHead (Some b) isPangu) (head, pool) = do {
     pool1 \<leftarrow> reset e now (Some head) (Some b) (if isPangu then pool\<lparr>pangu := True\<rparr> else pool);
     Some (b, pool1)
   }"
| "pool_step e now EvictTick (head, pool) = do { pool1 \<leftarrow> evict e now pool; Some (head, pool1) }"
| "pool_step e now (JournalTick fault) (head, pool) = Some (head, rotate_journal e fault pool)"
| "pool_step e now (EvLocal t) (head, pool) = do { (_, pool1) \<leftarrow> AddLocal e now t pool; Some (head, pool1) }"
| "pool_step e now (EvRemote t) (head, pool) = do { (_, pool1) \<leftarrow> AddRemote e now t pool; Some (head, pool1) }"
| "pool_step e now (EvLocals ts) (head, pool) = do {
     pool1 \<leftarrow> addTxsLocked e now ts (\<not> NoLocals (config pool)) pool; Some (head, pool1) }"
| "pool_step e now (EvRemotes ts) (head, pool) = do {
     pool1 \<leftarrow> addTxsLocked e now ts False pool; Some (head, pool1) }"
| "pool_step e now (EvSetGasPrice price) (head, pool) = do {
     pool1 \<leftarrow> SetGasPrice e price pool; Some (head, pool1) }"
| "pool_step e now EvCleanUp (head, pool) = do { pool1 \<leftarrow> CleanUpDirectCalls pool; Some (head, pool1) }"

text \<open>
  \<open>NewTxPool\<close>: the empty pool, reset to the chain's head; with journaling on, the transactions of
  the journal file are added as local ones before the journal is rotated.
\<close>

definition empty_pool :: "'p env \<Rightarrow> TxPoolConfig \<Rightarrow> 'p txpool" where
  "empty_pool e cfg = \<lparr>config = cfg, gasPrice = uint (PriceLimit cfg),
     currentState = \<lparr>GetNonce = (\<lambda>_. 0), GetBalance = (\<lambda>_. 0)\<rparr>,
     pendingState = ms_new e \<lparr>GetNonce = (\<lambda>_. 0), GetBalance = (\<lambda>_. 0)\<rparr>,
     currentMaxGas = 0, locals = newAccountSet, journal = None, pending = [], queue = [], beats = [],
     all = [], priced = newTxPricedList, directCalls = [], KnownDirectTxs = [], pangu = False,
     txFeed = [], shardingTxFeed = []\<rparr>"

definition NewTxPool ::
  "'p env \<Rightarrow> int \<Rightarrow> TxPoolConfig \<Rightarrow> tx list option \<Rightarrow> nat \<Rightarrow> rotate_fault option \<Rightarrow> 'p txpool option"
where
  "NewTxPool e now cfg0 file k fault = do {
     let cfg = sanitize cfg0;
     pool1 \<leftarrow> reset e now None (Some (CurrentBlock e)) (empty_pool e cfg);
     if \<not> NoLocals cfg \<and> Journal cfg \<noteq> [] then do {
       let j = newTxJournal file;
       (_, pool3) \<leftarrow> jr_load (AddLocal e now) k j (pool1\<lparr>journal := Some j\<rparr>);
       Some (rotate_journal e fault pool3)
     } else Some pool1
   }"

end
