(* ===== verification/TxPoolInv.thy ===== *)
theory TxPoolInv
  imports TxPool
begin

text \<open>
  The invariant of the transaction pool and its preservation by every operation. The abstract
  content of the pool is the function \<open>txs_at\<close> for the pending and for the queued lists, which
  gives an account's transactions in nonce order, and the lookup map \<open>all\<close>. Every operation is
  shown to return (no panic), to keep the invariant, and to change the abstract content as its
  contract says.
\<close>

section \<open>Abstract content\<close>

definition txs_at :: "(address, txList) gomap \<Rightarrow> address \<Rightarrow> tx list" where
  "txs_at m a = (case map_of m a of None \<Rightarrow> [] | Some l \<Rightarrow> tl_view l)"

definition lists_ok :: "'p env \<Rightarrow> bool \<Rightarrow> (address, txList) gomap \<Rightarrow> bool" where
  "lists_ok e str m \<longleftrightarrow> gomap_ok m \<and>
     (\<forall>a l. map_of m a = Some l \<longrightarrow> tl_ok l \<and> strict l = str \<and> (\<forall>t \<in> set (tl_view l). from_addr e t = a))"

text \<open>
  Every listed transaction is found under its hash, and no account has the same nonce pending and
  queued.
\<close>

definition link :: "(address \<Rightarrow> tx list) \<Rightarrow> (address \<Rightarrow> tx list) \<Rightarrow> (hash \<Rightarrow> tx option) \<Rightarrow> bool" where
  "link P Q A \<longleftrightarrow> (\<forall>a. \<forall>t \<in> set (P a) \<union> set (Q a). A (Hash t) = Some t) \<and>
     (\<forall>a. \<forall>t \<in> set (P a). \<forall>u \<in> set (Q a). Nonce t \<noteq> Nonce u)"

definition heap_ok :: "tx set \<Rightarrow> 'p txpool \<Rightarrow> bool" where
  "heap_ok X pool \<longleftrightarrow> is_heap GasPrice (pl_items (priced pool)) \<and>
     (\<forall>p \<in> set (all pool). snd p \<in> set (pl_items (priced pool)) \<union> X)"

text \<open>
  The invariant. The set \<open>X\<close> holds the transactions that \<open>Discard\<close> and \<open>Cap\<close> have taken off the
  price heap and that the caller is about to remove; it is empty between operations.
\<close>

definition pool_ok :: "'p env \<Rightarrow> tx set \<Rightarrow> 'p txpool \<Rightarrow> bool" where
  "pool_ok e X pool \<longleftrightarrow> lists_ok e True (pending pool) \<and> lists_ok e False (queue pool) \<and>
     all_ok (all pool) \<and> heap_ok X pool \<and>
     link (txs_at (pending pool)) (txs_at (queue pool)) (map_of (all pool))"

abbreviation P_of :: "'p txpool \<Rightarrow> address \<Rightarrow> tx list" where
  "P_of pool \<equiv> txs_at (pending pool)"

abbreviation Q_of :: "'p txpool \<Rightarrow> address \<Rightarrow> tx list" where
  "Q_of pool \<equiv> txs_at (queue pool)"

abbreviation A_of :: "'p txpool \<Rightarrow> hash \<Rightarrow> tx option" where
  "A_of pool \<equiv> map_of (all pool)"

section \<open>Lists of accounts\<close>

lemma txs_at_Nil [simp]: "txs_at [] a = []"
  by (simp add: txs_at_def)

lemma txs_at_update [simp]: "txs_at (AList.update a l m) = (txs_at m)(a := tl_view l)"
  by (auto simp: txs_at_def AList.update_conv')

lemma txs_at_delete [simp]: "txs_at (AList.delete a m) = (txs_at m)(a := [])"
  by (auto simp: txs_at_def delete_conv' split: option.splits)

lemma txs_at_Some: "map_of m a = Some l \<Longrightarrow> txs_at m a = tl_view l"
  by (simp add: txs_at_def)

lemma txs_at_None: "map_of m a = None \<Longrightarrow> txs_at m a = []"
  by (simp add: txs_at_def)

lemma lists_ok_Nil [simp]: "lists_ok e s []"
  by (simp add: lists_ok_def)

lemma lists_okD:
  assumes "lists_ok e s m" and "map_of m a = Some l"
  shows "tl_ok l" "strict l = s" "t \<in> set (tl_view l) \<Longrightarrow> from_addr e t = a"
  using assms by (auto simp: lists_ok_def)

lemma lists_ok_from: "lists_ok e s m \<Longrightarrow> t \<in> set (txs_at m a) \<Longrightarrow> from_addr e t = a"
  by (cases "map_of m a") (simp_all add: lists_ok_def txs_at_def)

lemma lists_ok_gomap: "lists_ok e s m \<Longrightarrow> gomap_ok m"
  by (simp add: lists_ok_def)

lemma lists_ok_update:
  "lists_ok e s m \<Longrightarrow> tl_ok l \<Longrightarrow> strict l = s \<Longrightarrow> (\<And>t. t \<in> set (tl_view l) \<Longrightarrow> from_addr e t = a) \<Longrightarrow>
   lists_ok e s (AList.update a l m)"
  by (auto simp: lists_ok_def AList.update_conv')

lemma lists_ok_delete: "lists_ok e s m \<Longrightarrow> lists_ok e s (AList.delete a m)"
  by (auto simp: lists_ok_def delete_conv' split: if_splits)

lemma get_list_ok:
  assumes "lists_ok e s m"
  shows "tl_ok (get_list s a m)" "strict (get_list s a m) = s" "tl_view (get_list s a m) = txs_at m a"
    "t \<in> set (txs_at m a) \<Longrightarrow> from_addr e t = a"
  using assms lists_ok_from [OF assms]
  by (auto simp: get_list_def txs_at_def newTxList_def lists_ok_def split: option.splits)
    (use newTxList_ok tl_view_new in \<open>simp_all add: newTxList_def\<close>)

text \<open>What a nonce lookup in a list finds.\<close>

lemma sm_Get_None_view: "tl_ok l \<Longrightarrow> sm_Get (txs l) n = None \<longleftrightarrow> n \<notin> Nonce ` set (tl_view l)"
  using sm.get_None [OF tl_ok_sm] by (auto simp: tl_view_def)

section \<open>Links\<close>

lemma linkD:
  assumes "link P Q A"
  shows "t \<in> set (P a) \<Longrightarrow> A (Hash t) = Some t" "t \<in> set (Q a) \<Longrightarrow> A (Hash t) = Some t"
    "t \<in> set (P a) \<Longrightarrow> u \<in> set (Q a) \<Longrightarrow> Nonce t \<noteq> Nonce u"
  using assms by (auto simp: link_def)

lemma link_mono:
  assumes "link P Q A" "\<And>a. set (P' a) \<subseteq> set (P a)" "\<And>a. set (Q' a) \<subseteq> set (Q a)"
  shows "link P' Q' A"
  using assms unfolding link_def by (meson UnE UnI1 UnI2 subsetD)

lemma link_upd:
  assumes "link P Q A" and "\<And>a t. t \<in> set (P a) \<union> set (Q a) \<Longrightarrow> A' (Hash t) = Some t"
  shows "link P Q A'"
  using assms unfolding link_def by blast

lemma link_listed: "link P Q A \<Longrightarrow> t \<in> set (P a) \<union> set (Q a) \<Longrightarrow> A (Hash t) = Some t"
  unfolding link_def by blast

lemma link_delete:
  assumes l: "link P Q A" and h: "\<And>a t. t \<in> set (P a) \<union> set (Q a) \<Longrightarrow> Hash t \<noteq> h"
  shows "link P Q (A(h := None))"
  by (rule link_upd [OF l]) (simp only: h fun_upd_other link_listed [OF l] not_False_eq_True)

lemma link_put:
  assumes l: "link P Q A" and t: "A (Hash t) = None \<or> A (Hash t) = Some t"
  shows "link P Q (A(Hash t \<mapsto> t))"
proof (rule link_upd [OF l])
  fix a u assume "u \<in> set (P a) \<union> set (Q a)"
  from link_listed [OF l this] t show "(A(Hash t \<mapsto> t)) (Hash u) = Some u"
    by (cases "Hash u = Hash t") auto
qed

lemma link_sym: "link P Q A \<Longrightarrow> link Q P A"
  unfolding link_def by (metis Un_commute)

text \<open>A transaction that takes the place of \<open>old\<close> in an account's list and in the lookup map.\<close>

lemma link_replace:
  assumes l: "link P Q A" and frm: "\<And>b u. u \<in> set (P b) \<union> set (Q b) \<Longrightarrow> f u = b"
    and new: "A (Hash t) = None \<or> A (Hash t) = Some t" and ft: "f t = a"
    and nop: "\<And>u. u \<in> set (P a) \<Longrightarrow> Nonce u \<noteq> Nonce t"
    and qs: "set qs = insert t {u \<in> set (Q a). Nonce u \<noteq> Nonce t}"
    and old: "\<And>u. old = Some u \<Longrightarrow> u \<in> set (Q a) \<and> Nonce u = Nonce t"
  shows "link P (Q(a := qs)) ((case old of None \<Rightarrow> A | Some u \<Rightarrow> A(Hash u := None))(Hash t \<mapsto> t))"
proof -
  let ?A = "case old of None \<Rightarrow> A | Some u \<Rightarrow> A(Hash u := None)"
  have keep: "(?A(Hash t \<mapsto> t)) (Hash u) = Some u"
    if u: "u \<in> set (P b) \<union> set (Q b)" and ne: "b = a \<Longrightarrow> Nonce u \<noteq> Nonce t" for b u
  proof (cases "Hash u = Hash t")
    case True
    with link_listed [OF l u] new show ?thesis by auto
  next
    case False
    have "?A (Hash u) = Some u"
    proof (cases old)
      case (Some v)
      have v: "v \<in> set (P a) \<union> set (Q a)" "Nonce v = Nonce t"
        using conjunct1 [OF old [OF Some]] conjunct2 [OF old [OF Some]] by simp_all
      have "Hash u \<noteq> Hash v"
      proof
        assume "Hash u = Hash v"
        then have "Some u = Some v"
          using link_listed [OF l u, symmetric] link_listed [OF l v(1)] by (rule_tac trans) simp_all
        then have "u = v" by simp
        moreover from this have "b = a" using frm [OF u] frm [OF v(1)] by simp
        ultimately show False using ne v(2) by blast
      qed
      with Some link_listed [OF l u] show ?thesis by simp
    qed (use link_listed [OF l u] in simp)
    with False show ?thesis by simp
  qed
  show ?thesis unfolding link_def
  proof (intro conjI allI ballI)
    fix b u assume u: "u \<in> set (P b) \<union> set ((Q(a := qs)) b)"
    show "(?A(Hash t \<mapsto> t)) (Hash u) = Some u"
    proof (cases "u = t")
      case False
      with u qs have m: "u \<in> set (P b) \<union> set (Q b)" by (auto split: if_splits)
      moreover have "Nonce u \<noteq> Nonce t" if "b = a"
        using u that nop [of u] qs False by auto
      ultimately show ?thesis by (rule keep)
    qed simp
  next
    fix b u v assume u: "u \<in> set (P b)" and v: "v \<in> set ((Q(a := qs)) b)"
    show "Nonce u \<noteq> Nonce v"
    proof (cases "b = a \<and> v = t")
      case True
      with nop u show ?thesis by blast
    next
      case False
      with v qs have "v \<in> set (Q b)" by (auto split: if_splits)
      with linkD(3) [OF l u] show ?thesis by blast
    qed
  qed
qed

section \<open>Frame\<close>

text \<open>What the list-moving operations never touch.\<close>

definition frame :: "'p txpool \<Rightarrow> 'p txpool \<Rightarrow> bool" where
  "frame pool pool' \<longleftrightarrow> config pool' = config pool \<and> gasPrice pool' = gasPrice pool \<and>
     currentState pool' = currentState pool \<and> currentMaxGas pool' = currentMaxGas pool \<and>
     locals pool' = locals pool \<and> journal pool' = journal pool \<and>
     directCalls pool' = directCalls pool \<and> KnownDirectTxs pool' = KnownDirectTxs pool \<and>
     pangu pool' = pangu pool \<and> shardingTxFeed pool' = shardingTxFeed pool"

lemma frame_refl [simp]: "frame pool pool"
  by (simp add: frame_def)

lemma frame_trans: "frame p q \<Longrightarrow> frame q r \<Longrightarrow> frame p r"
  by (simp add: frame_def)

lemma frameD:
  "frame p q \<Longrightarrow> config q = config p" "frame p q \<Longrightarrow> locals q = locals p"
  "frame p q \<Longrightarrow> currentState q = currentState p" "frame p q \<Longrightarrow> currentMaxGas q = currentMaxGas p"
  by (simp_all add: frame_def)

lemma frame_upd [simp]:
  "frame p (q\<lparr>pending := x\<rparr>) = frame p q" "frame p (q\<lparr>queue := x\<rparr>) = frame p q"
  "frame p (q\<lparr>beats := y\<rparr>) = frame p q" "frame p (q\<lparr>pendingState := z\<rparr>) = frame p q"
  "frame p (q\<lparr>txFeed := w\<rparr>) = frame p q"
  by (simp_all add: frame_def)

section \<open>The lookup map and the price heap\<close>

lemma drop_all_sel [simp]:
  "pending (drop_all h pool) = pending pool" "queue (drop_all h pool) = queue pool"
  "beats (drop_all h pool) = beats pool" "pendingState (drop_all h pool) = pendingState pool"
  "all (drop_all h pool) = AList.delete h (all pool)" "frame p (drop_all h pool) = frame p pool"
  "txFeed (drop_all h pool) = txFeed pool"
  by (simp_all add: drop_all_def Let_def frame_def)

lemma put_all_sel [simp]:
  "pending (put_all h t pool) = pending pool" "queue (put_all h t pool) = queue pool"
  "beats (put_all h t pool) = beats pool" "pendingState (put_all h t pool) = pendingState pool"
  "all (put_all h t pool) = AList.update h t (all pool)" "frame p (put_all h t pool) = frame p pool"
  "txFeed (put_all h t pool) = txFeed pool"
  by (simp_all add: put_all_def Let_def frame_def)

lemma drop_old_sel [simp]:
  "pending (drop_old old pool) = pending pool" "queue (drop_old old pool) = queue pool"
  "beats (drop_old old pool) = beats pool" "pendingState (drop_old old pool) = pendingState pool"
  "frame p (drop_old old pool) = frame p pool" "txFeed (drop_old old pool) = txFeed pool"
  by (simp_all add: drop_old_def split: option.splits)

lemma map_of_delete [simp]: "map_of (AList.delete h m) = (map_of m)(h := None)"
  by (simp add: delete_conv')

lemma A_of_drop_old:
  "A_of (drop_old old pool) = (case old of None \<Rightarrow> A_of pool | Some u \<Rightarrow> (A_of pool)(Hash u := None))"
  by (simp add: drop_old_def split: option.splits)

lemma heap_ok_drop: "heap_ok X pool \<Longrightarrow> heap_ok X (drop_all h pool)"
  using set_delete_subset [of h "all pool"]
  by (auto simp: heap_ok_def drop_all_def Let_def pl_Removed_def goheap.invar_init goheap.set_init)

lemma heap_ok_put: "heap_ok X pool \<Longrightarrow> heap_ok X (put_all h t pool)"
  using set_update_subset [of h t "all pool"]
  by (auto simp: heap_ok_def put_all_def pl_Put_def goheap.invar_push goheap.set_push)

lemma heap_ok_drop_old: "heap_ok X pool \<Longrightarrow> heap_ok X (drop_old old pool)"
  by (simp add: drop_old_def heap_ok_drop split: option.splits)

lemma heap_ok_upd [simp]:
  "heap_ok X (q\<lparr>pending := x\<rparr>) = heap_ok X q" "heap_ok X (q\<lparr>queue := x\<rparr>) = heap_ok X q"
  "heap_ok X (q\<lparr>beats := y\<rparr>) = heap_ok X q" "heap_ok X (q\<lparr>pendingState := z\<rparr>) = heap_ok X q"
  "heap_ok X (q\<lparr>txFeed := w\<rparr>) = heap_ok X q"
  by (simp_all add: heap_ok_def)

lemma all_ok_drop_old: "all_ok (all pool) \<Longrightarrow> all_ok (all (drop_old old pool))"
  by (simp add: drop_old_def all_ok_delete split: option.splits)

lemma pool_okD:
  assumes "pool_ok e X pool"
  shows "lists_ok e True (pending pool)" "lists_ok e False (queue pool)" "all_ok (all pool)"
    "heap_ok X pool" "link (P_of pool) (Q_of pool) (A_of pool)"
  using assms by (simp_all add: pool_ok_def)

lemma pool_ok_from: "pool_ok e X pool \<Longrightarrow> t \<in> set (P_of pool a) \<union> set (Q_of pool a) \<Longrightarrow> from_addr e t = a"
  using lists_ok_from [OF pool_okD(1)] lists_ok_from [OF pool_okD(2)] by blast

lemma pool_ok_drop_all:
  assumes ok: "pool_ok e X pool" and h: "\<And>a t. t \<in> set (P_of pool a) \<union> set (Q_of pool a) \<Longrightarrow> Hash t \<noteq> h"
  shows "pool_ok e X (drop_all h pool)"
  using pool_okD [OF ok] link_delete [OF pool_okD(5) [OF ok] h]
  by (simp add: pool_ok_def all_ok_delete heap_ok_drop)

lemma pool_ok_lists:
  assumes ok: "pool_ok e X pool" and "lists_ok e True P" and "lists_ok e False Q"
    and "\<And>a. set (txs_at P a) \<subseteq> set (P_of pool a)" "\<And>a. set (txs_at Q a) \<subseteq> set (Q_of pool a)"
  shows "pool_ok e X (pool\<lparr>pending := P, queue := Q\<rparr>)"
  using pool_okD [OF ok] link_mono [OF pool_okD(5) [OF ok] assms(4,5)] assms(2,3)
  by (simp add: pool_ok_def)

lemma upd_same [simp]: "q = queue p \<Longrightarrow> p\<lparr>queue := q\<rparr> = p" "q' = pending p \<Longrightarrow> p\<lparr>pending := q'\<rparr> = p"
  by simp_all

lemma pool_ok_pending:
  "pool_ok e X pool \<Longrightarrow> lists_ok e True P \<Longrightarrow> (\<And>a. set (txs_at P a) \<subseteq> set (P_of pool a)) \<Longrightarrow>
   pool_ok e X (pool\<lparr>pending := P\<rparr>)"
  using pool_ok_lists [of e X pool P "queue pool"] pool_okD(2) [of e X pool] by simp

lemma pool_ok_queue:
  "pool_ok e X pool \<Longrightarrow> lists_ok e False Q \<Longrightarrow> (\<And>a. set (txs_at Q a) \<subseteq> set (Q_of pool a)) \<Longrightarrow>
   pool_ok e X (pool\<lparr>queue := Q\<rparr>)"
  using pool_ok_lists [of e X pool "pending pool" Q] pool_okD(1) [of e X pool] by simp

lemma pool_ok_other [simp]:
  "pool_ok e X (pool\<lparr>beats := y\<rparr>) = pool_ok e X pool"
  "pool_ok e X (pool\<lparr>pendingState := z\<rparr>) = pool_ok e X pool"
  "pool_ok e X (pool\<lparr>txFeed := w\<rparr>) = pool_ok e X pool"
  by (simp_all add: pool_ok_def)

lemma pool_ok_shrink:
  assumes ok: "pool_ok e X pool" and "\<And>t. t \<in> X \<Longrightarrow> t \<notin> Y \<Longrightarrow> A_of pool (Hash t) = None"
  shows "pool_ok e Y pool"
proof -
  have "snd p \<in> set (pl_items (priced pool)) \<union> Y" if "p \<in> set (all pool)" for p
    using all_ok_live [OF pool_okD(3) [OF ok] that] assms(2) [of "snd p"] pool_okD(4) [OF ok] that
    by (auto simp: heap_ok_def)
  with ok show ?thesis by (simp add: pool_ok_def heap_ok_def)
qed

section \<open>Queueing\<close>

text \<open>The two outcomes of \<open>enqueueTx\<close>: the old transaction of the nonce is kept, or replaced.\<close>

lemma enqueueTx_ok:
  assumes ok: "pool_ok e X pool" and new: "A_of pool (Hash t) = None \<or> A_of pool (Hash t) = Some t"
    and a: "from_addr e t = a" and nop: "\<forall>u \<in> set (P_of pool a). Nonce u \<noteq> Nonce t"
  obtains (kept) pool' old where "enqueueTx e (Hash t) t pool = (Inl ErrReplaceUnderpriced, pool')"
      "pool_ok e X pool'" "frame pool pool'" "pending pool' = pending pool" "beats pool' = beats pool"
      "pendingState pool' = pendingState pool" "Q_of pool' = Q_of pool" "all pool' = all pool"
      "\<And>b. b \<noteq> a \<Longrightarrow> map_of (queue pool') b = map_of (queue pool) b" "map_of (queue pool') a \<noteq> None"
      "old \<in> set (Q_of pool a)" "Nonce old = Nonce t" "GasPrice t \<le> price_threshold old (PriceBump (config pool))"
  | (put) pool' old qs where "enqueueTx e (Hash t) t pool = (Inr (old \<noteq> None), pool')"
      "pool_ok e X pool'" "frame pool pool'" "pending pool' = pending pool" "beats pool' = beats pool"
      "pendingState pool' = pendingState pool" "Q_of pool' = (Q_of pool)(a := qs)"
      "set qs = insert t {u \<in> set (Q_of pool a). Nonce u \<noteq> Nonce t}"
      "A_of pool' = (case old of None \<Rightarrow> A_of pool | Some u \<Rightarrow> (A_of pool)(Hash u := None))(Hash t \<mapsto> t)"
      "\<And>b. b \<noteq> a \<Longrightarrow> map_of (queue pool') b = map_of (queue pool) b" "map_of (queue pool') a \<noteq> None"
      "\<And>u. old = Some u \<longleftrightarrow> u \<in> set (Q_of pool a) \<and> Nonce u = Nonce t"
      "\<And>u. old = Some u \<Longrightarrow> price_threshold u (PriceBump (config pool)) < GasPrice t"
proof -
  let ?l = "get_list False a (queue pool)" and ?pb = "PriceBump (config pool)"
  note g = get_list_ok [OF pool_okD(2) [OF ok], where a = a]
  have get: "sm_Get (txs ?l) (Nonce t) = Some u \<longleftrightarrow> u \<in> set (Q_of pool a) \<and> Nonce u = Nonce t" for u
    using sm.get_view [OF tl_ok_sm [OF g(1)]] g(3) by (simp add: tl_view_def)
  show thesis
  proof (cases "\<exists>old. sm_Get (txs ?l) (Nonce t) = Some old \<and> GasPrice t \<le> price_threshold old ?pb")
    case True
    then obtain old where old: "sm_Get (txs ?l) (Nonce t) = Some old" "GasPrice t \<le> price_threshold old ?pb" by blast
    define pool' where "pool' = pool\<lparr>queue := AList.update a ?l (queue pool)\<rparr>"
    have eq: "enqueueTx e (Hash t) t pool = (Inl ErrReplaceUnderpriced, pool')"
      by (simp add: enqueueTx_def a tl_Add_reject [OF old] pool'_def)
    have Q: "Q_of pool' = Q_of pool" by (simp add: pool'_def g(3))
    have "pool_ok e X pool'"
      using pool_okD [OF ok] Q lists_ok_update [OF pool_okD(2) [OF ok] g(1,2), of a] g(3,4)
      by (simp add: pool_ok_def pool'_def)
    with old get Q show thesis
      by (intro kept [OF eq]) (simp_all add: pool'_def AList.update_conv')
  next
    case False
    then have acc: "\<And>old. sm_Get (txs ?l) (Nonce t) = Some old \<Longrightarrow> price_threshold old ?pb < GasPrice t"
      by (auto simp: not_le)
    define old where "old = sm_Get (txs ?l) (Nonce t)"
    show thesis
    proof (rule tl_Add_accept [OF g(1) acc])
      fix l' assume l': "tl_Add t ?pb ?l = (True, sm_Get (txs ?l) (Nonce t), l')" "tl_ok l'"
        "strict l' = strict ?l" "set (tl_view l') = insert t {u \<in> set (tl_view ?l). Nonce u \<noteq> Nonce t}"
      define pool1 where "pool1 = drop_old old (pool\<lparr>queue := AList.update a l' (queue pool)\<rparr>)"
      define pool' where "pool' = put_all (Hash t) t pool1"
      have eq: "enqueueTx e (Hash t) t pool = (Inr (old \<noteq> None), pool')"
        by (simp add: enqueueTx_def a l'(1) pool'_def pool1_def old_def)
      have qs: "set (tl_view l') = insert t {u \<in> set (Q_of pool a). Nonce u \<noteq> Nonce t}"
        using l'(4) g(3) by simp
      have A: "A_of pool' = (case old of None \<Rightarrow> A_of pool | Some u \<Rightarrow> (A_of pool)(Hash u := None))(Hash t \<mapsto> t)"
        by (simp add: pool'_def pool1_def AList.update_conv' A_of_drop_old split: option.splits)
      have lk: "link (P_of pool) ((Q_of pool)(a := tl_view l')) (A_of pool')"
        unfolding A by (rule link_replace [where f = "from_addr e", OF pool_okD(5) [OF ok] pool_ok_from [OF ok] new a bspec [OF nop] qs])
          (simp_all add: old_def get)
      have fr: "from_addr e u = a" if "u \<in> set (tl_view l')" for u
        using that qs a pool_ok_from [OF ok, of u a] by auto
      have "lists_ok e False (AList.update a l' (queue pool))"
        by (rule lists_ok_update [OF pool_okD(2) [OF ok] l'(2)]) (simp_all add: l'(3) g(2) fr)
      moreover have "all_ok (all pool')"
        using pool_okD(3) [OF ok] by (simp add: pool'_def pool1_def all_ok_update all_ok_drop_old)
      moreover have "heap_ok X pool'"
        using pool_okD(4) [OF ok] by (simp add: pool'_def pool1_def heap_ok_put heap_ok_drop_old)
      ultimately have "pool_ok e X pool'"
        using pool_okD(1) [OF ok] lk by (simp add: pool_ok_def pool'_def pool1_def)
      then show thesis
        by (rule put [OF eq _ _ _ _ _ _ qs A])
          (simp_all add: pool'_def pool1_def AList.update_conv' old_def get acc)
    qed
  qed
qed

text \<open>What re-queueing the transactions \<open>ts\<close> of account \<open>a\<close> may change.\<close>

definition requeued :: "address \<Rightarrow> tx list \<Rightarrow> 'p txpool \<Rightarrow> 'p txpool \<Rightarrow> bool" where
  "requeued a ts pool pool' \<longleftrightarrow> frame pool pool' \<and> pending pool' = pending pool \<and> beats pool' = beats pool \<and>
     pendingState pool' = pendingState pool \<and>
     (\<forall>b. b \<noteq> a \<longrightarrow> map_of (queue pool') b = map_of (queue pool) b) \<and>
     set (Q_of pool' a) \<subseteq> set ts \<union> set (Q_of pool a) \<and>
     (\<forall>h u. A_of pool' h = Some u \<longrightarrow> A_of pool h = Some u \<or> u \<in> set ts \<and> h = Hash u)"

lemma requeued_refl: "requeued a [] pool pool"
  by (simp add: requeued_def)

lemma requeuedD:
  assumes "requeued a ts pool pool'"
  shows "frame pool pool'" "pending pool' = pending pool" "beats pool' = beats pool"
    "pendingState pool' = pendingState pool" "b \<noteq> a \<Longrightarrow> map_of (queue pool') b = map_of (queue pool) b"
    "set (Q_of pool' a) \<subseteq> set ts \<union> set (Q_of pool a)"
    "A_of pool' h = Some u \<Longrightarrow> A_of pool h = Some u \<or> u \<in> set ts \<and> h = Hash u"
  using assms by (simp_all add: requeued_def)

lemma requeued_Cons:
  assumes 1: "requeued a [t] p q" and 2: "requeued a ts q r"
  shows "requeued a (t # ts) p r"
  unfolding requeued_def
proof (intro conjI allI impI)
  show "frame p r" by (rule frame_trans [OF requeuedD(1) [OF 1] requeuedD(1) [OF 2]])
  show "set (Q_of r a) \<subseteq> set (t # ts) \<union> set (Q_of p a)"
    using requeuedD(6) [OF 1] requeuedD(6) [OF 2] by auto
  show "A_of p h = Some u \<or> u \<in> set (t # ts) \<and> h = Hash u" if "A_of r h = Some u" for h u
    using requeuedD(7) [OF 2 that] requeuedD(7) [OF 1, of h u] by auto
qed (simp_all add: requeuedD(2-5) [OF 1] requeuedD(2-5) [OF 2])

lemma enqueueTx_requeued:
  assumes "pool_ok e X pool" "A_of pool (Hash t) = None \<or> A_of pool (Hash t) = Some t"
    "from_addr e t = a" "\<forall>u \<in> set (P_of pool a). Nonce u \<noteq> Nonce t"
  shows "pool_ok e X (snd (enqueueTx e (Hash t) t pool)) \<and> requeued a [t] pool (snd (enqueueTx e (Hash t) t pool))"
proof (cases rule: enqueueTx_ok [OF assms, case_names kept put])
  case (kept pool' old)
  then show ?thesis by (simp add: requeued_def subset_insertI)
next
  case (put pool' old qs)
  have "A_of pool h = Some u \<or> u = t \<and> h = Hash u" if "A_of pool' h = Some u" for h u
    using that unfolding put(9) by (auto split: if_splits option.splits)
  with put(1-8,10) show ?thesis by (auto simp: requeued_def)
qed

lemma enqueue_each_ok:
  assumes "pool_ok e X pool" and "inj_on Hash (set ts)"
    and "\<And>t. t \<in> set ts \<Longrightarrow> A_of pool (Hash t) = None \<or> A_of pool (Hash t) = Some t"
    and "\<And>t. t \<in> set ts \<Longrightarrow> from_addr e t = a"
    and "\<forall>t \<in> set ts. \<forall>u \<in> set (P_of pool a). Nonce u \<noteq> Nonce t"
  shows "pool_ok e X (enqueue_each e ts pool) \<and> requeued a ts pool (enqueue_each e ts pool)"
  using assms
proof (induction ts arbitrary: pool)
  case Nil
  then show ?case by (simp add: requeued_refl)
next
  case (Cons t ts)
  define pool1 where "pool1 = snd (enqueueTx e (Hash t) t pool)"
  have t: "t \<in> set (t # ts)" by simp
  have 1: "pool_ok e X pool1" "requeued a [t] pool pool1"
    using enqueueTx_requeued [OF Cons.prems(1) Cons.prems(3,4) [OF t] bspec [OF Cons.prems(5) t]]
    by (simp_all add: pool1_def)
  have "A_of pool1 (Hash u) = None \<or> A_of pool1 (Hash u) = Some u" if u: "u \<in> set ts" for u
  proof (cases "A_of pool1 (Hash u)")
    case (Some v)
    from requeuedD(7) [OF 1(2) this] show ?thesis
    proof
      assume "A_of pool (Hash u) = Some v"
      then have "v = u" using Cons.prems(3) [OF list.set_intros(2) [OF u]] by (elim disjE) simp_all
      with Some show ?thesis by simp
    next
      assume "v \<in> set [t] \<and> Hash u = Hash v"
      then have "v = t" "Hash u = Hash t" by simp_all
      with inj_onD [OF Cons.prems(2) _ list.set_intros(2) [OF u] t] have "v = u" by simp
      with Some show ?thesis by simp
    qed
  qed simp
  moreover have "\<forall>t \<in> set ts. \<forall>u \<in> set (P_of pool1 a). Nonce u \<noteq> Nonce t"
    using Cons.prems(5) unfolding requeuedD(2) [OF 1(2)] by simp
  ultimately have "pool_ok e X (enqueue_each e ts pool1) \<and> requeued a ts pool1 (enqueue_each e ts pool1)"
    using Cons.prems(2,4) 1(1) by (intro Cons.IH) (simp_all add: inj_on_insert)
  with requeued_Cons [OF 1(2)] show ?case by (simp add: pool1_def)
qed

section \<open>Removal\<close>

lemma lower_nonce_sel [simp]:
  "pending (lower_nonce e a n pool) = pending pool" "queue (lower_nonce e a n pool) = queue pool"
  "beats (lower_nonce e a n pool) = beats pool" "all (lower_nonce e a n pool) = all pool"
  "frame p (lower_nonce e a n pool) = frame p pool" "pool_ok e' X (lower_nonce e a n pool) = pool_ok e' X pool"
  by (simp_all add: lower_nonce_def)

lemma remove_queued_ok:
  fixes pool :: "'p txpool"
  assumes ok: "lists_ok e False (queue pool)"
  obtains Q where "\<And>p :: 'p txpool. queue p = queue pool \<Longrightarrow> remove_queued a t p = Some (p\<lparr>queue := Q\<rparr>)" "lists_ok e False Q"
    "txs_at Q = (Q_of pool)(a := filter (\<lambda>u. Nonce u \<noteq> Nonce t) (Q_of pool a))"
    "\<And>b. b \<noteq> a \<Longrightarrow> map_of Q b = map_of (queue pool) b"
proof (cases "map_of (queue pool) a")
  case None
  show ?thesis
    by (rule that [of "queue pool"]) (use None ok in \<open>simp_all add: remove_queued_def txs_at_None fun_upd_idem\<close>)
next
  case (Some l)
  note l = lists_okD [OF ok Some]
  show ?thesis
  proof (rule tl_Remove_spec [OF l(1), of t])
    fix found inv l'
    assume r: "tl_Remove t l = Some (found, inv, l')" "tl_ok l'" "strict l' = strict l"
      "tl_view l' = (if strict l \<and> found then takeWhile (\<lambda>u. Nonce u < Nonce t) (tl_view l)
                     else filter (\<lambda>u. Nonce u \<noteq> Nonce t) (tl_view l))"
    define Q where "Q = (if tl_Empty l' then AList.delete a (queue pool) else AList.update a l' (queue pool))"
    have v: "tl_view l' = filter (\<lambda>u. Nonce u \<noteq> Nonce t) (Q_of pool a)"
      using r(4) l(2) by (simp add: txs_at_Some [OF Some])
    have 1: "remove_queued a t p = Some (p\<lparr>queue := Q\<rparr>)" if "queue p = queue pool" for p :: "'p txpool"
      using Some r(1) that by (simp add: remove_queued_def Q_def)
    have 2: "txs_at Q = (Q_of pool)(a := filter (\<lambda>u. Nonce u \<noteq> Nonce t) (Q_of pool a))"
      unfolding Q_def using v by (simp add: tl_Empty_view)
    have "from_addr e u = a" if "u \<in> set (tl_view l')" for u
      using lists_ok_from [OF ok, of u a] that v by simp
    then have 3: "lists_ok e False Q"
      unfolding Q_def using ok r(2,3) l(2) by (simp add: lists_ok_delete lists_ok_update)
    show ?thesis by (rule that [OF 1 3 2]) (simp_all add: Q_def AList.update_conv')
  qed
qed

lemma pool_ok_unlist:
  assumes ok: "pool_ok e X pool" and t: "A_of pool h = Some t" and a: "from_addr e t = a"
    and P: "lists_ok e True P" "txs_at P = (P_of pool)(a := ps)" "set ps \<subseteq> set (P_of pool a)" "t \<notin> set ps"
    and Q: "lists_ok e False Q" "txs_at Q = (Q_of pool)(a := qs)" "set qs \<subseteq> set (Q_of pool a)" "t \<notin> set qs"
  shows "pool_ok e X ((drop_all h pool)\<lparr>pending := P, queue := Q\<rparr>)"
proof -
  have "link (txs_at P) (txs_at Q) (A_of pool)"
    using link_mono [OF pool_okD(5) [OF ok], of "txs_at P" "txs_at Q"] P(2,3) Q(2,3) by simp
  moreover have "Hash u \<noteq> h" if u: "u \<in> set (txs_at P b) \<union> set (txs_at Q b)" for b u
  proof
    assume "Hash u = h"
    have m: "u \<in> set (P_of pool b) \<union> set (Q_of pool b)"
      using u P(2,3) Q(2,3) by (auto split: if_splits)
    have "A_of pool h = Some u"
      using link_listed [OF pool_okD(5) [OF ok] m] \<open>Hash u = h\<close> by simp
    with t have "u = t" by simp
    moreover from this have "b = a" using pool_ok_from [OF ok m] a by simp
    ultimately show False using u P(2,4) Q(2,4) by simp
  qed
  ultimately have "link (txs_at P) (txs_at Q) ((A_of pool)(h := None))" by (rule link_delete)
  then show ?thesis
    using pool_okD [OF ok] P(1) Q(1) by (simp add: pool_ok_def all_ok_delete heap_ok_drop)
qed

lemma takeWhile_nonce: "t \<notin> set (takeWhile (\<lambda>u. Nonce u < Nonce t) ts)"
  by (auto dest: set_takeWhileD)

text \<open>The transactions behind a removed one go back to the queue.\<close>

lemma requeue_cut:
  assumes ok: "pool_ok e X pool" and t: "A_of pool h = Some t" and a: "from_addr e t = a"
    and ok2: "pool_ok e X pool2" and A2: "A_of pool2 = (A_of pool)(h := None)"
    and P2: "\<forall>w \<in> set (P_of pool2 a). Nonce w < Nonce t"
    and ivs: "set ivs = {u \<in> set (P_of pool a). Nonce t < Nonce u}"
  shows "pool_ok e X (enqueue_each e ivs pool2)" "requeued a ivs pool2 (enqueue_each e ivs pool2)"
    "A_of (enqueue_each e ivs pool2) h = None"
    "A_of (enqueue_each e ivs pool2) k = Some u \<Longrightarrow> A_of pool k = Some u"
proof -
  have iu: "A_of pool2 (Hash u) = Some u" "from_addr e u = a" if "u \<in> set ivs" for u
  proof -
    have m: "u \<in> set (P_of pool a) \<union> set (Q_of pool a)" and n: "Nonce t < Nonce u" using that ivs by simp_all
    have A: "A_of pool (Hash u) = Some u" by (rule link_listed [OF pool_okD(5) [OF ok] m])
    moreover have "Hash u \<noteq> h"
    proof
      assume "Hash u = h"
      with A t have "u = t" by simp
      with n show False by simp
    qed
    ultimately show "A_of pool2 (Hash u) = Some u" by (simp add: A2)
    show "from_addr e u = a" by (rule pool_ok_from [OF ok m])
  qed
  have np: "\<forall>u \<in> set ivs. \<forall>w \<in> set (P_of pool2 a). Nonce w \<noteq> Nonce u"
  proof (intro ballI)
    fix u w assume u: "u \<in> set ivs" and w: "w \<in> set (P_of pool2 a)"
    have "Nonce w < Nonce t" using bspec [OF P2 w] .
    also have "Nonce t < Nonce u" using u ivs by simp
    finally show "Nonce w \<noteq> Nonce u" by simp
  qed
  have inj: "inj_on Hash (set ivs)"
    by (rule inj_onI) (metis iu(1) option.inject)
  show 3: "pool_ok e X (enqueue_each e ivs pool2)" "requeued a ivs pool2 (enqueue_each e ivs pool2)"
    using enqueue_each_ok [OF ok2 inj disjI2 [OF iu(1)] iu(2) np] by simp_all
  have A2k: "A_of pool2 k = Some u" if "A_of (enqueue_each e ivs pool2) k = Some u" for k u
    using requeuedD(7) [OF 3(2) that] iu(1) by blast
  show "A_of (enqueue_each e ivs pool2) h = None"
    using A2k [of h] by (cases "A_of (enqueue_each e ivs pool2) h") (simp_all add: A2)
  show "A_of (enqueue_each e ivs pool2) k = Some u \<Longrightarrow> A_of pool k = Some u"
    using A2k [of k u] by (simp add: A2 split: if_splits)
qed

text \<open>The pending list of the account holds the nonce: the list is cut there.\<close>

lemma removeTx_pending:
  assumes ok: "pool_ok e X pool" and t: "A_of pool h = Some t" and a: "from_addr e t = a"
    and hit: "\<exists>u \<in> set (P_of pool a). Nonce u = Nonce t"
  obtains pool' where "removeTx e h pool = Some pool'" "pool_ok e X pool'" "frame pool pool'"
    "P_of pool' = (P_of pool)(a := takeWhile (\<lambda>u. Nonce u < Nonce t) (P_of pool a))"
    "\<And>b. b \<noteq> a \<Longrightarrow> map_of (queue pool') b = map_of (queue pool) b"
    "A_of pool' h = None" "\<And>k u. A_of pool' k = Some u \<Longrightarrow> A_of pool k = Some u"
    "set (Q_of pool' a) \<subseteq> set (Q_of pool a) \<union> {u \<in> set (P_of pool a). Nonce t < Nonce u}"
    "takeWhile (\<lambda>u. Nonce u < Nonce t) (P_of pool a) = [] \<Longrightarrow> queue pool' = queue pool"
proof -
  let ?ps = "takeWhile (\<lambda>u. Nonce u < Nonce t) (P_of pool a)"
  obtain l where l: "map_of (pending pool) a = Some l"
    using hit by (cases "map_of (pending pool) a") (simp_all add: txs_at_def)
  note lok = lists_okD [OF pool_okD(1) [OF ok] l]
  have v: "tl_view l = P_of pool a" by (simp add: txs_at_Some [OF l])
  show thesis
  proof (rule tl_Remove_spec [OF lok(1), of t])
    fix found inv l'
    assume r: "tl_Remove t l = Some (found, inv, l')" "found \<longleftrightarrow> (\<exists>u \<in> set (tl_view l). Nonce u = Nonce t)"
      "tl_ok l'" "strict l' = strict l"
      "tl_view l' = (if strict l \<and> found then takeWhile (\<lambda>u. Nonce u < Nonce t) (tl_view l)
                     else filter (\<lambda>u. Nonce u \<noteq> Nonce t) (tl_view l))"
      "set inv = (if strict l \<and> found then {u \<in> set (tl_view l). Nonce t < Nonce u} else {})"
    have found: "found" using r(2) hit v by simp
    have v': "tl_view l' = ?ps" and inv: "set inv = {u \<in> set (P_of pool a). Nonce t < Nonce u}"
      using r(5,6) found lok(2) v by simp_all
    define pool2 where "pool2 = (drop_all h pool)\<lparr>pending := AList.update a l' (pending pool)\<rparr>"
    have lP: "lists_ok e True (AList.update a l' (pending pool))"
      by (rule lists_ok_update [OF pool_okD(1) [OF ok] r(3)])
        (use r(4) lok(2,3) v v' in \<open>auto dest: set_takeWhileD\<close>)
    have tq: "t \<notin> set (Q_of pool a)"
      using hit linkD(3) [OF pool_okD(5) [OF ok]] by blast
    have "pool_ok e X ((drop_all h pool)\<lparr>pending := AList.update a l' (pending pool), queue := queue pool\<rparr>)"
      by (rule pool_ok_unlist [OF ok t a lP _ _ _ pool_okD(2) [OF ok], of ?ps "Q_of pool a"])
        (use v' tq in \<open>auto simp: takeWhile_nonce dest: set_takeWhileD\<close>)
    then have ok2: "pool_ok e X pool2" by (simp add: pool2_def)
    define pool3 where "pool3 = (if tl_Empty l'
        then pool2\<lparr>pending := AList.delete a (pending pool2), beats := AList.delete a (beats pool2)\<rparr>
        else enqueue_each e inv pool2)"
    have eq: "removeTx e h pool = Some (lower_nonce e a (Nonce t) pool3)"
      using t l r(1) found a by (simp add: removeTx_def pool3_def pool2_def Let_def)
    show thesis
    proof (cases "tl_Empty l'")
      case True
      then have e: "?ps = []" using v' by (simp add: tl_Empty_view)
      have p3: "pool3 = (pool2\<lparr>pending := AList.delete a (pending pool2)\<rparr>)\<lparr>beats := AList.delete a (beats pool2)\<rparr>"
        using True by (simp add: pool3_def)
      have "pool_ok e X (pool2\<lparr>pending := AList.delete a (pending pool2)\<rparr>)"
        by (rule pool_ok_pending [OF ok2 lists_ok_delete [OF pool_okD(1) [OF ok2]]]) simp
      then have "pool_ok e X pool3" unfolding p3 by simp
      then show thesis
        by (intro that [OF eq]) (simp_all add: p3 pool2_def e split: if_splits)
    next
      case False
      have p3: "pool3 = enqueue_each e inv pool2" using False by (simp add: pool3_def)
      have A2: "A_of pool2 = (A_of pool)(h := None)" by (simp add: pool2_def)
      have P2: "\<forall>w \<in> set (P_of pool2 a). Nonce w < Nonce t"
        using v' by (auto simp: pool2_def dest: set_takeWhileD)
      note rc = requeue_cut [OF ok t a ok2 A2 P2 inv, folded p3]
      have ne: "?ps \<noteq> []" using False v' by (simp add: tl_Empty_view)
      note rq = requeuedD [OF rc(2)]
      show thesis
      proof (rule that [OF eq])
        show "frame pool (lower_nonce e a (Nonce t) pool3)"
          using frame_trans [OF _ rq(1)] by (simp add: pool2_def)
        show "set (Q_of (lower_nonce e a (Nonce t) pool3) a)
          \<subseteq> set (Q_of pool a) \<union> {u \<in> set (P_of pool a). Nonce t < Nonce u}"
          using rq(6) inv by (auto simp: pool2_def)
      qed (use rc(1,3,4) rq(2,5) ne v' in \<open>simp_all add: pool2_def\<close>)
    qed
  qed
qed

text \<open>The nonce is not pending: the queued transaction of that nonce goes.\<close>

lemma removeTx_queued:
  fixes pool :: "'p txpool"
  assumes ok: "pool_ok e X pool" and t: "A_of pool h = Some t" and a: "from_addr e t = a"
    and miss: "\<forall>u \<in> set (P_of pool a). Nonce u \<noteq> Nonce t"
  obtains pool' where "removeTx e h pool = Some pool'" "pool_ok e X pool'" "frame pool pool'"
    "P_of pool' = P_of pool" "Q_of pool' = (Q_of pool)(a := filter (\<lambda>u. Nonce u \<noteq> Nonce t) (Q_of pool a))"
    "\<And>b. b \<noteq> a \<Longrightarrow> map_of (queue pool') b = map_of (queue pool) b"
    "all pool' = AList.delete h (all pool)" "beats pool' = beats pool"
proof -
  obtain Q where Q: "\<And>p :: 'p txpool. queue p = queue pool \<Longrightarrow> remove_queued a t p = Some (p\<lparr>queue := Q\<rparr>)"
    "lists_ok e False Q" "txs_at Q = (Q_of pool)(a := filter (\<lambda>u. Nonce u \<noteq> Nonce t) (Q_of pool a))"
    "\<And>b. b \<noteq> a \<Longrightarrow> map_of Q b = map_of (queue pool) b"
    using remove_queued_ok [OF pool_okD(2) [OF ok], of a t] by blast
  have tp: "t \<notin> set (P_of pool a)" using miss by blast
  have unl: "pool_ok e X ((drop_all h pool)\<lparr>pending := P, queue := Q\<rparr>)"
    if "lists_ok e True P" "txs_at P = P_of pool" for P
    by (rule pool_ok_unlist [OF ok t a that(1) _ _ _ Q(2,3), of "P_of pool a"]) (use that(2) tp in auto)
  show thesis
  proof (cases "map_of (pending pool) a")
    case None
    then have 1: "removeTx e h pool = Some ((drop_all h pool)\<lparr>queue := Q\<rparr>)"
      using t a Q(1) by (simp add: removeTx_def)
    have 2: "pool_ok e X ((drop_all h pool)\<lparr>queue := Q\<rparr>)"
      using unl [OF pool_okD(1) [OF ok]] by simp
    show thesis by (rule that [OF 1 2]) (simp_all add: Q(3,4))
  next
    case (Some l)
    note lok = lists_okD [OF pool_okD(1) [OF ok] Some]
    have v: "tl_view l = P_of pool a" by (simp add: txs_at_Some [OF Some])
    show thesis
    proof (rule tl_Remove_spec [OF lok(1), of t])
      fix found inv l'
      assume r: "tl_Remove t l = Some (found, inv, l')" "found \<longleftrightarrow> (\<exists>u \<in> set (tl_view l). Nonce u = Nonce t)"
        "tl_ok l'" "strict l' = strict l"
        "tl_view l' = (if strict l \<and> found then takeWhile (\<lambda>u. Nonce u < Nonce t) (tl_view l)
                       else filter (\<lambda>u. Nonce u \<noteq> Nonce t) (tl_view l))"
      have nf: "\<not> found" unfolding r(2) v using miss by simp
      have "filter (\<lambda>u. Nonce u \<noteq> Nonce t) (P_of pool a) = P_of pool a"
        using miss by (simp only: filter_id_conv)
      with r(5) nf have v': "tl_view l' = P_of pool a" by (simp only: v simp_thms if_False)
      let ?P = "AList.update a l' (pending pool)"
      have lP: "lists_ok e True ?P"
        using lists_ok_update [OF pool_okD(1) [OF ok] r(3)] r(4) lok(2,3) v v' by simp
      have "remove_queued a t ((drop_all h pool)\<lparr>pending := ?P\<rparr>) = Some ((drop_all h pool)\<lparr>pending := ?P, queue := Q\<rparr>)"
        by (rule Q(1)) simp
      then have 1: "removeTx e h pool = Some ((drop_all h pool)\<lparr>pending := ?P, queue := Q\<rparr>)"
        using t a Some r(1) nf by (simp add: removeTx_def)
      have 2: "pool_ok e X ((drop_all h pool)\<lparr>pending := ?P, queue := Q\<rparr>)"
        by (rule unl [OF lP]) (simp add: v')
      show thesis by (rule that [OF 1 2]) (simp_all add: Q(3,4) v')
    qed
  qed
qed

text \<open>What any removal may change.\<close>

definition shrunk :: "'p txpool \<Rightarrow> 'p txpool \<Rightarrow> bool" where
  "shrunk pool pool' \<longleftrightarrow> frame pool pool' \<and> (\<forall>k u. A_of pool' k = Some u \<longrightarrow> A_of pool k = Some u)"

lemma shrunk_refl [simp]: "shrunk pool pool"
  by (simp add: shrunk_def)

lemma shrunk_trans: "shrunk p q \<Longrightarrow> shrunk q r \<Longrightarrow> shrunk p r"
  by (auto simp: shrunk_def intro: frame_trans)

lemma shrunk_None: "shrunk p q \<Longrightarrow> A_of p h = None \<Longrightarrow> A_of q h = None"
  by (cases "A_of q h") (auto simp: shrunk_def)

lemma removeTx_ok:
  assumes ok: "pool_ok e X pool"
  obtains pool' where "removeTx e h pool = Some pool'" "pool_ok e X pool'" "shrunk pool pool'" "A_of pool' h = None"
proof (cases "A_of pool h")
  case None
  then show ?thesis using that [of pool] ok by (simp add: removeTx_def)
next
  case (Some t)
  show ?thesis
  proof (cases "\<exists>u \<in> set (P_of pool (from_addr e t)). Nonce u = Nonce t")
    case True
    show ?thesis
      by (rule removeTx_pending [OF ok Some refl True], rule that) (simp_all add: shrunk_def)
  next
    case False
    then have m: "\<forall>u \<in> set (P_of pool (from_addr e t)). Nonce u \<noteq> Nonce t" by blast
    obtain pool' where r: "removeTx e h pool = Some pool'" "pool_ok e X pool'" "frame pool pool'"
      "all pool' = AList.delete h (all pool)" by (rule removeTx_queued [OF ok Some refl m])
    have A: "A_of pool' = (A_of pool)(h := None)" by (simp add: r(4))
    show ?thesis by (rule that [OF r(1,2)]) (simp_all add: shrunk_def r(3) A)
  qed
qed

lemma remove_each_ok:
  assumes "pool_ok e X pool"
  obtains pool' where "remove_each e ts pool = Some pool'" "pool_ok e (X - set ts) pool'" "shrunk pool pool'"
    "\<And>t. t \<in> set ts \<Longrightarrow> A_of pool' (Hash t) = None"
proof -
  have "\<exists>pool'. remove_each e ts pool = Some pool' \<and> pool_ok e X pool' \<and> shrunk pool pool' \<and>
          (\<forall>t \<in> set ts. A_of pool' (Hash t) = None)"
    using assms
  proof (induction ts arbitrary: pool)
    case (Cons t ts)
    obtain p1 where p1: "removeTx e (Hash t) pool = Some p1" "pool_ok e X p1" "shrunk pool p1" "A_of p1 (Hash t) = None"
      by (rule removeTx_ok [OF Cons.prems])
    obtain p2 where p2: "remove_each e ts p1 = Some p2" "pool_ok e X p2" "shrunk p1 p2"
      "\<forall>t \<in> set ts. A_of p2 (Hash t) = None" using Cons.IH [OF p1(2)] by blast
    have "remove_each e (t # ts) pool = Some p2" by (simp add: p1(1) p2(1))
    moreover have "\<forall>u \<in> set (t # ts). A_of p2 (Hash u) = None"
      using p2(4) shrunk_None [OF p2(3) p1(4)] by simp
    ultimately show ?case using p2(2) shrunk_trans [OF p1(3) p2(3)] by blast
  qed simp
  then obtain pool' where r: "remove_each e ts pool = Some pool'" "pool_ok e X pool'" "shrunk pool pool'"
    "\<forall>t \<in> set ts. A_of pool' (Hash t) = None" by blast
  have ok': "pool_ok e (X - set ts) pool'"
    by (rule pool_ok_shrink [OF r(2)]) (use r(4) in blast)
  show ?thesis by (rule that [OF r(1) ok' r(3) bspec [OF r(4)]])
qed

lemma nonce_sorted_inj: "nonce_sorted ts \<Longrightarrow> inj_on Nonce (set ts)"
proof (induction ts)
  case (Cons t ts)
  then have "inj_on Nonce (set ts)" and l: "\<And>u. u \<in> set ts \<Longrightarrow> Nonce t < Nonce u" by simp_all
  moreover have "Nonce t \<notin> Nonce ` set ts"
  proof
    assume "Nonce t \<in> Nonce ` set ts"
    then obtain u where "u \<in> set ts" "Nonce t = Nonce u" by (rule imageE)
    with l [of u] show False by simp
  qed
  ultimately show ?case by (simp add: inj_on_insert) blast
qed simp

lemma queue_sorted: "lists_ok e s m \<Longrightarrow> nonce_sorted (txs_at m a)"
  by (cases "map_of m a") (simp_all add: txs_at_def tl_view_sorted lists_okD(1))

lemma filter_nonce:
  assumes "nonce_sorted ts" and "t \<in> set ts"
  shows "filter (\<lambda>u. Nonce u \<noteq> Nonce t) ts = filter (\<lambda>u. u \<noteq> t) ts"
  by (rule filter_cong [OF refl]) (use inj_on_eq_iff [OF nonce_sorted_inj [OF assms(1)] _ assms(2)] in blast)

text \<open>Removing queued transactions of one account leaves the pending lists and the other queues alone.\<close>

lemma remove_each_queued:
  assumes "pool_ok e X pool" and "set ts \<subseteq> set (Q_of pool a)" and "distinct ts"
  obtains pool' where "remove_each e ts pool = Some pool'" "pool_ok e X pool'" "shrunk pool pool'"
    "P_of pool' = P_of pool" "Q_of pool' = (Q_of pool)(a := filter (\<lambda>u. u \<notin> set ts) (Q_of pool a))"
    "\<And>b. b \<noteq> a \<Longrightarrow> map_of (queue pool') b = map_of (queue pool) b" "beats pool' = beats pool"
proof -
  have "\<exists>pool'. remove_each e ts pool = Some pool' \<and> pool_ok e X pool' \<and> shrunk pool pool' \<and>
    P_of pool' = P_of pool \<and> Q_of pool' = (Q_of pool)(a := filter (\<lambda>u. u \<notin> set ts) (Q_of pool a)) \<and>
    (\<forall>b. b \<noteq> a \<longrightarrow> map_of (queue pool') b = map_of (queue pool) b) \<and> beats pool' = beats pool"
    using assms
  proof (induction ts arbitrary: pool)
    case (Cons t ts)
    have tq: "t \<in> set (Q_of pool a)" using Cons.prems(2) by simp
    have A: "A_of pool (Hash t) = Some t" by (rule linkD(2) [OF pool_okD(5) [OF Cons.prems(1)] tq])
    have f: "from_addr e t = a" using pool_ok_from [OF Cons.prems(1), of t a] tq by simp
    have miss: "\<forall>u \<in> set (P_of pool a). Nonce u \<noteq> Nonce t"
      using linkD(3) [OF pool_okD(5) [OF Cons.prems(1)] _ tq] by blast
    obtain p1 where p1: "removeTx e (Hash t) pool = Some p1" "pool_ok e X p1" "frame pool p1" "P_of p1 = P_of pool"
      "Q_of p1 = (Q_of pool)(a := filter (\<lambda>u. Nonce u \<noteq> Nonce t) (Q_of pool a))"
      "\<And>b. b \<noteq> a \<Longrightarrow> map_of (queue p1) b = map_of (queue pool) b"
      "all p1 = AList.delete (Hash t) (all pool)" "beats p1 = beats pool"
      using removeTx_queued [OF Cons.prems(1) A f miss] by blast
    have q1: "Q_of p1 = (Q_of pool)(a := filter (\<lambda>u. u \<noteq> t) (Q_of pool a))"
      unfolding p1(5) filter_nonce [OF queue_sorted [OF pool_okD(2) [OF Cons.prems(1)]] tq] ..
    have sub: "set ts \<subseteq> set (Q_of p1 a)" using Cons.prems(2,3) by (auto simp: q1)
    obtain p2 where p2: "remove_each e ts p1 = Some p2" "pool_ok e X p2" "shrunk p1 p2" "P_of p2 = P_of p1"
      "Q_of p2 = (Q_of p1)(a := filter (\<lambda>u. u \<notin> set ts) (Q_of p1 a))"
      "\<forall>b. b \<noteq> a \<longrightarrow> map_of (queue p2) b = map_of (queue p1) b" "beats p2 = beats p1"
      using Cons.IH [OF p1(2) sub] Cons.prems(3) unfolding distinct.simps by blast
    have s1: "shrunk pool p1" using p1(3,7) by (simp add: shrunk_def split: if_splits)
    have q2: "Q_of p2 = (Q_of pool)(a := filter (\<lambda>u. u \<notin> set (t # ts)) (Q_of pool a))"
      unfolding p2(5) q1 by (simp add: conj_commute)
    have "remove_each e (t # ts) pool = Some p2" by (simp add: p1(1) p2(1))
    with p2(2,4,6,7) p1(4,6,8) q2 shrunk_trans [OF s1 p2(3)] show ?case by (intro exI [of _ p2]) simp
  qed simp
  then show ?thesis using that by blast
qed

end
