(* ===== verification/TxPoolMoves.thy ===== *)
theory TxPoolMoves
  imports TxPoolInv
begin

text \<open>
  Promotion from the queue to the pending lists and demotion back, with what each keeps: the
  invariant, the transactions it may touch, and the state of the lists it leaves.
\<close>

section \<open>Dropping unlisted transactions\<close>

lemma drop_each_sel [simp]:
  "pending (drop_each ts pool) = pending pool" "queue (drop_each ts pool) = queue pool"
  "beats (drop_each ts pool) = beats pool" "pendingState (drop_each ts pool) = pendingState pool"
  "frame p (drop_each ts pool) = frame p pool"
  by (induction ts arbitrary: pool) simp_all

lemma A_of_drop_each: "A_of (drop_each ts pool) h = (if h \<in> Hash ` set ts then None else A_of pool h)"
  by (induction ts arbitrary: pool) (auto simp: fun_upd_def)

lemma drop_each_ok:
  "pool_ok e X pool \<Longrightarrow> (\<forall>t \<in> set ts. \<forall>a. \<forall>u \<in> set (P_of pool a) \<union> set (Q_of pool a). Hash u \<noteq> Hash t) \<Longrightarrow>
   pool_ok e X (drop_each ts pool)"
proof (induction ts arbitrary: pool)
  case (Cons t ts)
  have "pool_ok e X (drop_all (Hash t) pool)"
    by (rule pool_ok_drop_all [OF Cons.prems(1)]) (use Cons.prems(2) in simp)
  then show ?case using Cons.IH [of "drop_all (Hash t) pool"] Cons.prems(2) by simp
qed simp

text \<open>
  One account's list is cut down and the removed transactions are dropped, for either kind of list.
\<close>

lemma drop_unlisted:
  assumes ok: "pool_ok e X pool" and ok': "pool_ok e X pool'" and A: "all pool' = all pool"
    and ts: "\<forall>t \<in> set ts. t \<in> set (P_of pool a) \<union> set (Q_of pool a)"
    and gone: "\<forall>t \<in> set ts. t \<notin> set (P_of pool' a) \<union> set (Q_of pool' a)"
  shows "pool_ok e X (drop_each ts pool')"
proof (rule drop_each_ok [OF ok'], intro ballI allI)
  fix t b u assume t: "t \<in> set ts" and u: "u \<in> set (P_of pool' b) \<union> set (Q_of pool' b)"
  show "Hash u \<noteq> Hash t"
  proof
    assume "Hash u = Hash t"
    moreover have "A_of pool (Hash t) = Some t" by (rule link_listed [OF pool_okD(5) [OF ok] bspec [OF ts t]])
    moreover have "A_of pool (Hash u) = Some u" using link_listed [OF pool_okD(5) [OF ok'] u] A by simp
    ultimately have "u = t" by simp
    moreover have "b = a"
      using pool_ok_from [OF ok' u] pool_ok_from [OF ok bspec [OF ts t]] \<open>u = t\<close> by simp
    ultimately show False using bspec [OF gone t] u by simp
  qed
qed

lemma queue_cut_ok:
  assumes ok: "pool_ok e X pool" and l: "tl_ok l" "strict l = False" "set (tl_view l) \<subseteq> set (Q_of pool a)"
  shows "pool_ok e X (pool\<lparr>queue := AList.update a l (queue pool)\<rparr>)"
proof (rule pool_ok_queue [OF ok])
  show "lists_ok e False (AList.update a l (queue pool))"
    by (rule lists_ok_update [OF pool_okD(2) [OF ok] l(1,2)])
      (use pool_ok_from [OF ok] l(3) in blast)
qed (use l(3) in simp)

lemma queue_cut_drop:
  assumes ok: "pool_ok e X pool" and l: "tl_ok l" "strict l = False" "set (tl_view l) \<subseteq> set (Q_of pool a)"
    and ts: "set ts \<subseteq> set (Q_of pool a)" "set ts \<inter> set (tl_view l) = {}"
  shows "pool_ok e X (drop_each ts (pool\<lparr>queue := AList.update a l (queue pool)\<rparr>))"
proof (rule drop_unlisted [OF ok queue_cut_ok [OF ok l], where a = a])
  show "\<forall>t \<in> set ts. t \<notin> set (P_of (pool\<lparr>queue := AList.update a l (queue pool)\<rparr>) a) \<union>
      set (Q_of (pool\<lparr>queue := AList.update a l (queue pool)\<rparr>) a)"
  proof
    fix t assume t: "t \<in> set ts"
    then have "t \<notin> set (P_of pool a)" using linkD(3) [OF pool_okD(5) [OF ok], of t a t] ts(1) by blast
    moreover have "t \<notin> set (tl_view l)" using t ts(2) by blast
    ultimately show "t \<notin> set (P_of (pool\<lparr>queue := AList.update a l (queue pool)\<rparr>) a) \<union>
      set (Q_of (pool\<lparr>queue := AList.update a l (queue pool)\<rparr>) a)" by simp
  qed
qed (use ts(1) in auto)

lemma pending_cut_ok:
  assumes ok: "pool_ok e X pool" and l: "tl_ok l" "strict l = True" "set (tl_view l) \<subseteq> set (P_of pool a)"
  shows "pool_ok e X (pool\<lparr>pending := AList.update a l (pending pool)\<rparr>)"
proof (rule pool_ok_pending [OF ok])
  show "lists_ok e True (AList.update a l (pending pool))"
    by (rule lists_ok_update [OF pool_okD(1) [OF ok] l(1,2)])
      (use pool_ok_from [OF ok] l(3) in blast)
qed (use l(3) in simp)

lemma pending_cut_drop:
  assumes ok: "pool_ok e X pool" and l: "tl_ok l" "strict l = True" "set (tl_view l) \<subseteq> set (P_of pool a)"
    and ts: "set ts \<subseteq> set (P_of pool a)" "set ts \<inter> set (tl_view l) = {}"
  shows "pool_ok e X (drop_each ts (pool\<lparr>pending := AList.update a l (pending pool)\<rparr>))"
proof (rule drop_unlisted [OF ok pending_cut_ok [OF ok l], where a = a])
  show "\<forall>t \<in> set ts. t \<notin> set (P_of (pool\<lparr>pending := AList.update a l (pending pool)\<rparr>) a) \<union>
      set (Q_of (pool\<lparr>pending := AList.update a l (pending pool)\<rparr>) a)"
  proof
    fix t assume t: "t \<in> set ts"
    then have "t \<notin> set (Q_of pool a)" using linkD(3) [OF pool_okD(5) [OF ok], of t a t] ts(1) by blast
    moreover have "t \<notin> set (tl_view l)" using t ts(2) by blast
    ultimately show "t \<notin> set (P_of (pool\<lparr>pending := AList.update a l (pending pool)\<rparr>) a) \<union>
      set (Q_of (pool\<lparr>pending := AList.update a l (pending pool)\<rparr>) a)" by simp
  qed
qed (use ts(1) in auto)

section \<open>Promotion\<close>

lemma nonce_notin: "\<forall>u \<in> S. Nonce u \<noteq> n \<Longrightarrow> n \<notin> Nonce ` S"
  by blast

lemma promoteTx_ok:
  assumes ok: "pool_ok e X pool" and A: "A_of pool (Hash t) = Some t" and a: "from_addr e t = a"
    and nop: "\<forall>u \<in> set (P_of pool a). Nonce u \<noteq> Nonce t" and noq: "\<forall>u \<in> set (Q_of pool a). Nonce u \<noteq> Nonce t"
  obtains ps where "pool_ok e X (promoteTx e now a (Hash t) t pool)" "frame pool (promoteTx e now a (Hash t) t pool)"
    "queue (promoteTx e now a (Hash t) t pool) = queue pool" "all (promoteTx e now a (Hash t) t pool) = all pool"
    "P_of (promoteTx e now a (Hash t) t pool) = (P_of pool)(a := ps)" "set ps = insert t (set (P_of pool a))"
proof -
  let ?l = "get_list True a (pending pool)"
  note g = get_list_ok [OF pool_okD(1) [OF ok], where a = a]
  have none: "sm_Get (txs ?l) (Nonce t) = None"
    unfolding sm_Get_None_view [OF g(1)] g(3) using nop by (rule nonce_notin)
  have acc: "price_threshold o' (PriceBump (config pool)) < GasPrice t" if "sm_Get (txs ?l) (Nonce t) = Some o'" for o'
    using that none by simp
  obtain l' where l': "tl_Add t (PriceBump (config pool)) ?l = (True, None, l')" "tl_ok l'" "strict l' = strict ?l"
    "set (tl_view l') = insert t {u \<in> set (tl_view ?l). Nonce u \<noteq> Nonce t}"
    by (rule tl_Add_accept [OF g(1) acc, unfolded none])
  have ps: "set (tl_view l') = insert t {u \<in> set (P_of pool a). Nonce u \<noteq> Nonce t}"
    using l'(4) g(3) by simp
  define pool1 where "pool1 = pool\<lparr>pending := AList.update a l' (pending pool)\<rparr>"
  have eq: "promoteTx e now a (Hash t) t pool = pool1\<lparr>beats := AList.update a now (beats pool1),
      pendingState := ms_set e a (Nonce t + 1) (pendingState pool1), txFeed := txFeed pool1 @ [t]\<rparr>"
    using A by (simp add: promoteTx_def l'(1) drop_old_def pool1_def)
  have lk: "link (P_of pool1) (Q_of pool1) (A_of pool1)"
  proof -
    have "link (Q_of pool) ((P_of pool)(a := tl_view l')) ((A_of pool)(Hash t \<mapsto> t))"
      using link_replace [where f = "from_addr e" and old = None, OF link_sym [OF pool_okD(5) [OF ok]] _ disjI2 [OF A] a
          bspec [OF noq] ps] pool_ok_from [OF ok] by auto
    then show ?thesis using link_sym A by (simp add: pool1_def fun_upd_idem)
  qed
  have "lists_ok e True (AList.update a l' (pending pool))"
    by (rule lists_ok_update [OF pool_okD(1) [OF ok] l'(2)]) (use l'(3) g(2) ps a pool_ok_from [OF ok] in auto)
  then have "pool_ok e X pool1"
    using pool_okD [OF ok] lk by (simp add: pool_ok_def pool1_def)
  moreover have "set (tl_view l') = insert t (set (P_of pool a))" unfolding ps using nop by blast
  ultimately show ?thesis by (intro that [of "tl_view l'"]) (simp_all add: eq, simp_all add: pool1_def)
qed

lemma promote_each_ok:
  assumes "pool_ok e X pool" and "distinct (map Nonce ts)"
    and "\<forall>t \<in> set ts. A_of pool (Hash t) = Some t \<and> from_addr e t = a"
    and "\<forall>t \<in> set ts. \<forall>u \<in> set (P_of pool a). Nonce u \<noteq> Nonce t"
    and "\<forall>t \<in> set ts. \<forall>u \<in> set (Q_of pool a). Nonce u \<noteq> Nonce t"
  obtains ps where "pool_ok e X (promote_each e now a ts pool)" "frame pool (promote_each e now a ts pool)"
    "queue (promote_each e now a ts pool) = queue pool" "all (promote_each e now a ts pool) = all pool"
    "P_of (promote_each e now a ts pool) = (P_of pool)(a := ps)" "set ps = set ts \<union> set (P_of pool a)"
proof -
  have "\<exists>ps. pool_ok e X (promote_each e now a ts pool) \<and> frame pool (promote_each e now a ts pool) \<and>
    queue (promote_each e now a ts pool) = queue pool \<and> all (promote_each e now a ts pool) = all pool \<and>
    P_of (promote_each e now a ts pool) = (P_of pool)(a := ps) \<and> set ps = set ts \<union> set (P_of pool a)"
    using assms
  proof (induction ts arbitrary: pool)
    case Nil
    then show ?case by (intro exI [of _ "P_of pool a"]) simp
  next
    case (Cons t ts)
    have t: "t \<in> set (t # ts)" by simp
    let ?p = "promoteTx e now a (Hash t) t pool"
    obtain ps where p: "pool_ok e X ?p" "frame pool ?p" "queue ?p = queue pool" "all ?p = all pool"
      "P_of ?p = (P_of pool)(a := ps)" "set ps = insert t (set (P_of pool a))"
      by (rule promoteTx_ok [OF Cons.prems(1) conjunct1 [OF bspec [OF Cons.prems(3) t]]
        conjunct2 [OF bspec [OF Cons.prems(3) t]] bspec [OF Cons.prems(4) t] bspec [OF Cons.prems(5) t]])
    have fresh: "\<forall>u \<in> set ts. \<forall>w \<in> set (P_of ?p a). Nonce w \<noteq> Nonce u"
    proof (intro ballI)
      fix u w assume u: "u \<in> set ts" and "w \<in> set (P_of ?p a)"
      then consider "w = t" | "w \<in> set (P_of pool a)" using p(5,6) by auto
      then show "Nonce w \<noteq> Nonce u"
      proof cases
        case 1
        have "Nonce t \<notin> Nonce ` set ts" using Cons.prems(2) by simp
        with 1 u show ?thesis by (metis imageI)
      next
        case 2
        with Cons.prems(4) u show ?thesis by (meson list.set_intros(2))
      qed
    qed
    have "\<exists>ps. pool_ok e X (promote_each e now a ts ?p) \<and> frame ?p (promote_each e now a ts ?p) \<and>
      queue (promote_each e now a ts ?p) = queue ?p \<and> all (promote_each e now a ts ?p) = all ?p \<and>
      P_of (promote_each e now a ts ?p) = (P_of ?p)(a := ps) \<and> set ps = set ts \<union> set (P_of ?p a)"
    proof (rule Cons.IH [OF p(1) _ _ fresh])
      show "distinct (map Nonce ts)" using Cons.prems(2) by simp
      show "\<forall>t \<in> set ts. A_of ?p (Hash t) = Some t \<and> from_addr e t = a"
        unfolding p(4) using Cons.prems(3) by simp
      show "\<forall>t \<in> set ts. \<forall>u \<in> set (Q_of ?p a). Nonce u \<noteq> Nonce t"
        unfolding p(3) using Cons.prems(5) by simp
    qed
    then obtain qs where q: "pool_ok e X (promote_each e now a ts ?p)" "frame ?p (promote_each e now a ts ?p)"
      "queue (promote_each e now a ts ?p) = queue ?p" "all (promote_each e now a ts ?p) = all ?p"
      "P_of (promote_each e now a ts ?p) = (P_of ?p)(a := qs)" "set qs = set ts \<union> set (P_of ?p a)" by blast
    show ?case
      by (intro exI [of _ qs]) (simp add: q p(3-6) frame_trans [OF p(2) q(2)])
  qed
  then show ?thesis using that by blast
qed

text \<open>Sorted lists split into parts with disjoint nonces.\<close>

lemma nonce_sorted_distinct: "nonce_sorted ts \<Longrightarrow> distinct ts" "nonce_sorted ts \<Longrightarrow> distinct (map Nonce ts)"
proof -
  assume "nonce_sorted ts"
  then have s: "sorted_wrt (<) (map Nonce ts)" by (simp add: sorted_wrt_map)
  show "distinct (map Nonce ts)" using s by (simp add: strict_sorted_iff)
  then show "distinct ts" by (simp add: distinct_map)
qed

lemma take_drop_disjoint: "distinct ts \<Longrightarrow> set (takeWhile P ts) \<inter> set (dropWhile P ts) = {}"
  by (metis distinct_append takeWhile_dropWhile_id)

lemma nonce_append_disjoint:
  assumes "nonce_sorted (xs @ ys)" and "x \<in> set xs" and "y \<in> set ys"
  shows "Nonce y \<noteq> Nonce x"
  using assms by (auto simp: sorted_wrt_append dest!: bspec)

text \<open>What promotion may change for account \<open>a\<close>.\<close>

definition promoted :: "address \<Rightarrow> 'p txpool \<Rightarrow> 'p txpool \<Rightarrow> bool" where
  "promoted a pool pool' \<longleftrightarrow> shrunk pool pool' \<and>
     (\<forall>b. b \<noteq> a \<longrightarrow> P_of pool' b = P_of pool b \<and> map_of (queue pool') b = map_of (queue pool) b) \<and>
     set (P_of pool' a) \<subseteq> set (P_of pool a) \<union> set (Q_of pool a) \<and> set (P_of pool a) \<subseteq> set (P_of pool' a) \<and>
     set (Q_of pool' a) \<subseteq> set (Q_of pool a)"

lemma shrunk_drop_each: "shrunk p q \<Longrightarrow> shrunk p (drop_each ts q)"
  by (simp add: shrunk_def A_of_drop_each)

lemma shrunk_upd [simp]:
  "shrunk p (q\<lparr>pending := x\<rparr>) = shrunk p q" "shrunk p (q\<lparr>queue := x\<rparr>) = shrunk p q"
  "shrunk p (q\<lparr>beats := y\<rparr>) = shrunk p q" "shrunk p (q\<lparr>pendingState := z\<rparr>) = shrunk p q"
  by (simp_all add: shrunk_def)

lemma shrunk_frame: "shrunk p q \<Longrightarrow> frame p q"
  by (simp add: shrunk_def)

text \<open>The first step for one account: the too old and the unaffordable transactions go.\<close>

lemma clean_queue_ok:
  assumes ok: "pool_ok e X pool" and l0: "map_of (queue pool) a = Some l0"
  obtains pool' l2 where "clean_queue a pool = Some pool'" "pool_ok e X pool'" "shrunk pool pool'"
    "pending pool' = pending pool" "pendingState pool' = pendingState pool"
    "\<forall>b. map_of (queue pool') b = (if b = a then Some l2 else map_of (queue pool) b)"
    "tl_view l2 = filter (\<lambda>t. \<not> unaffordable (GetBalance (currentState pool) a) (currentMaxGas pool) t)
       (dropWhile (\<lambda>t. Nonce t < GetNonce (currentState pool) a) (tl_view l0))"
proof -
  let ?n = "GetNonce (currentState pool) a"
    and ?bad = "unaffordable (GetBalance (currentState pool) a) (currentMaxGas pool)"
  note l = lists_okD [OF pool_okD(2) [OF ok] l0]
  have v0: "Q_of pool a = tl_view l0" by (rule txs_at_Some [OF l0])
  have d0: "distinct (tl_view l0)" by (rule nonce_sorted_distinct(1) [OF tl_view_sorted [OF l(1)]])
  obtain l1 where l1: "tl_Forward ?n l0 = Some (takeWhile (\<lambda>t. Nonce t < ?n) (tl_view l0), l1)" "tl_ok l1"
    "strict l1 = strict l0" "tl_view l1 = dropWhile (\<lambda>t. Nonce t < ?n) (tl_view l0)"
    by (rule tl_Forward_spec [OF l(1)])
  define olds where "olds = takeWhile (\<lambda>t. Nonce t < ?n) (tl_view l0)"
  obtain drops invs l2 where f: "tl_Filter (GetBalance (currentState pool) a) (currentMaxGas pool) l1 = (drops, invs, l2)"
    by (rule prod_cases3)
  note l2 = tl_Filter_spec [OF l1(2) f]
  have v2: "tl_view l2 = filter (\<lambda>t. \<not> ?bad t) (tl_view l1)" using l2(3) l1(3) l(2) by simp
  have drops: "set drops = {t \<in> set (tl_view l1). ?bad t}" using mset_eq_setD [OF l2(4)] by simp
  define pool1 where "pool1 = drop_each olds (pool\<lparr>queue := AList.update a l1 (queue pool)\<rparr>)"
  have ok1: "pool_ok e X pool1" unfolding pool1_def
  proof (rule queue_cut_drop [OF ok l1(2)])
    show "set (tl_view l1) \<subseteq> set (Q_of pool a)" unfolding v0 l1(4) by (auto dest: set_dropWhileD)
    show "set olds \<subseteq> set (Q_of pool a)" unfolding v0 olds_def by (auto dest: set_takeWhileD)
    show "set olds \<inter> set (tl_view l1) = {}" unfolding l1(4) olds_def by (rule take_drop_disjoint [OF d0])
  qed (simp add: l1(3) l(2))
  have q1: "Q_of pool1 a = tl_view l1" by (simp add: pool1_def)
  define pool2 where "pool2 = drop_each drops (pool1\<lparr>queue := AList.update a l2 (queue pool1)\<rparr>)"
  have ok2: "pool_ok e X pool2" unfolding pool2_def
    by (rule queue_cut_drop [OF ok1 l2(1)]) (use l2(2) l1(3) l(2) v2 q1 drops in auto)
  have sh: "shrunk pool pool2" unfolding pool2_def
    by (rule shrunk_drop_each) (simp add: pool1_def shrunk_drop_each)
  have eq: "clean_queue a pool = Some pool2"
    using l0 l1(1) f by (simp add: clean_queue_def pool2_def pool1_def olds_def)
  show ?thesis
    by (rule that [OF eq ok2 sh, of l2]) (use v2 l1(4) in \<open>simp_all add: pool2_def pool1_def AList.update_conv'\<close>)
qed

text \<open>The second step: the ready transactions move over.\<close>

lemma promote_ready_ok:
  assumes ok: "pool_ok e X pool" and l: "map_of (queue pool) a = Some l2"
  obtains pool' ready l3 where "promote_ready e now a pool = Some pool'" "pool_ok e X pool'" "frame pool pool'"
    "all pool' = all pool" "\<forall>b. map_of (queue pool') b = (if b = a then Some l3 else map_of (queue pool) b)"
    "tl_view l2 = ready @ tl_view l3" "\<forall>b. b \<noteq> a \<longrightarrow> P_of pool' b = P_of pool b"
    "set (P_of pool' a) = set ready \<union> set (P_of pool a)"
proof -
  note lo = lists_okD [OF pool_okD(2) [OF ok] l]
  have v: "Q_of pool a = tl_view l2" by (rule txs_at_Some [OF l])
  obtain ready l3 where r: "tl_Ready (ms_get e (pendingState pool) a) l2 = Some (ready, l3)" "tl_ok l3"
    "strict l3 = strict l2" "tl_view l2 = ready @ tl_view l3" by (rule tl_Ready_spec [OF lo(1)])
  have srt: "nonce_sorted (ready @ tl_view l3)" using tl_view_sorted [OF lo(1)] r(4) by simp
  define pool2 where "pool2 = pool\<lparr>queue := AList.update a l3 (queue pool)\<rparr>"
  have ok2: "pool_ok e X pool2" unfolding pool2_def
    by (rule queue_cut_ok [OF ok r(2)]) (use r(3,4) lo(2) v in auto)
  have rq: "t \<in> set (Q_of pool a)" if "t \<in> set ready" for t using that r(4) v by simp
  have 1: "distinct (map Nonce ready)" using nonce_sorted_distinct(2) [OF srt] by simp
  have 2: "\<forall>t \<in> set ready. A_of pool2 (Hash t) = Some t \<and> from_addr e t = a"
    using linkD(2) [OF pool_okD(5) [OF ok] rq] pool_ok_from [OF ok UnI2 [OF rq]] by (simp add: pool2_def)
  have 3: "\<forall>t \<in> set ready. \<forall>u \<in> set (P_of pool2 a). Nonce u \<noteq> Nonce t"
    using linkD(3) [OF pool_okD(5) [OF ok] _ rq] by (simp add: pool2_def)
  have 4: "\<forall>t \<in> set ready. \<forall>u \<in> set (Q_of pool2 a). Nonce u \<noteq> Nonce t"
    using nonce_append_disjoint [OF srt] by (simp add: pool2_def)
  let ?p = "promote_each e now a ready pool2"
  obtain ps where p: "pool_ok e X ?p" "frame pool2 ?p" "queue ?p = queue pool2" "all ?p = all pool2"
    "P_of ?p = (P_of pool2)(a := ps)" "set ps = set ready \<union> set (P_of pool2 a)"
    by (rule promote_each_ok [OF ok2 1 2 3 4])
  have eq: "promote_ready e now a pool = Some ?p" using l r(1) by (simp add: promote_ready_def pool2_def)
  have fr: "frame pool ?p" by (rule frame_trans [OF _ p(2)]) (simp add: pool2_def)
  show ?thesis
    by (rule that [OF eq p(1) fr, of l3 ready])
      (use r(4) p(3-6) in \<open>simp_all add: pool2_def AList.update_conv'\<close>)
qed

text \<open>The third step: a remote account keeps no more than its share.\<close>

lemma cap_queue_ok:
  assumes ok: "pool_ok e X pool" and l: "map_of (queue pool) a = Some l3" and aq: "0 \<le> sint (AccountQueue (config pool))"
  obtains pool' l4 where "cap_queue a pool = Some pool'" "pool_ok e X pool'" "shrunk pool pool'"
    "pending pool' = pending pool" "\<forall>b. map_of (queue pool') b = (if b = a then Some l4 else map_of (queue pool) b)"
    "set (tl_view l4) \<subseteq> set (tl_view l3)"
    "\<not> as_contains (locals pool) a \<longrightarrow> int (length (tl_view l4)) \<le> sint (AccountQueue (config pool))"
proof (cases "as_contains (locals pool) a")
  case True
  have eq: "cap_queue a pool = Some pool" using True by (simp add: cap_queue_def)
  show ?thesis by (rule that [OF eq ok, of l3]) (use True l in simp_all)
next
  case False
  let ?n = "sint (AccountQueue (config pool))"
  note lo = lists_okD [OF pool_okD(2) [OF ok] l]
  have v: "Q_of pool a = tl_view l3" by (rule txs_at_Some [OF l])
  obtain l4 where c: "tl_Cap ?n l3 = Some (rev (drop (nat ?n) (tl_view l3)), l4)"
    "tl_ok l4" "strict l4 = strict l3" "tl_view l4 = take (nat ?n) (tl_view l3)" by (rule tl_Cap_spec [OF lo(1) aq])
  define pool' where "pool' = drop_each (rev (drop (nat ?n) (tl_view l3))) (pool\<lparr>queue := AList.update a l4 (queue pool)\<rparr>)"
  have d: "distinct (tl_view l3)" by (rule nonce_sorted_distinct(1) [OF tl_view_sorted [OF lo(1)]])
  have dj: "set (take (nat ?n) (tl_view l3)) \<inter> set (drop (nat ?n) (tl_view l3)) = {}"
    by (rule set_take_disj_set_drop_if_distinct [OF d]) simp
  have ok': "pool_ok e X pool'" unfolding pool'_def
    by (rule queue_cut_drop [OF ok c(2)])
      (use c(3,4) lo(2) v dj in \<open>auto dest: in_set_takeD in_set_dropD\<close>)
  have eq: "cap_queue a pool = Some pool'" using False l c(1) by (simp add: cap_queue_def pool'_def)
  show ?thesis
  proof (rule that [OF eq ok', of l4])
    show "shrunk pool pool'" unfolding pool'_def by (rule shrunk_drop_each) simp
    show "set (tl_view l4) \<subseteq> set (tl_view l3)" unfolding c(4) by (rule set_take_subset)
    have "length (tl_view l4) \<le> nat ?n" unfolding c(4) by simp
    then show "\<not> as_contains (locals pool) a \<longrightarrow> int (length (tl_view l4)) \<le> ?n"
      by (simp only: le_nat_iff [OF aq] simp_thms)
  qed (use aq c(4) in \<open>simp_all add: pool'_def AList.update_conv'\<close>)
qed

lemma drop_empty_ok:
  assumes ok: "pool_ok e X pool"
  shows "pool_ok e X (drop_empty a pool)" "frame pool (drop_empty a pool)" "all (drop_empty a pool) = all pool"
    "pending (drop_empty a pool) = pending pool" "Q_of (drop_empty a pool) = Q_of pool"
    "b \<noteq> a \<Longrightarrow> map_of (queue (drop_empty a pool)) b = map_of (queue pool) b"
proof -
  have "pool_ok e X (pool\<lparr>queue := AList.delete a (queue pool)\<rparr>)"
    by (rule pool_ok_queue [OF ok lists_ok_delete [OF pool_okD(2) [OF ok]]]) simp
  with ok show "pool_ok e X (drop_empty a pool)" by (simp add: drop_empty_def split: option.splits)
  show "Q_of (drop_empty a pool) = Q_of pool"
    by (auto simp: drop_empty_def tl_Empty_view txs_at_Some fun_upd_idem split: option.splits)
  show "frame pool (drop_empty a pool)" "all (drop_empty a pool) = all pool"
    "pending (drop_empty a pool) = pending pool"
    "b \<noteq> a \<Longrightarrow> map_of (queue (drop_empty a pool)) b = map_of (queue pool) b"
    by (simp_all add: drop_empty_def split: option.splits)
qed

lemma promote_account_ok:
  assumes ok: "pool_ok e X pool" and aq: "0 \<le> sint (AccountQueue (config pool))"
  obtains pool' where "promote_account e now a pool = Some pool'" "pool_ok e X pool'" "promoted a pool pool'"
    "\<not> as_contains (locals pool) a \<longrightarrow> int (length (Q_of pool' a)) \<le> sint (AccountQueue (config pool))"
    "\<forall>t \<in> set (Q_of pool' a) \<union> (set (P_of pool' a) - set (P_of pool a)).
       \<not> unaffordable (GetBalance (currentState pool) a) (currentMaxGas pool) t"
proof (cases "map_of (queue pool) a")
  case None
  have eq: "promote_account e now a pool = Some pool" using None by (simp add: promote_account_def)
  show ?thesis
    by (rule that [OF eq ok]) (use None aq in \<open>simp_all add: promoted_def txs_at_None\<close>)
next
  case (Some l0)
  obtain p1 l2 where 1: "clean_queue a pool = Some p1" "pool_ok e X p1" "shrunk pool p1" "pending p1 = pending pool"
    "\<forall>b. map_of (queue p1) b = (if b = a then Some l2 else map_of (queue pool) b)"
    "tl_view l2 = filter (\<lambda>t. \<not> unaffordable (GetBalance (currentState pool) a) (currentMaxGas pool) t)
       (dropWhile (\<lambda>t. Nonce t < GetNonce (currentState pool) a) (tl_view l0))"
    by (rule clean_queue_ok [OF ok Some])
  have l2: "map_of (queue p1) a = Some l2" by (simp add: 1(5))
  obtain p2 ready l3 where 2: "promote_ready e now a p1 = Some p2" "pool_ok e X p2" "frame p1 p2"
    "all p2 = all p1" "\<forall>b. map_of (queue p2) b = (if b = a then Some l3 else map_of (queue p1) b)"
    "tl_view l2 = ready @ tl_view l3" "\<forall>b. b \<noteq> a \<longrightarrow> P_of p2 b = P_of p1 b"
    "set (P_of p2 a) = set ready \<union> set (P_of p1 a)"
    by (rule promote_ready_ok [OF 1(2) l2])
  have fr2: "frame pool p2" by (rule frame_trans [OF shrunk_frame [OF 1(3)] 2(3)])
  have l3: "map_of (queue p2) a = Some l3" by (simp add: 2(5))
  have aq2: "0 \<le> sint (AccountQueue (config p2))" using aq frameD(1) [OF fr2] by simp
  obtain p3 l4 where 3: "cap_queue a p2 = Some p3" "pool_ok e X p3" "shrunk p2 p3" "pending p3 = pending p2"
    "\<forall>b. map_of (queue p3) b = (if b = a then Some l4 else map_of (queue p2) b)"
    "set (tl_view l4) \<subseteq> set (tl_view l3)"
    "\<not> as_contains (locals p2) a \<longrightarrow> int (length (tl_view l4)) \<le> sint (AccountQueue (config p2))"
    by (rule cap_queue_ok [OF 2(2) l3 aq2])
  note 4 = drop_empty_ok [OF 3(2), where a = a]
  have eq: "promote_account e now a pool = Some (drop_empty a p3)"
    using Some by (simp add: promote_account_def 1(1) 2(1) 3(1))
  have q: "Q_of (drop_empty a p3) a = tl_view l4" using 4(5) 3(5) by (simp add: txs_at_def)
  have "shrunk p1 p2" using 2(3,4) by (simp add: shrunk_def)
  then have "shrunk pool p3" by (rule shrunk_trans [OF shrunk_trans [OF 1(3)] 3(3)])
  then have sh: "shrunk pool (drop_empty a p3)" using 4(2,3) by (auto simp: shrunk_def intro: frame_trans)
  have l2q: "set (tl_view l2) \<subseteq> set (Q_of pool a)"
    unfolding 1(6) txs_at_Some [OF Some] by (auto dest: set_dropWhileD)
  have aff: "\<not> unaffordable (GetBalance (currentState pool) a) (currentMaxGas pool) t" if "t \<in> set (tl_view l2)" for t
    using that unfolding 1(6) by simp
  have pa: "set (P_of (drop_empty a p3) a) = set ready \<union> set (P_of pool a)" using 4(4) 3(4) 2(8) 1(4) by simp
  show ?thesis
  proof (rule that [OF eq 4(1)])
    show "promoted a pool (drop_empty a p3)" unfolding promoted_def
      using sh l2q q pa 2(6,7) 3(5,6) 4(4,6) 3(4) 1(4,5) 2(5) by auto
    show "\<not> as_contains (locals pool) a \<longrightarrow> int (length (Q_of (drop_empty a p3) a)) \<le> sint (AccountQueue (config pool))"
      using 3(7) frameD(1,2) [OF fr2] q by simp
    show "\<forall>t \<in> set (Q_of (drop_empty a p3) a) \<union> (set (P_of (drop_empty a p3) a) - set (P_of pool a)).
        \<not> unaffordable (GetBalance (currentState pool) a) (currentMaxGas pool) t"
      by (intro ballI aff) (use q pa 3(6) 2(6) in auto)
  qed
qed

section \<open>Demotion\<close>

text \<open>What demotion may change for account \<open>a\<close>.\<close>

definition demoted :: "address \<Rightarrow> 'p txpool \<Rightarrow> 'p txpool \<Rightarrow> bool" where
  "demoted a pool pool' \<longleftrightarrow> shrunk pool pool' \<and>
     (\<forall>b. b \<noteq> a \<longrightarrow> map_of (pending pool') b = map_of (pending pool) b \<and>
        map_of (queue pool') b = map_of (queue pool) b) \<and>
     set (P_of pool' a) \<subseteq> set (P_of pool a) \<and> set (Q_of pool' a) \<subseteq> set (P_of pool a) \<union> set (Q_of pool a)"

lemma demotedD:
  assumes "demoted a p q"
  shows "shrunk p q" "b \<noteq> a \<Longrightarrow> map_of (pending q) b = map_of (pending p) b"
    "b \<noteq> a \<Longrightarrow> map_of (queue q) b = map_of (queue p) b"
    "set (P_of q a) \<subseteq> set (P_of p a)" "set (Q_of q a) \<subseteq> set (P_of p a) \<union> set (Q_of p a)"
  using assms by (simp_all add: demoted_def)

lemma demoted_trans: "demoted a p q \<Longrightarrow> demoted a q r \<Longrightarrow> demoted a p r"
  unfolding demoted_def by (auto intro: shrunk_trans)

text \<open>Cut transactions go to the queue of their account.\<close>

lemma requeue_cut_pending:
  assumes ok: "pool_ok e X pool" and ok2: "pool_ok e X pool2"
    and A2: "\<And>h u. A_of pool2 h = Some u \<Longrightarrow> A_of pool h = Some u" and fr: "frame pool pool2"
    and P2: "pending pool2 = AList.update a l (pending pool)" and Q2: "queue pool2 = queue pool"
    and l: "set (tl_view l) \<subseteq> set (P_of pool a)" and ts: "set ts \<subseteq> set (P_of pool a)" "set ts \<inter> set (tl_view l) = {}"
  shows "pool_ok e X (enqueue_each e ts pool2)" "demoted a pool (enqueue_each e ts pool2)"
    "pending (enqueue_each e ts pool2) = pending pool2"
proof -
  have m: "t \<in> set (P_of pool a) \<union> set (Q_of pool a)" if "t \<in> set ts" for t using that ts(1) by blast
  have A: "A_of pool (Hash t) = Some t" "from_addr e t = a" if "t \<in> set ts" for t
    using link_listed [OF pool_okD(5) [OF ok] m [OF that]] pool_ok_from [OF ok m [OF that]] by simp_all
  have A2': "A_of pool2 (Hash t) = None \<or> A_of pool2 (Hash t) = Some t" if "t \<in> set ts" for t
    using A(1) [OF that] A2 [of "Hash t"] by (cases "A_of pool2 (Hash t)") auto
  have inj: "inj_on Hash (set ts)" by (rule inj_onI) (metis A(1) option.inject)
  have srt: "inj_on Nonce (set (P_of pool a))" by (rule nonce_sorted_inj [OF queue_sorted [OF pool_okD(1) [OF ok]]])
  have np: "\<forall>t \<in> set ts. \<forall>u \<in> set (P_of pool2 a). Nonce u \<noteq> Nonce t"
  proof (intro ballI notI)
    fix t u assume t: "t \<in> set ts" and "u \<in> set (P_of pool2 a)" and n: "Nonce u = Nonce t"
    then have u: "u \<in> set (tl_view l)" by (simp add: P2)
    with inj_onD [OF srt n] l ts(1) t have "u = t" by blast
    with t u ts(2) show False by blast
  qed
  have r: "pool_ok e X (enqueue_each e ts pool2)" "requeued a ts pool2 (enqueue_each e ts pool2)"
    using enqueue_each_ok [OF ok2 inj A2' A(2) np] by simp_all
  note rq = requeuedD [OF r(2)]
  show "pool_ok e X (enqueue_each e ts pool2)" by (rule r(1))
  show "pending (enqueue_each e ts pool2) = pending pool2" by (rule rq(2))
  have "shrunk pool (enqueue_each e ts pool2)" unfolding shrunk_def
    using frame_trans [OF fr rq(1)] rq(7) A2 A(1) by blast
  then show "demoted a pool (enqueue_each e ts pool2)" unfolding demoted_def
    using rq(2,5,6) P2 Q2 l ts(1) by (auto simp: AList.update_conv')
qed

lemma clean_pending_ok:
  assumes ok: "pool_ok e X pool" and l0: "map_of (pending pool) a = Some l0"
  obtains pool' l2 where "clean_pending e a pool = Some pool'" "pool_ok e X pool'" "demoted a pool pool'"
    "map_of (pending pool') a = Some l2"
    "tl_view l2 = takeWhile (\<lambda>t. \<not> unaffordable (GetBalance (currentState pool) a) (currentMaxGas pool) t)
       (dropWhile (\<lambda>t. Nonce t < GetNonce (currentState pool) a) (tl_view l0))"
proof -
  let ?n = "GetNonce (currentState pool) a"
    and ?bad = "unaffordable (GetBalance (currentState pool) a) (currentMaxGas pool)"
  note l = lists_okD [OF pool_okD(1) [OF ok] l0]
  have v0: "P_of pool a = tl_view l0" by (rule txs_at_Some [OF l0])
  have d0: "distinct (tl_view l0)" by (rule nonce_sorted_distinct(1) [OF tl_view_sorted [OF l(1)]])
  obtain l1 where l1: "tl_Forward ?n l0 = Some (takeWhile (\<lambda>t. Nonce t < ?n) (tl_view l0), l1)" "tl_ok l1"
    "strict l1 = strict l0" "tl_view l1 = dropWhile (\<lambda>t. Nonce t < ?n) (tl_view l0)"
    by (rule tl_Forward_spec [OF l(1)])
  define olds where "olds = takeWhile (\<lambda>t. Nonce t < ?n) (tl_view l0)"
  obtain drops invs l2 where f: "tl_Filter (GetBalance (currentState pool) a) (currentMaxGas pool) l1 = (drops, invs, l2)"
    by (rule prod_cases3)
  note l2 = tl_Filter_spec [OF l1(2) f]
  have v2: "tl_view l2 = takeWhile (\<lambda>t. \<not> ?bad t) (tl_view l1)" using l2(3) l1(3) l(2) by simp
  have drops: "set drops = {t \<in> set (tl_view l1). ?bad t}" using mset_eq_setD [OF l2(4)] by simp
  have l1s: "set (tl_view l1) \<subseteq> set (P_of pool a)" unfolding v0 l1(4) by (auto dest: set_dropWhileD)
  have l2s: "set (tl_view l2) \<subseteq> set (tl_view l1)" "\<forall>t \<in> set (tl_view l2). \<not> ?bad t"
    unfolding v2 by (auto dest: set_takeWhileD)
  define pool1 where "pool1 = drop_each olds (pool\<lparr>pending := AList.update a l1 (pending pool)\<rparr>)"
  have ok1: "pool_ok e X pool1" unfolding pool1_def
  proof (rule pending_cut_drop [OF ok l1(2) _ l1s])
    show "set olds \<subseteq> set (P_of pool a)" unfolding v0 olds_def by (auto dest: set_takeWhileD)
    show "set olds \<inter> set (tl_view l1) = {}" unfolding l1(4) olds_def by (rule take_drop_disjoint [OF d0])
  qed (simp add: l1(3) l(2))
  have p1: "P_of pool1 a = tl_view l1" by (simp add: pool1_def)
  define pool2 where "pool2 = drop_each drops (pool1\<lparr>pending := AList.update a l2 (pending pool1)\<rparr>)"
  have ok2: "pool_ok e X pool2" unfolding pool2_def
    by (rule pending_cut_drop [OF ok1 l2(1)]) (use l2(2) l1(3) l(2) l2s p1 drops in auto)
  have sh: "shrunk pool pool2" unfolding pool2_def
    by (rule shrunk_drop_each) (simp add: pool1_def shrunk_drop_each)
  have eq: "clean_pending e a pool = Some (enqueue_each e invs pool2)"
    using l0 l1(1) f by (simp add: clean_pending_def pool2_def pool1_def olds_def)
  have P2: "pending pool2 = AList.update a l2 (pending (pool\<lparr>pending := AList.update a l1 (pending pool)\<rparr>))"
    by (simp add: pool2_def pool1_def)
  have rc: "pool_ok e X (enqueue_each e invs pool2)"
    "demoted a (pool\<lparr>pending := AList.update a l1 (pending pool)\<rparr>) (enqueue_each e invs pool2)"
    "pending (enqueue_each e invs pool2) = pending pool2"
    using requeue_cut_pending [OF pending_cut_ok [OF ok l1(2) _ l1s] ok2 _ _ P2, of invs] sh l2(5) l2s l1(3) l(2)
    by (auto simp: shrunk_def frame_def pool2_def pool1_def)
  have "demoted a pool (pool\<lparr>pending := AList.update a l1 (pending pool)\<rparr>)"
    using l1s by (simp add: demoted_def AList.update_conv')
  note d = demoted_trans [OF this rc(2)]
  show ?thesis
    by (rule that [OF eq rc(1) d, of l2]) (use v2 l1(4) in \<open>simp_all add: rc(3) P2 AList.update_conv'\<close>)
qed

text \<open>
  What demotion establishes: the account's pending transactions are affordable and start at the
  nonce the chain expects.
\<close>

definition executable :: "'p txpool \<Rightarrow> address \<Rightarrow> tx list \<Rightarrow> bool" where
  "executable pool a ts \<longleftrightarrow>
     (\<forall>t \<in> set ts. \<not> unaffordable (GetBalance (currentState pool) a) (currentMaxGas pool) t) \<and>
     (ts \<noteq> [] \<longrightarrow> Nonce (hd ts) = GetNonce (currentState pool) a)"

lemma sorted_hd_nonce:
  assumes srt: "nonce_sorted ts" and t: "t \<in> set ts" and lo: "\<forall>u \<in> set ts. \<not> Nonce u < Nonce t"
  shows "Nonce (hd ts) = Nonce t"
proof (cases ts)
  case (Cons h us)
  show ?thesis
  proof (cases "t = h")
    case False
    with t Cons have "t \<in> set us" by simp
    with srt Cons have "Nonce h < Nonce t" by simp
    moreover have "\<not> Nonce h < Nonce t" using lo Cons by simp
    ultimately show ?thesis by blast
  qed (simp add: Cons)
qed (use t in simp)

lemma nonce_sorted_dropWhile:
  "nonce_sorted ts \<Longrightarrow> t \<in> set (dropWhile (\<lambda>t. Nonce t < n) ts) \<Longrightarrow> \<not> Nonce t < n"
proof (induction ts)
  case (Cons u us)
  show ?case
  proof (cases "Nonce u < n")
    case False
    from Cons.prems False have "t = u \<or> Nonce u < Nonce t" by auto
    with False show ?thesis by (metis less_trans)
  qed (use Cons in simp)
qed simp

lemma demote_gap_ok:
  assumes ok: "pool_ok e X pool" and l: "map_of (pending pool) a = Some l"
    and lo: "\<forall>t \<in> set (tl_view l). \<not> Nonce t < GetNonce (currentState pool) a"
  obtains pool' l' where "demote_gap e a pool = Some pool'" "pool_ok e X pool'" "demoted a pool pool'"
    "map_of (pending pool') a = Some l'" "set (tl_view l') \<subseteq> set (tl_view l)"
    "tl_view l' \<noteq> [] \<longrightarrow> Nonce (hd (tl_view l')) = GetNonce (currentState pool) a"
proof (cases "0 < tl_Len l \<and> sm_Get (txs l) (GetNonce (currentState pool) a) = None")
  case False
  let ?n = "GetNonce (currentState pool) a"
  note lok = lists_okD [OF pool_okD(1) [OF ok] l]
  have eq: "demote_gap e a pool = Some pool" unfolding demote_gap_def using l False by auto
  have "Nonce (hd (tl_view l)) = ?n" if "tl_view l \<noteq> []"
  proof -
    have "sm_Get (txs l) ?n \<noteq> None" using False that by (simp add: tl_Len_view)
    then obtain t where "sm_Get (txs l) ?n = Some t" by blast
    then have t: "t \<in> set (tl_view l)" "Nonce t = ?n"
      using sm.get_view [OF tl_ok_sm [OF lok(1)]] by (simp_all add: tl_view_def)
    from sorted_hd_nonce [OF tl_view_sorted [OF lok(1)] t(1) lo [folded t(2)]] t(2) show ?thesis by simp
  qed
  then show ?thesis by (intro that [OF eq ok _ l]) (auto simp: demoted_def)
next
  case True
  note lok = lists_okD [OF pool_okD(1) [OF ok] l]
  have v: "P_of pool a = tl_view l" by (rule txs_at_Some [OF l])
  obtain l' where c: "tl_Cap 0 l = Some (rev (drop (nat 0) (tl_view l)), l')" "tl_ok l'" "strict l' = strict l"
    "tl_view l' = take (nat 0) (tl_view l)" by (rule tl_Cap_spec [OF lok(1), of 0]) simp
  have v': "tl_view l' = []" using c(4) by simp
  define pool2 where "pool2 = pool\<lparr>pending := AList.update a l' (pending pool)\<rparr>"
  have ok2: "pool_ok e X pool2" unfolding pool2_def
    by (rule pending_cut_ok [OF ok c(2)]) (simp_all add: c(3) lok(2) v')
  have eq: "demote_gap e a pool = Some (enqueue_each e (rev (tl_view l)) pool2)"
    unfolding demote_gap_def using l True c(1) by (simp add: pool2_def)
  have P2: "pending pool2 = AList.update a l' (pending pool)" by (simp add: pool2_def)
  have rc: "pool_ok e X (enqueue_each e (rev (tl_view l)) pool2)" "demoted a pool (enqueue_each e (rev (tl_view l)) pool2)"
    "pending (enqueue_each e (rev (tl_view l)) pool2) = pending pool2"
    using requeue_cut_pending [OF ok ok2 _ _ P2, of "rev (tl_view l)"] v v' by (simp_all add: pool2_def)
  show ?thesis
    by (rule that [OF eq rc(1,2), of l']) (simp_all add: rc(3) P2 AList.update_conv' v')
qed

lemma drop_empty_pending_ok:
  assumes ok: "pool_ok e X pool"
  shows "pool_ok e X (drop_empty_pending a pool)" "demoted a pool (drop_empty_pending a pool)"
    "P_of (drop_empty_pending a pool) = P_of pool" "queue (drop_empty_pending a pool) = queue pool"
    "map_of (pending (drop_empty_pending a pool)) a = Some l \<Longrightarrow> tl_view l \<noteq> []"
proof -
  have "pool_ok e X (pool\<lparr>pending := AList.delete a (pending pool)\<rparr>)"
    by (rule pool_ok_pending [OF ok lists_ok_delete [OF pool_okD(1) [OF ok]]]) simp
  then have "pool_ok e X (pool\<lparr>pending := AList.delete a (pending pool), beats := AList.delete a (beats pool)\<rparr>)"
    by simp
  with ok show "pool_ok e X (drop_empty_pending a pool)" by (simp add: drop_empty_pending_def split: option.splits)
  show P: "P_of (drop_empty_pending a pool) = P_of pool"
    by (auto simp: drop_empty_pending_def tl_Empty_view txs_at_Some fun_upd_idem split: option.splits)
  show "queue (drop_empty_pending a pool) = queue pool"
    by (simp add: drop_empty_pending_def split: option.splits)
  have "shrunk pool (drop_empty_pending a pool)"
    by (simp add: drop_empty_pending_def split: option.splits)
  with P show "demoted a pool (drop_empty_pending a pool)"
    by (auto simp: demoted_def drop_empty_pending_def split: option.splits)
  show "map_of (pending (drop_empty_pending a pool)) a = Some l \<Longrightarrow> tl_view l \<noteq> []"
    by (auto simp: drop_empty_pending_def tl_Empty_view split: option.splits if_splits)
qed

lemma demote_account_ok:
  assumes ok: "pool_ok e X pool" and l0: "map_of (pending pool) a = Some l0"
  obtains pool' where "demote_account e a pool = Some pool'" "pool_ok e X pool'" "demoted a pool pool'"
    "executable pool a (P_of pool' a)" "\<forall>l. map_of (pending pool') a = Some l \<longrightarrow> tl_view l \<noteq> []"
proof -
  let ?n = "GetNonce (currentState pool) a"
  obtain p1 l2 where 1: "clean_pending e a pool = Some p1" "pool_ok e X p1" "demoted a pool p1"
    "map_of (pending p1) a = Some l2"
    "tl_view l2 = takeWhile (\<lambda>t. \<not> unaffordable (GetBalance (currentState pool) a) (currentMaxGas pool) t)
       (dropWhile (\<lambda>t. Nonce t < GetNonce (currentState pool) a) (tl_view l0))"
    by (rule clean_pending_ok [OF ok l0])
  have cs: "currentState p1 = currentState pool"
    by (rule frameD(3) [OF shrunk_frame [OF demotedD(1) [OF 1(3)]]])
  have srt0: "nonce_sorted (tl_view l0)" by (rule tl_view_sorted [OF lists_okD(1) [OF pool_okD(1) [OF ok] l0]])
  have lo: "\<forall>t \<in> set (tl_view l2). \<not> Nonce t < ?n"
  proof
    fix t assume "t \<in> set (tl_view l2)"
    then have "t \<in> set (dropWhile (\<lambda>t. Nonce t < ?n) (tl_view l0))" unfolding 1(5) by (auto dest: set_takeWhileD)
    then show "\<not> Nonce t < ?n" by (rule nonce_sorted_dropWhile [OF srt0])
  qed
  obtain p2 l' where 2: "demote_gap e a p1 = Some p2" "pool_ok e X p2" "demoted a p1 p2"
    "map_of (pending p2) a = Some l'" "set (tl_view l') \<subseteq> set (tl_view l2)"
    "tl_view l' \<noteq> [] \<longrightarrow> Nonce (hd (tl_view l')) = GetNonce (currentState p1) a"
    by (rule demote_gap_ok [OF 1(2,4)]) (use lo cs in simp_all)
  note 3 = drop_empty_pending_ok [OF 2(2), where a = a]
  have eq: "demote_account e a pool = Some (drop_empty_pending a p2)"
    by (simp add: demote_account_def 1(1) 2(1))
  have v: "P_of (drop_empty_pending a p2) a = tl_view l'" unfolding 3(3) by (rule txs_at_Some [OF 2(4)])
  have "\<not> unaffordable (GetBalance (currentState pool) a) (currentMaxGas pool) t" if "t \<in> set (tl_view l')" for t
    using that 2(5) unfolding 1(5) by (auto dest: set_takeWhileD)
  then have ex: "executable pool a (P_of (drop_empty_pending a p2) a)"
    unfolding executable_def v using 2(6) cs by simp
  show ?thesis
    by (rule that [OF eq 3(1) demoted_trans [OF demoted_trans [OF 1(3) 2(3)] 3(2)] ex]) (use 3(5) in blast)
qed

end
