(* ===== verification/TxPoolLimits.thy ===== *)
theory TxPoolLimits
  imports TxPoolMoves
begin

text \<open>
  The two limits \<open>promoteExecutables\<close> enforces: the pending limit, where the accounts with the longest
  lists lose their last transactions in lockstep, and the queue limit. The fuel of the reduction
  loops is the length of the watched list, and it is shown to be enough.
\<close>

section \<open>Counting\<close>

abbreviation plen :: "'p txpool \<Rightarrow> address \<Rightarrow> nat" where
  "plen pool a \<equiv> length (P_of pool a)"

lemma count_txs_sum: "gomap_ok m \<Longrightarrow> count_txs m = of_nat (\<Sum>a \<in> set (keys m). length (txs_at m a))"
proof -
  have gen: "foldl (\<lambda>n p. n + of_nat (tl_Len (snd p))) z m = z + of_nat (sum_list (map (\<lambda>p. length (tl_view (snd p))) m))"
    for z :: uint64 and m :: "(address, txList) gomap"
    by (induction m arbitrary: z) (simp_all add: tl_Len_view algebra_simps)
  assume ok: "gomap_ok m"
  have "sum_list (map (\<lambda>p. length (tl_view (snd p))) m) = (\<Sum>a \<in> set (keys m). length (txs_at m a))"
  proof -
    have "map (\<lambda>p. length (tl_view (snd p))) m = map (\<lambda>a. length (txs_at m a)) (keys m)"
      using ok by (auto simp: gomap_ok_def txs_at_def map_of_eq_Some_iff)
    moreover have "distinct (keys m)" using ok by (simp add: gomap_ok_def)
    ultimately show ?thesis by (simp only: sum_list_distinct_conv_sum_set)
  qed
  then show ?thesis unfolding count_txs_def gen by simp
qed

text \<open>A change of one account's list changes the count by the change of its length.\<close>

lemma count_txs_superset:
  assumes "gomap_ok m" "finite K" "set (keys m) \<subseteq> K"
  shows "count_txs m = of_nat (\<Sum>a \<in> K. length (txs_at m a))"
proof -
  have "txs_at m a = []" if "a \<in> K - set (keys m)" for a
  proof (rule txs_at_None)
    from that have "\<not> map_of m a \<noteq> None" unfolding map_of_keys by simp
    then show "map_of m a = None" by simp
  qed
  then have "(\<Sum>a \<in> set (keys m). length (txs_at m a)) = (\<Sum>a \<in> K. length (txs_at m a))"
    using assms(2,3) by (intro sum.mono_neutral_left) simp_all
  then show ?thesis unfolding count_txs_sum [OF assms(1)] by simp
qed

lemma count_txs_change:
  assumes ok: "gomap_ok m" "gomap_ok m'" and other: "\<And>b. b \<noteq> a \<Longrightarrow> txs_at m' b = txs_at m b"
    and len: "length (txs_at m a) = length (txs_at m' a) + k"
  shows "count_txs m = count_txs m' + of_nat k"
proof -
  let ?K = "insert a (set (keys m) \<union> set (keys m'))"
  have "(\<Sum>b \<in> ?K. length (txs_at n b)) = length (txs_at n a) + (\<Sum>b \<in> ?K - {a}. length (txs_at n b))" for n
    by (rule sum.remove) simp_all
  moreover have "(\<Sum>b \<in> ?K - {a}. length (txs_at m' b)) = (\<Sum>b \<in> ?K - {a}. length (txs_at m b))"
    using other by (intro sum.cong) auto
  ultimately have "(\<Sum>b \<in> ?K. length (txs_at m b)) = (\<Sum>b \<in> ?K. length (txs_at m' b)) + k" using len by presburger
  moreover have "count_txs m = of_nat (\<Sum>b \<in> ?K. length (txs_at m b))"
    by (rule count_txs_superset [OF ok(1)]) auto
  moreover have "count_txs m' = of_nat (\<Sum>b \<in> ?K. length (txs_at m' b))"
    by (rule count_txs_superset [OF ok(2)]) auto
  ultimately show ?thesis by simp
qed

section \<open>One round\<close>

lemma drop_all_pendingState: "drop_all h (pool\<lparr>pendingState := z\<rparr>) = (drop_all h pool)\<lparr>pendingState := z\<rparr>"
  by (simp add: drop_all_def Let_def)

lemma drop_each_pendingState: "drop_each ts (pool\<lparr>pendingState := z\<rparr>) = (drop_each ts pool)\<lparr>pendingState := z\<rparr>"
  by (induction ts arbitrary: pool) (simp_all add: drop_all_pendingState)

lemma cap_each_drop: "\<exists>z. cap_each e a ts pool = (drop_each ts pool)\<lparr>pendingState := z\<rparr>"
proof (induction ts arbitrary: pool)
  case Nil
  show ?case by (intro exI [of _ "pendingState pool"]) simp
next
  case (Cons t ts)
  obtain z where "lower_nonce e a (Nonce t) (drop_all (Hash t) pool) = (drop_all (Hash t) pool)\<lparr>pendingState := z\<rparr>"
    by (cases "Nonce t < ms_get e (pendingState pool) a")
      (auto simp: lower_nonce_def intro: that [of "pendingState (drop_all (Hash t) pool)"])
  moreover obtain z' where "cap_each e a ts ((drop_all (Hash t) pool)\<lparr>pendingState := z\<rparr>) =
      (drop_each ts ((drop_all (Hash t) pool)\<lparr>pendingState := z\<rparr>))\<lparr>pendingState := z'\<rparr>" using Cons by blast
  ultimately show ?case by (intro exI [of _ z']) (simp add: drop_each_pendingState)
qed

text \<open>The state of the pending lists that the rounds rely on, and what a round keeps.\<close>

definition cut :: "'p txpool \<Rightarrow> 'p txpool \<Rightarrow> bool" where
  "cut pool pool' \<longleftrightarrow> shrunk pool pool' \<and> queue pool' = queue pool \<and> set (keys (pending pool')) = set (keys (pending pool)) \<and>
     (\<forall>a. \<exists>n. P_of pool' a = take n (P_of pool a))"

lemma cut_refl [simp]: "cut pool pool"
  unfolding cut_def by (simp add: exI [of _ "length _"]) (metis take_all_iff order_refl)

lemma cut_trans: "cut p q \<Longrightarrow> cut q r \<Longrightarrow> cut p r"
  unfolding cut_def by (metis shrunk_trans take_take)

lemma cap_one_ok:
  assumes ok: "pool_ok e X pool" and ne: "P_of pool a \<noteq> []"
  obtains pool' where "cap_one e a pool = Some pool'" "pool_ok e X pool'" "cut pool pool'"
    "P_of pool' = (P_of pool)(a := butlast (P_of pool a))"
    "count_txs (pending pool) = count_txs (pending pool') + 1"
proof -
  obtain l where l: "map_of (pending pool) a = Some l" using ne by (cases "map_of (pending pool) a") (simp_all add: txs_at_def)
  note lok = lists_okD [OF pool_okD(1) [OF ok] l]
  have v: "P_of pool a = tl_view l" by (rule txs_at_Some [OF l])
  let ?n = "int (tl_Len l) - 1"
  have n: "0 \<le> ?n" "nat ?n = length (tl_view l) - 1" using ne v by (simp_all add: tl_Len_view Suc_leI nat_diff_distrib)
  obtain l' where c: "tl_Cap ?n l = Some (rev (drop (nat ?n) (tl_view l)), l')" "tl_ok l'" "strict l' = strict l"
    "tl_view l' = take (nat ?n) (tl_view l)" by (rule tl_Cap_spec [OF lok(1) n(1)])
  define drops where "drops = rev (drop (nat ?n) (tl_view l))"
  have v': "tl_view l' = butlast (P_of pool a)" using c(4) n(2) v by (simp add: butlast_conv_take)
  have d: "distinct (tl_view l)" by (rule nonce_sorted_distinct(1) [OF tl_view_sorted [OF lok(1)]])
  have dj: "set drops \<inter> set (tl_view l') = {}"
    unfolding drops_def c(4) using set_take_disj_set_drop_if_distinct [OF d, of "nat ?n" "nat ?n"] by auto
  define pool1 where "pool1 = drop_each drops (pool\<lparr>pending := AList.update a l' (pending pool)\<rparr>)"
  have ok1: "pool_ok e X pool1" unfolding pool1_def
    by (rule pending_cut_drop [OF ok c(2) _ _ _ dj])
      (use c(3,4) lok(2) v in \<open>auto simp: drops_def dest: in_set_takeD in_set_dropD\<close>)
  obtain z where z: "cap_each e a drops (pool\<lparr>pending := AList.update a l' (pending pool)\<rparr>) = pool1\<lparr>pendingState := z\<rparr>"
    using cap_each_drop [of e a drops "pool\<lparr>pending := AList.update a l' (pending pool)\<rparr>"]
    unfolding pool1_def by (elim exE)
  have eq: "cap_one e a pool = Some (pool1\<lparr>pendingState := z\<rparr>)"
    unfolding cap_one_def using l c(1) z by (simp add: drops_def)
  have keys: "set (keys (AList.update a l' (pending pool))) = set (keys (pending pool))"
    using l by (auto simp: dom_update insert_absorb dest: map_of_SomeD)
      (metis fst_conv image_eqI map_of_SomeD)
  have P: "P_of (pool1\<lparr>pendingState := z\<rparr>) = (P_of pool)(a := butlast (P_of pool a))"
    by (simp add: pool1_def v')
  have ct: "cut pool (pool1\<lparr>pendingState := z\<rparr>)" unfolding cut_def
  proof (intro conjI allI)
    show "shrunk pool (pool1\<lparr>pendingState := z\<rparr>)" by (simp add: pool1_def shrunk_drop_each)
    show "\<exists>n. P_of (pool1\<lparr>pendingState := z\<rparr>) b = take n (P_of pool b)" for b
      unfolding P by (cases "b = a") (auto simp: butlast_conv_take intro: exI [of _ "length (P_of pool b)"])
  qed (use keys in \<open>simp_all add: pool1_def\<close>)
  have "count_txs (pending pool) = count_txs (pending (pool1\<lparr>pendingState := z\<rparr>)) + of_nat 1"
  proof (rule count_txs_change [of _ _ a])
    show "gomap_ok (pending pool)" "gomap_ok (pending (pool1\<lparr>pendingState := z\<rparr>))"
      using lists_ok_gomap [OF pool_okD(1) [OF ok]] lists_ok_gomap [OF pool_okD(1) [OF ok1]] by simp_all
    show "length (P_of pool a) = length (P_of (pool1\<lparr>pendingState := z\<rparr>) a) + 1"
      unfolding P using ne by simp
  qed (use keys P in \<open>simp_all add: pool1_def\<close>)
  then show ?thesis by (intro that [OF eq _ ct P]) (simp_all add: ok1)
qed

lemma cap_round_ok:
  assumes "pool_ok e X pool" "distinct addrs" "\<forall>a \<in> set addrs. P_of pool a \<noteq> []" "n = count_txs (pending pool)"
  obtains pool' where "cap_round e addrs n pool = Some (count_txs (pending pool'), pool')" "pool_ok e X pool'"
    "cut pool pool'" "\<forall>b. P_of pool' b = (if b \<in> set addrs then butlast (P_of pool b) else P_of pool b)"
proof -
  have "\<exists>pool'. cap_round e addrs n pool = Some (count_txs (pending pool'), pool') \<and> pool_ok e X pool' \<and>
    cut pool pool' \<and> (\<forall>b. P_of pool' b = (if b \<in> set addrs then butlast (P_of pool b) else P_of pool b))"
    using assms
  proof (induction addrs arbitrary: pool n)
    case (Cons a addrs)
    obtain p1 where 1: "cap_one e a pool = Some p1" "pool_ok e X p1" "cut pool p1"
      "P_of p1 = (P_of pool)(a := butlast (P_of pool a))" "count_txs (pending pool) = count_txs (pending p1) + 1"
      by (rule cap_one_ok [OF Cons.prems(1), of a]) (use Cons.prems(3) in simp_all)
    have "\<forall>b \<in> set addrs. P_of p1 b \<noteq> []" using Cons.prems(2,3) by (auto simp: 1(4))
    then obtain p2 where 2: "cap_round e addrs (n - 1) p1 = Some (count_txs (pending p2), p2)" "pool_ok e X p2"
      "cut p1 p2" "\<forall>b. P_of p2 b = (if b \<in> set addrs then butlast (P_of p1 b) else P_of p1 b)"
      using Cons.IH [OF 1(2), of "n - 1"] Cons.prems(2,4) 1(5) by auto
    have "\<forall>b. P_of p2 b = (if b \<in> set (a # addrs) then butlast (P_of pool b) else P_of pool b)"
      using 2(4) Cons.prems(2) by (simp add: 1(4))
    then show ?case using 1(1) 2(1,2) cut_trans [OF 1(3) 2(3)] by (intro exI [of _ p2]) simp
  qed simp
  then show ?thesis using that by blast
qed

section \<open>The reduction loops\<close>

text \<open>
  On accounts whose lists are all at least as long as the last one's, the loop returns within its
  fuel. It takes the same number \<open>k\<close> of transactions off every list and stops when the total is within
  the limit or the last list is down to the threshold.
\<close>

lemma reduce_loop_ok:
  assumes "pool_ok e X pool" "distinct addrs" "addrs \<noteq> []" "\<forall>a \<in> set addrs. plen pool (last addrs) \<le> plen pool a"
    "n = count_txs (pending pool)" "threshold \<le> plen pool (last addrs)" "plen pool (last addrs) < fuel + threshold"
    "map_of (pending pool) (last addrs) \<noteq> None"
  shows "\<exists>k pool'. reduce_loop e fuel addrs threshold n pool = Some (count_txs (pending pool'), pool') \<and>
    pool_ok e X pool' \<and> cut pool pool' \<and> k + threshold \<le> plen pool (last addrs) \<and>
    (\<forall>b. P_of pool' b = (if b \<in> set addrs then take (plen pool b - k) (P_of pool b) else P_of pool b)) \<and>
    (count_txs (pending pool') \<le> GlobalSlots (config pool) \<or> k + threshold = plen pool (last addrs))"
  using assms
proof (induction fuel arbitrary: pool n)
  case (Suc fuel)
  obtain l where l: "map_of (pending pool) (last addrs) = Some l" using Suc.prems(8) by blast
  have v: "tl_Len l = plen pool (last addrs)" using txs_at_Some [OF l] by (simp add: tl_Len_view)
  show ?case
  proof (cases "GlobalSlots (config pool) < n \<and> threshold < plen pool (last addrs)")
    case False
    then have "reduce_loop e (Suc fuel) addrs threshold n pool = Some (count_txs (pending pool), pool)"
      using l v Suc.prems(5) by auto
    moreover have "count_txs (pending pool) \<le> GlobalSlots (config pool) \<or> 0 + threshold = plen pool (last addrs)"
      using False Suc.prems(5,6) by auto
    ultimately show ?thesis using Suc.prems(1,6) by (intro exI [of _ 0] exI [of _ pool]) simp
  next
    case True
    have "\<forall>a \<in> set addrs. P_of pool a \<noteq> []" using Suc.prems(4) True by fastforce
    then obtain p1 where 1: "cap_round e addrs n pool = Some (count_txs (pending p1), p1)" "pool_ok e X p1" "cut pool p1"
      "\<forall>b. P_of p1 b = (if b \<in> set addrs then butlast (P_of pool b) else P_of pool b)"
      by (rule cap_round_ok [OF Suc.prems(1,2) _ Suc.prems(5)])
    have cfg: "config p1 = config pool"
      using 1(3) by (simp add: cut_def shrunk_def frame_def)
    have la: "last addrs \<in> set addrs" using Suc.prems(3) by simp
    have len: "plen p1 b = plen pool b - 1" if "b \<in> set addrs" for b using 1(4) that by simp
    have dom: "map_of (pending p1) (last addrs) \<noteq> None"
      using 1(3) Suc.prems(8) unfolding cut_def map_of_keys by simp
    have low: "\<forall>a \<in> set addrs. plen p1 (last addrs) \<le> plen p1 a"
      using Suc.prems(4) len [OF la] len by (simp add: diff_le_mono)
    have "threshold \<le> plen p1 (last addrs)" "plen p1 (last addrs) < fuel + threshold"
      using conjunct2 [OF True] Suc.prems(7) len [OF la] by linarith+
    from Suc.IH [OF 1(2) Suc.prems(2,3) low refl this dom] obtain k p2 where
      2: "reduce_loop e fuel addrs threshold (count_txs (pending p1)) p1 = Some (count_txs (pending p2), p2)"
      "pool_ok e X p2" "cut p1 p2" "k + threshold \<le> plen p1 (last addrs)"
      "\<forall>b. P_of p2 b = (if b \<in> set addrs then take (plen p1 b - k) (P_of p1 b) else P_of p1 b)"
      "count_txs (pending p2) \<le> GlobalSlots (config p1) \<or> k + threshold = plen p1 (last addrs)" by blast
    have "reduce_loop e (Suc fuel) addrs threshold n pool = Some (count_txs (pending p2), p2)"
      using True l v 1(1) 2(1) by simp
    moreover have "\<forall>b. P_of p2 b = (if b \<in> set addrs then take (plen pool b - Suc k) (P_of pool b) else P_of pool b)"
      using 2(5) 1(4) by (auto simp: butlast_conv_take min_def)
    moreover have "count_txs (pending p2) \<le> GlobalSlots (config pool) \<or> Suc k + threshold = plen pool (last addrs)"
      using 2(6) len [OF la] conjunct2 [OF True] unfolding cfg by linarith
    moreover have "Suc k + threshold \<le> plen pool (last addrs)"
      using 2(4) len [OF la] conjunct2 [OF True] by linarith
    ultimately show ?thesis using 2(2) cut_trans [OF 1(3) 2(3)] by blast
  qed
qed simp

section \<open>The pending limit\<close>

lemma cut_config: "cut pool pool' \<Longrightarrow> config pool' = config pool" "cut pool pool' \<Longrightarrow> locals pool' = locals pool"
  by (simp_all add: cut_def shrunk_def frame_def)

lemma cut_dom: "cut pool pool' \<Longrightarrow> map_of (pending pool') a = None \<longleftrightarrow> map_of (pending pool) a = None"
  unfolding cut_def by (metis map_of_keys)

text \<open>
  The state of the offender loop: the remaining spammers are ordered by length, none is longer than
  the last offender, no offender is shorter than it, and while the pool is over its limit all
  offenders are equally long. No list is shorter than \<open>m\<close>.
\<close>

definition spam_state :: "nat \<Rightarrow> 'p env \<Rightarrow> tx set \<Rightarrow> address list \<Rightarrow> address list \<Rightarrow> 'p txpool \<Rightarrow> bool" where
  "spam_state m e X off sp pool \<longleftrightarrow> pool_ok e X pool \<and> distinct (off @ sp) \<and>
     (\<forall>a \<in> set (off @ sp). map_of (pending pool) a \<noteq> None \<and> m \<le> plen pool a) \<and>
     sorted_wrt (\<lambda>x y. plen pool y \<le> plen pool x) sp \<and>
     (off \<noteq> [] \<longrightarrow> (\<forall>s \<in> set sp. plen pool s \<le> plen pool (last off)) \<and>
        (\<forall>x \<in> set off. plen pool (last off) \<le> plen pool x) \<and>
        (GlobalSlots (config pool) < count_txs (pending pool) \<longrightarrow> (\<forall>x \<in> set off. plen pool x = plen pool (last off))))"

lemma spam_stateD:
  assumes "spam_state m e X off sp pool"
  shows "pool_ok e X pool" "distinct (off @ sp)" "a \<in> set (off @ sp) \<Longrightarrow> map_of (pending pool) a \<noteq> None"
    "a \<in> set (off @ sp) \<Longrightarrow> m \<le> plen pool a" "sorted_wrt (\<lambda>x y. plen pool y \<le> plen pool x) sp"
    "off \<noteq> [] \<Longrightarrow> s \<in> set sp \<Longrightarrow> plen pool s \<le> plen pool (last off)"
    "off \<noteq> [] \<Longrightarrow> x \<in> set off \<Longrightarrow> plen pool (last off) \<le> plen pool x"
    "off \<noteq> [] \<Longrightarrow> x \<in> set off \<Longrightarrow> GlobalSlots (config pool) < count_txs (pending pool) \<Longrightarrow>
       plen pool x = plen pool (last off)"
  using assms unfolding spam_state_def by blast+

lemma spam_first:
  assumes "spam_state m e X [] (o1 # sp) pool"
  shows "spam_state m e X [o1] sp pool"
  using assms by (simp add: spam_state_def)

lemma pending_fuel: "map_of (pending pool) a \<noteq> None \<Longrightarrow> pending_fuel pool a = Suc (plen pool a)"
  by (auto simp: pending_fuel_def txs_at_def tl_Len_view)

text \<open>One more offender: the earlier ones come down to its length.\<close>

lemma spam_next:
  assumes st: "spam_state m e X off (o1 # sp) pool" and ne: "off \<noteq> []"
    and over: "GlobalSlots (config pool) < count_txs (pending pool)"
  obtains pool' where "reduce_loop e (pending_fuel pool (last off)) off (plen pool o1) (count_txs (pending pool)) pool
      = Some (count_txs (pending pool'), pool')" "spam_state m e X (off @ [o1]) sp pool'" "cut pool pool'"
    "\<forall>b. b \<notin> set off \<longrightarrow> P_of pool' b = P_of pool b"
proof -
  note D = spam_stateD [OF st]
  let ?L = "plen pool (last off)"
  have lo: "last off \<in> set (off @ o1 # sp)" "last off \<in> set off" using ne by simp_all
  have th: "plen pool o1 \<le> ?L" using D(6) [OF ne, of o1] by simp
  have fuel: "?L < pending_fuel pool (last off) + plen pool o1"
    using pending_fuel [OF D(3) [OF lo(1)]] by simp
  have dist: "distinct off" "o1 \<notin> set off" using D(2) by simp_all
  from reduce_loop_ok [OF D(1) dist(1) ne _ refl th fuel D(3) [OF lo(1)]] D(7) [OF ne]
  obtain k pool' where r: "reduce_loop e (pending_fuel pool (last off)) off (plen pool o1) (count_txs (pending pool)) pool
      = Some (count_txs (pending pool'), pool')" "pool_ok e X pool'" "cut pool pool'" "k + plen pool o1 \<le> ?L"
    "\<forall>b. P_of pool' b = (if b \<in> set off then take (plen pool b - k) (P_of pool b) else P_of pool b)"
    "count_txs (pending pool') \<le> GlobalSlots (config pool) \<or> k + plen pool o1 = ?L"
    by blast
  have pl: "plen pool' x = ?L - k" if "x \<in> set off" for x
    using r(5) that D(8) [OF ne that over] by simp
  have pl': "plen pool' x = plen pool x" if "x \<notin> set off" for x using r(5) that by simp
  have nsp: "x \<notin> set off" if "x \<in> set (o1 # sp)" for x using D(2) that by auto
  have "spam_state m e X (off @ [o1]) sp pool'"
    unfolding spam_state_def
  proof (intro conjI ballI impI)
    show "distinct ((off @ [o1]) @ sp)" using D(2) by simp
    fix a assume a: "a \<in> set ((off @ [o1]) @ sp)"
    then show "map_of (pending pool') a \<noteq> None" using D(3) [of a] cut_dom [OF r(3), of a] by simp
    show "m \<le> plen pool' a"
    proof (cases "a \<in> set off")
      case True
      with pl r(4) D(4) [of o1] show ?thesis by simp
    next
      case False
      with a pl' D(4) [of a] show ?thesis by simp
    qed
  next
    have "sorted_wrt (\<lambda>x y. plen pool y \<le> plen pool x) sp" using D(5) by simp
    then show "sorted_wrt (\<lambda>x y. plen pool' y \<le> plen pool' x) sp"
      by (rule sorted_wrt_mono_rel [rotated]) (use nsp pl' in simp)
  next
    fix s assume "s \<in> set sp"
    then show "plen pool' s \<le> plen pool' (last (off @ [o1]))" using D(5) nsp pl' by simp
  next
    fix x assume "x \<in> set (off @ [o1])"
    then show "plen pool' (last (off @ [o1])) \<le> plen pool' x" using pl pl' dist(2) r(4) by auto
  next
    fix x assume over': "GlobalSlots (config pool') < count_txs (pending pool')" and "x \<in> set (off @ [o1])"
    moreover have "k + plen pool o1 = ?L" using r(6) over' cut_config(1) [OF r(3)] by auto
    ultimately show "plen pool' x = plen pool' (last (off @ [o1]))" using pl pl' dist(2) by auto
  qed (rule r(2))
  then show ?thesis using r(5) by (intro that [OF r(1) _ r(3)]) simp_all
qed

lemma offender_loop_ok:
  assumes "spam_state m e X off sp pool"
  shows "\<exists>off' sp' pool'. offender_loop e sp off (count_txs (pending pool)) pool = Some (off', count_txs (pending pool'), pool') \<and>
     spam_state m e X off' sp' pool' \<and> cut pool pool' \<and> off' @ sp' = off @ sp \<and>
     (\<forall>b. b \<notin> set (off @ sp) \<longrightarrow> P_of pool' b = P_of pool b) \<and>
     (GlobalSlots (config pool) < count_txs (pending pool') \<longrightarrow> sp' = [])"
  using assms
proof (induction sp arbitrary: off pool)
  case Nil
  then show ?case by (intro exI [of _ off] exI [of _ "[]"] exI [of _ pool]) simp
next
  case (Cons o1 sp)
  show ?case
  proof (cases "GlobalSlots (config pool) < count_txs (pending pool)")
    case False
    with Cons.prems show ?thesis by (intro exI [of _ off] exI [of _ "o1 # sp"] exI [of _ pool]) simp
  next
    case True
    obtain l where l: "map_of (pending pool) o1 = Some l" using spam_stateD(3) [OF Cons.prems, of o1] by auto
    have v: "tl_Len l = plen pool o1" using txs_at_Some [OF l] by (simp add: tl_Len_view)
    have "\<exists>p1. (if 1 < length (off @ [o1]) then do {
             l \<leftarrow> map_of (pending pool) o1;
             reduce_loop e (pending_fuel pool (last off)) off (tl_Len l) (count_txs (pending pool)) pool
           } else Some (count_txs (pending pool), pool)) = Some (count_txs (pending p1), p1) \<and>
        spam_state m e X (off @ [o1]) sp p1 \<and> cut pool p1 \<and> (\<forall>b. b \<notin> set off \<longrightarrow> P_of p1 b = P_of pool b)"
    proof (cases "off = []")
      case True
      then show ?thesis using spam_first Cons.prems by (intro exI [of _ pool]) simp
    next
      case False
      show ?thesis by (rule spam_next [OF Cons.prems False True]) (use False l v in auto)
    qed
    then obtain p1 where 1: "(if 1 < length (off @ [o1]) then do {
             l \<leftarrow> map_of (pending pool) o1;
             reduce_loop e (pending_fuel pool (last off)) off (tl_Len l) (count_txs (pending pool)) pool
           } else Some (count_txs (pending pool), pool)) = Some (count_txs (pending p1), p1)"
        "spam_state m e X (off @ [o1]) sp p1" "cut pool p1" "\<forall>b. b \<notin> set off \<longrightarrow> P_of p1 b = P_of pool b" by blast
    from Cons.IH [OF 1(2)] obtain off' sp' p2 where
      2: "offender_loop e sp (off @ [o1]) (count_txs (pending p1)) p1 = Some (off', count_txs (pending p2), p2)"
      "spam_state m e X off' sp' p2" "cut p1 p2" "off' @ sp' = (off @ [o1]) @ sp"
      "\<forall>b. b \<notin> set ((off @ [o1]) @ sp) \<longrightarrow> P_of p2 b = P_of p1 b"
      "GlobalSlots (config p1) < count_txs (pending p2) \<longrightarrow> sp' = []" by blast
    have "offender_loop e (o1 # sp) off (count_txs (pending pool)) pool = Some (off', count_txs (pending p2), p2)"
      unfolding offender_loop.simps Let_def if_P [OF True] 1(1) bind.bind_lunit prod.case by (rule 2(1))
    moreover have "\<forall>b. b \<notin> set (off @ o1 # sp) \<longrightarrow> P_of p2 b = P_of pool b" using 2(5) 1(4) by simp
    ultimately show ?thesis
      using 2(2,4,6) cut_trans [OF 1(3) 2(3)] cut_config(1) [OF 1(3)]
      by (intro exI [of _ off'] exI [of _ sp'] exI [of _ p2]) simp
  qed
qed

text \<open>
  What the third-party priority queue promises: its pop order is a permutation of what was pushed, by
  descending priority. (The code converts the lengths to \<open>float32\<close>, which is exact up to \<open>2 ^ 24\<close>.)
\<close>

definition prque_ok :: "'p env \<Rightarrow> bool" where
  "prque_ok e \<longleftrightarrow> (\<forall>xs. \<exists>ys. mset ys = mset xs \<and> prque_order e xs = map fst ys \<and>
     sorted_wrt (\<lambda>p q. snd q \<le> snd p) ys)"

definition high_rollers :: "'p txpool \<Rightarrow> (address \<times> nat) list" where
  "high_rollers pool = map (\<lambda>p. (fst p, tl_Len (snd p))) (filter (\<lambda>p. \<not> as_contains (locals pool) (fst p) \<and>
     AccountSlots (config pool) < of_nat (tl_Len (snd p))) (pending pool))"

lemma high_roller:
  assumes "pool_ok e X pool"
  shows "(a, n) \<in> set (high_rollers pool) \<longleftrightarrow> map_of (pending pool) a \<noteq> None \<and> n = plen pool a \<and>
      \<not> as_contains (locals pool) a \<and> AccountSlots (config pool) < of_nat (plen pool a)"
    "distinct (map fst (high_rollers pool))"
proof -
  have ok: "gomap_ok (pending pool)" by (rule lists_ok_gomap [OF pool_okD(1) [OF assms]])
  show "distinct (map fst (high_rollers pool))"
    using ok distinct_map_filter [of fst "pending pool"] by (simp add: high_rollers_def gomap_ok_def comp_def)
  have 1: "map_of (pending pool) a = Some l \<longleftrightarrow> (a, l) \<in> set (pending pool)" for l by (rule map_of_gomap [OF ok])
  have 2: "(a, n) \<in> set (high_rollers pool) \<longleftrightarrow> (\<exists>l. (a, l) \<in> set (pending pool) \<and> n = length (tl_view l) \<and>
      \<not> as_contains (locals pool) a \<and> AccountSlots (config pool) < of_nat (length (tl_view l)))"
    by (auto simp: high_rollers_def tl_Len_view image_iff Bex_def split_paired_Ex)
  show "(a, n) \<in> set (high_rollers pool) \<longleftrightarrow> map_of (pending pool) a \<noteq> None \<and> n = plen pool a \<and>
      \<not> as_contains (locals pool) a \<and> AccountSlots (config pool) < of_nat (plen pool a)"
  proof (cases "map_of (pending pool) a")
    case None
    then have "\<And>l. (a, l) \<notin> set (pending pool)" using 1 by simp
    then show ?thesis using None unfolding 2 by simp
  next
    case (Some l)
    then have "(a, l') \<in> set (pending pool) \<longleftrightarrow> l' = l" for l' using 1 [of l'] by auto
    then show ?thesis unfolding 2 txs_at_Some [OF Some] using Some by simp
  qed
qed

lemma spam_start:
  assumes ok: "pool_ok e X pool" and q: "prque_ok e"
  shows "spam_state (unat (AccountSlots (config pool))) e X [] (prque_order e (high_rollers pool)) pool"
    "set (prque_order e (high_rollers pool)) = fst ` set (high_rollers pool)"
proof -
  obtain ys where ys: "mset ys = mset (high_rollers pool)" "prque_order e (high_rollers pool) = map fst ys"
    "sorted_wrt (\<lambda>p q. snd q \<le> snd p) ys" using q unfolding prque_ok_def by blast
  have set_ys: "set ys = set (high_rollers pool)" by (rule mset_eq_setD [OF ys(1)])
  have d: "distinct (map fst ys)"
    using high_roller(2) [OF ok] mset_eq_imp_distinct_iff [of "map fst ys" "map fst (high_rollers pool)"] ys(1) by simp
  have m: "map_of (pending pool) a \<noteq> None" "n = plen pool a" "unat (AccountSlots (config pool)) \<le> plen pool a"
    if "(a, n) \<in> set ys" for a n
  proof -
    have h: "AccountSlots (config pool) < of_nat (plen pool a)"
      using that set_ys high_roller(1) [OF ok, of a n] by simp
    then have "unat (AccountSlots (config pool)) < unat (of_nat (plen pool a) :: uint64)" by (simp add: word_less_nat_alt)
    also have "\<dots> \<le> plen pool a" by (simp add: unat_of_nat)
    finally show "unat (AccountSlots (config pool)) \<le> plen pool a" by simp
    show "map_of (pending pool) a \<noteq> None" "n = plen pool a"
      using that set_ys high_roller(1) [OF ok, of a n] by simp_all
  qed
  have srt: "sorted_wrt (\<lambda>x y. plen pool y \<le> plen pool x) (map fst ys)"
    unfolding sorted_wrt_map using ys(3) by (rule sorted_wrt_mono_rel [rotated]) (use m(2) in force)
  show "set (prque_order e (high_rollers pool)) = fst ` set (high_rollers pool)" unfolding ys(2) using set_ys by simp
  show "spam_state (unat (AccountSlots (config pool))) e X [] (prque_order e (high_rollers pool)) pool"
    unfolding spam_state_def ys(2) using ok d srt m(1,3) by auto
qed

lemma truncate_pending_ok:
  assumes ok: "pool_ok e X pool" and q: "prque_ok e"
  obtains pool' where "truncate_pending e pool = Some pool'" "pool_ok e X pool'" "cut pool pool'"
    "count_txs (pending pool') \<le> GlobalSlots (config pool) \<or>
       (\<forall>a. \<not> as_contains (locals pool) a \<longrightarrow> of_nat (plen pool' a) \<le> AccountSlots (config pool))"
    "\<forall>a. as_contains (locals pool) a \<longrightarrow> P_of pool' a = P_of pool a"
    "\<forall>a. P_of pool' a = P_of pool a \<or> unat (AccountSlots (config pool)) \<le> plen pool' a"
proof (cases "GlobalSlots (config pool) < count_txs (pending pool)")
  case False
  have eq: "truncate_pending e pool = Some pool" using False by (simp add: truncate_pending_def)
  show ?thesis by (rule that [OF eq ok]) (use False in \<open>auto simp: not_less\<close>)
next
  case True
  let ?sp = "prque_order e (high_rollers pool)" and ?m = "unat (AccountSlots (config pool))"
  note st = spam_start [OF ok q]
  have rollers: "\<not> as_contains (locals pool) a" if "a \<in> set ?sp" for a
    using that st(2) high_roller(1) [OF ok] by auto
  have small: "of_nat (plen pool a) \<le> AccountSlots (config pool)" if "a \<notin> set ?sp" "\<not> as_contains (locals pool) a" for a
  proof (cases "map_of (pending pool) a")
    case (Some l)
    with that st(2) high_roller(1) [OF ok, of a "plen pool a"] show ?thesis by (force simp: not_less)
  qed (simp add: txs_at_None)
  from offender_loop_ok [OF st(1)] obtain off sp' p1 where
    1: "offender_loop e ?sp [] (count_txs (pending pool)) pool = Some (off, count_txs (pending p1), p1)"
    "spam_state ?m e X off sp' p1" "cut pool p1" "off @ sp' = [] @ ?sp"
    "\<forall>b. b \<notin> set ([] @ ?sp) \<longrightarrow> P_of p1 b = P_of pool b"
    "GlobalSlots (config pool) < count_txs (pending p1) \<longrightarrow> sp' = []" by blast
  note D = spam_stateD [OF 1(2)]
  note cfg = cut_config [OF 1(3)]
  have sps: "set off \<union> set sp' = set ?sp" using 1(4) by (metis append_Nil set_append)
  have tp: "truncate_pending e pool = (if GlobalSlots (config p1) < count_txs (pending p1) \<and> off \<noteq> [] then do {
       (n2, pool2) \<leftarrow> reduce_loop e (pending_fuel p1 (last off)) off (unat (AccountSlots (config p1))) (count_txs (pending p1)) p1;
       Some pool2 } else Some p1)"
    using True 1(1) by (simp add: truncate_pending_def high_rollers_def)
  have low1: "P_of p1 a = P_of pool a \<or> ?m \<le> plen p1 a" for a using 1(5) D(4) [of a] sps by auto
  show ?thesis
  proof (cases "GlobalSlots (config p1) < count_txs (pending p1) \<and> off \<noteq> []")
    case False
    have eq: "truncate_pending e pool = Some p1" using tp False by simp
    have lim: "count_txs (pending p1) \<le> GlobalSlots (config pool) \<or>
        (\<forall>a. \<not> as_contains (locals pool) a \<longrightarrow> of_nat (plen p1 a) \<le> AccountSlots (config pool))"
    proof (cases "off = []")
      case True
      then have "GlobalSlots (config pool) < count_txs (pending p1) \<longrightarrow> ?sp = []" using 1(4,6) by simp
      then show ?thesis using small 1(5) by (auto simp: not_less)
    qed (use False cfg in \<open>auto simp: not_less\<close>)
    show ?thesis
      by (rule that [OF eq D(1) 1(3) lim]) (use 1(5) rollers low1 in auto)
  next
    case over: True
    have lo: "last off \<in> set (off @ sp')" using over by simp
    have fuel: "plen p1 (last off) < pending_fuel p1 (last off) + ?m" using pending_fuel [OF D(3) [OF lo]] by simp
    have d: "distinct off" using D(2) by simp
    from reduce_loop_ok [OF D(1) d conjunct2 [OF over] _ refl D(4) [OF lo] fuel D(3) [OF lo]] D(7) over
    obtain k p2 where 2: "reduce_loop e (pending_fuel p1 (last off)) off ?m (count_txs (pending p1)) p1 = Some (count_txs (pending p2), p2)"
      "pool_ok e X p2" "cut p1 p2" "k + ?m \<le> plen p1 (last off)"
      "\<forall>b. P_of p2 b = (if b \<in> set off then take (plen p1 b - k) (P_of p1 b) else P_of p1 b)"
      "count_txs (pending p2) \<le> GlobalSlots (config p1) \<or> k + ?m = plen p1 (last off)" by blast
    have eq: "truncate_pending e pool = Some p2" using tp over 2(1) cfg by simp
    have pl: "plen p2 a = plen p1 (last off) - k" if "a \<in> set off" for a
      using 2(5) that D(8) [of a] over by simp
    have "sp' = []" using 1(6) over cfg by simp
    then have so: "set off = set ?sp" using sps by simp
    have lim: "count_txs (pending p2) \<le> GlobalSlots (config pool) \<or>
        (\<forall>a. \<not> as_contains (locals pool) a \<longrightarrow> of_nat (plen p2 a) \<le> AccountSlots (config pool))"
    proof (cases "k + ?m = plen p1 (last off)")
      case True
      have "of_nat (plen p2 a) \<le> AccountSlots (config pool)" if "\<not> as_contains (locals pool) a" for a
      proof (cases "a \<in> set off")
        case True
        then have "plen p2 a = ?m" using pl \<open>k + ?m = plen p1 (last off)\<close> by simp
        then show ?thesis by simp
      next
        case False
        then show ?thesis using small [OF _ that] 1(5) 2(5) so by simp
      qed
      then show ?thesis by blast
    qed (use 2(6) cfg in auto)
    show ?thesis
    proof (rule that [OF eq 2(2) cut_trans [OF 1(3) 2(3)] lim])
      show "\<forall>a. as_contains (locals pool) a \<longrightarrow> P_of p2 a = P_of pool a" using 2(5) 1(5) rollers so by auto
      show "\<forall>a. P_of p2 a = P_of pool a \<or> ?m \<le> plen p2 a"
      proof
        fix a show "P_of p2 a = P_of pool a \<or> ?m \<le> plen p2 a"
          using low1 [of a] 2(5) pl [of a] 2(4) by (cases "a \<in> set off") auto
      qed
    qed
  qed
qed

section \<open>The queue limit\<close>

lemma flatten_queue_ok:
  assumes ok: "pool_ok e X pool" and l: "map_of (queue pool) a = Some l"
  obtains pool1 where "flatten_queue a l pool = (Q_of pool a, pool1)" "pool_ok e X pool1" "shrunk pool pool1"
    "pending pool1 = pending pool" "Q_of pool1 = Q_of pool" "\<forall>b. b \<noteq> a \<longrightarrow> map_of (queue pool1) b = map_of (queue pool) b"
    "count_txs (queue pool1) = count_txs (queue pool)" "beats pool1 = beats pool"
proof -
  note lo = lists_okD [OF pool_okD(2) [OF ok] l]
  note f = tl_Flatten_spec [OF lo(1)]
  have v: "Q_of pool a = tl_view l" by (rule txs_at_Some [OF l])
  define pool1 where "pool1 = pool\<lparr>queue := AList.update a (snd (tl_Flatten l)) (queue pool)\<rparr>"
  have eq: "flatten_queue a l pool = (Q_of pool a, pool1)"
    unfolding flatten_queue_def pool1_def using f(1) v by (simp add: split_beta)
  have ok1: "pool_ok e X pool1" unfolding pool1_def
    by (rule queue_cut_ok [OF ok f(2)]) (simp_all add: f(3,4) lo(2) v)
  have Q: "Q_of pool1 = Q_of pool" by (simp add: pool1_def f(3) v [symmetric])
  have "count_txs (queue pool) = count_txs (queue pool1) + of_nat 0"
    by (rule count_txs_change [OF lists_ok_gomap [OF pool_okD(2) [OF ok]] lists_ok_gomap [OF pool_okD(2) [OF ok1]], of a])
      (simp_all add: Q)
  then show ?thesis by (intro that [OF eq ok1 _ _ Q]) (simp_all add: pool1_def AList.update_conv')
qed

lemma length_filter_notin:
  assumes "distinct xs" "set ys \<subseteq> set xs" "distinct ys"
  shows "length xs = length (filter (\<lambda>u. u \<notin> set ys) xs) + length ys"
proof -
  have "length (filter (\<lambda>u. u \<notin> set ys) xs) = card (set xs - set ys)"
    using distinct_card [OF distinct_filter [OF assms(1), of "\<lambda>u. u \<notin> set ys"]] by (simp add: set_diff_eq)
  also have "\<dots> = card (set xs) - card (set ys)" by (rule card_Diff_subset [OF finite_set assms(2)])
  also have "card (set ys) \<le> card (set xs)" by (rule card_mono [OF finite_set assms(2)])
  finally show ?thesis using distinct_card [OF assms(1)] distinct_card [OF assms(3)]
    by (metis assms(2) card_mono finite_set le_add_diff_inverse2 \<open>card (set xs - set ys) = card (set xs) - card (set ys)\<close>
      \<open>length (filter (\<lambda>u. u \<notin> set ys) xs) = card (set xs - set ys)\<close>)
qed

text \<open>Removing some of an account's queued transactions lowers the count by their number.\<close>

lemma remove_some_queued:
  assumes ok: "pool_ok e X pool" and l: "map_of (queue pool) a = Some l" and fl: "flatten_queue a l pool = (ts, pool1)"
    and us: "set us \<subseteq> set ts" "distinct us"
  obtains pool2 where "remove_each e us pool1 = Some pool2" "pool_ok e X pool2" "shrunk pool pool2"
    "P_of pool2 = P_of pool" "Q_of pool2 = (Q_of pool)(a := filter (\<lambda>u. u \<notin> set us) (Q_of pool a))"
    "\<forall>b. b \<noteq> a \<longrightarrow> map_of (queue pool2) b = map_of (queue pool) b"
    "count_txs (queue pool2) = count_txs (queue pool) - of_nat (length us)" "beats pool2 = beats pool"
proof -
  obtain q1 where f: "flatten_queue a l pool = (Q_of pool a, q1)" "pool_ok e X q1" "shrunk pool q1"
    "pending q1 = pending pool" "Q_of q1 = Q_of pool" "\<forall>b. b \<noteq> a \<longrightarrow> map_of (queue q1) b = map_of (queue pool) b"
    "count_txs (queue q1) = count_txs (queue pool)" "beats q1 = beats pool"
    by (rule flatten_queue_ok [OF ok l])
  have e: "ts = Q_of pool a" "pool1 = q1" using fl f(1) by simp_all
  have sub: "set us \<subseteq> set (Q_of q1 a)" using us(1) f(5) e(1) by simp
  obtain pool2 where r: "remove_each e us q1 = Some pool2" "pool_ok e X pool2" "shrunk q1 pool2"
    "P_of pool2 = P_of q1" "Q_of pool2 = (Q_of q1)(a := filter (\<lambda>u. u \<notin> set us) (Q_of q1 a))"
    "\<And>b. b \<noteq> a \<Longrightarrow> map_of (queue pool2) b = map_of (queue q1) b" "beats pool2 = beats q1"
    using remove_each_queued [OF f(2) sub us(2)] by blast
  have d: "distinct (Q_of pool a)" by (rule nonce_sorted_distinct(1) [OF queue_sorted [OF pool_okD(2) [OF ok]]])
  have len: "length (Q_of pool a) = length (Q_of pool2 a) + length us"
    using length_filter_notin [OF d _ us(2)] us(1) e(1) r(5) f(5) by simp
  have "count_txs (queue pool) = count_txs (queue pool2) + of_nat (length us)"
    by (rule count_txs_change [OF lists_ok_gomap [OF pool_okD(2) [OF ok]] lists_ok_gomap [OF pool_okD(2) [OF r(2)]], of a])
      (use r(5) f(5) len in simp_all)
  then show ?thesis
    by (intro that [OF _ r(2) shrunk_trans [OF f(3) r(3)]]) (use r(1,4-7) f(4-6,8) e in simp_all)
qed

lemma queue_drop_loop_ok:
  assumes "pool_ok e X pool" "distinct as" "\<forall>a \<in> set as. map_of (queue pool) a \<noteq> None"
  shows "\<exists>pool'. queue_drop_loop e as n pool = Some pool' \<and> pool_ok e X pool' \<and> shrunk pool pool' \<and>
    P_of pool' = P_of pool \<and> (\<forall>b. set (Q_of pool' b) \<subseteq> set (Q_of pool b)) \<and>
    (\<forall>b. b \<notin> set as \<longrightarrow> Q_of pool' b = Q_of pool b) \<and>
    (count_txs (queue pool') = count_txs (queue pool) - n \<or> (\<forall>a \<in> set as. Q_of pool' a = []))"
  using assms
proof (induction as arbitrary: n pool)
  case (Cons a as)
  obtain l where l: "map_of (queue pool) a = Some l" using Cons.prems(3) by auto
  obtain ts pool1 where fl: "flatten_queue a l pool = (ts, pool1)" by (rule prod.exhaust)
  have ts: "ts = Q_of pool a" "length (Q_of pool a) = tl_Len l"
    using flatten_queue_ok [OF Cons.prems(1) l] fl txs_at_Some [OF l] by (auto simp: tl_Len_view)
  have d: "distinct ts"
    unfolding ts by (rule nonce_sorted_distinct(1) [OF queue_sorted [OF pool_okD(2) [OF Cons.prems(1)]]])
  show ?case
  proof (cases "0 < n")
    case False
    then have "n = 0" by (simp add: word_gt_0)
    with Cons.prems(1) show ?thesis by (intro exI [of _ pool]) simp
  next
    case pos: True
    define us m where "us = (if of_nat (tl_Len l) \<le> n then ts else take (unat n) (rev ts))"
      and "m = (if of_nat (tl_Len l) \<le> n then n - of_nat (tl_Len l) else 0)"
    have us: "set us \<subseteq> set ts" "distinct us" using d by (auto simp: us_def dest: in_set_takeD)
    have lenus: "of_nat (length us) = n - m"
    proof (cases "of_nat (tl_Len l) \<le> n")
      case False
      then have "unat n < unat (of_nat (tl_Len l) :: uint64)" by (simp add: word_less_nat_alt not_le)
      also have "\<dots> \<le> tl_Len l" by (simp add: unat_of_nat)
      finally show ?thesis using False ts by (simp add: us_def m_def)
    qed (simp add: us_def m_def ts)
    obtain p2 where r: "remove_each e us pool1 = Some p2" "pool_ok e X p2" "shrunk pool p2"
      "P_of p2 = P_of pool" "Q_of p2 = (Q_of pool)(a := filter (\<lambda>u. u \<notin> set us) (Q_of pool a))"
      "\<forall>b. b \<noteq> a \<longrightarrow> map_of (queue p2) b = map_of (queue pool) b"
      "count_txs (queue p2) = count_txs (queue pool) - of_nat (length us)"
      by (rule remove_some_queued [OF Cons.prems(1) l fl us])
    have eq: "queue_drop_loop e (a # as) n pool = queue_drop_loop e as m p2"
      using pos l fl r(1) by (simp add: us_def m_def Let_def split: if_splits)
    have dom: "\<forall>b \<in> set as. map_of (queue p2) b \<noteq> None" using Cons.prems(2,3) r(6) by auto
    have "distinct as" using Cons.prems(2) by simp
    from Cons.IH [OF r(2) this dom, of m] obtain p3 where
      3: "queue_drop_loop e as m p2 = Some p3" "pool_ok e X p3" "shrunk p2 p3" "P_of p3 = P_of p2"
      "\<forall>b. set (Q_of p3 b) \<subseteq> set (Q_of p2 b)" "\<forall>b. b \<notin> set as \<longrightarrow> Q_of p3 b = Q_of p2 b"
      "count_txs (queue p3) = count_txs (queue p2) - m \<or> (\<forall>a \<in> set as. Q_of p3 a = [])" by blast
    have sub: "set (Q_of p3 b) \<subseteq> set (Q_of pool b)" for b
      by (rule subset_trans [OF spec [OF 3(5)]]) (simp add: r(5))
    have fin: "count_txs (queue p3) = count_txs (queue pool) - n \<or> (\<forall>b \<in> set (a # as). Q_of p3 b = [])"
    proof (cases "count_txs (queue p3) = count_txs (queue p2) - m")
      case True
      then show ?thesis unfolding r(7) lenus by simp
    next
      case False
      have "queue_drop_loop e as 0 q = Some q" for q :: "'a txpool" by (cases as) simp_all
      with False 3(1) have "m \<noteq> 0" by auto
      then have "us = ts" by (auto simp: us_def m_def split: if_splits)
      then have "Q_of p2 a = []" using r(5) ts by simp
      moreover have "a \<notin> set as" using Cons.prems(2) by simp
      ultimately have "Q_of p3 a = []" using 3(6) by simp
      with 3(7) False show ?thesis by simp
    qed
    show ?thesis
      using 3(1,2,4,6) r(4,5) eq shrunk_trans [OF r(3) 3(3)] sub fin by (intro exI [of _ p3]) simp
  qed
qed simp

lemma truncate_queue_ok:
  assumes ok: "pool_ok e X pool"
  obtains pool' where "truncate_queue e pool = Some pool'" "pool_ok e X pool'" "shrunk pool pool'"
    "P_of pool' = P_of pool" "\<forall>b. set (Q_of pool' b) \<subseteq> set (Q_of pool b)"
    "\<forall>a. as_contains (locals pool) a \<longrightarrow> Q_of pool' a = Q_of pool a"
    "count_txs (queue pool') \<le> GlobalQueue (config pool) \<or>
       (\<forall>a. \<not> as_contains (locals pool) a \<longrightarrow> Q_of pool' a = [])"
proof (cases "GlobalQueue (config pool) < count_txs (queue pool)")
  case False
  have eq: "truncate_queue e pool = Some pool" using False by (simp add: truncate_queue_def)
  show ?thesis by (rule that [OF eq ok]) (use False in \<open>auto simp: not_less\<close>)
next
  case True
  define as where "as = rev (sort_key (heartbeat pool) (filter (\<lambda>a. \<not> as_contains (locals pool) a) (keys (queue pool))))"
  have g: "gomap_ok (queue pool)" by (rule lists_ok_gomap [OF pool_okD(2) [OF ok]])
  have 1: "distinct as" "set as = {a \<in> set (keys (queue pool)). \<not> as_contains (locals pool) a}"
    using g by (simp_all add: as_def gomap_ok_def)
  have dom: "\<forall>a \<in> set as. map_of (queue pool) a \<noteq> None" unfolding map_of_keys using 1(2) by blast
  have eq: "truncate_queue e pool = queue_drop_loop e as (count_txs (queue pool) - GlobalQueue (config pool)) pool"
    using True by (simp add: truncate_queue_def as_def)
  from queue_drop_loop_ok [OF ok 1(1) dom, of "count_txs (queue pool) - GlobalQueue (config pool)"] obtain pool' where
    r: "truncate_queue e pool = Some pool'" "pool_ok e X pool'" "shrunk pool pool'" "P_of pool' = P_of pool"
    "\<forall>b. set (Q_of pool' b) \<subseteq> set (Q_of pool b)" "\<forall>b. b \<notin> set as \<longrightarrow> Q_of pool' b = Q_of pool b"
    "count_txs (queue pool') = count_txs (queue pool) - (count_txs (queue pool) - GlobalQueue (config pool)) \<or>
       (\<forall>a \<in> set as. Q_of pool' a = [])" unfolding eq by blast
  have nk: "Q_of pool' a = []" if "a \<notin> set (keys (queue pool))" for a
  proof -
    have "map_of (queue pool) a = None" using that map_of_keys [of "queue pool" a] by blast
    then show ?thesis using r(6) 1(2) that by (simp add: txs_at_None)
  qed
  show ?thesis
  proof (rule that [OF r(1-5)])
    show "\<forall>a. as_contains (locals pool) a \<longrightarrow> Q_of pool' a = Q_of pool a" using r(6) 1(2) by auto
    show "count_txs (queue pool') \<le> GlobalQueue (config pool) \<or>
       (\<forall>a. \<not> as_contains (locals pool) a \<longrightarrow> Q_of pool' a = [])" using r(7) nk 1(2) by auto
  qed
qed

end
