(* ===== verification/TxPoolRun.thy ===== *)
theory TxPoolRun
  imports TxPoolLimits
begin

text \<open>
  The public methods and the event loop of the pool: additions, chain resets, evictions and price
  changes. Every event succeeds and keeps the invariant, hence so does every run of the pool.
\<close>

section \<open>What the pool relies on\<close>

text \<open>
  The hypotheses on library code. \<open>UpdateNonce\<close> leaves the cached hash and sender of a transaction
  alone; the priority queue pops by descending priority; the chain's \<open>GetBlock\<close> returns a block of
  the number asked for, and there is no block below the genesis block; the set's \<open>Pop\<close> takes one of
  its elements.
\<close>

definition env_ok :: "'p env \<Rightarrow> bool" where
  "env_ok e \<longleftrightarrow> prque_ok e \<and> (\<forall>t n. Hash (UpdateNonce e t n) = Hash t \<and> sender e (UpdateNonce e t n) = sender e t) \<and>
     (\<forall>h n b. GetBlock e h n = Some b \<longrightarrow> b_number b = n) \<and> (\<forall>h. GetBlock e h (- 1) = None) \<and>
     (\<forall>xs. xs \<noteq> [] \<longrightarrow> set_pop e xs \<in> set xs)"

lemma env_okD:
  assumes "env_ok e"
  shows "prque_ok e" "Hash (UpdateNonce e t n) = Hash t" "sender e (UpdateNonce e t n) = sender e t"
    "GetBlock e h m = Some b \<Longrightarrow> b_number b = m" "GetBlock e h (- 1) = None" "xs \<noteq> [] \<Longrightarrow> set_pop e xs \<in> set xs"
  using assms by (simp_all add: env_ok_def)

text \<open>What additions and removals leave alone.\<close>

definition kept :: "'p txpool \<Rightarrow> 'p txpool \<Rightarrow> bool" where
  "kept pool pool' \<longleftrightarrow> config pool' = config pool \<and> gasPrice pool' = gasPrice pool \<and>
     currentState pool' = currentState pool \<and> currentMaxGas pool' = currentMaxGas pool \<and>
     directCalls pool' = directCalls pool \<and> KnownDirectTxs pool' = KnownDirectTxs pool"

lemma kept_refl [simp]: "kept pool pool"
  by (simp add: kept_def)

lemma kept_trans: "kept p q \<Longrightarrow> kept q r \<Longrightarrow> kept p r"
  by (simp add: kept_def)

lemma frame_kept: "frame p q \<Longrightarrow> kept p q"
  by (simp add: frame_def kept_def)

lemma shrunk_kept: "shrunk p q \<Longrightarrow> kept p q"
  by (simp add: shrunk_def frame_kept)

lemma pool_ok_env [simp]:
  "pool_ok e X (pool\<lparr>locals := a\<rparr>) = pool_ok e X pool" "pool_ok e X (pool\<lparr>journal := b\<rparr>) = pool_ok e X pool"
  "pool_ok e X (pool\<lparr>directCalls := c\<rparr>) = pool_ok e X pool" "pool_ok e X (pool\<lparr>KnownDirectTxs := d\<rparr>) = pool_ok e X pool"
  "pool_ok e X (pool\<lparr>shardingTxFeed := f\<rparr>) = pool_ok e X pool" "pool_ok e X (pool\<lparr>currentState := g\<rparr>) = pool_ok e X pool"
  "pool_ok e X (pool\<lparr>currentMaxGas := h\<rparr>) = pool_ok e X pool" "pool_ok e X (pool\<lparr>gasPrice := i\<rparr>) = pool_ok e X pool"
  "pool_ok e X (pool\<lparr>pangu := j\<rparr>) = pool_ok e X pool"
  by (simp_all add: pool_ok_def heap_ok_def)

lemma heap_ok_pl: "heap_ok {} pool \<longleftrightarrow> pl_ok (all pool) (priced pool)"
  by (simp add: heap_ok_def pl_ok_def)

section \<open>Promotion and demotion of many accounts\<close>

lemma promote_accounts_ok:
  assumes "pool_ok e X pool" "0 \<le> sint (AccountQueue (config pool))"
  shows "\<exists>pool'. promote_accounts e now as pool = Some pool' \<and> pool_ok e X pool' \<and> shrunk pool pool' \<and>
    (\<forall>b. b \<notin> set as \<longrightarrow> P_of pool' b = P_of pool b \<and> map_of (queue pool') b = map_of (queue pool) b) \<and>
    (\<forall>b \<in> set as. \<not> as_contains (locals pool) b \<longrightarrow> int (length (Q_of pool' b)) \<le> sint (AccountQueue (config pool)))"
  using assms
proof (induction as arbitrary: pool)
  case (Cons a as)
  obtain p1 where 1: "promote_account e now a pool = Some p1" "pool_ok e X p1" "promoted a pool p1"
    "\<not> as_contains (locals pool) a \<longrightarrow> int (length (Q_of p1 a)) \<le> sint (AccountQueue (config pool))"
    by (rule promote_account_ok [OF Cons.prems, of now a])
  have pr: "shrunk pool p1" "\<And>b. b \<noteq> a \<Longrightarrow> P_of p1 b = P_of pool b \<and> map_of (queue p1) b = map_of (queue pool) b"
    using 1(3) by (simp_all add: promoted_def)
  have cfg: "config p1 = config pool" "locals p1 = locals pool" using pr(1) by (simp_all add: shrunk_def frame_def)
  from Cons.IH [OF 1(2)] Cons.prems(2) cfg obtain p2 where 2: "promote_accounts e now as p1 = Some p2" "pool_ok e X p2"
    "shrunk p1 p2" "\<forall>b. b \<notin> set as \<longrightarrow> P_of p2 b = P_of p1 b \<and> map_of (queue p2) b = map_of (queue p1) b"
    "\<forall>b \<in> set as. \<not> as_contains (locals pool) b \<longrightarrow> int (length (Q_of p2 b)) \<le> sint (AccountQueue (config pool))"
    by auto
  have "int (length (Q_of p2 a)) \<le> sint (AccountQueue (config pool))" if "\<not> as_contains (locals pool) a"
  proof (cases "a \<in> set as")
    case False
    then have "Q_of p2 a = Q_of p1 a" using 2(4) by (simp add: txs_at_def)
    with 1(4) that show ?thesis by simp
  qed (use 2(5) that in blast)
  then show ?case
    using 1(1) 2 pr(2) shrunk_trans [OF pr(1) 2(3)] by (intro exI [of _ p2]) auto
qed simp

text \<open>
  A promotion keeps the invariant, and afterwards both limits hold: the pending lists are within
  \<open>GlobalSlots\<close> or no remote account has more than its slots, and the queue is within \<open>GlobalQueue\<close> or
  holds local transactions only.
\<close>

definition limits_ok :: "'p txpool \<Rightarrow> bool" where
  "limits_ok pool \<longleftrightarrow>
     (count_txs (pending pool) \<le> GlobalSlots (config pool) \<or>
        (\<forall>a. \<not> as_contains (locals pool) a \<longrightarrow> of_nat (length (P_of pool a)) \<le> AccountSlots (config pool))) \<and>
     (count_txs (queue pool) \<le> GlobalQueue (config pool) \<or>
        (\<forall>a. \<not> as_contains (locals pool) a \<longrightarrow> Q_of pool a = []))"

lemma gomap_same_count:
  assumes "pool_ok e X p" "pool_ok e Y q" "P_of p = P_of q"
  shows "count_txs (pending p) = count_txs (pending q)"
  using count_txs_change [OF lists_ok_gomap [OF pool_okD(1) [OF assms(1)]] lists_ok_gomap [OF pool_okD(1) [OF assms(2)]], of 0 0]
    assms(3) by simp

lemma promoteExecutables_ok:
  assumes ok: "pool_ok e X pool" and aq: "0 \<le> sint (AccountQueue (config pool))" and q: "prque_ok e"
  obtains pool' where "promoteExecutables e now accts pool = Some pool'" "pool_ok e X pool'" "shrunk pool pool'"
    "limits_ok pool'"
proof -
  let ?as = "case accts of None \<Rightarrow> keys (queue pool) | Some as \<Rightarrow> as"
  from promote_accounts_ok [OF ok aq, of now ?as] obtain p1 where 1: "promote_accounts e now ?as pool = Some p1"
    "pool_ok e X p1" "shrunk pool p1" by blast
  obtain p2 where 2: "truncate_pending e p1 = Some p2" "pool_ok e X p2" "cut p1 p2"
    "count_txs (pending p2) \<le> GlobalSlots (config p1) \<or>
       (\<forall>a. \<not> as_contains (locals p1) a \<longrightarrow> of_nat (plen p2 a) \<le> AccountSlots (config p1))"
    by (rule truncate_pending_ok [OF 1(2) q])
  obtain p3 where 3: "truncate_queue e p2 = Some p3" "pool_ok e X p3" "shrunk p2 p3" "P_of p3 = P_of p2"
    "count_txs (queue p3) \<le> GlobalQueue (config p2) \<or>
       (\<forall>a. \<not> as_contains (locals p2) a \<longrightarrow> Q_of p3 a = [])"
    by (rule truncate_queue_ok [OF 2(2)])
  have eq: "promoteExecutables e now accts pool = Some p3"
    by (simp add: promoteExecutables_def 1(1) 2(1) 3(1))
  have sh2: "shrunk p1 p2" using 2(3) by (simp add: cut_def)
  have sh: "shrunk pool p3" by (rule shrunk_trans [OF shrunk_trans [OF 1(3) sh2] 3(3)])
  have cfg: "config p2 = config p1" "locals p2 = locals p1" "config p3 = config p2" "locals p3 = locals p2"
    using sh2 3(3) by (simp_all add: shrunk_def frame_def)
  have "limits_ok p3" unfolding limits_ok_def
    using 2(4) 3(4,5) gomap_same_count [OF 3(2) 2(2) 3(4)] cfg by simp
  then show ?thesis by (rule that [OF eq 3(2) sh])
qed

lemma demote_accounts_ok:
  assumes "pool_ok e X pool" "distinct as" "\<forall>a \<in> set as. map_of (pending pool) a \<noteq> None"
  shows "\<exists>pool'. demote_accounts e as pool = Some pool' \<and> pool_ok e X pool' \<and> shrunk pool pool' \<and>
    (\<forall>b. b \<notin> set as \<longrightarrow> map_of (pending pool') b = map_of (pending pool) b) \<and>
    (\<forall>b \<in> set as. executable pool b (P_of pool' b) \<and> (\<forall>l. map_of (pending pool') b = Some l \<longrightarrow> tl_view l \<noteq> []))"
  using assms
proof (induction as arbitrary: pool)
  case (Cons a as)
  obtain l0 where l0: "map_of (pending pool) a = Some l0" using Cons.prems(3) by auto
  obtain p1 where 1: "demote_account e a pool = Some p1" "pool_ok e X p1" "demoted a pool p1"
    "executable pool a (P_of p1 a)" "\<forall>l. map_of (pending p1) a = Some l \<longrightarrow> tl_view l \<noteq> []"
    by (rule demote_account_ok [OF Cons.prems(1) l0])
  note D = demotedD [OF 1(3)]
  have fr: "currentState p1 = currentState pool" "currentMaxGas p1 = currentMaxGas pool"
    using frameD(3,4) [OF shrunk_frame [OF D(1)]] by simp_all
  have dom: "\<forall>b \<in> set as. map_of (pending p1) b \<noteq> None"
  proof
    fix b assume b: "b \<in> set as"
    then have "b \<noteq> a" using Cons.prems(2) by auto
    from D(2) [OF this] show "map_of (pending p1) b \<noteq> None" using Cons.prems(3) b by simp
  qed
  have "distinct as" using Cons.prems(2) by simp
  from Cons.IH [OF 1(2) this dom] obtain p2 where 2: "demote_accounts e as p1 = Some p2" "pool_ok e X p2" "shrunk p1 p2"
    "\<forall>b. b \<notin> set as \<longrightarrow> map_of (pending p2) b = map_of (pending p1) b"
    "\<forall>b \<in> set as. executable p1 b (P_of p2 b) \<and> (\<forall>l. map_of (pending p2) b = Some l \<longrightarrow> tl_view l \<noteq> [])"
    by blast
  have na: "a \<notin> set as" using Cons.prems(2) by simp
  have ex: "executable p1 b = executable pool b" for b
    by (rule ext) (simp add: executable_def fr)
  have pa: "map_of (pending p2) a = map_of (pending p1) a" "P_of p2 a = P_of p1 a"
    using 2(4) na by (simp_all add: txs_at_def)
  have "\<forall>b. b \<notin> set (a # as) \<longrightarrow> map_of (pending p2) b = map_of (pending pool) b"
    using 2(4) D(2) by simp
  moreover have "\<forall>b \<in> set (a # as). executable pool b (P_of p2 b) \<and> (\<forall>l. map_of (pending p2) b = Some l \<longrightarrow> tl_view l \<noteq> [])"
    using 2(5) 1(4,5) pa unfolding ex by simp
  ultimately show ?case
    using 1(1) 2(1,2) shrunk_trans [OF D(1) 2(3)] by (intro exI [of _ p2]) simp
qed simp

lemma demoteUnexecutables_ok:
  assumes ok: "pool_ok e X pool"
  obtains pool' where "demoteUnexecutables e pool = Some pool'" "pool_ok e X pool'" "shrunk pool pool'"
    "\<forall>a. executable pool a (P_of pool' a)" "\<forall>a l. map_of (pending pool') a = Some l \<longrightarrow> tl_view l \<noteq> []"
proof -
  let ?as = "keys (pending pool)"
  have d: "distinct ?as" using lists_ok_gomap [OF pool_okD(1) [OF ok]] by (simp add: gomap_ok_def)
  have dom: "\<forall>a \<in> set ?as. map_of (pending pool) a \<noteq> None" unfolding map_of_keys by simp
  from demote_accounts_ok [OF ok d dom] obtain pool' where r: "demoteUnexecutables e pool = Some pool'" "pool_ok e X pool'"
    "shrunk pool pool'" "\<forall>b. b \<notin> set ?as \<longrightarrow> map_of (pending pool') b = map_of (pending pool) b"
    "\<forall>b \<in> set ?as. executable pool b (P_of pool' b) \<and> (\<forall>l. map_of (pending pool') b = Some l \<longrightarrow> tl_view l \<noteq> [])"
    unfolding demoteUnexecutables_def by blast
  have none: "map_of (pending pool') b = None" if "b \<notin> set ?as" for b
    using r(4) that map_of_keys [of "pending pool" b] by simp
  show ?thesis
  proof (rule that [OF r(1-3)])
    show "\<forall>a. executable pool a (P_of pool' a)"
    proof
      fix a show "executable pool a (P_of pool' a)"
      proof (cases "a \<in> set ?as")
        case False
        then show ?thesis using none by (simp add: txs_at_None executable_def)
      qed (use r(5) in blast)
    qed
    show "\<forall>a l. map_of (pending pool') a = Some l \<longrightarrow> tl_view l \<noteq> []"
    proof (intro allI impI)
      fix a l assume m: "map_of (pending pool') a = Some l"
      then have "a \<in> set ?as" using none by fastforce
      with r(5) m show "tl_view l \<noteq> []" by blast
    qed
  qed
qed

section \<open>Additions\<close>

lemma validateTx_Inr:
  assumes e: "env_ok e" and v: "validateTx e t loc pool = Inr t'"
  shows "Hash t' = Hash t" "sender e t' = sender e t" "sender e t \<noteq> None"
    "\<not> Nonce t' < GetNonce (currentState pool) (from_addr e t)" "Cost t' \<le> GetBalance (currentState pool) (from_addr e t)"
    "GasLimit t \<le> currentMaxGas pool"
proof -
  have f: "sender e t \<noteq> None \<and> GasLimit t \<le> currentMaxGas pool \<and>
     (t' = t \<or> (\<exists>n. t' = UpdateNonce e t n)) \<and> \<not> Nonce t' < GetNonce (currentState pool) (from_addr e t) \<and>
     Cost t' \<le> GetBalance (currentState pool) (from_addr e t)"
    using v unfolding validateTx_def Let_def from_addr_def
    by (simp only: not_less split: if_splits option.splits) (auto simp: not_less)
  then show "Hash t' = Hash t" "sender e t' = sender e t" using env_okD(2,3) [OF e] by auto
  show "sender e t \<noteq> None" "\<not> Nonce t' < GetNonce (currentState pool) (from_addr e t)"
    "Cost t' \<le> GetBalance (currentState pool) (from_addr e t)" "GasLimit t \<le> currentMaxGas pool" using f by auto
qed

lemma pool_ok_priced:
  assumes ok: "pool_ok e X pool" and h: "is_heap GasPrice (pl_items pr)"
    and c: "\<And>p. p \<in> set (all pool) \<Longrightarrow> snd p \<in> set (pl_items pr) \<union> Y"
  shows "pool_ok e Y (pool\<lparr>priced := pr\<rparr>)"
  using pool_okD [OF ok] h c by (simp add: pool_ok_def heap_ok_def)

lemma make_room_ok:
  assumes ok: "pool_ok e {} pool"
  obtains under pool' where "make_room e t pool = Some (under, pool')" "pool_ok e {} pool'" "shrunk pool pool'"
proof (cases "GlobalSlots (config pool) + GlobalQueue (config pool) \<le> of_nat (length (all pool))")
  case False
  have eq: "make_room e t pool = Some (False, pool)" using False by (simp add: make_room_def Let_def)
  show ?thesis by (rule that [OF eq ok]) simp
next
  case True
  let ?loc = "as_containsTx (sender e) (locals pool)" and ?slots = "GlobalSlots (config pool) + GlobalQueue (config pool)"
  obtain under pr where u: "pl_Underpriced (all pool) ?loc t (priced pool) = (under, pr)" by (rule prod.exhaust)
  have pl: "pl_ok (all pool) pr"
    using pl_Underpriced_spec(1) [OF pool_okD(3) [OF ok] _ u] pool_okD(4) [OF ok] by (simp add: heap_ok_pl)
  have sh: "shrunk pool (pool\<lparr>priced := x\<rparr>)" for x by (simp add: shrunk_def frame_def)
  show ?thesis
  proof (cases under)
    case under: True
    have eq: "make_room e t pool = Some (True, pool\<lparr>priced := pr\<rparr>)" using True u under by (simp add: make_room_def Let_def)
    show ?thesis
      by (rule that [OF eq pool_ok_priced [OF ok] sh]) (use pl in \<open>simp_all add: pl_ok_def\<close>)
  next
    case False
    obtain D pr' where d: "pl_Discard (all pool) ?loc (int (length (all pool)) - sint (?slots - 1)) pr = (D, pr')"
      by (rule prod.exhaust)
    have h: "is_heap GasPrice (pl_items pr)" using pl by (simp add: pl_ok_def)
    note ds = pl_Discard_spec [OF h d]
    have ok1: "pool_ok e (set D) (pool\<lparr>priced := pr'\<rparr>)"
    proof (rule pool_ok_priced [OF ok ds(1)])
      fix p assume p: "p \<in> set (all pool)"
      have "snd p \<in> set (pl_items pr)" using pl p by (simp add: pl_ok_def)
      with all_ok_live [OF pool_okD(3) [OF ok] p] ds(3) show "snd p \<in> set (pl_items pr') \<union> set D" by blast
    qed
    obtain p2 where r: "remove_each e D (pool\<lparr>priced := pr'\<rparr>) = Some p2" "pool_ok e (set D - set D) p2"
      "shrunk (pool\<lparr>priced := pr'\<rparr>) p2" using remove_each_ok [OF ok1, of D] by blast
    have eq: "make_room e t pool = Some (False, p2)" using True u False d r(1) by (simp add: make_room_def Let_def)
    show ?thesis by (rule that [OF eq _ shrunk_trans [OF sh r(3)]]) (use r(2) in simp)
  qed
qed

lemma journalTx_sel [simp]:
  "pool_ok e' X (journalTx e a t pool) = pool_ok e' X pool" "kept p (journalTx e a t pool) = kept p pool"
  "locals (journalTx e a t pool) = locals pool" "all (journalTx e a t pool) = all pool"
  "pending (journalTx e a t pool) = pending pool" "queue (journalTx e a t pool) = queue pool"
  by (simp_all add: journalTx_def kept_def split: option.splits)

lemma kept_upd [simp]:
  "kept p (q\<lparr>locals := x\<rparr>) = kept p q" "kept p (q\<lparr>txFeed := w\<rparr>) = kept p q" "kept p (q\<lparr>pending := z\<rparr>) = kept p q"
  "kept p (q\<lparr>queue := z\<rparr>) = kept p q" "kept p (q\<lparr>pendingState := v\<rparr>) = kept p q"
  by (simp_all add: kept_def)

text \<open>A pending transaction of the same nonce is replaced in place, or the new one is refused.\<close>

lemma replace_pending_ok:
  assumes ok: "pool_ok e {} pool" and new: "A_of pool (Hash t) = None" and a: "from_addr e t = a"
    and l: "map_of (pending pool) a = Some l" and ov: "tl_Overlaps l t"
  obtains r pool' where "replace_pending e a t l pool = (r, pool')" "pool_ok e {} pool'" "kept pool pool'"
    "\<forall>b. r = Inr b \<longrightarrow> t \<in> set (P_of pool' a)"
proof -
  note lo = lists_okD [OF pool_okD(1) [OF ok] l]
  have v: "P_of pool a = tl_view l" by (rule txs_at_Some [OF l])
  have get: "sm_Get (txs l) (Nonce t) = Some u \<longleftrightarrow> u \<in> set (P_of pool a) \<and> Nonce u = Nonce t" for u
    using tl_Get_view [OF lo(1)] v by simp
  obtain old where old: "sm_Get (txs l) (Nonce t) = Some old" using ov by (auto simp: tl_Overlaps_def)
  have om: "old \<in> set (P_of pool a)" "Nonce old = Nonce t" using get [of old] old by simp_all
  let ?pb = "PriceBump (config pool)"
  show ?thesis
  proof (cases "GasPrice t \<le> price_threshold old ?pb")
    case True
    have eq: "replace_pending e a t l pool = (Inl ErrReplaceUnderpriced, pool\<lparr>pending := AList.update a l (pending pool)\<rparr>)"
      by (simp add: replace_pending_def tl_Add_reject [OF old True])
    show ?thesis
      by (rule that [OF eq pending_cut_ok [OF ok lo(1)]]) (simp_all add: lo(2) v)
  next
    case False
    then have acc: "\<And>o'. sm_Get (txs l) (Nonce t) = Some o' \<Longrightarrow> price_threshold o' ?pb < GasPrice t"
      using old by simp
    obtain l' where l': "tl_Add t ?pb l = (True, Some old, l')" "tl_ok l'" "strict l' = strict l"
      "set (tl_view l') = insert t {u \<in> set (tl_view l). Nonce u \<noteq> Nonce t}"
      by (rule tl_Add_accept [OF lo(1) acc, unfolded old])
    define pool1 where "pool1 = put_all (Hash t) t (drop_old (Some old) (pool\<lparr>pending := AList.update a l' (pending pool)\<rparr>))"
    have eq: "replace_pending e a t l pool = (Inr True, (journalTx e a t pool1)\<lparr>txFeed := txFeed (journalTx e a t pool1) @ [t]\<rparr>)"
      by (simp add: replace_pending_def l'(1) pool1_def Let_def)
    have ps: "set (tl_view l') = insert t {u \<in> set (P_of pool a). Nonce u \<noteq> Nonce t}" using l'(4) v by simp
    have noq: "Nonce u \<noteq> Nonce t" if "u \<in> set (Q_of pool a)" for u
      using linkD(3) [OF pool_okD(5) [OF ok] om(1) that] om(2) by simp
    have "link (Q_of pool) ((P_of pool)(a := tl_view l')) ((case Some old of None \<Rightarrow> A_of pool
        | Some u \<Rightarrow> (A_of pool)(Hash u := None))(Hash t \<mapsto> t))"
    proof (rule link_replace [where f = "from_addr e", OF link_sym [OF pool_okD(5) [OF ok]] _ disjI1 [OF new] a noq ps])
      show "from_addr e u = b" if "u \<in> set (Q_of pool b) \<union> set (P_of pool b)" for b u
        using pool_ok_from [OF ok] that by blast
      show "u \<in> set (P_of pool a) \<and> Nonce u = Nonce t" if "Some old = Some u" for u using om that by simp
    qed
    moreover have "A_of pool1 = (case Some old of None \<Rightarrow> A_of pool
        | Some u \<Rightarrow> (A_of pool)(Hash u := None))(Hash t \<mapsto> t)"
      by (simp add: pool1_def AList.update_conv' A_of_drop_old)
    ultimately have lk: "link (P_of pool1) (Q_of pool1) (A_of pool1)"
      using link_sym by (simp add: pool1_def)
    have "lists_ok e True (AList.update a l' (pending pool))"
      by (rule lists_ok_update [OF pool_okD(1) [OF ok] l'(2)]) (use l'(3) lo(2) ps a pool_ok_from [OF ok] in auto)
    then have ok1: "pool_ok e {} pool1"
      using pool_okD [OF ok] lk unfolding pool_ok_def
      by (simp add: pool1_def all_ok_update all_ok_drop_old heap_ok_put heap_ok_drop_old)
    have "frame pool pool1" by (simp add: pool1_def)
    then have "kept pool pool1" by (rule frame_kept)
    moreover have "t \<in> set (P_of pool1 a)" using ps by (simp add: pool1_def)
    ultimately show ?thesis using ok1 by (intro that [OF eq]) simp_all
  qed
qed

lemma queue_new_ok:
  assumes ok: "pool_ok e {} pool" and new: "A_of pool (Hash t) = None" and a: "from_addr e t = a"
    and nop: "\<forall>u \<in> set (P_of pool a). Nonce u \<noteq> Nonce t"
  obtains r pool' where "queue_new e (Hash t) t a loc pool = (r, pool')" "pool_ok e {} pool'" "kept pool pool'"
    "\<forall>b. r = Inr b \<longrightarrow> t \<in> set (Q_of pool' a)"
proof -
  have e1: "pool_ok e {} (snd (enqueueTx e (Hash t) t pool))" "requeued a [t] pool (snd (enqueueTx e (Hash t) t pool))"
    using enqueueTx_requeued [OF ok disjI1 [OF new] a nop] by simp_all
  have k: "kept pool (snd (enqueueTx e (Hash t) t pool))" by (rule frame_kept [OF requeuedD(1) [OF e1(2)]])
  obtain r p1 where eq: "enqueueTx e (Hash t) t pool = (r, p1)" by (rule prod.exhaust)
  show ?thesis
  proof (cases r)
    case (Inl err)
    have "queue_new e (Hash t) t a loc pool = (Inl err, p1)" by (simp add: queue_new_def eq Inl)
    then show ?thesis by (rule that) (use e1(1) k eq in simp_all)
  next
    case (Inr b)
    have eq': "queue_new e (Hash t) t a loc pool =
      (Inr b, journalTx e a t (if loc then p1\<lparr>locals := as_add a (locals p1)\<rparr> else p1))"
      by (simp add: queue_new_def eq Inr)
    have "t \<in> set (Q_of p1 a)"
      by (rule enqueueTx_ok [OF ok disjI1 [OF new] a nop]) (use eq Inr in auto)
    then show ?thesis by (intro that [OF eq']) (use e1(1) k eq in simp_all)
  qed
qed

lemma add_ok:
  assumes e: "env_ok e" and ok: "pool_ok e {} pool"
  obtains r pool' where "add e t loc pool = Some (r, pool')" "pool_ok e {} pool'" "kept pool pool'"
    "\<forall>b. r = Inr b \<longrightarrow> (\<exists>t'. validateTx e t loc pool = Inr t' \<and> A_of pool' (Hash t) = Some t' \<and>
       t' \<in> set (P_of pool' (from_addr e t)) \<union> set (Q_of pool' (from_addr e t)))"
proof (cases "A_of pool (Hash t)")
  case (Some u)
  have "add e t loc pool = Some (Inl KnownTransaction, pool)" using Some by (simp add: add_def)
  then show ?thesis by (rule that) (simp_all add: ok)
next
  case None
  show ?thesis
  proof (cases "validateTx e t loc pool")
    case (Inl err)
    have "add e t loc pool = Some (Inl err, pool)" using None Inl by (simp add: add_def)
    then show ?thesis by (rule that) (simp_all add: ok)
  next
    case (Inr t')
    note v = validateTx_Inr [OF e Inr]
    obtain under p1 where m: "make_room e t' pool = Some (under, p1)" "pool_ok e {} p1" "shrunk pool p1"
      by (rule make_room_ok [OF ok])
    have k1: "kept pool p1" by (rule shrunk_kept [OF m(3)])
    have new: "A_of p1 (Hash t') = None" using shrunk_None [OF m(3) None] v(1) by simp
    let ?a = "from_addr e t'"
    have ad: "add e t loc pool = (if under then Some (Inl ErrUnderpriced, p1) else
        case map_of (pending p1) ?a of
          Some l \<Rightarrow> if tl_Overlaps l t' then Some (replace_pending e ?a t' l p1) else Some (queue_new e (Hash t) t' ?a loc p1)
        | None \<Rightarrow> Some (queue_new e (Hash t) t' ?a loc p1))"
      using None Inr m(1) by (simp add: add_def Let_def)
    show ?thesis
    proof (cases "under \<or> (\<exists>l. map_of (pending p1) ?a = Some l \<and> tl_Overlaps l t')")
      case True
      show ?thesis
      proof (cases under)
        case True
        then show ?thesis using ad m(2) k1 by (intro that [of "Inl ErrUnderpriced" p1]) simp_all
      next
        case False
        then obtain l where l: "map_of (pending p1) ?a = Some l" "tl_Overlaps l t'" using True by blast
        obtain r p2 where r: "replace_pending e ?a t' l p1 = (r, p2)" "pool_ok e {} p2" "kept p1 p2"
          "\<forall>b. r = Inr b \<longrightarrow> t' \<in> set (P_of p2 ?a)"
          by (rule replace_pending_ok [OF m(2) new refl l])
        have "A_of p2 (Hash t) = Some t'" if "r = Inr b" for b
          using linkD(1) [OF pool_okD(5) [OF r(2)]] r(4) that v(1) by metis
        then show ?thesis
          by (intro that [of r p2]) (use ad False l r kept_trans [OF k1 r(3)] Inr v(2) in \<open>simp_all add: from_addr_def\<close>)
      qed
    next
      case False
      have nop: "\<forall>u \<in> set (P_of p1 ?a). Nonce u \<noteq> Nonce t'"
      proof (cases "map_of (pending p1) ?a")
        case (Some l)
        have "\<not> tl_Overlaps l t'" using False Some by blast
        then have "Nonce t' \<notin> Nonce ` set (tl_view l)"
          using sm_Get_None_view [OF lists_okD(1) [OF pool_okD(1) [OF m(2)] Some]] by (simp add: tl_Overlaps_def)
        then show ?thesis unfolding txs_at_Some [OF Some] by (metis imageI)
      qed (simp add: txs_at_None)
      obtain r p2 where r: "queue_new e (Hash t') t' ?a loc p1 = (r, p2)" "pool_ok e {} p2" "kept p1 p2"
        "\<forall>b. r = Inr b \<longrightarrow> t' \<in> set (Q_of p2 ?a)"
        by (rule queue_new_ok [OF m(2) new refl nop])
      have "add e t loc pool = Some (r, p2)"
        using ad False r(1) v(1) by (auto split: option.splits)
      moreover have "A_of p2 (Hash t) = Some t'" if "r = Inr b" for b
        using linkD(2) [OF pool_okD(5) [OF r(2)]] r(4) that v(1) by metis
      ultimately show ?thesis
        by (intro that [OF _ r(2) kept_trans [OF k1 r(3)]]) (use r(4) Inr v(2) in \<open>simp_all add: from_addr_def\<close>, blast)
    qed
  qed
qed

section \<open>Direct calls\<close>

definition dc_ok :: "(address, txList) gomap \<Rightarrow> bool" where
  "dc_ok m \<longleftrightarrow> gomap_ok m \<and> (\<forall>a l. map_of m a = Some l \<longrightarrow> tl_ok l)"

definition known_ok :: "hash list \<Rightarrow> bool" where
  "known_ok ks \<longleftrightarrow> distinct ks \<and> length ks \<le> maxKnownTxs"

lemma sort_key_map_same:
  assumes "\<And>x. k (f x) = k x"
  shows "sort_key k (map f xs) = map f (sort_key k xs)"
proof -
  have "insort_key k (f x) (map f ys) = map f (insort_key k x ys)" for x ys
    by (induction ys) (simp_all add: assms)
  then show ?thesis by (induction xs) simp_all
qed

lemma mark_sent_ok:
  assumes "tl_ok l"
  shows "tl_ok (mark_sent t l)"
proof -
  define f where "f = (\<lambda>u. if u = t then u\<lparr>DirCallSent := True\<rparr> else u)"
  have nf: "Nonce (f u) = Nonce u" "Cost (f u) = Cost u" "GasLimit (f u) = GasLimit u" for u by (simp_all add: f_def)
  let ?its = "map (\<lambda>p. (fst p, f (snd p))) (items (txs l))"
  have fl: "flat ?its = map f (flat (items (txs l)))"
    using sort_key_map_same [of Nonce f "map snd (items (txs l))"] nf(1) by (simp add: flat_def comp_def)
  have k: "keys ?its = keys (items (txs l))" by simp
  have "its_ok ?its" using tl_ok_sm [OF assms] nf(1) by (auto simp: sm_ok_def its_ok_def gomap_ok_def comp_def)
  moreover have "idx_ok (index (txs l)) ?its" using tl_ok_sm [OF assms] unfolding sm_ok_def idx_ok_def k by simp
  moreover have "\<forall>c. map_option (map f) (cache (txs l)) = Some c \<longrightarrow> c = flat ?its"
    using tl_ok_sm [OF assms] unfolding fl by (auto simp: sm_ok_def)
  moreover have "\<forall>u \<in> set (flat ?its). Cost u \<le> costcap l \<and> GasLimit u \<le> gascap l"
    using assms unfolding fl by (auto simp: tl_ok_def tl_view_def sm_view_def nf)
  ultimately show ?thesis
    by (simp add: tl_ok_def mark_sent_def Let_def f_def [symmetric] sm_ok_def tl_view_def sm_view_def)
qed

lemma pop_known_ok:
  assumes "\<And>xs. xs \<noteq> [] \<Longrightarrow> set_pop e xs \<in> set xs" "k \<le> length ks" "distinct ks"
  shows "length (pop_known e k ks) = length ks - k \<and> distinct (pop_known e k ks)"
  using assms(2,3)
proof (induction k arbitrary: ks)
  case (Suc k)
  then have "ks \<noteq> []" by auto
  with assms(1) have "length (remove1 (set_pop e ks) ks) = length ks - 1" by (simp add: length_remove1)
  with Suc show ?case by simp
qed simp

lemma MarkDirectTx_known:
  assumes e: "env_ok e" and ks: "known_ok (KnownDirectTxs pool)"
  shows "known_ok (KnownDirectTxs (MarkDirectTx e h pool))" "h \<in> set (KnownDirectTxs (MarkDirectTx e h pool))"
proof -
  let ?ks = "KnownDirectTxs pool" and ?k = "length (KnownDirectTxs pool) + 1 - maxKnownTxs"
  have k: "?k \<le> length ?ks" "length ?ks - ?k < maxKnownTxs" using ks by (auto simp: known_ok_def maxKnownTxs_def)
  note p = pop_known_ok [OF env_okD(6) [OF e] k(1)]
  show "known_ok (KnownDirectTxs (MarkDirectTx e h pool))" "h \<in> set (KnownDirectTxs (MarkDirectTx e h pool))"
    using p ks k(2) by (auto simp: known_ok_def MarkDirectTx_def Let_def List.insert_def)
qed

lemma dc_ok_update: "dc_ok m \<Longrightarrow> tl_ok l \<Longrightarrow> dc_ok (AList.update a l m)"
  by (auto simp: dc_ok_def AList.update_conv')

lemma dc_ok_map_entry:
  assumes "dc_ok m" "\<And>l. tl_ok l \<Longrightarrow> tl_ok (f l)"
  shows "dc_ok (AList.map_entry a f m)"
  using assms unfolding dc_ok_def gomap_ok_def
  by (auto simp: map_of_map_entry distinct_map_entry split: if_splits option.splits)

text \<open>The invariant of the whole pool.\<close>

definition pool_inv :: "'p env \<Rightarrow> 'p txpool \<Rightarrow> bool" where
  "pool_inv e pool \<longleftrightarrow> pool_ok e {} pool \<and> 0 \<le> sint (AccountQueue (config pool)) \<and> dc_ok (directCalls pool) \<and>
     known_ok (KnownDirectTxs pool)"

lemma pool_invD:
  assumes "pool_inv e pool"
  shows "pool_ok e {} pool" "0 \<le> sint (AccountQueue (config pool))" "dc_ok (directCalls pool)"
    "known_ok (KnownDirectTxs pool)"
  using assms by (simp_all add: pool_inv_def)

lemma pool_inv_kept: "pool_inv e pool \<Longrightarrow> pool_ok e {} pool' \<Longrightarrow> kept pool pool' \<Longrightarrow> pool_inv e pool'"
  by (simp add: pool_inv_def kept_def)

lemma get_list_dc: "dc_ok m \<Longrightarrow> tl_ok (get_list s a m)"
  by (simp add: dc_ok_def get_list_def split: option.splits)

lemma MarkDirectTx_sel [simp]:
  "config (MarkDirectTx e h pool) = config pool" "directCalls (MarkDirectTx e h pool) = directCalls pool"
  "pool_ok e' X (MarkDirectTx e h pool) = pool_ok e' X pool"
  by (simp_all add: MarkDirectTx_def Let_def)

lemma sendDirectCall_inv:
  assumes e: "env_ok e" and inv: "pool_inv e pool"
  shows "pool_inv e (snd (sendDirectCall e a t pool))"
proof -
  note D = pool_invD [OF inv]
  have m: "pool_inv e (MarkDirectTx e (Hash t) pool)"
    using D MarkDirectTx_known(1) [OF e D(4)] by (simp add: pool_inv_def)
  have dc: "dc_ok (AList.map_entry a (mark_sent t) (directCalls pool))"
    by (rule dc_ok_map_entry [OF D(3) mark_sent_ok])
  show ?thesis
    using inv m dc unfolding sendDirectCall_def Let_def
    by (simp add: pool_inv_def split: option.splits)
qed

lemma manageDirectCall_inv:
  assumes e: "env_ok e" and inv: "pool_inv e pool"
  shows "pool_inv e (snd (manageDirectCall e a t pool))"
proof -
  note D = pool_invD [OF inv]
  let ?t = "t\<lparr>DirCallSent := False\<rparr>"
  obtain ins old l where ad: "tl_Add ?t 0 (get_list True a (directCalls pool)) = (ins, old, l)" by (rule prod_cases3)
  have "tl_ok l" using tl_Add_ok [OF get_list_dc [OF D(3)], of ?t 0 True a] ad by simp
  then have "pool_inv e (pool\<lparr>directCalls := AList.update a l (directCalls pool)\<rparr>)"
    using D dc_ok_update by (simp add: pool_inv_def)
  from sendDirectCall_inv [OF e this] show ?thesis by (simp add: manageDirectCall_def ad)
qed

lemma cleanup_list_ok: "tl_ok l \<Longrightarrow> \<exists>l'. cleanup_list ts l = Some l' \<and> tl_ok l'"
proof (induction ts arbitrary: l)
  case (Cons t ts)
  obtain found ivs l1 where "tl_Remove t l = Some (found, ivs, l1)" "tl_ok l1" by (rule tl_Remove_spec [OF Cons.prems, of t])
  with Cons show ?case by simp
qed simp

lemma cleanup_each_ok:
  "\<forall>p \<in> set m. tl_ok (snd p) \<Longrightarrow> \<exists>m'. cleanup_each m = Some m' \<and> keys m' = keys m \<and> (\<forall>p \<in> set m'. tl_ok (snd p))"
proof (induction m)
  case (Cons p m)
  obtain l where "cleanup_list (map snd (items (txs (snd p)))) (snd p) = Some l" "tl_ok l"
    using cleanup_list_ok Cons.prems by (metis list.set_intros(1))
  with Cons show ?case by auto
qed simp

lemma CleanUpDirectCalls_inv:
  assumes inv: "pool_inv e pool"
  obtains pool' where "CleanUpDirectCalls pool = Some pool'" "pool_inv e pool'"
proof -
  note D = pool_invD [OF inv]
  have g: "gomap_ok (directCalls pool)" using D(3) by (simp add: dc_ok_def)
  have "\<forall>p \<in> set (directCalls pool). tl_ok (snd p)"
    using D(3) map_of_gomap [OF g] by (auto simp: dc_ok_def)
  from cleanup_each_ok [OF this] obtain m where m: "cleanup_each (directCalls pool) = Some m"
    "keys m = keys (directCalls pool)" "\<forall>p \<in> set m. tl_ok (snd p)" by blast
  have "dc_ok m" using m(2,3) g by (auto simp: dc_ok_def gomap_ok_def dest!: map_of_SomeD)
  then show ?thesis
    by (intro that [of "pool\<lparr>directCalls := m\<rparr>"]) (use m(1) D in \<open>simp_all add: CleanUpDirectCalls_def pool_inv_def\<close>)
qed

section \<open>Adding one and many\<close>

lemma addTx_inv:
  assumes e: "env_ok e" and inv: "pool_inv e pool"
  obtains r pool' where "addTx e now t loc pool = Some (r, pool')" "pool_inv e pool'"
proof (cases "sender e t")
  case None
  show ?thesis by (rule that [of "Inl ErrInvalidSender" pool]) (use None inv in \<open>simp_all add: addTx_def\<close>)
next
  case (Some a)
  show ?thesis
  proof (cases "ShardingFlag t = 0")
    case False
    show ?thesis
      by (rule that [of "fst (manageDirectCall e a t pool)" "snd (manageDirectCall e a t pool)"])
        (use Some False manageDirectCall_inv [OF e inv] in \<open>simp_all add: addTx_def\<close>)
  next
    case True
    obtain r p1 where 1: "add e t loc pool = Some (r, p1)" "pool_ok e {} p1" "kept pool p1"
      by (rule add_ok [OF e pool_invD(1) [OF inv]])
    have inv1: "pool_inv e p1" by (rule pool_inv_kept [OF inv 1(2,3)])
    obtain p2 where 2: "promoteExecutables e now (Some [a]) p1 = Some p2" "pool_ok e {} p2" "shrunk p1 p2"
      by (rule promoteExecutables_ok [OF 1(2) pool_invD(2) [OF inv1] env_okD(1) [OF e]])
    have inv2: "pool_inv e p2" by (rule pool_inv_kept [OF inv1 2(2) shrunk_kept [OF 2(3)]])
    show ?thesis
    proof (cases r)
      case (Inl err)
      show ?thesis by (rule that [of "Inl err" p1]) (use Some True 1(1) Inl inv1 in \<open>simp_all add: addTx_def\<close>)
    next
      case (Inr b)
      show ?thesis
        by (rule that [of "Inr ()" "if b then p1 else p2"])
          (use Some True 1(1) Inr inv1 inv2 2(1) in \<open>simp_all add: addTx_def\<close>)
    qed
  qed
qed

lemma add_each_inv:
  assumes e: "env_ok e"
  shows "pool_inv e pool \<Longrightarrow> \<exists>d pool'. add_each e ts loc dirty pool = Some (d, pool') \<and> pool_inv e pool'"
proof (induction ts arbitrary: dirty pool)
  case (Cons t ts)
  show ?case
  proof (cases "ShardingFlag t = 0")
    case False
    with Cons.IH [OF manageDirectCall_inv [OF e Cons.prems]] show ?thesis by (simp add: Let_def)
  next
    case True
    obtain r p1 where 1: "add e t loc pool = Some (r, p1)" "pool_ok e {} p1" "kept pool p1"
      by (rule add_ok [OF e pool_invD(1) [OF Cons.prems]])
    from Cons.IH [OF pool_inv_kept [OF Cons.prems 1(2,3)]] 1(1) True show ?thesis by (simp add: Let_def)
  qed
qed simp

lemma addTxsLocked_inv:
  assumes e: "env_ok e" and inv: "pool_inv e pool"
  obtains pool' where "addTxsLocked e now ts loc pool = Some pool'" "pool_inv e pool'"
proof -
  obtain d p1 where 1: "add_each e ts loc [] pool = Some (d, p1)" "pool_inv e p1"
    using add_each_inv [OF e inv] by blast
  obtain p2 where 2: "promoteExecutables e now (Some d) p1 = Some p2" "pool_ok e {} p2" "shrunk p1 p2"
    by (rule promoteExecutables_ok [OF pool_invD(1,2) [OF 1(2)] env_okD(1) [OF e]])
  have inv2: "pool_inv e p2" by (rule pool_inv_kept [OF 1(2) 2(2) shrunk_kept [OF 2(3)]])
  show ?thesis
    by (rule that [of "if 0 < length d then p2 else p1"]) (use 1 2(1) inv2 in \<open>simp_all add: addTxsLocked_def\<close>)
qed

section \<open>Chain heads\<close>

text \<open>The walks to the common ancestor end within their fuel.\<close>

lemma pred_fuel: "n \<noteq> 0 \<Longrightarrow> unat n < Suc fuel \<Longrightarrow> unat (n - 1) < fuel" for n :: uint64
  using unat_eq_zero [of n] by (simp add: unat_minus_one)

lemma walk_down_total:
  assumes e: "env_ok e"
  shows "unat (b_number b) < fuel \<Longrightarrow> walk_down e fuel n b acc \<noteq> None"
proof (induction fuel arbitrary: b acc)
  case (Suc fuel)
  show ?case
  proof (cases "n < b_number b")
    case True
    then have pos: "b_number b \<noteq> 0" by auto
    show ?thesis
    proof (cases "GetBlock e (b_parent b) (b_number b - 1)")
      case (Some b')
      have "b_number b' = b_number b - 1" by (rule env_okD(4) [OF e Some])
      then have "unat (b_number b') < fuel" using pred_fuel [OF pos Suc.prems] by simp
      from Suc.IH [OF this] Some True show ?thesis by simp
    qed (simp add: True)
  qed simp
qed simp

lemma walk_both_total:
  assumes e: "env_ok e"
  shows "unat (b_number rem) < fuel \<Longrightarrow> walk_both e fuel rem ad discarded included \<noteq> None"
proof (induction fuel arbitrary: rem ad discarded included)
  case (Suc fuel)
  show ?case
  proof (cases "GetBlock e (b_parent rem) (b_number rem - 1)")
    case (Some r')
    have num: "b_number r' = b_number rem - 1" by (rule env_okD(4) [OF e Some])
    have pos: "b_number rem \<noteq> 0" using env_okD(5) [OF e, of "b_parent rem"] Some by auto
    from pred_fuel [OF this Suc.prems] num have "unat (b_number r') < fuel" by simp
    from Suc.IH [OF this] Some show ?thesis by (simp split: option.splits)
  qed simp
qed simp

definition known_head :: "'p env \<Rightarrow> block \<Rightarrow> bool" where
  "known_head e b \<longleftrightarrow> GetBlock e (b_hash b) (b_number b) \<noteq> None"

lemma reorg_txs_total:
  assumes e: "env_ok e" and h: "known_head e oh" "known_head e nh"
  shows "reorg_txs e oh nh \<noteq> None"
proof -
  obtain r0 a0 where b: "GetBlock e (b_hash oh) (b_number oh) = Some r0" "GetBlock e (b_hash nh) (b_number nh) = Some a0"
    using h by (auto simp: known_head_def)
  have w: "\<exists>w. walk_down e (Suc (unat (b_number b))) n b [] = Some w" for n b
    using walk_down_total [OF e, of b "Suc (unat (b_number b))"] by blast
  have w': "\<exists>w. walk_both e (Suc (Suc (unat (b_number r)))) r a x y = Some w" for r a x y
    using walk_both_total [OF e, of r "Suc (Suc (unat (b_number r)))"] by (metis lessI less_Suc_eq not_Some_eq)
  obtain w1 where w1: "walk_down e (Suc (unat (b_number r0))) (b_number a0) r0 [] = Some w1" using w by blast
  show ?thesis
  proof (cases w1)
    case None
    then show ?thesis using b w1 by (simp add: reorg_txs_def del: walk_down.simps)
  next
    case (Some p1)
    obtain r1 d1 where p1: "p1 = (r1, d1)" by (rule prod.exhaust)
    obtain w2 where w2: "walk_down e (Suc (unat (b_number a0))) (b_number r1) a0 [] = Some w2" using w by blast
    show ?thesis
    proof (cases w2)
      case None
      then show ?thesis using b w1 w2 Some p1 by (simp add: reorg_txs_def del: walk_down.simps)
    next
      case (Some p2)
      obtain a1 i1 where p2: "p2 = (a1, i1)" by (rule prod.exhaust)
      obtain w3 where "walk_both e (Suc (Suc (unat (b_number r1)))) r1 a1 d1 i1 = Some w3" using w' by blast
      then show ?thesis using b w1 w2 \<open>w1 = Some p1\<close> Some p1 p2
        by (simp add: reorg_txs_def del: walk_down.simps walk_both.simps split: option.splits)
    qed
  qed
qed

lemma set_pending_nonces_ok:
  assumes "pool_ok e X pool" "\<forall>a \<in> set as. \<exists>l. map_of (pending pool) a = Some l \<and> tl_view l \<noteq> []"
  shows "\<exists>pool'. set_pending_nonces e as pool = Some pool' \<and> pool_ok e X pool' \<and> kept pool pool' \<and> P_of pool' = P_of pool \<and>
    queue pool' = queue pool"
  using assms
proof (induction as arbitrary: pool)
  case (Cons a as)
  obtain l where l: "map_of (pending pool) a = Some l" "tl_view l \<noteq> []" using Cons.prems(2) by auto
  note lo = lists_okD [OF pool_okD(1) [OF Cons.prems(1)] l(1)]
  note f = tl_Flatten_spec [OF lo(1)]
  have v: "P_of pool a = tl_view l" by (rule txs_at_Some [OF l(1)])
  define p1 where "p1 = pool\<lparr>pending := AList.update a (snd (tl_Flatten l)) (pending pool),
        pendingState := ms_set e a (Nonce (last (tl_view l)) + 1) (pendingState pool)\<rparr>"
  have "pool_ok e X (pool\<lparr>pending := AList.update a (snd (tl_Flatten l)) (pending pool)\<rparr>)"
    by (rule pending_cut_ok [OF Cons.prems(1) f(2)]) (simp_all add: f(3,4) lo(2) v)
  then have ok1: "pool_ok e X p1" by (simp add: p1_def)
  have P1: "P_of p1 = P_of pool" by (simp add: p1_def f(3) v [symmetric])
  have dom: "\<forall>b \<in> set as. \<exists>l. map_of (pending p1) b = Some l \<and> tl_view l \<noteq> []"
    using Cons.prems(2) l f(3) by (simp add: p1_def AList.update_conv')
  from Cons.IH [OF ok1 dom] obtain p2 where 2: "set_pending_nonces e as p1 = Some p2" "pool_ok e X p2" "kept p1 p2"
    "P_of p2 = P_of p1" "queue p2 = queue p1" by blast
  have k: "kept pool p1" by (simp add: p1_def)
  have "set_pending_nonces e (a # as) pool = Some p2"
    using l 2(1) f(1) by (simp add: p1_def split_beta)
  moreover have "queue p1 = queue pool" by (simp add: p1_def)
  ultimately show ?case using 2(2,4,5) P1 kept_trans [OF k 2(3)] by (intro exI [of _ p2]) simp
qed simp

lemma reset_inv:
  assumes e: "env_ok e" and inv: "pool_inv e pool"
    and heads: "\<And>oh. oldHead = Some oh \<Longrightarrow> known_head e oh \<and> known_head e nh"
  obtains pool' where "reset e now oldHead (Some nh) pool = Some pool'" "pool_inv e pool'"
proof -
  have inv0: "pool_inv e (initDirectCallList pool)"
    using inv by (simp add: pool_inv_def initDirectCallList_def dc_ok_def)
  have "reinject e oldHead (Some nh) \<noteq> None"
    using reorg_txs_total [OF e] heads by (auto simp: reinject_def split: option.splits)
  then obtain r where r: "reinject e oldHead (Some nh) = Some r" by blast
  show ?thesis
  proof (cases "r = None \<or> StateAt e nh = None")
    case True
    then have "reset e now oldHead (Some nh) pool = Some (initDirectCallList pool)"
      using r by (auto simp: reset_def Let_def split: option.splits)
    then show ?thesis by (rule that [OF _ inv0])
  next
    case False
    then obtain ts st where rs: "r = Some ts" "StateAt e nh = Some st" by auto
    define p1 where "p1 = (initDirectCallList pool)\<lparr>currentState := st, pendingState := ms_new e st,
       currentMaxGas := b_gasLimit nh\<rparr>"
    have inv1: "pool_inv e p1" using inv0 by (simp add: p1_def pool_inv_def)
    obtain p2 where 2: "addTxsLocked e now ts False p1 = Some p2" "pool_inv e p2"
      by (rule addTxsLocked_inv [OF e inv1])
    obtain p3 where 3: "demoteUnexecutables e p2 = Some p3" "pool_ok e {} p3" "shrunk p2 p3"
      "\<forall>a l. map_of (pending p3) a = Some l \<longrightarrow> tl_view l \<noteq> []"
      by (rule demoteUnexecutables_ok [OF pool_invD(1) [OF 2(2)]])
    have "\<forall>a \<in> set (keys (pending p3)). \<exists>l. map_of (pending p3) a = Some l \<and> tl_view l \<noteq> []"
      using 3(4) map_of_keys [of "pending p3"] by blast
    from set_pending_nonces_ok [OF 3(2) this] obtain p4 where
      4: "set_pending_nonces e (keys (pending p3)) p3 = Some p4" "pool_ok e {} p4" "kept p3 p4" by blast
    have inv4: "pool_inv e p4"
      by (rule pool_inv_kept [OF 2(2) 4(2) kept_trans [OF shrunk_kept [OF 3(3)] 4(3)]])
    obtain p5 where 5: "promoteExecutables e now None p4 = Some p5" "pool_ok e {} p5" "shrunk p4 p5"
      by (rule promoteExecutables_ok [OF 4(2) pool_invD(2) [OF inv4] env_okD(1) [OF e]])
    have "reset e now oldHead (Some nh) pool = Some p5"
      using r rs 2(1) 3(1) 4(1) 5(1) by (simp add: reset_def Let_def p1_def)
    then show ?thesis by (rule that [OF _ pool_inv_kept [OF inv4 5(2) shrunk_kept [OF 5(3)]]])
  qed
qed

section \<open>Ticks and price changes\<close>

abbreviation silent :: "'p txpool \<Rightarrow> int \<Rightarrow> address \<Rightarrow> bool" where
  "silent pool now a \<equiv> \<not> as_contains (locals pool) a \<and> Lifetime (config pool) < now - heartbeat pool a"

lemma evict_accounts_ok:
  assumes "pool_ok e X pool" "distinct as" "\<forall>a \<in> set as. map_of (queue pool) a \<noteq> None"
  shows "\<exists>pool'. evict_accounts e now as pool = Some pool' \<and> pool_ok e X pool' \<and> shrunk pool pool' \<and>
    P_of pool' = P_of pool \<and> (\<forall>b. Q_of pool' b = (if b \<in> set as \<and> silent pool now b then [] else Q_of pool b))"
  using assms
proof (induction as arbitrary: pool)
  case (Cons a as)
  have d: "distinct as" "a \<notin> set as" using Cons.prems(2) by simp_all
  show ?case
  proof (cases "silent pool now a")
    case False
    then have "evict_accounts e now (a # as) pool = evict_accounts e now as pool" by auto
    with Cons.IH [OF Cons.prems(1) d(1)] Cons.prems(3) False show ?thesis by auto
  next
    case True
    obtain l where l: "map_of (queue pool) a = Some l" using Cons.prems(3) by auto
    obtain ts p1 where fl: "flatten_queue a l pool = (ts, p1)" by (rule prod.exhaust)
    have ts: "ts = Q_of pool a" using flatten_queue_ok [OF Cons.prems(1) l] fl by force
    have dts: "distinct ts" unfolding ts
      by (rule nonce_sorted_distinct(1) [OF queue_sorted [OF pool_okD(2) [OF Cons.prems(1)]]])
    obtain p2 where r: "remove_each e ts p1 = Some p2" "pool_ok e X p2" "shrunk pool p2" "P_of p2 = P_of pool"
      "Q_of p2 = (Q_of pool)(a := filter (\<lambda>u. u \<notin> set ts) (Q_of pool a))"
      "\<forall>b. b \<noteq> a \<longrightarrow> map_of (queue p2) b = map_of (queue pool) b" "beats p2 = beats pool"
      by (rule remove_some_queued [OF Cons.prems(1) l fl subset_refl dts])
    have eq: "evict_accounts e now (a # as) pool = evict_accounts e now as p2" using True l fl r(1) by simp
    have Q2: "Q_of p2 = (Q_of pool)(a := [])" unfolding r(5) ts by simp
    have sil: "silent p2 now b = silent pool now b" for b
      using r(3,7) by (simp add: shrunk_def frame_def heartbeat_def)
    have dom: "\<forall>b \<in> set as. map_of (queue p2) b \<noteq> None" using Cons.prems(3) r(6) d(2) by auto
    from Cons.IH [OF r(2) d(1) dom] obtain p3 where 3: "evict_accounts e now as p2 = Some p3" "pool_ok e X p3"
      "shrunk p2 p3" "P_of p3 = P_of p2" "\<forall>b. Q_of p3 b = (if b \<in> set as \<and> silent p2 now b then [] else Q_of p2 b)" by blast
    have "\<forall>b. Q_of p3 b = (if b \<in> set (a # as) \<and> silent pool now b then [] else Q_of pool b)"
      using 3(5) d(2) True unfolding sil Q2 by simp
    then show ?thesis
      using eq 3(1,2,4) r(4) shrunk_trans [OF r(3) 3(3)] by (intro exI [of _ p3]) simp
  qed
qed simp

lemma evict_ok:
  assumes ok: "pool_ok e X pool"
  obtains pool' where "evict e now pool = Some pool'" "pool_ok e X pool'" "shrunk pool pool'" "P_of pool' = P_of pool"
    "\<forall>b. Q_of pool' b = (if silent pool now b then [] else Q_of pool b)"
proof -
  let ?as = "keys (queue pool)"
  have d: "distinct ?as" using lists_ok_gomap [OF pool_okD(2) [OF ok]] by (simp add: gomap_ok_def)
  have dom: "\<forall>a \<in> set ?as. map_of (queue pool) a \<noteq> None" unfolding map_of_keys by simp
  from evict_accounts_ok [OF ok d dom, of now] obtain pool' where r: "evict e now pool = Some pool'" "pool_ok e X pool'"
    "shrunk pool pool'" "P_of pool' = P_of pool"
    "\<forall>b. Q_of pool' b = (if b \<in> set ?as \<and> silent pool now b then [] else Q_of pool b)" unfolding evict_def by blast
  have "Q_of pool b = []" if "b \<notin> set ?as" for b
    by (rule txs_at_None) (use map_of_keys [of "queue pool" b] that in blast)
  with r(5) show ?thesis by (intro that [OF r(1-4)]) simp
qed

lemma SetGasPrice_ok:
  assumes ok: "pool_ok e {} pool"
  obtains pool' where "SetGasPrice e price pool = Some pool'" "pool_ok e {} pool'" "shrunk (pool\<lparr>gasPrice := price\<rparr>) pool'"
    "\<forall>p \<in> set (all pool'). as_containsTx (sender e) (locals pool) (snd p) \<or> price \<le> GasPrice (snd p)"
proof -
  let ?loc = "as_containsTx (sender e) (locals pool)"
  obtain D pr where c: "pl_Cap (all pool) ?loc price (priced pool) = (D, pr)" by (rule prod.exhaust)
  have h: "is_heap GasPrice (pl_items (priced pool))" and cov: "\<And>p. p \<in> set (all pool) \<Longrightarrow> snd p \<in> set (pl_items (priced pool))"
    using pool_okD(4) [OF ok] by (simp_all add: heap_ok_def)
  note cs = pl_Cap_spec [OF h c]
  let ?p1 = "pool\<lparr>gasPrice := price, priced := pr\<rparr>"
  have live: "snd p \<in> set (pl_items (priced pool)) \<and> live (all pool) (snd p)" if "p \<in> set (all pool)" for p
    using cov [OF that] all_ok_live [OF pool_okD(3) [OF ok] that] by blast
  have ok0: "pool_ok e {} (pool\<lparr>gasPrice := price\<rparr>)" using ok by simp
  have ok1: "pool_ok e (set D) ?p1"
    by (rule pool_ok_priced [OF ok0 cs(1)]) (use live cs(3) in auto)
  obtain p2 where r: "remove_each e D ?p1 = Some p2" "pool_ok e (set D - set D) p2" "shrunk ?p1 p2"
    "\<And>t. t \<in> set D \<Longrightarrow> A_of p2 (Hash t) = None" using remove_each_ok [OF ok1, of D] by blast
  have eq: "SetGasPrice e price pool = Some p2" using c r(1) by (simp add: SetGasPrice_def)
  have sh: "shrunk (pool\<lparr>gasPrice := price\<rparr>) p2" using r(3) by (simp add: shrunk_def frame_def)
  have "?loc (snd p) \<or> price \<le> GasPrice (snd p)" if p: "p \<in> set (all p2)" for p
  proof -
    have ok2: "all_ok (all p2)" by (rule pool_okD(3) [OF r(2)])
    have A: "A_of p2 (Hash (snd p)) = Some (snd p)" using all_values [OF ok2, of "snd p"] p by force
    then have "A_of pool (Hash (snd p)) = Some (snd p)" using sh by (simp add: shrunk_def)
    then have "snd p \<in> snd ` set (all pool)" using all_values [OF pool_okD(3) [OF ok]] by blast
    then have "snd p \<in> set (pl_items (priced pool)) \<and> live (all pool) (snd p)" using live by auto
    moreover have "snd p \<notin> set D" using r(4) [of "snd p"] A by auto
    ultimately show ?thesis unfolding cs(2) by auto
  qed
  then show ?thesis by (intro that [OF eq _ sh]) (use r(2) in simp_all)
qed

section \<open>Runs\<close>

fun event_ok :: "'p env \<Rightarrow> pool_event \<Rightarrow> bool" where
  "event_ok e (ChainHead (Some b) _) = known_head e b"
| "event_ok e _ = True"

lemma rotate_journal_inv: "pool_inv e pool \<Longrightarrow> pool_inv e (rotate_journal e' fault pool)"
  by (simp add: rotate_journal_def pool_inv_def split: option.splits)

lemma pool_step_inv:
  assumes e: "env_ok e" and h: "known_head e head" and inv: "pool_inv e pool" and ev: "event_ok e ev"
  shows "\<exists>head' pool'. pool_step e now ev (head, pool) = Some (head', pool') \<and> known_head e head' \<and> pool_inv e pool'"
proof (cases ev)
  case (ChainHead ob p)
  show ?thesis
  proof (cases ob)
    case (Some b)
    have kb: "known_head e b" using ev ChainHead Some by simp
    have "pool_inv e (if p then pool\<lparr>pangu := True\<rparr> else pool)" using inv by (simp add: pool_inv_def)
    then obtain p1 where "reset e now (Some head) (Some b) (if p then pool\<lparr>pangu := True\<rparr> else pool) = Some p1" "pool_inv e p1"
      by (rule reset_inv [OF e, of _ "Some head" b now]) (use h kb in simp_all)
    then show ?thesis using ChainHead Some kb by simp
  qed (use ChainHead h inv in simp)
next
  case EvictTick
  obtain p1 where "evict e now pool = Some p1" "pool_ok e {} p1" "shrunk pool p1" by (rule evict_ok [OF pool_invD(1) [OF inv]])
  with EvictTick h pool_inv_kept [OF inv _ shrunk_kept] show ?thesis by simp
next
  case (JournalTick fault)
  then show ?thesis using h rotate_journal_inv [OF inv] by simp
next
  case (EvLocal t)
  obtain r p1 where "AddLocal e now t pool = Some (r, p1)" "pool_inv e p1"
    unfolding AddLocal_def by (rule addTx_inv [OF e inv])
  then show ?thesis using EvLocal h by simp
next
  case (EvRemote t)
  obtain r p1 where "AddRemote e now t pool = Some (r, p1)" "pool_inv e p1"
    unfolding AddRemote_def by (rule addTx_inv [OF e inv])
  then show ?thesis using EvRemote h by simp
next
  case (EvLocals ts)
  obtain p1 where "addTxsLocked e now ts (\<not> NoLocals (config pool)) pool = Some p1" "pool_inv e p1"
    by (rule addTxsLocked_inv [OF e inv])
  then show ?thesis using EvLocals h by simp
next
  case (EvRemotes ts)
  obtain p1 where "addTxsLocked e now ts False pool = Some p1" "pool_inv e p1" by (rule addTxsLocked_inv [OF e inv])
  then show ?thesis using EvRemotes h by simp
next
  case (EvSetGasPrice price)
  obtain p1 where 1: "SetGasPrice e price pool = Some p1" "pool_ok e {} p1" "shrunk (pool\<lparr>gasPrice := price\<rparr>) p1"
    by (rule SetGasPrice_ok [OF pool_invD(1) [OF inv]])
  have "pool_inv e (pool\<lparr>gasPrice := price\<rparr>)" using inv by (simp add: pool_inv_def)
  from pool_inv_kept [OF this 1(2) shrunk_kept [OF 1(3)]] 1(1) EvSetGasPrice h show ?thesis by simp
next
  case EvCleanUp
  obtain p1 where "CleanUpDirectCalls pool = Some p1" "pool_inv e p1" by (rule CleanUpDirectCalls_inv [OF inv])
  then show ?thesis using EvCleanUp h by simp
qed

interpretation pool_events: event_system "\<lambda>(now, ev). pool_step e now ev" "\<lambda>(now, ev). event_ok e ev"
  "\<lambda>(head, pool). env_ok e \<and> known_head e head \<and> pool_inv e pool" for e :: "'p env"
proof
  fix s :: "block \<times> 'p txpool" and ev :: "int \<times> pool_event"
  assume "case s of (head, pool) \<Rightarrow> env_ok e \<and> known_head e head \<and> pool_inv e pool" "case ev of (now, ev) \<Rightarrow> event_ok e ev"
  then show "\<exists>s'. (case ev of (now, ev) \<Rightarrow> pool_step e now ev) s = Some s' \<and>
      (case s' of (head, pool) \<Rightarrow> env_ok e \<and> known_head e head \<and> pool_inv e pool)"
    using pool_step_inv [of e "fst s" "snd s" "snd ev" "fst ev"] by (auto simp: split_beta)
qed

lemma empty_pool_inv: "0 \<le> sint (AccountQueue cfg) \<Longrightarrow> pool_inv e (empty_pool e cfg)"
  by (simp add: pool_inv_def empty_pool_def pool_ok_def heap_ok_def link_def txs_at_def dc_ok_def known_ok_def
    newTxPricedList_def goheap.invar_Nil)

lemma load_each_inv:
  assumes e: "env_ok e"
  shows "pool_inv e pool \<Longrightarrow> \<exists>d pool'. load_each (AddLocal e now) ts n pool = Some (d, pool') \<and> pool_inv e pool'"
proof (induction ts arbitrary: n pool)
  case (Cons t ts)
  obtain r p1 where 1: "AddLocal e now t pool = Some (r, p1)" "pool_inv e p1"
    unfolding AddLocal_def by (rule addTx_inv [OF e Cons.prems])
  from Cons.IH [OF 1(2)] 1(1) show ?case by simp
qed simp

lemma NewTxPool_inv:
  assumes e: "env_ok e" and aq: "0 \<le> sint (AccountQueue cfg)"
  obtains pool where "NewTxPool e now cfg file k fault = Some pool" "pool_inv e pool"
proof -
  let ?cfg = "sanitize cfg"
  have "AccountQueue ?cfg = AccountQueue cfg" by (simp add: sanitize_def Let_def)
  with aq have inv0: "pool_inv e (empty_pool e ?cfg)" by (simp add: empty_pool_inv)
  obtain p1 where 1: "reset e now None (Some (CurrentBlock e)) (empty_pool e ?cfg) = Some p1" "pool_inv e p1"
    by (rule reset_inv [OF e inv0, of None]) simp_all
  define j where "j = newTxJournal file"
  have inv1: "pool_inv e (p1\<lparr>journal := Some j\<rparr>)" using 1(2) by (simp add: pool_inv_def)
  obtain r p3 where 3: "jr_load (AddLocal e now) k j (p1\<lparr>journal := Some j\<rparr>) = Some (r, p3)" "pool_inv e p3"
  proof (cases "disk j")
    case None
    then show thesis using inv1 by (intro that [of "Inr ()" "p1\<lparr>journal := Some j\<rparr>"]) (simp_all add: jr_load_def)
  next
    case (Some ts)
    from load_each_inv [OF e inv1, of now "take k ts" 0] obtain d p2 where
      "load_each (AddLocal e now) (take k ts) 0 (p1\<lparr>journal := Some j\<rparr>) = Some (d, p2)" "pool_inv e p2" by blast
    then show thesis
      using Some by (intro that [of "if k < length ts then Inl errDecode else Inr ()" p2]) (simp_all add: jr_load_def)
  qed
  show ?thesis
    by (rule that [of "if \<not> NoLocals ?cfg \<and> Journal ?cfg \<noteq> [] then rotate_journal e fault p3 else p1"])
      (use 1 3 rotate_journal_inv [OF 3(2)] in \<open>simp_all add: NewTxPool_def Let_def j_def\<close>)
qed

end
