(* ===== verification/TxPoolProps.thy ===== *)
theory TxPoolProps
  imports TxPoolRun
begin

text \<open>
  The properties of the transaction pool: no operation panics and the invariant survives every run,
  what the limits, the demotion, the eviction tick and a price change leave in the pool, that
  accepted transactions are in it, and the round trip of the journal. The environment and the pool at
  the start are concrete instances on which the properties are applied.
\<close>

section \<open>A concrete environment and pool\<close>

definition sample_block :: block where
  "sample_block = \<lparr>b_hash = 9, b_parent = 8, b_number = 5, b_gasLimit = 1000000, b_txs = []\<rparr>"

definition sample_gas :: gasParams where
  "sample_gas = \<lparr>TxGas = 1000, TxGasContractCreation = 53000, TxDataNonZeroGas = 68, TxDataZeroGas = 4\<rparr>"

definition sample_env :: "(address \<Rightarrow> uint64) env" where
  "sample_env = \<lparr>sender = (\<lambda>_. Some 7), UpdateNonce = (\<lambda>t n. t\<lparr>Nonce := n\<rparr>), relay = None, MaximumTxSize = 32768,
     MaxChainId = 1000, minSpecGasPrice = 1, EnableClassicTx = 0, CurrentBlock = sample_block, enc_ok = (\<lambda>_. True),
     gas = sample_gas, prque_order = (\<lambda>xs. map fst (rev (sort_key snd xs))), ms_get = (\<lambda>p a. p a),
     ms_set = (\<lambda>a n p. p(a := n)), ms_new = GetNonce,
     GetBlock = (\<lambda>h n. if n = - 1 then None else Some \<lparr>b_hash = h, b_parent = h - 1, b_number = n, b_gasLimit = 1000000, b_txs = []\<rparr>),
     StateAt = (\<lambda>_. Some \<lparr>GetNonce = (\<lambda>_. 0), GetBalance = (\<lambda>_. 10000000)\<rparr>),
     TxDifference = (\<lambda>xs ys. filter (\<lambda>t. t \<notin> set ys) xs), pushMsg = None, set_pop = hd\<rparr>"

lemma sample_env_ok: "env_ok sample_env"
proof -
  have "\<exists>ys. mset ys = mset xs \<and> map fst (rev (sort_key snd xs)) = map fst ys \<and> sorted_wrt (\<lambda>p q. snd q \<le> snd p) ys"
    for xs :: "(address \<times> nat) list"
    using sorted_sort_key [of snd xs] by (intro exI [of _ "rev (sort_key snd xs)"]) (simp add: sorted_wrt_rev sorted_map)
  then show ?thesis by (simp add: env_ok_def prque_ok_def sample_env_def)
qed

lemma sample_head: "known_head sample_env (CurrentBlock sample_env)" "known_head sample_env sample_block"
  by (simp_all add: known_head_def sample_env_def sample_block_def)

definition two_list :: txList where
  "two_list = snd (snd (tl_Add (sample_tx 2 1 100) 10 (one_list True (sample_tx 1 0 100))))"

lemma two_list: "tl_ok two_list" "tl_view two_list = [sample_tx 1 0 100, sample_tx 2 1 100]" "strict two_list"
proof -
  have n: "sm_Get (txs (one_list True (sample_tx 1 0 100))) (Nonce (sample_tx 2 1 100)) = None"
    by (simp add: one_list_def tl_Add_def newTxList_def newTxSortedMap_def sm_Get_def sm_Put_def Let_def)
  obtain l' where l': "tl_Add (sample_tx 2 1 100) 10 (one_list True (sample_tx 1 0 100)) = (True, None, l')" "tl_ok l'" "strict l'"
    by (rule tl_Add_accept [OF one_list(1), of True "sample_tx 1 0 100" "sample_tx 2 1 100" 10, unfolded n])
      (simp_all add: one_list(3))
  show "tl_ok two_list" "strict two_list" using l' by (simp_all add: two_list_def)
  show "tl_view two_list = [sample_tx 1 0 100, sample_tx 2 1 100]"
    by (simp add: two_list_def one_list_def tl_Add_def newTxList_def newTxSortedMap_def sm_Get_def sm_Put_def tl_view_def
      sm_view_def flat_def Let_def)
qed

text \<open>One account with two pending transactions and one queued above a gap.\<close>

definition sample_pool :: "(address \<Rightarrow> uint64) txpool" where
  "sample_pool = (empty_pool sample_env DefaultTxPoolConfig)\<lparr>pending := [(7, two_list)],
     queue := [(7, one_list False (sample_tx 3 5 90))],
     all := [(1, sample_tx 1 0 100), (2, sample_tx 2 1 100), (3, sample_tx 3 5 90)],
     priced := \<lparr>pl_items = [sample_tx 3 5 90, sample_tx 1 0 100, sample_tx 2 1 100], stales = 0\<rparr>\<rparr>"

lemma sample_pool_inv: "pool_inv sample_env sample_pool"
proof -
  have h: "is_heap GasPrice [sample_tx 3 5 90, sample_tx 1 0 100, sample_tx 2 1 100]"
    by (auto simp: is_heap_def edges_ok_def less_Suc_eq numeral_eq_Suc)
  have "link (P_of sample_pool) (Q_of sample_pool) (A_of sample_pool)"
    by (simp add: link_def sample_pool_def txs_at_def one_list two_list)
  then show ?thesis using h
    by (simp add: pool_inv_def pool_ok_def heap_ok_def lists_ok_def all_ok_def gomap_ok_def sample_pool_def empty_pool_def
      dc_ok_def known_ok_def DefaultTxPoolConfig_def one_list two_list from_addr_def sample_env_def)
qed

section \<open>Runs of the pool\<close>



section \<open>Limits\<close>

text \<open>
  C19: after \<open>promoteExecutables\<close>, the pending transactions are within \<open>GlobalSlots\<close> unless no remote
  account has more than \<open>AccountSlots\<close> of them, and the queued ones are within \<open>GlobalQueue\<close> unless no
  remote account has any left; it neither panics nor adds a transaction to the pool.
\<close>
theorem promoteExecutables_limits:
  assumes "pool_inv e pool" "prque_ok e"
  shows "\<exists>pool'. promoteExecutables e now accts pool = Some pool' \<and> pool_inv e pool' \<and> limits_ok pool' \<and>
    (\<forall>h t. Get h pool' = Some t \<longrightarrow> Get h pool = Some t)"
proof -
  obtain pool' where r: "promoteExecutables e now accts pool = Some pool'" "pool_ok e {} pool'" "shrunk pool pool'" "limits_ok pool'"
    by (rule promoteExecutables_ok [OF pool_invD(1,2) [OF assms(1)] assms(2)])
  then show ?thesis
    using pool_inv_kept [OF assms(1) r(2) shrunk_kept [OF r(3)]] by (auto simp: Get_def shrunk_def)
qed

theorem promoteExecutables_limits_witness:
  "\<exists>pool'. promoteExecutables sample_env 3 None sample_pool = Some pool' \<and> pool_inv sample_env pool' \<and> limits_ok pool' \<and>
    (\<forall>h t. Get h pool' = Some t \<longrightarrow> Get h sample_pool = Some t)"
  by (rule promoteExecutables_limits [OF sample_pool_inv env_okD(1) [OF sample_env_ok]])

text \<open>
  C20: the pending limit is enforced by its rounds within the fuel of the model, it takes nothing from
  local accounts, and no account it takes from goes below \<open>AccountSlots\<close>.
\<close>
theorem truncate_pending_fair:
  assumes "pool_inv e pool" "prque_ok e"
  shows "\<exists>pool'. truncate_pending e pool = Some pool' \<and>
    (count_txs (pending pool') \<le> GlobalSlots (config pool) \<or>
      (\<forall>a. as_contains (locals pool) a \<or> of_nat (length (P_of pool' a)) \<le> AccountSlots (config pool))) \<and>
    (\<forall>a. P_of pool' a = P_of pool a \<or>
      \<not> as_contains (locals pool) a \<and> unat (AccountSlots (config pool)) \<le> length (P_of pool' a))"
proof -
  obtain pool' where "truncate_pending e pool = Some pool'"
    "count_txs (pending pool') \<le> GlobalSlots (config pool) \<or>
       (\<forall>a. \<not> as_contains (locals pool) a \<longrightarrow> of_nat (plen pool' a) \<le> AccountSlots (config pool))"
    "\<forall>a. as_contains (locals pool) a \<longrightarrow> P_of pool' a = P_of pool a"
    "\<forall>a. P_of pool' a = P_of pool a \<or> unat (AccountSlots (config pool)) \<le> plen pool' a"
    by (rule truncate_pending_ok [OF pool_invD(1) [OF assms(1)] assms(2)])
  then show ?thesis by blast
qed

theorem truncate_pending_fair_witness:
  "\<exists>pool'. truncate_pending sample_env sample_pool = Some pool' \<and>
    (count_txs (pending pool') \<le> GlobalSlots (config sample_pool) \<or>
      (\<forall>a. as_contains (locals sample_pool) a \<or> of_nat (length (P_of pool' a)) \<le> AccountSlots (config sample_pool))) \<and>
    (\<forall>a. P_of pool' a = P_of sample_pool a \<or>
      \<not> as_contains (locals sample_pool) a \<and> unat (AccountSlots (config sample_pool)) \<le> length (P_of pool' a))"
  by (rule truncate_pending_fair [OF sample_pool_inv env_okD(1) [OF sample_env_ok]])

text \<open>
  the queue limit leaves at most \<open>GlobalQueue\<close> transactions queued unless only local ones are
  left; the queues of local accounts and all pending transactions stay.
\<close>
theorem truncate_queue_limit:
  assumes "pool_inv e pool"
  shows "\<exists>pool'. truncate_queue e pool = Some pool' \<and> P_of pool' = P_of pool \<and>
    (\<forall>a. if as_contains (locals pool) a then Q_of pool' a = Q_of pool a else set (Q_of pool' a) \<subseteq> set (Q_of pool a)) \<and>
    (count_txs (queue pool') \<le> GlobalQueue (config pool) \<or> (\<forall>a. as_contains (locals pool) a \<or> Q_of pool' a = []))"
proof -
  obtain pool' where "truncate_queue e pool = Some pool'" "pool_ok e {} pool'" "shrunk pool pool'" "P_of pool' = P_of pool"
    "\<forall>b. set (Q_of pool' b) \<subseteq> set (Q_of pool b)" "\<forall>a. as_contains (locals pool) a \<longrightarrow> Q_of pool' a = Q_of pool a"
    "count_txs (queue pool') \<le> GlobalQueue (config pool) \<or> (\<forall>a. \<not> as_contains (locals pool) a \<longrightarrow> Q_of pool' a = [])"
    by (rule truncate_queue_ok [OF pool_invD(1) [OF assms]])
  then show ?thesis by (intro exI [of _ pool']) auto
qed

theorem truncate_queue_limit_witness:
  "\<exists>pool'. truncate_queue sample_env sample_pool = Some pool' \<and> P_of pool' 7 = [sample_tx 1 0 100, sample_tx 2 1 100]"
proof -
  obtain p where p: "truncate_queue sample_env sample_pool = Some p" "P_of p = P_of sample_pool"
    using truncate_queue_limit [OF sample_pool_inv] by blast
  have "P_of sample_pool 7 = [sample_tx 1 0 100, sample_tx 2 1 100]" by (simp add: sample_pool_def txs_at_def two_list)
  with p show ?thesis by simp
qed

section \<open>Demotion, eviction, prices\<close>

text \<open>
  C24: after \<open>demoteUnexecutables\<close>, every account's pending list starts at the account's nonce, all of
  it is affordable and within the block gas limit, and no account has an empty entry.
\<close>
theorem demoteUnexecutables_executable:
  assumes "pool_inv e pool"
  shows "\<exists>pool'. demoteUnexecutables e pool = Some pool' \<and> pool_inv e pool' \<and>
    (\<forall>a. (\<forall>t \<in> set (P_of pool' a). Cost t \<le> GetBalance (currentState pool) a \<and> GasLimit t \<le> currentMaxGas pool) \<and>
      (P_of pool' a = [] \<or> Nonce (hd (P_of pool' a)) = GetNonce (currentState pool) a) \<and>
      (map_of (pending pool') a = None \<or> P_of pool' a \<noteq> []))"
proof -
  obtain pool' where r: "demoteUnexecutables e pool = Some pool'" "pool_ok e {} pool'" "shrunk pool pool'"
    "\<forall>a. executable pool a (P_of pool' a)" "\<forall>a l. map_of (pending pool') a = Some l \<longrightarrow> tl_view l \<noteq> []"
    by (rule demoteUnexecutables_ok [OF pool_invD(1) [OF assms]])
  show ?thesis
  proof (intro exI [of _ pool'] conjI allI)
    show "demoteUnexecutables e pool = Some pool'" by (rule r(1))
    show "pool_inv e pool'" by (rule pool_inv_kept [OF assms r(2) shrunk_kept [OF r(3)]])
  next
    fix a
    show "\<forall>t \<in> set (P_of pool' a). Cost t \<le> GetBalance (currentState pool) a \<and> GasLimit t \<le> currentMaxGas pool"
      using r(4) by (auto simp: executable_def not_less)
    show "P_of pool' a = [] \<or> Nonce (hd (P_of pool' a)) = GetNonce (currentState pool) a"
      using r(4) unfolding executable_def by blast
    show "map_of (pending pool') a = None \<or> P_of pool' a \<noteq> []"
      using r(5) by (cases "map_of (pending pool') a") (simp_all add: txs_at_Some)
  qed
qed

theorem demoteUnexecutables_executable_witness:
  "\<exists>pool'. demoteUnexecutables sample_env sample_pool = Some pool' \<and> P_of pool' 7 = []"
proof -
  obtain p where p: "demoteUnexecutables sample_env sample_pool = Some p"
    "\<forall>t \<in> set (P_of p 7). Cost t \<le> GetBalance (currentState sample_pool) 7 \<and> GasLimit t \<le> currentMaxGas sample_pool"
    "pool_inv sample_env p"
    using demoteUnexecutables_executable [OF sample_pool_inv] by blast
  have sub: "u = sample_tx 1 0 100 \<or> u = sample_tx 2 1 100 \<or> u = sample_tx 3 5 90" if "u \<in> set (P_of p 7)" for u
  proof -
    obtain q where q: "demoteUnexecutables sample_env sample_pool = Some q" "shrunk sample_pool q"
      by (rule demoteUnexecutables_ok [OF pool_invD(1) [OF sample_pool_inv]])
    have "A_of p (Hash u) = Some u" by (rule linkD(1) [OF pool_okD(5) [OF pool_invD(1) [OF p(3)]] that])
    with q p(1) have "A_of sample_pool (Hash u) = Some u" by (auto simp: shrunk_def)
    then show ?thesis by (auto simp: sample_pool_def split: if_splits)
  qed
  have "u \<notin> set (P_of p 7)" for u
  proof
    assume u: "u \<in> set (P_of p 7)"
    from bspec [OF p(2) u] have "Cost u \<le> 0" by (simp add: sample_pool_def empty_pool_def)
    with sub [OF u] show False by auto
  qed
  then have "P_of p 7 = []" by (metis list.set_intros(1) neq_Nil_conv)
  with p(1) show ?thesis by blast
qed

text \<open>
  the eviction tick empties exactly the queues of the remote accounts whose heartbeat is older
  than \<open>Lifetime\<close>; no pending transaction and no other queue changes.
\<close>
theorem evict_exact:
  assumes "pool_inv e pool"
  shows "\<exists>pool'. evict e now pool = Some pool' \<and> pool_inv e pool' \<and> P_of pool' = P_of pool \<and>
    (\<forall>a. Q_of pool' a = (if \<not> as_contains (locals pool) a \<and> Lifetime (config pool) < now - heartbeat pool a
                         then [] else Q_of pool a))"
proof -
  obtain pool' where r: "evict e now pool = Some pool'" "pool_ok e {} pool'" "shrunk pool pool'" "P_of pool' = P_of pool"
    "\<forall>b. Q_of pool' b = (if silent pool now b then [] else Q_of pool b)"
    by (rule evict_ok [OF pool_invD(1) [OF assms]])
  then show ?thesis using pool_inv_kept [OF assms r(2) shrunk_kept [OF r(3)]] by blast
qed

theorem evict_exact_witness:
  "\<exists>pool'. evict sample_env (4 * 3600 * second) sample_pool = Some pool' \<and> Q_of pool' 7 = [] \<and>
     P_of pool' 7 = [sample_tx 1 0 100, sample_tx 2 1 100] \<and> Q_of sample_pool 7 = [sample_tx 3 5 90]"
proof -
  obtain p where p: "evict sample_env (4 * 3600 * second) sample_pool = Some p" "P_of p = P_of sample_pool"
    "\<forall>a. Q_of p a = (if \<not> as_contains (locals sample_pool) a \<and>
        Lifetime (config sample_pool) < 4 * 3600 * second - heartbeat sample_pool a then [] else Q_of sample_pool a)"
    using evict_exact [OF sample_pool_inv, of "4 * 3600 * second"] by auto
  have "Q_of p 7 = []"
    using p(3) by (simp add: sample_pool_def empty_pool_def newAccountSet_def as_contains_def heartbeat_def
      DefaultTxPoolConfig_def second_def)
  moreover have "P_of sample_pool 7 = [sample_tx 1 0 100, sample_tx 2 1 100]" "Q_of sample_pool 7 = [sample_tx 3 5 90]"
    by (simp_all add: sample_pool_def txs_at_def two_list one_list)
  ultimately show ?thesis using p(1,2) by simp
qed

text \<open>
  after \<open>SetGasPrice\<close>, every transaction of the pool that is not from a local account pays at
  least the new price; the pool gained nothing and the invariant holds.
\<close>
theorem SetGasPrice_enforced:
  assumes "pool_inv e pool"
  shows "\<exists>pool'. SetGasPrice e price pool = Some pool' \<and> pool_inv e pool' \<and> gasPrice pool' = price \<and>
    (\<forall>h t. Get h pool' = Some t \<longrightarrow>
      Get h pool = Some t \<and> (as_containsTx (sender e) (locals pool) t \<or> price \<le> GasPrice t))"
proof -
  obtain pool' where r: "SetGasPrice e price pool = Some pool'" "pool_ok e {} pool'" "shrunk (pool\<lparr>gasPrice := price\<rparr>) pool'"
    "\<forall>p \<in> set (all pool'). as_containsTx (sender e) (locals pool) (snd p) \<or> price \<le> GasPrice (snd p)"
    by (rule SetGasPrice_ok [OF pool_invD(1) [OF assms]])
  have i: "pool_inv e (pool\<lparr>gasPrice := price\<rparr>)" using assms by (simp add: pool_inv_def)
  have "as_containsTx (sender e) (locals pool) t \<or> price \<le> GasPrice t" if "A_of pool' h = Some t" for h t
    using bspec [OF r(4) map_of_SomeD [OF that]] by simp
  then show ?thesis
    using r(1,3) pool_inv_kept [OF i r(2) shrunk_kept [OF r(3)]]
    by (intro exI [of _ pool']) (simp add: Get_def shrunk_def frame_def)
qed

theorem SetGasPrice_enforced_witness:
  "\<exists>pool'. SetGasPrice sample_env 95 sample_pool = Some pool' \<and> Get 3 sample_pool = Some (sample_tx 3 5 90) \<and> Get 3 pool' = None"
proof -
  obtain p where p: "SetGasPrice sample_env 95 sample_pool = Some p" "\<forall>h t. Get h p = Some t \<longrightarrow>
      Get h sample_pool = Some t \<and> (as_containsTx (sender sample_env) (locals sample_pool) t \<or> 95 \<le> GasPrice t)"
    using SetGasPrice_enforced [OF sample_pool_inv, of 95] by auto
  have g: "Get 3 sample_pool = Some (sample_tx 3 5 90)" by (simp add: Get_def sample_pool_def)
  have "\<not> as_containsTx (sender sample_env) (locals sample_pool) t" for t
    by (simp add: as_containsTx_def as_contains_def sample_pool_def empty_pool_def newAccountSet_def sample_env_def)
  then have "Get 3 p = None" using p(2) g by (cases "Get 3 p") fastforce+
  with p(1) g show ?thesis by blast
qed

section \<open>Additions and removals\<close>



text \<open>
  C30: \<open>removeTx\<close> of the first pending transaction of an account empties the account's pending list
  and leaves every queue as it was, but the later transactions of that list stay in \<open>all\<close>: they are
  in the pool and in no list. The branch that queues the invalidated transactions again is only taken
  when the list is not empty, which it is not in this case.
\<close>
theorem removeTx_strands:
  assumes ok: "pool_inv e pool" and P: "P_of pool a = t # ts"
  shows "\<exists>pool'. removeTx e (Hash t) pool = Some pool' \<and> P_of pool' a = [] \<and> Q_of pool' = Q_of pool \<and>
    (\<forall>u \<in> set ts. Get (Hash u) pool' = Some u \<and> u \<notin> set (Q_of pool' a))"
proof -
  note ok = pool_invD(1) [OF ok]
  note lk = linkD [OF pool_okD(5) [OF ok], where a = a]
  have t: "A_of pool (Hash t) = Some t" using lk(1) [of t] P by simp
  have a: "from_addr e t = a" using pool_ok_from [OF ok] P by auto
  obtain l where l: "map_of (pending pool) a = Some l" using P by (cases "map_of (pending pool) a") (simp_all add: txs_at_def)
  have v: "tl_view l = t # ts" using txs_at_Some [OF l] P by simp
  note lok = lists_okD [OF pool_okD(1) [OF ok] l]
  obtain found invalids l' where r: "tl_Remove t l = Some (found, invalids, l')"
    "found \<longleftrightarrow> (\<exists>u \<in> set (tl_view l). Nonce u = Nonce t)"
    "tl_view l' = (if strict l \<and> found then takeWhile (\<lambda>u. Nonce u < Nonce t) (tl_view l)
                       else filter (\<lambda>u. Nonce u \<noteq> Nonce t) (tl_view l))"
    by (rule tl_Remove_spec [OF lok(1), of t])
  have found: found using r(2) v by simp
  then have "tl_Empty l'" using r(3) v lok(2) by (simp add: tl_Empty_view)
  then have "removeTx e (Hash t) pool = Some (lower_nonce e a (Nonce t) ((drop_all (Hash t) pool)\<lparr>
      pending := AList.delete a (AList.update a l' (pending pool)), beats := AList.delete a (beats pool)\<rparr>))" (is "_ = Some ?p")
    using t l a r(1) found by (simp add: removeTx_def Let_def)
  moreover have "P_of ?p a = []" "Q_of ?p = Q_of pool" "A_of ?p = (A_of pool)(Hash t := None)"
    by (simp_all add: lower_nonce_def)
  moreover have "A_of pool (Hash u) = Some u \<and> u \<notin> set (Q_of pool a) \<and> Hash u \<noteq> Hash t" if "u \<in> set ts" for u
  proof (intro conjI notI)
    show u: "A_of pool (Hash u) = Some u" using lk(1) [of u] P that by simp
    have uP: "u \<in> set (P_of pool a)" using P that by simp
    show False if "u \<in> set (Q_of pool a)" by (rule notE [OF lk(3) [OF uP that] refl])
    assume "Hash u = Hash t"
    then have "Some u = Some t" using u t by metis
    then show False using nonce_sorted_distinct(1) [OF queue_sorted [OF pool_okD(1) [OF ok], of a]] P that by simp
  qed
  ultimately show ?thesis by (intro exI [of _ ?p]) (simp add: Get_def)
qed

theorem removeTx_strands_witness:
  "\<exists>pool'. removeTx sample_env 1 sample_pool = Some pool' \<and> P_of pool' 7 = [] \<and> Get 2 pool' = Some (sample_tx 2 1 100) \<and>
     sample_tx 2 1 100 \<notin> set (Q_of pool' 7)"
proof -
  have "P_of sample_pool 7 = sample_tx 1 0 100 # [sample_tx 2 1 100]" by (simp add: sample_pool_def txs_at_def two_list)
  from removeTx_strands [OF sample_pool_inv this] show ?thesis by auto
qed

section \<open>Chain walks, direct calls, journal\<close>

text \<open>
  C34: the walks of \<open>reset\<close> from the old and the new head to their common ancestor end: with the fuel
  taken from the block numbers, \<open>reinject\<close> returns for any two heads the chain knows.
\<close>
theorem reinject_terminates:
  assumes "env_ok e" "known_head e oh" "known_head e nh"
  shows "\<exists>r. reinject e (Some oh) (Some nh) = Some r"
  using reorg_txs_total [OF assms] by (auto simp: reinject_def)

theorem reinject_terminates_witness:
  "\<exists>r. reinject sample_env (Some sample_block) (Some (sample_block\<lparr>b_hash := 3, b_parent := 2, b_number := 4\<rparr>)) = Some r"
  by (rule reinject_terminates [OF sample_env_ok]) (simp_all add: known_head_def sample_env_def sample_block_def)

text \<open>
  \<open>MarkDirectTx\<close> keeps the set of known direct calls within \<open>maxKnownTxs\<close> and without duplicates,
  and the new hash is in it.
\<close>
theorem MarkDirectTx_bounded:
  assumes "env_ok e" "length (KnownDirectTxs pool) \<le> maxKnownTxs" "distinct (KnownDirectTxs pool)"
  shows "length (KnownDirectTxs (MarkDirectTx e h pool)) \<le> maxKnownTxs \<and> distinct (KnownDirectTxs (MarkDirectTx e h pool)) \<and>
    h \<in> set (KnownDirectTxs (MarkDirectTx e h pool))"
  using MarkDirectTx_known [OF assms(1), of pool h] assms(2,3) by (simp add: known_ok_def)

theorem MarkDirectTx_bounded_witness:
  "length (KnownDirectTxs (MarkDirectTx sample_env 5 sample_pool)) \<le> maxKnownTxs \<and>
   distinct (KnownDirectTxs (MarkDirectTx sample_env 5 sample_pool)) \<and>
   5 \<in> set (KnownDirectTxs (MarkDirectTx sample_env 5 sample_pool))"
  by (rule MarkDirectTx_bounded [OF sample_env_ok]) (simp_all add: sample_pool_def empty_pool_def)

fun insert_each :: "'p env \<Rightarrow> tx list \<Rightarrow> txJournal \<Rightarrow> txJournal" where
  "insert_each e [] j = j"
| "insert_each e (t # ts) j = insert_each e ts (snd (jr_insert e t j))"

lemma insert_each_disk:
  "writer j \<Longrightarrow> disk j = Some us \<Longrightarrow>
   disk (insert_each e ts j) = Some (us @ filter (enc_ok e) ts) \<and> writer (insert_each e ts j)"
  by (induction ts arbitrary: j us) (simp_all add: jr_insert_def)

lemma load_each_collect: "load_each (\<lambda>t s. Some (Inr (), s @ [t])) ts n s = Some (n, s @ ts)"
  by (induction ts arbitrary: s) simp_all

text \<open>
  C35: journal round trip. After a rotation without a failing system call, further inserts and a
  close, \<open>load\<close> hands over exactly the rotated transactions followed by the inserted ones that
  could be encoded, in this order and without an error.
\<close>
theorem journal_roundtrip:
  assumes "list_all (enc_ok e) (concat (map snd m))" "length (concat (map snd m) @ ts) \<le> k"
  shows "fst (jr_rotate e None m j) = Inr () \<and>
    jr_load (\<lambda>t s. Some (Inr (), s @ [t])) k (jr_close (insert_each e ts (snd (jr_rotate e None m j)))) [] =
      Some (Inr (), concat (map snd m) @ filter (enc_ok e) ts)"
proof -
  let ?j = "snd (jr_rotate e None m j)"
  have j: "fst (jr_rotate e None m j) = Inr ()" "writer ?j" "disk ?j = Some (concat (map snd m))"
    using assms(1) by (simp_all add: jr_rotate_def Let_def)
  have "disk (jr_close (insert_each e ts ?j)) = Some (concat (map snd m) @ filter (enc_ok e) ts)"
    using insert_each_disk [OF j(2,3), of e ts] by (simp add: jr_close_def)
  moreover have "length (concat (map snd m) @ filter (enc_ok e) ts) \<le> k"
    using assms(2) length_filter_le [of "enc_ok e" ts] by (simp del: length_filter_le)
  ultimately show ?thesis by (simp add: jr_load_def load_each_collect j(1) not_less)
qed

theorem journal_roundtrip_witness:
  "jr_load (\<lambda>t s. Some (Inr () :: pool_error + unit, s @ [t])) 5 (jr_close (insert_each sample_env [sample_tx 3 5 90]
     (snd (jr_rotate sample_env None (local_txs sample_pool) (newTxJournal None))))) [] = Some (Inr (), [sample_tx 3 5 90])"
proof -
  have m: "local_txs sample_pool = []" by (simp add: local_txs_def sample_pool_def empty_pool_def newAccountSet_def)
  have c: "enc_ok sample_env = (\<lambda>_. True)" by (simp add: sample_env_def)
  have "list_all (enc_ok sample_env) (concat (map snd (local_txs sample_pool)))"
    "length (concat (map snd (local_txs sample_pool)) @ [sample_tx 3 5 90]) \<le> 5" by (simp_all add: m)
  from conjunct2 [OF journal_roundtrip [OF this]] show ?thesis
    by (rule trans) (simp add: m c)
qed

text \<open>
  \<open>PendingByRole\<close> splits every pending list into the calls the relay gives priority and the others:
  every pending transaction is in exactly one part, and each part keeps the order of the list.
\<close>
theorem PendingByRole_partition:
  assumes "relay e = Some prio" "gomap_ok (pending pool)" "map_of (Pending pool) a = Some ts"
  shows "(case map_of (fst (PendingByRole e pool)) a of None \<Rightarrow> [] | Some us \<Rightarrow> us) =
      filter (\<lambda>t. \<exists>to. To t = Some to \<and> 4 \<le> length (Data t) \<and> prio to a (take 4 (Data t))) ts \<and>
    (case map_of (snd (PendingByRole e pool)) a of None \<Rightarrow> [] | Some us \<Rightarrow> us) =
      filter (\<lambda>t. \<forall>to. To t = Some to \<longrightarrow> length (Data t) < 4 \<or> \<not> prio to a (take 4 (Data t))) ts"
proof -
  define high where "high = (\<lambda>a (t :: tx). case To t of None \<Rightarrow> False | Some to \<Rightarrow> 4 \<le> length (Data t) \<and> prio to a (take 4 (Data t)))"
  have high: "high a t \<longleftrightarrow> (\<exists>to. To t = Some to \<and> 4 \<le> length (Data t) \<and> prio to a (take 4 (Data t)))"
    "\<not> high a t \<longleftrightarrow> (\<forall>to. To t = Some to \<longrightarrow> length (Data t) < 4 \<or> \<not> prio to a (take 4 (Data t)))" for a t
    by (auto simp: high_def not_le split: option.splits)
  have part: "(case map_of (filter (\<lambda>p. snd p \<noteq> []) (map (\<lambda>p. (fst p, filter (sel (fst p)) (snd p))) m)) a of
      None \<Rightarrow> [] | Some us \<Rightarrow> us) = filter (sel a) ts" if "distinct (map fst m)" "map_of m a = Some ts"
    for m :: "(address, tx list) gomap" and sel a ts using that
  proof (induction m)
    case (Cons p m)
    show ?case
    proof (cases "fst p = a")
      case True
      then have "a \<notin> fst ` set m" using Cons.prems(1) by auto
      then have "map_of (filter (\<lambda>p. snd p \<noteq> []) (map (\<lambda>p. (fst p, filter (sel (fst p)) (snd p))) m)) a = None"
        by (force simp: map_of_eq_None_iff)
      then show ?thesis using Cons.prems(2) True by (cases p) simp
    qed (use Cons in \<open>cases p; auto\<close>)
  qed simp
  have d: "distinct (map fst (Pending pool))" using assms(2) by (simp add: Pending_def flatten_all_def gomap_ok_def comp_def)
  have "PendingByRole e pool = (filter (\<lambda>p. snd p \<noteq> []) (map (\<lambda>p. (fst p, filter (high (fst p)) (snd p))) (Pending pool)),
      filter (\<lambda>p. snd p \<noteq> []) (map (\<lambda>p. (fst p, filter (\<lambda>t. \<not> high (fst p) t) (snd p))) (Pending pool)))"
    using assms(1) by (simp add: PendingByRole_def Pending_def high_def Let_def)
  with part [OF d assms(3)] show ?thesis unfolding high [symmetric] by simp
qed

theorem PendingByRole_partition_witness:
  "case map_of (snd (PendingByRole (sample_env\<lparr>relay := Some (\<lambda>to a d. True)\<rparr>) sample_pool)) 7 of
     None \<Rightarrow> False | Some us \<Rightarrow> us = [sample_tx 1 0 100, sample_tx 2 1 100]"
proof -
  let ?e = "sample_env\<lparr>relay := Some (\<lambda>to a d. True)\<rparr>"
  have P: "map_of (Pending sample_pool) 7 = Some [sample_tx 1 0 100, sample_tx 2 1 100]"
    by (simp add: Pending_def flatten_all_def sample_pool_def tl_Flatten_spec two_list)
  show ?thesis using PendingByRole_partition [of ?e "\<lambda>to a d. True", OF _ _ P]
    by (auto simp: sample_pool_def gomap_ok_def sample_tx_def split: option.splits)
qed

end
