(* ===== verification/Header.thy ===== *)
theory Header
  imports Prelude
begin

text \<open>
  The data of a block header (\<open>types.Header\<close> of the library) as the consensus engines, the validator
  and the chain read it. The hash of a header is library code: where it is needed it is an argument.
\<close>

record header =
  ParentHash :: hash
  UncleHash :: hash
  h_coinbase :: address
  h_root :: hash
  h_difficulty :: bigint
  h_number :: bigint
  h_gasLimit :: bigint
  h_gasUsed :: bigint
  h_time :: bigint
  h_extra :: "byte list"
  MixDigest :: hash
  h_nonce :: "byte list"

text \<open>\<open>x.Uint64()\<close> of a big integer reads the low 64 bits of its magnitude.\<close>

definition low64 :: "bigint \<Rightarrow> uint64" where
  "low64 x = word_of_int \<bar>x\<bar>"

lemma uint_low64: "0 \<le> x \<Longrightarrow> x < 2 ^ 64 \<Longrightarrow> uint (low64 x) = x"
  by (simp add: low64_def uint_word_of_int take_bit_int_eq_self)

end
