(* ===== verification/CliqueSnapshot.thy ===== *)
theory CliqueSnapshot
  imports Header
begin

text \<open>
  \<open>consensus/clique/snapshot.go\<close>: the voting state of the proof-of-authority engine. A snapshot is the
  record \<open>Snapshot\<close>; the set of signers is a list without duplicates, the maps are association lists.
  Recovering the signer of a header and its hash are library code, fields of \<open>clique\<close>; the engine's
  cache of recovered signatures holds results of the same function and has no counterpart.
\<close>

section \<open>State\<close>

datatype clique_error =
    errUnknownBlock | errInvalidCheckpointBeneficiary | errInvalidVote | errInvalidCheckpointVote
  | errMissingVanity | errMissingSignature | errExtraSigners | errInvalidCheckpointSigners
  | errInvalidMixDigest | errInvalidUncleHash | errInvalidDifficulty | ErrInvalidTimestamp
  | errInvalidVotingChain | errUnauthorized | ErrFutureBlock | ErrUnknownAncestor | errRecover
  | errUnclesNotAllowed | errStore | errSign

record Vote =
  v_signer :: address
  v_block :: uint64
  v_address :: address
  v_authorize :: bool

record Tally =
  t_authorize :: bool
  t_votes :: nat

record Snapshot =
  Number :: uint64
  s_hash :: hash
  Signers :: "address list"
  Recents :: "(uint64, address) gomap"
  Votes :: "Vote list"
  s_tally :: "(address, Tally) gomap"

record clique =
  Epoch :: uint64
  Period :: uint64
  Ecrecover :: "header \<Rightarrow> address option"
  HeaderHash :: "header \<Rightarrow> hash"
  emptyUncleHash :: hash

definition extraVanity :: nat where "extraVanity = 32"
definition extraSeal :: nat where "extraSeal = 65"

definition nonceAuthVote :: "byte list" where "nonceAuthVote = replicate 8 0xff"
definition nonceDropVote :: "byte list" where "nonceDropVote = replicate 8 0"

definition ecrecover :: "clique \<Rightarrow> header \<Rightarrow> clique_error + address" where
  "ecrecover c header =
     (if length (h_extra header) < extraSeal then Inl errMissingSignature
      else case Ecrecover c header of None \<Rightarrow> Inl errRecover | Some a \<Rightarrow> Inr a)"

definition newSnapshot :: "uint64 \<Rightarrow> hash \<Rightarrow> address list \<Rightarrow> Snapshot" where
  "newSnapshot number h signers = \<lparr>Number = number, s_hash = h, Signers = remdups signers, Recents = [], Votes = [], s_tally = []\<rparr>"

section \<open>Votes\<close>

definition validVote :: "address \<Rightarrow> bool \<Rightarrow> Snapshot \<Rightarrow> bool" where
  "validVote address authorize s =
     (let signer = address \<in> set (Signers s) in (signer \<and> \<not> authorize) \<or> (\<not> signer \<and> authorize))"

definition cast :: "address \<Rightarrow> bool \<Rightarrow> Snapshot \<Rightarrow> bool \<times> Snapshot" where
  "cast address authorize s =
     (if \<not> validVote address authorize s then (False, s)
      else (True, s\<lparr>s_tally := AList.update address
        (case map_of (s_tally s) address of
           Some old \<Rightarrow> old\<lparr>t_votes := Suc (t_votes old)\<rparr>
         | None \<Rightarrow> \<lparr>t_authorize = authorize, t_votes = 1\<rparr>) (s_tally s)\<rparr>))"

definition uncast :: "address \<Rightarrow> bool \<Rightarrow> Snapshot \<Rightarrow> bool \<times> Snapshot" where
  "uncast address authorize s =
     (case map_of (s_tally s) address of
        None \<Rightarrow> (False, s)
      | Some tally \<Rightarrow>
          if t_authorize tally \<noteq> authorize then (False, s)
          else if 1 < t_votes tally
          then (True, s\<lparr>s_tally := AList.update address (tally\<lparr>t_votes := t_votes tally - 1\<rparr>) (s_tally s)\<rparr>)
          else (True, s\<lparr>s_tally := AList.delete address (s_tally s)\<rparr>))"

section \<open>Applying headers\<close>

definition signer_limit :: "Snapshot \<Rightarrow> uint64" where
  "signer_limit s = of_nat (length (Signers s) div 2 + 1)"

definition drop_recent :: "uint64 \<Rightarrow> Snapshot \<Rightarrow> Snapshot" where
  "drop_recent number s =
     (if signer_limit s \<le> number then s\<lparr>Recents := AList.delete (number - signer_limit s) (Recents s)\<rparr> else s)"

text \<open>The three loops over the votes: the signer's previous vote on the account, all votes of a
  removed signer, all votes about the account just changed.\<close>

fun discard_prev :: "address \<Rightarrow> address \<Rightarrow> Vote list \<Rightarrow> Snapshot \<Rightarrow> Vote list \<times> Snapshot" where
  "discard_prev signer addr [] s = ([], s)"
| "discard_prev signer addr (v # vs) s =
     (if v_signer v = signer \<and> v_address v = addr
      then (vs, snd (uncast (v_address v) (v_authorize v) s))
      else case discard_prev signer addr vs s of (vs', s') \<Rightarrow> (v # vs', s'))"

fun discard_signer :: "address \<Rightarrow> Vote list \<Rightarrow> Snapshot \<Rightarrow> Vote list \<times> Snapshot" where
  "discard_signer signer [] s = ([], s)"
| "discard_signer signer (v # vs) s =
     (if v_signer v = signer then discard_signer signer vs (snd (uncast (v_address v) (v_authorize v) s))
      else case discard_signer signer vs s of (vs', s') \<Rightarrow> (v # vs', s'))"

definition vote_of :: "byte list \<Rightarrow> clique_error + bool" where
  "vote_of nonce =
     (if nonce = nonceAuthVote then Inr True else if nonce = nonceDropVote then Inr False else Inl errInvalidVote)"

definition record_vote :: "address \<Rightarrow> uint64 \<Rightarrow> address \<Rightarrow> bool \<Rightarrow> Snapshot \<Rightarrow> Snapshot" where
  "record_vote signer number addr authorize s =
     (case cast addr authorize s of
        (True, s') \<Rightarrow> s'\<lparr>Votes := Votes s' @ [\<lparr>v_signer = signer, v_block = number, v_address = addr, v_authorize = authorize\<rparr>]\<rparr>
      | (False, s') \<Rightarrow> s')"

definition settle_vote :: "uint64 \<Rightarrow> address \<Rightarrow> Snapshot \<Rightarrow> Snapshot" where
  "settle_vote number addr s =
     (case map_of (s_tally s) addr of
        None \<Rightarrow> s
      | Some tally \<Rightarrow>
          if length (Signers s) div 2 < t_votes tally then
            let s1 = (if t_authorize tally then s\<lparr>Signers := List.insert addr (Signers s)\<rparr>
                      else let s' = drop_recent number (s\<lparr>Signers := removeAll addr (Signers s)\<rparr>)
                           in case discard_signer addr (Votes s') s' of (vs, s'') \<Rightarrow> s''\<lparr>Votes := vs\<rparr>)
            in s1\<lparr>Votes := filter (\<lambda>v. v_address v \<noteq> addr) (Votes s1), s_tally := AList.delete addr (s_tally s1)\<rparr>
          else s)"

definition apply_header :: "clique \<Rightarrow> Snapshot \<Rightarrow> header \<Rightarrow> clique_error + Snapshot" where
  "apply_header c snap header =
     (let number = low64 (h_number header);
          s1 = (if number mod Epoch c = 0 then snap\<lparr>Votes := [], s_tally := []\<rparr> else snap);
          s2 = drop_recent number s1
      in case ecrecover c header of
           Inl err \<Rightarrow> Inl err
         | Inr signer \<Rightarrow>
             if signer \<notin> set (Signers s2) then Inl errUnauthorized
             else if signer \<in> snd ` set (Recents s2) then Inl errUnauthorized
             else let s3 = s2\<lparr>Recents := AList.update number signer (Recents s2)\<rparr>;
                      (vs, s4) = discard_prev signer (h_coinbase header) (Votes s3) s3
                  in case vote_of (h_nonce header) of
                       Inl err \<Rightarrow> Inl err
                     | Inr authorize \<Rightarrow>
                         Inr (settle_vote number (h_coinbase header)
                           (record_vote signer number (h_coinbase header) authorize (s4\<lparr>Votes := vs\<rparr>))))"

fun apply_each :: "clique \<Rightarrow> Snapshot \<Rightarrow> header list \<Rightarrow> clique_error + Snapshot" where
  "apply_each c snap [] = Inr snap"
| "apply_each c snap (h # hs) =
     (case apply_header c snap h of Inl err \<Rightarrow> Inl err | Inr snap' \<Rightarrow> apply_each c snap' hs)"

fun contiguous :: "header list \<Rightarrow> bool" where
  "contiguous (h1 # h2 # hs) \<longleftrightarrow> low64 (h_number h2) = low64 (h_number h1) + 1 \<and> contiguous (h2 # hs)"
| "contiguous hs \<longleftrightarrow> True"

definition apply_headers :: "clique \<Rightarrow> Snapshot \<Rightarrow> header list \<Rightarrow> clique_error + Snapshot" where
  "apply_headers c s headers =
     (if headers = [] then Inr s
      else if \<not> contiguous headers then Inl errInvalidVotingChain
      else if low64 (h_number (hd headers)) \<noteq> Number s + 1 then Inl errInvalidVotingChain
      else case apply_each c s headers of
             Inl err \<Rightarrow> Inl err
           | Inr snap \<Rightarrow> Inr (snap\<lparr>Number := Number snap + of_nat (length headers), s_hash := HeaderHash c (last headers)\<rparr>))"

section \<open>Order of the signers\<close>

definition sort_pass :: "nat \<Rightarrow> address list \<Rightarrow> address list" where
  "sort_pass i xs = foldl (\<lambda>xs j. if xs ! j < xs ! i then swap i j xs else xs) xs [i + 1..<length xs]"

definition sorted_signers :: "Snapshot \<Rightarrow> address list" where
  "sorted_signers s = foldl (\<lambda>xs i. sort_pass i xs) (Signers s) [0..<length (Signers s)]"

text \<open>\<open>inturn\<close> divides by the number of signers: without signers it panics.\<close>

fun offset_of :: "address \<Rightarrow> address list \<Rightarrow> nat" where
  "offset_of a [] = 0"
| "offset_of a (x # xs) = (if x = a then 0 else Suc (offset_of a xs))"

definition inturn :: "uint64 \<Rightarrow> address \<Rightarrow> Snapshot \<Rightarrow> bool option" where
  "inturn number signer s =
     (let ss = sorted_signers s
      in if ss = [] then None else Some (number mod of_nat (length ss) = of_nat (offset_of signer ss)))"

section \<open>The exchange sort\<close>

lemma sort_pass_ok:
  assumes "i < length xs"
  shows "mset (sort_pass i xs) = mset xs" "length (sort_pass i xs) = length xs" "take i (sort_pass i xs) = take i xs"
    "\<forall>k. i < k \<longrightarrow> k < length xs \<longrightarrow> sort_pass i xs ! i \<le> sort_pass i xs ! k"
proof -
  let ?f = "\<lambda>xs j. if xs ! j < xs ! i then swap i j xs else (xs :: address list)"
  have "mset (foldl ?f xs [i + 1..<m]) = mset xs \<and> length (foldl ?f xs [i + 1..<m]) = length xs \<and>
      take i (foldl ?f xs [i + 1..<m]) = take i xs \<and>
      (\<forall>k. i < k \<longrightarrow> k < m \<longrightarrow> foldl ?f xs [i + 1..<m] ! i \<le> foldl ?f xs [i + 1..<m] ! k)"
    if "m \<le> length xs" for m using that
  proof (induction m)
    case (Suc m)
    show ?case
    proof (cases "i + 1 \<le> m")
      case True
      define ys where "ys = foldl ?f xs [i + 1..<m]"
      have ys: "mset ys = mset xs" "length ys = length xs" "take i ys = take i xs" "\<forall>k. i < k \<longrightarrow> k < m \<longrightarrow> ys ! i \<le> ys ! k"
        using Suc by (simp_all add: ys_def)
      have eq: "foldl ?f xs [i + 1..<Suc m] = ?f ys m" using True by (simp add: ys_def)
      have m: "m < length ys" "i < length ys" using Suc.prems assms ys(2) by simp_all
      have n: "swap i m ys ! k = (if k = m then ys ! i else if k = i then ys ! m else ys ! k)" if "k < length ys" for k
        using nth_swap [OF m(2,1) that] .
      have t: "take i (swap i m ys) = take i ys"
        using True m by (intro nth_equalityI) (simp_all add: n)
      show ?thesis
      proof (cases "ys ! m < ys ! i")
        case lt: True
        have "swap i m ys ! i \<le> swap i m ys ! k" if "i < k" "k < Suc m" for k
        proof -
          have k: "k < length ys" using that m by simp
          show ?thesis
          proof (cases "k = m")
            case False
            then have "ys ! i \<le> ys ! k" using ys(4) that by simp
            then have "ys ! m \<le> ys ! k" using lt by order
            then show ?thesis using n [OF k] n [OF m(2)] False that True by simp
          qed (use n [OF k] n [OF m(2)] lt True in simp)
        qed
        then show ?thesis unfolding eq using lt ys m t by simp
      next
        case False
        then have "\<forall>k. i < k \<longrightarrow> k < Suc m \<longrightarrow> ys ! i \<le> ys ! k" using ys(4) by (auto simp: less_Suc_eq not_less)
        then show ?thesis unfolding eq using False ys by simp
      qed
    qed (use assms in simp)
  qed simp
  from this [of "length xs"] show "mset (sort_pass i xs) = mset xs" "length (sort_pass i xs) = length xs"
    "take i (sort_pass i xs) = take i xs" "\<forall>k. i < k \<longrightarrow> k < length xs \<longrightarrow> sort_pass i xs ! i \<le> sort_pass i xs ! k"
    by (simp_all add: sort_pass_def)
qed

lemma sorted_signers_fold:
  "m \<le> length xs \<Longrightarrow> mset (foldl (\<lambda>xs i. sort_pass i xs) xs [0..<m]) = mset xs \<and>
     length (foldl (\<lambda>xs i. sort_pass i xs) xs [0..<m]) = length xs \<and>
     (\<forall>i < m. \<forall>k. i < k \<longrightarrow> k < length xs \<longrightarrow>
        foldl (\<lambda>xs i. sort_pass i xs) xs [0..<m] ! i \<le> foldl (\<lambda>xs i. sort_pass i xs) xs [0..<m] ! k)"
proof (induction m)
  case (Suc m)
  define ys where "ys = foldl (\<lambda>xs i. sort_pass i xs) xs [0..<m]"
  have ys: "mset ys = mset xs" "length ys = length xs" "\<forall>i < m. \<forall>k. i < k \<longrightarrow> k < length xs \<longrightarrow> ys ! i \<le> ys ! k"
    using Suc by (simp_all add: ys_def)
  have eq: "foldl (\<lambda>xs i. sort_pass i xs) xs [0..<Suc m] = sort_pass m ys" by (simp add: ys_def)
  have m: "m < length ys" using Suc.prems ys(2) by simp
  note p = sort_pass_ok [OF m]
  have d: "mset (drop m (sort_pass m ys)) = mset (drop m ys)"
  proof -
    have "mset (take m ys) + mset (drop m (sort_pass m ys)) = mset (take m (sort_pass m ys) @ drop m (sort_pass m ys))"
      unfolding mset_append p(3) ..
    also have "\<dots> = mset (take m ys) + mset (drop m ys)"
      unfolding append_take_drop_id p(1) mset_append [symmetric] ..
    finally show ?thesis by simp
  qed
  have "sort_pass m ys ! i \<le> sort_pass m ys ! k" if "i < Suc m" "i < k" "k < length xs" for i k
  proof (cases "i = m")
    case False
    have i: "i < m" using that(1) False by simp
    have pi: "sort_pass m ys ! i = ys ! i" using p(3) i m by (metis nth_take)
    show ?thesis
    proof (cases "k < m")
      case True
      then have "sort_pass m ys ! k = ys ! k" using p(3) by (metis nth_take)
      with pi ys(3) i that show ?thesis by simp
    next
      case False
      have "sort_pass m ys ! k \<in> set (drop m (sort_pass m ys))"
        using that(3) False p(2) ys(2) by (auto simp: in_set_conv_nth intro!: exI [of _ "k - m"])
      then have "sort_pass m ys ! k \<in> set (drop m ys)" using mset_eq_setD [OF d] by simp
      then obtain k' where "k' < length (drop m ys)" "drop m ys ! k' = sort_pass m ys ! k" unfolding in_set_conv_nth by blast
      then have "m + k' < length ys" "sort_pass m ys ! k = ys ! (m + k')" using m by simp_all
      with pi ys(2,3) i show ?thesis by simp
    qed
  qed (use p(4) that ys(2) in simp)
  then show ?case unfolding eq using p(1,2) ys by simp
qed simp

lemma sorted_signers_sort: "sorted_signers s = sort (Signers s)"
proof -
  note f = sorted_signers_fold [OF le_refl, of "Signers s"]
  have "sorted (sorted_signers s)"
    using f unfolding sorted_signers_def sorted_iff_nth_mono_less by simp
  moreover have "mset (sorted_signers s) = mset (Signers s)" using f by (simp add: sorted_signers_def)
  ultimately show ?thesis by (simp add: properties_for_sort)
qed

section \<open>Votes and tally agree\<close>

definition votes_on :: "address \<Rightarrow> Vote list \<Rightarrow> Vote list" where
  "votes_on a vs = filter (\<lambda>v. v_address v = a) vs"

definition tally_of :: "(address \<Rightarrow> bool) \<Rightarrow> Vote list \<Rightarrow> address \<Rightarrow> Tally option" where
  "tally_of A vs a = (if votes_on a vs = [] then None else Some \<lparr>t_authorize = A a, t_votes = length (votes_on a vs)\<rparr>)"

text \<open>\<open>A\<close> is the direction of the votes on an account: to authorize it where it is not a signer.\<close>

definition tally_ok :: "(address \<Rightarrow> bool) \<Rightarrow> Vote list \<Rightarrow> Snapshot \<Rightarrow> bool" where
  "tally_ok A vs s \<longleftrightarrow> (\<forall>v \<in> set vs. v_authorize v = A (v_address v)) \<and> (\<forall>a. map_of (s_tally s) a = tally_of A vs a) \<and>
     gomap_ok (s_tally s)"

definition same_but_tally :: "Snapshot \<Rightarrow> Snapshot \<Rightarrow> bool" where
  "same_but_tally s s' \<longleftrightarrow> Number s' = Number s \<and> s_hash s' = s_hash s \<and> Signers s' = Signers s \<and> Recents s' = Recents s \<and>
     Votes s' = Votes s"

lemma votes_on_simps [simp]:
  "votes_on a [] = []" "votes_on a (v # vs) = (if v_address v = a then v # votes_on a vs else votes_on a vs)"
  "votes_on a (vs @ ws) = votes_on a vs @ votes_on a ws"
  by (simp_all add: votes_on_def)

lemma uncast_ok:
  assumes ok: "tally_ok A (us @ v # vs) s"
  shows "tally_ok A (us @ vs) (snd (uncast (v_address v) (v_authorize v) s))"
    "same_but_tally s (snd (uncast (v_address v) (v_authorize v) s))"
proof -
  let ?a = "v_address v"
  have T: "map_of (s_tally s) a = tally_of A (us @ v # vs) a" for a using ok by (simp add: tally_ok_def)
  have va: "v_authorize v = A ?a" using ok by (simp add: tally_ok_def)
  have t: "map_of (s_tally s) ?a = Some \<lparr>t_authorize = A ?a, t_votes = Suc (length (votes_on ?a (us @ vs)))\<rparr>"
    using T [of ?a] by (simp add: tally_of_def)
  have other: "tally_of A (us @ v # vs) a = tally_of A (us @ vs) a" if "a \<noteq> ?a" for a using that by (simp add: tally_of_def)
  show "tally_ok A (us @ vs) (snd (uncast ?a (v_authorize v) s))"
    using ok t T other va
    by (auto simp: uncast_def tally_ok_def AList.update_conv' AList.delete_conv' tally_of_def)
  show "same_but_tally s (snd (uncast ?a (v_authorize v) s))"
    by (simp add: uncast_def same_but_tally_def split: option.splits)
qed

lemma same_but_tally_trans: "same_but_tally s t \<Longrightarrow> same_but_tally t u \<Longrightarrow> same_but_tally s u"
  by (simp add: same_but_tally_def)

lemma discard_signer_ok:
  "tally_ok A (us @ vs) s \<Longrightarrow> discard_signer a vs s = (vs', s') \<Longrightarrow>
   vs' = filter (\<lambda>v. v_signer v \<noteq> a) vs \<and> tally_ok A (us @ vs') s' \<and> same_but_tally s s'"
proof (induction vs arbitrary: us s vs' s')
  case (Cons v vs)
  show ?case
  proof (cases "v_signer v = a")
    case True
    note u = uncast_ok [OF Cons.prems(1)]
    have "discard_signer a vs (snd (uncast (v_address v) (v_authorize v) s)) = (vs', s')" using Cons.prems(2) True by simp
    from Cons.IH [OF u(1) this] True same_but_tally_trans [OF u(2)] show ?thesis by auto
  next
    case False
    obtain ws t where w: "discard_signer a vs s = (ws, t)" by (rule prod.exhaust)
    with Cons.prems(2) False have "vs' = v # ws" "s' = t" by auto
    with Cons.IH [of "us @ [v]", OF _ w] Cons.prems(1) False show ?thesis by auto
  qed
qed (simp add: same_but_tally_def)

lemma discard_prev_ok:
  "tally_ok A (us @ vs) s \<Longrightarrow> discard_prev a b vs s = (vs', s') \<Longrightarrow> distinct (map (\<lambda>v. (v_signer v, v_address v)) vs) \<Longrightarrow>
   vs' = filter (\<lambda>v. \<not> (v_signer v = a \<and> v_address v = b)) vs \<and> tally_ok A (us @ vs') s' \<and> same_but_tally s s'"
proof (induction vs arbitrary: us s vs' s')
  case (Cons v vs)
  show ?case
  proof (cases "v_signer v = a \<and> v_address v = b")
    case True
    note u = uncast_ok [OF Cons.prems(1)]
    have "vs' = vs" "s' = snd (uncast (v_address v) (v_authorize v) s)" using Cons.prems(2) True by auto
    moreover have "filter (\<lambda>v. \<not> (v_signer v = a \<and> v_address v = b)) vs = vs"
    proof (rule filter_True, rule ballI)
      fix w assume "w \<in> set vs"
      moreover have "(a, b) \<notin> (\<lambda>v. (v_signer v, v_address v)) ` set vs" using Cons.prems(3) True by simp
      ultimately show "\<not> (v_signer w = a \<and> v_address w = b)" by (metis (mono_tags, lifting) image_eqI)
    qed
    ultimately show ?thesis using u True by simp
  next
    case False
    obtain ws t where w: "discard_prev a b vs s = (ws, t)" by (rule prod.exhaust)
    with Cons.prems(2) False have "vs' = v # ws" "s' = t" by (auto split: if_splits)
    with Cons.IH [of "us @ [v]", OF _ w] Cons.prems(1,3) False show ?thesis by auto
  qed
qed (simp add: same_but_tally_def)

section \<open>The invariant\<close>

text \<open>
  Every vote is from a signer, goes in the only direction that makes sense, and is the only one of
  its signer on its account; the tally counts the votes. The recent signers are those of the last
  blocks, fewer than the limit: their numbers are above \<open>n - limit\<close> and no signer is there twice.
\<close>

definition votes_ok :: "Snapshot \<Rightarrow> bool" where
  "votes_ok s \<longleftrightarrow> distinct (Signers s) \<and> tally_ok (\<lambda>a. a \<notin> set (Signers s)) (Votes s) s \<and>
     (\<forall>v \<in> set (Votes s). v_signer v \<in> set (Signers s)) \<and> distinct (map (\<lambda>v. (v_signer v, v_address v)) (Votes s))"

definition recents_ok :: "nat \<Rightarrow> Snapshot \<Rightarrow> bool" where
  "recents_ok n s \<longleftrightarrow> distinct (map fst (Recents s)) \<and> distinct (map snd (Recents s)) \<and>
     (\<forall>p \<in> set (Recents s). unat (fst p) \<le> n \<and> n < unat (fst p) + (length (Signers s) div 2 + 1))"

definition snap_ok :: "Snapshot \<Rightarrow> bool" where
  "snap_ok s \<longleftrightarrow> votes_ok s \<and> recents_ok (unat (Number s)) s"

lemma tally_ok_cong: "s_tally s' = s_tally s \<Longrightarrow> tally_ok A vs s' = tally_ok A vs s"
  by (simp add: tally_ok_def)

lemma record_vote_ok:
  assumes ok: "votes_ok s" and sg: "sg \<in> set (Signers s)" and new: "(sg, a) \<notin> (\<lambda>v. (v_signer v, v_address v)) ` set (Votes s)"
  shows "votes_ok (record_vote sg n a b s)" "Signers (record_vote sg n a b s) = Signers s" "Recents (record_vote sg n a b s) = Recents s"
    "Votes (record_vote sg n a b s) = Votes s @ (if validVote a b s
       then [\<lparr>v_signer = sg, v_block = n, v_address = a, v_authorize = b\<rparr>] else [])"
    "Number (record_vote sg n a b s) = Number s"
proof -
  show r: "Signers (record_vote sg n a b s) = Signers s" "Recents (record_vote sg n a b s) = Recents s"
    "Number (record_vote sg n a b s) = Number s"
    "Votes (record_vote sg n a b s) = Votes s @ (if validVote a b s
       then [\<lparr>v_signer = sg, v_block = n, v_address = a, v_authorize = b\<rparr>] else [])"
    by (simp_all add: record_vote_def cast_def)
  show "votes_ok (record_vote sg n a b s)"
  proof (cases "validVote a b s")
    case True
    then have b: "b = (a \<notin> set (Signers s))" by (auto simp: validVote_def Let_def)
    have T: "map_of (s_tally s) x = tally_of (\<lambda>a. a \<notin> set (Signers s)) (Votes s) x" for x
      using ok by (simp add: votes_ok_def tally_ok_def)
    have "s_tally (record_vote sg n a b s) = AList.update a (case map_of (s_tally s) a of
        Some old \<Rightarrow> old\<lparr>t_votes := Suc (t_votes old)\<rparr> | None \<Rightarrow> \<lparr>t_authorize = b, t_votes = 1\<rparr>) (s_tally s)"
      using True by (simp add: record_vote_def cast_def)
    then show ?thesis using ok sg new r True b T
      by (auto simp: votes_ok_def tally_ok_def AList.update_conv' tally_of_def image_iff)
  next
    case False
    then have "record_vote sg n a b s = s" by (simp add: record_vote_def cast_def)
    then show ?thesis using ok by simp
  qed
qed

lemma drop_recent_sel [simp]:
  "Number (drop_recent n s) = Number s" "s_hash (drop_recent n s) = s_hash s" "Signers (drop_recent n s) = Signers s"
  "Votes (drop_recent n s) = Votes s" "s_tally (drop_recent n s) = s_tally s"
  by (simp_all add: drop_recent_def)

lemma unat_limit:
  "length (Signers s) < 2 ^ 64 \<Longrightarrow> unat (signer_limit s) = length (Signers s) div 2 + 1"
  unfolding signer_limit_def by (subst unat_of_nat) simp

text \<open>Deleting the entry that falls out of the window of the limit.\<close>

lemma drop_recent_ok:
  assumes d: "distinct (map fst (Recents s))" "distinct (map snd (Recents s))"
    and w: "\<forall>p \<in> set (Recents s). unat (fst p) \<le> unat n \<and> unat n \<le> unat (fst p) + (length (Signers s) div 2 + 1)"
    and len: "length (Signers s) < 2 ^ 64"
  shows "recents_ok (unat n) (drop_recent n s)" "set (Recents (drop_recent n s)) \<subseteq> set (Recents s)"
    "\<forall>p \<in> set (Recents s). fst p + signer_limit s = n \<or> p \<in> set (Recents (drop_recent n s))"
proof -
  note lim = unat_limit [OF len]
  have dist: "distinct (map fst (filter P (Recents s)))" "distinct (map snd (filter P (Recents s)))" for P
    using d by (simp_all add: distinct_map_filter)
  show "set (Recents (drop_recent n s)) \<subseteq> set (Recents s)" by (simp add: drop_recent_def set_delete_subset)
  show "\<forall>p \<in> set (Recents s). fst p + signer_limit s = n \<or> p \<in> set (Recents (drop_recent n s))"
    by (auto simp: drop_recent_def delete_as_filter)
  show "recents_ok (unat n) (drop_recent n s)"
  proof (cases "signer_limit s \<le> n")
    case True
    then have u: "unat (n - signer_limit s) = unat n - (length (Signers s) div 2 + 1)" using lim by (simp add: unat_sub)
    have le: "length (Signers s) div 2 + 1 \<le> unat n" using True lim by (simp add: word_le_nat_alt)
    have "unat n < unat (fst p) + (length (Signers s) div 2 + 1)" if "p \<in> set (Recents s)" "fst p \<noteq> n - signer_limit s" for p
    proof -
      have "unat (fst p) \<noteq> unat n - (length (Signers s) div 2 + 1)" using that(2) u by (metis word_unat_eq_iff)
      with bspec [OF w that(1)] le show ?thesis by linarith
    qed
    then show ?thesis using True w dist by (simp add: recents_ok_def drop_recent_def delete_as_filter)
  next
    case False
    then have "unat n < length (Signers s) div 2 + 1" using lim by (simp add: word_le_nat_alt not_le)
    then show ?thesis using False w d by (auto simp: recents_ok_def drop_recent_def)
  qed
qed

lemma tally_ok_close:
  assumes "tally_ok A vs s" and "\<And>x. x \<noteq> a \<Longrightarrow> A x = B x"
  shows "tally_ok B (filter (\<lambda>v. v_address v \<noteq> a) vs) (s\<lparr>s_tally := AList.delete a (s_tally s)\<rparr>)"
proof -
  have on: "votes_on x (filter (\<lambda>v. v_address v \<noteq> a) vs) = (if x = a then [] else votes_on x vs)" for x
    by (auto simp: votes_on_def intro: filter_cong)
  show ?thesis using assms by (auto simp: tally_ok_def tally_of_def on AList.delete_conv')
qed

lemma settle_vote_ok:
  assumes v: "votes_ok s" and r: "recents_ok (unat n) s" and len: "length (Signers s) < 2 ^ 64"
  shows "votes_ok (settle_vote n a s)" "recents_ok (unat n) (settle_vote n a s)" "Number (settle_vote n a s) = Number s"
    "length (Signers (settle_vote n a s)) \<le> Suc (length (Signers s))"
    "Signers (settle_vote n a s) = Signers s \<or>
       (\<exists>t. map_of (s_tally s) a = Some t \<and> length (Signers s) div 2 < t_votes t \<and>
          set (Signers (settle_vote n a s)) = (if t_authorize t then insert a (set (Signers s)) else set (Signers s) - {a}))"
proof -
  let ?s' = "settle_vote n a s" and ?A = "\<lambda>a. a \<notin> set (Signers s)"
  have d: "distinct (Signers s)" and T: "tally_ok ?A (Votes s) s" and sg: "\<forall>v \<in> set (Votes s). v_signer v \<in> set (Signers s)"
    and dv: "distinct (map (\<lambda>v. (v_signer v, v_address v)) (Votes s))" using v by (simp_all add: votes_ok_def)
  have "votes_ok ?s' \<and> recents_ok (unat n) ?s' \<and> Number ?s' = Number s \<and> length (Signers ?s') \<le> Suc (length (Signers s)) \<and>
    (Signers ?s' = Signers s \<or> (\<exists>t. map_of (s_tally s) a = Some t \<and> length (Signers s) div 2 < t_votes t \<and>
       set (Signers ?s') = (if t_authorize t then insert a (set (Signers s)) else set (Signers s) - {a})))"
  proof (cases "\<exists>t. map_of (s_tally s) a = Some t \<and> length (Signers s) div 2 < t_votes t")
    case False
    then have "?s' = s" by (auto simp: settle_vote_def split: option.splits)
    then show ?thesis using v r by simp
  next
    case True
    then obtain t where t: "map_of (s_tally s) a = Some t" "length (Signers s) div 2 < t_votes t" by blast
    have ta: "t_authorize t = (a \<notin> set (Signers s))"
      using T t(1) by (auto simp: tally_ok_def tally_of_def split: if_splits)
    show ?thesis
    proof (cases "t_authorize t")
      case auth: True
      then have a: "a \<notin> set (Signers s)" using ta by simp
      have eq: "?s' = s\<lparr>Signers := a # Signers s, Votes := filter (\<lambda>v. v_address v \<noteq> a) (Votes s),
          s_tally := AList.delete a (s_tally s)\<rparr>"
        using t auth a by (simp add: settle_vote_def Let_def List.insert_def)
      have "tally_ok (\<lambda>x. x \<notin> set (a # Signers s)) (filter (\<lambda>v. v_address v \<noteq> a) (Votes s)) (s\<lparr>s_tally := AList.delete a (s_tally s)\<rparr>)"
        by (rule tally_ok_close [OF T]) simp
      then have "votes_ok ?s'" unfolding eq using d a sg dv by (simp add: votes_ok_def tally_ok_def distinct_map_filter)
      moreover have "recents_ok (unat n) ?s'" using r unfolding eq recents_ok_def by fastforce
      ultimately show ?thesis unfolding eq using t auth a by simp
    next
      case drop: False
      then have a: "a \<in> set (Signers s)" using ta by simp
      define s1 where "s1 = s\<lparr>Signers := removeAll a (Signers s)\<rparr>"
      obtain vs s2 where ds: "discard_signer a (Votes (drop_recent n s1)) (drop_recent n s1) = (vs, s2)" by (rule prod.exhaust)
      have "tally_ok ?A ([] @ Votes (drop_recent n s1)) (drop_recent n s1)"
        using T by (simp add: s1_def tally_ok_def)
      from discard_signer_ok [OF this ds] have
        vs: "vs = filter (\<lambda>v. v_signer v \<noteq> a) (Votes s)" and T2: "tally_ok ?A vs s2" and sb: "same_but_tally (drop_recent n s1) s2"
        by (auto simp: s1_def)
      have eq: "?s' = s2\<lparr>Votes := filter (\<lambda>v. v_address v \<noteq> a) vs, s_tally := AList.delete a (s_tally s2)\<rparr>"
        using t drop ds by (simp add: settle_vote_def Let_def s1_def)
      have S: "Signers s2 = removeAll a (Signers s)" "Number s2 = Number s" using sb by (simp_all add: same_but_tally_def s1_def)
      have "tally_ok (\<lambda>x. x \<notin> set (removeAll a (Signers s))) (filter (\<lambda>v. v_address v \<noteq> a) vs) (s2\<lparr>s_tally := AList.delete a (s_tally s2)\<rparr>)"
        by (rule tally_ok_close [OF T2]) simp
      then have 1: "votes_ok ?s'" unfolding eq using d sg dv
        by (simp add: votes_ok_def tally_ok_def S vs distinct_map_filter distinct_removeAll)
      have l: "length (removeAll a (Signers s)) = length (Signers s) - 1"
        using d a by (simp add: distinct_remove1_removeAll [symmetric] length_remove1)
      have "\<forall>p \<in> set (Recents s1). unat (fst p) \<le> unat n \<and> unat n \<le> unat (fst p) + (length (Signers s1) div 2 + 1)"
        using r l unfolding recents_ok_def s1_def by fastforce
      moreover have "distinct (map fst (Recents s1))" "distinct (map snd (Recents s1))" "length (Signers s1) < 2 ^ 64"
        using r l len by (simp_all add: recents_ok_def s1_def)
      ultimately have "recents_ok (unat n) (drop_recent n s1)" using drop_recent_ok(1) by blast
      then have 2: "recents_ok (unat n) ?s'" unfolding eq using sb by (simp add: recents_ok_def same_but_tally_def)
      have "length (Signers ?s') \<le> Suc (length (Signers s))" "set (Signers ?s') = set (Signers s) - {a}" "Number ?s' = Number s"
        unfolding eq using S l by auto
      then show ?thesis using 1 2 t drop by simp
    qed
  qed
  then show "votes_ok ?s'" "recents_ok (unat n) ?s'" "Number ?s' = Number s" "length (Signers ?s') \<le> Suc (length (Signers s))"
    "Signers ?s' = Signers s \<or> (\<exists>t. map_of (s_tally s) a = Some t \<and> length (Signers s) div 2 < t_votes t \<and>
       set (Signers ?s') = (if t_authorize t then insert a (set (Signers s)) else set (Signers s) - {a}))" by blast+
qed

lemma drop_recent_next:
  assumes r: "recents_ok m s" and n: "unat n = Suc m" and len: "length (Signers s) < 2 ^ 64"
  shows "recents_ok (unat n) (drop_recent n s)" "set (Recents (drop_recent n s)) \<subseteq> set (Recents s)"
    "\<forall>p \<in> set (Recents s). fst p + signer_limit s = n \<or> p \<in> set (Recents (drop_recent n s))"
proof -
  have w: "\<forall>p \<in> set (Recents s). unat (fst p) \<le> unat n \<and> unat n \<le> unat (fst p) + (length (Signers s) div 2 + 1)"
    using r n unfolding recents_ok_def by fastforce
  have d: "distinct (map fst (Recents s))" "distinct (map snd (Recents s))" using r by (simp_all add: recents_ok_def)
  show "recents_ok (unat n) (drop_recent n s)" "set (Recents (drop_recent n s)) \<subseteq> set (Recents s)"
    "\<forall>p \<in> set (Recents s). fst p + signer_limit s = n \<or> p \<in> set (Recents (drop_recent n s))"
    by (rule drop_recent_ok [OF d w len])+
qed

lemma recents_ok_sign:
  assumes r: "recents_ok (Suc m) s" and old: "\<forall>p \<in> set (Recents s). unat (fst p) \<le> m" and n: "unat n = Suc m"
    and sg: "sg \<notin> snd ` set (Recents s)"
  shows "recents_ok (unat n) (s\<lparr>Recents := AList.update n sg (Recents s)\<rparr>)"
proof -
  have "n \<notin> fst ` set (Recents s)" using old n by fastforce
  then have "AList.update n sg (Recents s) = Recents s @ [(n, sg)]" by (rule update_fresh)
  then show ?thesis using r n sg \<open>n \<notin> fst ` set (Recents s)\<close> by (simp add: recents_ok_def)
qed

text \<open>What a successful \<open>apply_header\<close> has gone through: the state before the vote is recorded.\<close>

lemma apply_header_vote:
  assumes v: "votes_ok s" and r: "recents_ok m s" and len: "length (Signers s) < 2 ^ 64"
    and n: "unat (low64 (h_number h)) = Suc m" and a: "apply_header c s h = Inr s'"
  obtains sg auth s4 where "ecrecover c h = Inr sg" "vote_of (h_nonce h) = Inr auth" "sg \<in> set (Signers s)"
    "votes_ok s4" "recents_ok (Suc m) s4" "Signers s4 = Signers s" "Number s4 = Number s" "set (Votes s4) \<subseteq> set (Votes s)"
    "(sg, h_coinbase h) \<notin> (\<lambda>v. (v_signer v, v_address v)) ` set (Votes s4)"
    "s' = settle_vote (low64 (h_number h)) (h_coinbase h) (record_vote sg (low64 (h_number h)) (h_coinbase h) auth s4)"
proof -
  let ?n = "low64 (h_number h)" and ?a = "h_coinbase h"
  define s1 where "s1 = (if ?n mod Epoch c = 0 then s\<lparr>Votes := [], s_tally := []\<rparr> else s)"
  have 1: "votes_ok s1" "recents_ok m s1" "Signers s1 = Signers s" "Number s1 = Number s" "set (Votes s1) \<subseteq> set (Votes s)"
    using v r by (auto simp: s1_def votes_ok_def tally_ok_def tally_of_def recents_ok_def)
  define s2 where "s2 = drop_recent ?n s1"
  have "length (Signers s1) < 2 ^ 64" using len 1(3) by simp
  note dr = drop_recent_next [OF 1(2) n this, folded s2_def]
  have 2: "votes_ok s2" "Signers s2 = Signers s" "Number s2 = Number s" "Votes s2 = Votes s1" "s_tally s2 = s_tally s1"
    using 1 by (simp_all add: s2_def votes_ok_def tally_ok_def)
  obtain sg where sg: "ecrecover c h = Inr sg" "sg \<in> set (Signers s2)" "sg \<notin> snd ` set (Recents s2)"
    using a unfolding apply_header_def Let_def s1_def [symmetric] s2_def [symmetric] by (auto split: sum.splits if_splits)
  define s3 where "s3 = s2\<lparr>Recents := AList.update ?n sg (Recents s2)\<rparr>"
  have old: "\<forall>p \<in> set (Recents s2). unat (fst p) \<le> m" using dr(2) 1(2) unfolding recents_ok_def by blast
  have r3: "recents_ok (unat ?n) s3" unfolding s3_def
    by (rule recents_ok_sign [OF _ old n sg(3)]) (use dr(1) n in simp)
  obtain vs s4 where dp: "discard_prev sg ?a (Votes s3) s3 = (vs, s4)" by (rule prod.exhaust)
  have v3: "votes_ok s3" using 2 by (simp add: s3_def votes_ok_def tally_ok_def)
  then have T: "tally_ok (\<lambda>a. a \<notin> set (Signers s3)) ([] @ Votes s3) s3" "distinct (map (\<lambda>v. (v_signer v, v_address v)) (Votes s3))"
    by (simp_all add: votes_ok_def)
  from discard_prev_ok [OF T(1) dp T(2)] have vs: "vs = filter (\<lambda>v. \<not> (v_signer v = sg \<and> v_address v = ?a)) (Votes s3)"
    and T4: "tally_ok (\<lambda>a. a \<notin> set (Signers s3)) vs s4" and sb: "same_but_tally s3 s4" by auto
  let ?s4 = "s4\<lparr>Votes := vs\<rparr>"
  obtain auth where auth: "vote_of (h_nonce h) = Inr auth" "s' = settle_vote ?n ?a (record_vote sg ?n ?a auth ?s4)"
    using a sg dp unfolding apply_header_def Let_def s1_def [symmetric] s2_def [symmetric]
    by (auto simp: s3_def [symmetric] split: sum.splits)
  show ?thesis
  proof (rule that [OF sg(1) auth(1) _ _ _ _ _ _ _ auth(2)])
    show "sg \<in> set (Signers s)" using sg(2) 2(2) by simp
    show "votes_ok ?s4" using v3 T4 sb vs
      by (auto simp: votes_ok_def same_but_tally_def tally_ok_def distinct_map_filter)
    show "recents_ok (Suc m) ?s4" using r3 n sb by (simp add: recents_ok_def same_but_tally_def)
    show "Signers ?s4 = Signers s" "Number ?s4 = Number s" using sb 2 by (simp_all add: same_but_tally_def s3_def)
    show "set (Votes ?s4) \<subseteq> set (Votes s)" using vs 2(4) 1(5) by (auto simp: s3_def)
    show "(sg, ?a) \<notin> (\<lambda>v. (v_signer v, v_address v)) ` set (Votes ?s4)" using vs by auto
  qed
qed

lemma apply_header_ok:
  assumes v: "votes_ok s" and r: "recents_ok m s" and len: "length (Signers s) < 2 ^ 64"
    and n: "unat (low64 (h_number h)) = Suc m" and a: "apply_header c s h = Inr s'"
  shows "votes_ok s'" "recents_ok (Suc m) s'" "Number s' = Number s" "length (Signers s') \<le> Suc (length (Signers s))"
proof -
  obtain sg auth s4 where 4: "sg \<in> set (Signers s)" "votes_ok s4" "recents_ok (Suc m) s4" "Signers s4 = Signers s" "Number s4 = Number s"
    "(sg, h_coinbase h) \<notin> (\<lambda>v. (v_signer v, v_address v)) ` set (Votes s4)"
    "s' = settle_vote (low64 (h_number h)) (h_coinbase h) (record_vote sg (low64 (h_number h)) (h_coinbase h) auth s4)"
    by (rule apply_header_vote [OF assms])
  let ?s5 = "record_vote sg (low64 (h_number h)) (h_coinbase h) auth s4"
  have "sg \<in> set (Signers s4)" using 4 by simp
  note rv = record_vote_ok [OF 4(2) this 4(6)]
  have r5: "recents_ok (unat (low64 (h_number h))) ?s5" using 4(3) n rv by (simp add: recents_ok_def)
  have "length (Signers ?s5) < 2 ^ 64" using len rv 4(4) by simp
  note sv = settle_vote_ok [OF rv(1) r5 this, of "h_coinbase h", folded 4(7)]
  show "votes_ok s'" by (rule sv(1))
  show "recents_ok (Suc m) s'" using sv(2) n by simp
  show "Number s' = Number s" "length (Signers s') \<le> Suc (length (Signers s))" using sv(3,4) rv 4 by simp_all
qed

lemma voters_distinct:
  "distinct (map (\<lambda>v. (v_signer v, v_address v)) vs) \<Longrightarrow> distinct (map v_signer (votes_on a vs))"
proof (induction vs)
  case (Cons v vs)
  have "v_signer v \<notin> v_signer ` set (votes_on a vs)" if "v_address v = a"
  proof
    assume "v_signer v \<in> v_signer ` set (votes_on a vs)"
    then obtain w where "w \<in> set vs" "v_address w = a" "v_signer w = v_signer v" by (auto simp: votes_on_def)
    then have "(v_signer v, v_address v) \<in> (\<lambda>v. (v_signer v, v_address v)) ` set vs" using that by (intro image_eqI [of _ _ w]) simp_all
    with Cons.prems show False by simp
  qed
  with Cons show ?case by simp
qed simp

text \<open>A change of the signers has the votes of more than half of them.\<close>

lemma apply_header_majority:
  assumes v: "votes_ok s" and r: "recents_ok m s" and len: "length (Signers s) < 2 ^ 64"
    and n: "unat (low64 (h_number h)) = Suc m" and a: "apply_header c s h = Inr s'" and ch: "set (Signers s') \<noteq> set (Signers s)"
  obtains sg auth voters where "ecrecover c h = Inr sg" "voters \<subseteq> set (Signers s)" "length (Signers s) < 2 * card voters"
    "\<forall>x \<in> voters. x = sg \<or> (\<exists>v \<in> set (Votes s). v_signer v = x \<and> v_address v = h_coinbase h \<and> v_authorize v = auth)"
    "set (Signers s') = (if auth then insert (h_coinbase h) (set (Signers s)) else set (Signers s) - {h_coinbase h})"
proof -
  let ?n = "low64 (h_number h)" and ?a = "h_coinbase h"
  obtain sg auth s4 where 4: "ecrecover c h = Inr sg" "sg \<in> set (Signers s)" "votes_ok s4" "recents_ok (Suc m) s4"
    "Signers s4 = Signers s" "set (Votes s4) \<subseteq> set (Votes s)"
    "(sg, ?a) \<notin> (\<lambda>v. (v_signer v, v_address v)) ` set (Votes s4)"
    "s' = settle_vote ?n ?a (record_vote sg ?n ?a auth s4)"
    by (rule apply_header_vote [OF v r len n a])
  let ?s5 = "record_vote sg ?n ?a auth s4"
  have sg4: "sg \<in> set (Signers s4)" using 4 by simp
  note rv = record_vote_ok [OF 4(3) sg4 4(7), where n = ?n and b = auth]
  have r5: "recents_ok (unat ?n) ?s5" using 4(4) n rv by (simp add: recents_ok_def)
  have l5: "length (Signers ?s5) < 2 ^ 64" using len rv 4(5) by simp
  obtain t where t: "map_of (s_tally ?s5) ?a = Some t" "length (Signers s) div 2 < t_votes t"
    "set (Signers s') = (if t_authorize t then insert ?a (set (Signers s)) else set (Signers s) - {?a})"
    using settle_vote_ok(5) [OF rv(1) r5 l5, of ?a, folded 4(8), unfolded rv(2) 4(5)] ch by metis
  have vo: "votes_ok ?s5" by (rule rv(1))
  let ?V = "votes_on ?a (Votes ?s5)"
  have tv: "t_votes t = length ?V" "t_authorize t = (?a \<notin> set (Signers s))"
    using vo t(1) rv(2) 4(5) by (auto simp: votes_ok_def tally_ok_def tally_of_def split: if_splits)
  have dV: "distinct (map v_signer ?V)" by (rule voters_distinct) (use vo in \<open>simp add: votes_ok_def\<close>)
  then have card: "card (v_signer ` set ?V) = length ?V" using distinct_card [OF dV] by simp
  show ?thesis
  proof (rule that [OF 4(1), of "v_signer ` set ?V" "t_authorize t"])
    show "v_signer ` set ?V \<subseteq> set (Signers s)" using vo rv(2) 4(5) by (auto simp: votes_ok_def votes_on_def)
    show "length (Signers s) < 2 * card (v_signer ` set ?V)" using t(2) tv(1) card by linarith
    show "\<forall>x \<in> v_signer ` set ?V. x = sg \<or> (\<exists>v \<in> set (Votes s). v_signer v = x \<and> v_address v = ?a \<and> v_authorize v = t_authorize t)"
      using rv(4) 4(6) vo rv(2) 4(5) tv(2) by (auto simp: votes_on_def votes_ok_def tally_ok_def)
    show "set (Signers s') = (if t_authorize t then insert ?a (set (Signers s)) else set (Signers s) - {?a})" by (rule t(3))
  qed
qed

lemma apply_each_ok:
  "votes_ok s \<Longrightarrow> recents_ok m s \<Longrightarrow> length (Signers s) + length hs < 2 ^ 64 \<Longrightarrow> contiguous hs \<Longrightarrow>
   (hs \<noteq> [] \<longrightarrow> unat (low64 (h_number (hd hs))) = Suc m) \<Longrightarrow> m + length hs < 2 ^ 64 \<Longrightarrow> apply_each c s hs = Inr s' \<Longrightarrow>
   votes_ok s' \<and> recents_ok (m + length hs) s' \<and> Number s' = Number s \<and>
   length (Signers s') \<le> length (Signers s) + length hs"
proof (induction hs arbitrary: s m)
  case (Cons h hs)
  obtain s1 where s1: "apply_header c s h = Inr s1" "apply_each c s1 hs = Inr s'"
    using Cons.prems(7) by (cases "apply_header c s h") auto
  have n: "unat (low64 (h_number h)) = Suc m" using Cons.prems(5) by simp
  have len: "length (Signers s) < 2 ^ 64" using Cons.prems(3) by simp
  note ah = apply_header_ok [OF Cons.prems(1,2) len n s1(1)]
  have ct: "contiguous hs" using Cons.prems(4) by (cases hs) auto
  have "hs \<noteq> [] \<longrightarrow> unat (low64 (h_number (hd hs))) = Suc (Suc m)"
  proof
    assume "hs \<noteq> []"
    then obtain h2 hs' where hs: "hs = h2 # hs'" by (cases hs) auto
    then have "low64 (h_number h2) = low64 (h_number h) + 1" using Cons.prems(4) by simp
    moreover have "unat (low64 (h_number h)) + 1 < 2 ^ 64" using n Cons.prems(6) hs by simp
    ultimately show "unat (low64 (h_number (hd hs))) = Suc (Suc m)" using n hs by (simp add: unat_word_ariths)
  qed
  moreover have "length (Signers s1) + length hs < 2 ^ 64" "Suc m + length hs < 2 ^ 64" using ah(4) Cons.prems(3,6) by simp_all
  ultimately show ?case using Cons.IH [OF ah(1,2) _ ct _ _ s1(2)] ah(3,4) by fastforce
qed simp

text \<open>Somebody may always sign: the recent signers are no more than half of the signers.\<close>

lemma recents_few:
  assumes r: "recents_ok (Suc m) s" and old: "\<forall>p \<in> set (Recents s). unat (fst p) \<le> m"
  shows "card (snd ` set (Recents s)) \<le> length (Signers s) div 2"
proof -
  let ?L = "length (Signers s) div 2 + 1"
  have "inj_on unat (fst ` set (Recents s))" by (rule inj_onI) (simp add: word_unat_eq_iff)
  moreover have d: "distinct (map fst (Recents s))" using r by (simp add: recents_ok_def)
  ultimately have "card (unat ` fst ` set (Recents s)) = length (Recents s)"
    using distinct_card [OF d] by (simp add: card_image)
  moreover have "unat ` fst ` set (Recents s) \<subseteq> {Suc (Suc m) - ?L..<Suc m}"
    using r old unfolding recents_ok_def by fastforce
  ultimately have "length (Recents s) \<le> card {Suc (Suc m) - ?L..<Suc m}" by (metis card_mono finite_atLeastLessThan)
  also have "\<dots> \<le> length (Signers s) div 2" by simp
  finally show ?thesis using card_image_le [of "set (Recents s)" snd] card_length [of "Recents s"] by simp
qed

lemma signer_free:
  assumes v: "votes_ok s" and r: "recents_ok m s" and len: "length (Signers s) < 2 ^ 64" and n: "unat n = Suc m"
    and ne: "Signers s \<noteq> []"
  obtains a where "a \<in> set (Signers s)" "a \<notin> snd ` set (Recents (drop_recent n s))"
proof -
  note dr = drop_recent_next [OF r n len]
  have old: "\<forall>p \<in> set (Recents (drop_recent n s)). unat (fst p) \<le> m" using dr(2) r unfolding recents_ok_def by blast
  have "card (snd ` set (Recents (drop_recent n s))) \<le> length (Signers (drop_recent n s)) div 2"
    by (rule recents_few [OF _ old]) (use dr(1) n in simp)
  also have "\<dots> < card (set (Signers s))" using v ne by (simp add: votes_ok_def distinct_card)
  finally have "\<not> set (Signers s) \<subseteq> snd ` set (Recents (drop_recent n s))" using card_mono leD by blast
  then show ?thesis using that by blast
qed

section \<open>Properties\<close>

lemma offset_of_nth: "distinct xs \<Longrightarrow> i < length xs \<Longrightarrow> offset_of (xs ! i) xs = i"
  by (induction xs arbitrary: i) (auto simp: nth_Cons split: nat.splits)

lemma offset_of_less: "a \<in> set xs \<Longrightarrow> offset_of a xs < length xs \<and> xs ! offset_of a xs = a"
  by (induction xs) auto

definition sample_header :: "bigint \<Rightarrow> address \<Rightarrow> byte list \<Rightarrow> byte list \<Rightarrow> header" where
  "sample_header n cb nonce extra = \<lparr>ParentHash = 0, UncleHash = 0, h_coinbase = cb, h_root = 0, h_difficulty = 2, h_number = n,
     h_gasLimit = 0, h_gasUsed = 0, h_time = 0, h_extra = extra, MixDigest = 0, h_nonce = nonce\<rparr>"

text \<open>An engine in which the account named by the last byte of the extra data signed the header.\<close>

definition sample_clique :: clique where
  "sample_clique = \<lparr>Epoch = 30000, Period = 15, Ecrecover = (\<lambda>h. Some (ucast (last (h_extra h)))), HeaderHash = (\<lambda>h. word_of_int (h_number h)),
     emptyUncleHash = 0\<rparr>"

definition signed_by :: "byte \<Rightarrow> byte list" where
  "signed_by a = replicate 96 0 @ [a]"

lemma apply_headers_ok:
  assumes ok: "snap_ok s" and a: "apply_headers c s headers = Inr s'" and len: "length (Signers s) + length headers < 2 ^ 64"
    and num: "unat (Number s) + length headers < 2 ^ 64"
  shows "snap_ok s'" "unat (Number s') = unat (Number s) + length headers" "length (Signers s') \<le> length (Signers s) + length headers"
    "headers = [] \<longrightarrow> s' = s" "headers \<noteq> [] \<longrightarrow> low64 (h_number (hd headers)) = Number s + 1 \<and> s_hash s' = HeaderHash c (last headers)"
proof -
  have "snap_ok s' \<and> unat (Number s') = unat (Number s) + length headers \<and> length (Signers s') \<le> length (Signers s) + length headers \<and>
    (headers = [] \<longrightarrow> s' = s) \<and> (headers \<noteq> [] \<longrightarrow> low64 (h_number (hd headers)) = Number s + 1 \<and> s_hash s' = HeaderHash c (last headers))"
  proof (cases "headers = []")
    case True
    then show ?thesis using ok a by (simp add: apply_headers_def)
  next
    case False
    then obtain snap where h: "contiguous headers" "low64 (h_number (hd headers)) = Number s + 1" "apply_each c s headers = Inr snap"
      "s' = snap\<lparr>Number := Number snap + of_nat (length headers), s_hash := HeaderHash c (last headers)\<rparr>"
      using a by (auto simp: apply_headers_def split: if_splits sum.splits)
    have "0 < length headers" using False by simp
    with num have "unat (Number s) + 1 < 2 ^ 64" by linarith
    then have n: "headers \<noteq> [] \<longrightarrow> unat (low64 (h_number (hd headers))) = Suc (unat (Number s))"
      unfolding h(2) by (simp add: unat_word_ariths)
    from apply_each_ok [OF _ _ len h(1) n num h(3)] ok
    have e: "votes_ok snap" "recents_ok (unat (Number s) + length headers) snap" "Number snap = Number s"
      "length (Signers snap) \<le> length (Signers s) + length headers" by (auto simp: snap_ok_def)
    have "unat (Number s') = unat (Number s) + length headers"
      using h(4) e(3) num by (simp add: unat_word_ariths unat_of_nat)
    then show ?thesis using h e False by (simp add: snap_ok_def votes_ok_def recents_ok_def tally_ok_def)
  qed
  then show "snap_ok s'" "unat (Number s') = unat (Number s) + length headers" "length (Signers s') \<le> length (Signers s) + length headers"
    "headers = [] \<longrightarrow> s' = s" "headers \<noteq> [] \<longrightarrow> low64 (h_number (hd headers)) = Number s + 1 \<and> s_hash s' = HeaderHash c (last headers)" by blast+
qed

lemma newSnapshot_ok: "snap_ok (newSnapshot n h signers)"
  by (simp add: snap_ok_def newSnapshot_def votes_ok_def tally_ok_def tally_of_def recents_ok_def)

text \<open>
  C14: applying any contiguous run of headers to a well-formed snapshot gives a well-formed snapshot:
  the tally counts the votes, every signer has at most one vote on an account, votes come from
  signers only, and the recent signers are those of the last blocks within the limit. The snapshot
  made for the genesis block is well-formed.
\<close>
theorem apply_headers_invariant:
  assumes "snap_ok s" "apply_headers c s headers = Inr s'" "length (Signers s) + length headers < 2 ^ 64"
    "unat (Number s) + length headers < 2 ^ 64"
  shows "snap_ok s' \<and> unat (Number s') = unat (Number s) + length headers \<and> snap_ok (newSnapshot 0 h signers)"
  using apply_headers_ok [OF assms] newSnapshot_ok by simp

theorem apply_headers_invariant_witness:
  "\<exists>s'. apply_headers sample_clique (newSnapshot 0 7 [1, 2]) [sample_header 1 9 nonceAuthVote (signed_by 1)] = Inr s' \<and>
     snap_ok s' \<and> unat (Number s') = 1"
proof -
  have "\<exists>s'. apply_headers sample_clique (newSnapshot 0 7 [1, 2]) [sample_header 1 9 nonceAuthVote (signed_by 1)] = Inr s'"
    by (simp add: apply_headers_def apply_header_def newSnapshot_def sample_clique_def sample_header_def signed_by_def ecrecover_def
      extraSeal_def low64_def drop_recent_def signer_limit_def vote_of_def Let_def)
  then obtain s' where s': "apply_headers sample_clique (newSnapshot 0 7 [1, 2]) [sample_header 1 9 nonceAuthVote (signed_by 1)] = Inr s'" ..
  from apply_headers_invariant [OF newSnapshot_ok s', of 0 "[]"] have "snap_ok s'" "unat (Number s') = 1" by (simp_all add: newSnapshot_def)
  with s' show ?thesis by blast
qed

text \<open>
  C3: the set of signers changes by a header only by adding or removing the account the header votes
  on, and only when more than half of the signers before the header have a vote in that direction on
  it, the vote of the header included.
\<close>
theorem signer_change_majority:
  assumes "snap_ok s" "length (Signers s) < 2 ^ 64" "unat (low64 (h_number h)) = Suc (unat (Number s))"
    "apply_header c s h = Inr s'" "set (Signers s') \<noteq> set (Signers s)"
  shows "\<exists>sg auth voters. ecrecover c h = Inr sg \<and> voters \<subseteq> set (Signers s) \<and> length (Signers s) < 2 * card voters \<and>
    (\<forall>x \<in> voters. x = sg \<or> (\<exists>v \<in> set (Votes s). v_signer v = x \<and> v_address v = h_coinbase h \<and> v_authorize v = auth)) \<and>
    set (Signers s') = (if auth then insert (h_coinbase h) (set (Signers s)) else set (Signers s) - {h_coinbase h})"
proof -
  have ok: "votes_ok s" "recents_ok (unat (Number s)) s" using assms(1) by (simp_all add: snap_ok_def)
  show ?thesis by (rule apply_header_majority [OF ok assms(2-5)]) blast
qed

theorem signer_change_majority_witness:
  "\<exists>s' auth voters. apply_header sample_clique (newSnapshot 0 7 [1]) (sample_header 1 9 nonceAuthVote (signed_by 1)) = Inr s' \<and>
     voters \<subseteq> {1 :: address} \<and> 1 < 2 * card voters \<and> set (Signers s') = (if auth then {9, 1} else {1} - {9})"
proof -
  let ?s = "newSnapshot 0 7 [1]" and ?h = "sample_header 1 9 nonceAuthVote (signed_by 1)"
  have n: "unat (low64 (h_number ?h)) = Suc (unat (Number ?s))" by (simp add: sample_header_def newSnapshot_def low64_def)
  have ok: "snap_ok ?s" by (rule newSnapshot_ok)
  obtain s' where s': "apply_header sample_clique ?s ?h = Inr s'" "set (Signers s') = {9, 1}"
    by (simp add: apply_header_def newSnapshot_def sample_clique_def sample_header_def signed_by_def ecrecover_def
      extraSeal_def low64_def drop_recent_def signer_limit_def vote_of_def settle_vote_def record_vote_def cast_def validVote_def Let_def)
  have "length (Signers ?s) < 2 ^ 64" "set (Signers s') \<noteq> set (Signers ?s)" using s'(2) by (simp_all add: newSnapshot_def)
  from signer_change_majority [OF ok this(1) n s'(1) this(2)] obtain sg auth voters where
    v: "voters \<subseteq> set (Signers ?s)" "length (Signers ?s) < 2 * card voters"
      "set (Signers s') = (if auth then insert (h_coinbase ?h) (set (Signers ?s)) else set (Signers ?s) - {h_coinbase ?h})" by blast
  have e: "set (Signers ?s) = {1}" "length (Signers ?s) = 1" "h_coinbase ?h = 9" by (simp_all add: newSnapshot_def sample_header_def)
  from v have w: "voters \<subseteq> {1}" "1 < 2 * card voters" "set (Signers s') = (if auth then {9, 1} else {1} - {9})" unfolding e .
  show ?thesis by (rule exI [of _ s'], rule exI [of _ auth], rule exI [of _ voters]) (intro conjI s'(1) w)
qed

text \<open>
  C18: on a well-formed snapshot with signers, some signer is allowed to sign the next block: it is not
  among the recent signers that \<open>apply\<close> and the seal check look at.
\<close>
theorem some_signer_may_sign:
  assumes "snap_ok s" "Signers s \<noteq> []" "length (Signers s) < 2 ^ 64" "unat number = Suc (unat (Number s))"
  shows "\<exists>a \<in> set (Signers s). a \<notin> snd ` set (Recents (drop_recent number s))"
proof -
  have ok: "votes_ok s" "recents_ok (unat (Number s)) s" using assms(1) by (simp_all add: snap_ok_def)
  show ?thesis by (rule signer_free [OF ok assms(3,4,2)]) blast
qed

theorem some_signer_may_sign_witness:
  "\<exists>a \<in> {1, 2}. a \<notin> snd ` set (Recents (drop_recent 1 (newSnapshot 0 7 [1, 2])))"
  using some_signer_may_sign [OF newSnapshot_ok, of 0 7 "[1, 2]" 1] by (simp add: newSnapshot_def)

text \<open>
  C33: the exchange sort of \<open>signers\<close> sorts, and for every block number exactly one of the signers is in
  turn.
\<close>
theorem inturn_unique:
  assumes "distinct (Signers s)" "Signers s \<noteq> []" "length (Signers s) < 2 ^ 64"
  shows "sorted_signers s = sort (Signers s) \<and> (\<exists>!a. a \<in> set (Signers s) \<and> inturn number a s = Some True)"
proof -
  let ?ss = "sort (Signers s)"
  have ne: "?ss \<noteq> []" "set ?ss = set (Signers s)" "distinct ?ss" "length ?ss = length (Signers s)"
    using assms(1,2) by (simp_all, metis length_0_conv length_sort)
  define k where "k = unat (number mod of_nat (length ?ss))"
  have ul: "unat (of_nat (length ?ss) :: uint64) = length (Signers s)" using assms(3) by (simp add: unat_of_nat)
  have k: "k < length (Signers s)" unfolding k_def unat_mod ul using assms(2) by simp
  have it: "inturn number a s = Some True \<longleftrightarrow> offset_of a ?ss = k" if "a \<in> set (Signers s)" for a
  proof -
    have o: "offset_of a ?ss < 2 ^ 64" using offset_of_less [of a ?ss] that ne assms(3) by simp
    have "number mod of_nat (length ?ss) = of_nat (offset_of a ?ss) \<longleftrightarrow> k = offset_of a ?ss"
      unfolding k_def word_unat_eq_iff using o by (simp add: unat_of_nat)
    then show ?thesis using ne(1) unfolding inturn_def Let_def sorted_signers_sort by auto
  qed
  have "\<exists>!a. a \<in> set (Signers s) \<and> inturn number a s = Some True"
  proof (intro ex1I [of _ "?ss ! k"] conjI)
    show m: "?ss ! k \<in> set (Signers s)" using k ne by (metis nth_mem)
    show "inturn number (?ss ! k) s = Some True" unfolding it [OF m] by (rule offset_of_nth) (use ne k in simp_all)
    show "a = ?ss ! k" if "a \<in> set (Signers s) \<and> inturn number a s = Some True" for a
      using that it [of a] offset_of_less [of a ?ss] ne by auto
  qed
  then show ?thesis using sorted_signers_sort by simp
qed

theorem inturn_unique_witness:
  "sorted_signers (newSnapshot 0 7 [5, 3]) = [3, 5] \<and> (\<exists>!a. a \<in> {5, 3} \<and> inturn 7 a (newSnapshot 0 7 [5, 3]) = Some True)"
  using inturn_unique [of "newSnapshot 0 7 [5, 3]" 7] by (simp add: newSnapshot_def)

end
