(* ===== verification/Bytes.thy ===== *)
theory Bytes
  imports Prelude
begin

text \<open>
  Big-endian byte strings of integers (\<open>SetBytes\<close>, \<open>Bytes\<close> and the address conversions of the
  library), their round trip, and the in-place reversal of a slice.
\<close>

section \<open>Big-endian integers\<close>

fun be_bytes :: "nat \<Rightarrow> int \<Rightarrow> byte list" where
  "be_bytes 0 x = []"
| "be_bytes (Suc n) x = be_bytes n (x div 256) @ [word_of_int x]"

definition be_int :: "byte list \<Rightarrow> int" where
  "be_int bs = foldl (\<lambda>a b. a * 256 + uint b) 0 bs"

lemma length_be_bytes [simp]: "length (be_bytes n x) = n"
  by (induction n arbitrary: x) simp_all

lemma be_int_snoc [simp]: "be_int (bs @ [b]) = be_int bs * 256 + uint b"
  by (simp add: be_int_def)

lemma be_int_Nil [simp]: "be_int [] = 0"
  by (simp add: be_int_def)

lemma be_int_bytes: "be_int (be_bytes n x) = x mod 256 ^ n"
proof (induction n arbitrary: x)
  case (Suc n)
  have "be_int (be_bytes (Suc n) x) = (x div 256) mod 256 ^ n * 256 + x mod 256"
    by (simp add: Suc uint_word_of_int take_bit_eq_mod)
  also have "\<dots> = x mod (256 * 256 ^ n)" by (simp add: zmod_zmult2_eq)
  finally show ?case by simp
qed simp

lemma be_int_bounds: "0 \<le> be_int bs \<and> be_int bs < 256 ^ length bs"
proof (induction bs rule: rev_induct)
  case (snoc b bs)
  have "uint b < 256" using uint_lt2p [of b] by simp
  with snoc show ?case by simp
qed simp

lemma be_bytes_int: "be_bytes (length bs) (be_int bs) = bs"
proof (induction bs rule: rev_induct)
  case (snoc b bs)
  have "uint b < 256" "0 \<le> uint b" using uint_lt2p [of b] by simp_all
  then have d: "(be_int bs * 256 + uint b) div 256 = be_int bs" by simp
  have "word_of_int (be_int bs * 256 + uint b) = b"
  proof -
    have "uint (word_of_int (be_int bs * 256 + uint b) :: byte) = (be_int bs * 256 + uint b) mod 256"
      unfolding uint_word_of_int take_bit_eq_mod by (simp del: of_int_add of_int_mult)
    also have "\<dots> = uint b" using \<open>uint b < 256\<close> by simp
    finally show ?thesis by (simp add: word_uint_eq_iff)
  qed
  then show ?case using snoc d by simp
qed simp

definition address_bytes :: "address \<Rightarrow> byte list" where
  "address_bytes a = be_bytes 20 (uint a)"

definition bytes_address :: "byte list \<Rightarrow> address" where
  "bytes_address bs = word_of_int (be_int bs)"

lemma length_address_bytes [simp]: "length (address_bytes a) = 20"
  by (simp add: address_bytes_def)

lemma bytes_address_bytes [simp]: "bytes_address (address_bytes a) = a"
proof -
  have "be_int (address_bytes a) = uint a"
    unfolding address_bytes_def be_int_bytes using uint_lt2p [of a] by simp
  then show ?thesis by (simp add: bytes_address_def)
qed

section \<open>Concatenated fixed-size chunks\<close>

lemma concat_chunk:
  assumes "\<forall>x \<in> set xs. length (f x) = k" "i < length xs"
  shows "take k (drop (k * i) (concat (map f xs) @ r)) = f (xs ! i)"
  using assms
proof (induction xs arbitrary: i)
  case (Cons x xs)
  then show ?case by (cases i) simp_all
qed simp

lemma length_concat_chunks: "\<forall>x \<in> set xs. length (f x) = k \<Longrightarrow> length (concat (map f xs)) = k * length xs"
  by (induction xs) simp_all

section \<open>Reversal in place\<close>

definition reverse_steps :: "nat \<Rightarrow> 'a list \<Rightarrow> 'a list" where
  "reverse_steps m xs = foldl (\<lambda>xs i. swap i (length xs - 1 - i) xs) xs [0..<m]"

definition reverse_loop :: "'a list \<Rightarrow> 'a list" where
  "reverse_loop xs = reverse_steps (length xs div 2) xs"

lemma reverse_loop_steps:
  "m \<le> length xs div 2 \<Longrightarrow> length (reverse_steps m xs) = length xs \<and>
    (\<forall>k < length xs. reverse_steps m xs ! k =
       (if k < m \<or> length xs - 1 - k < m then xs ! (length xs - 1 - k) else xs ! k))"
proof (induction m)
  case (Suc m)
  let ?ys = "reverse_steps (Suc m) xs"
  define zs where "zs = reverse_steps m xs"
  have zs: "length zs = length xs"
    "\<forall>k < length xs. zs ! k = (if k < m \<or> length xs - 1 - k < m then xs ! (length xs - 1 - k) else xs ! k)"
    using Suc by (simp_all add: zs_def)
  have ys: "?ys = swap m (length xs - 1 - m) zs" using zs(1) by (simp add: zs_def reverse_steps_def)
  have m: "m < length zs" "length xs - 1 - m < length zs" "m < length xs - 1 - m \<or> length xs - 1 - m = m" "m < length xs"
    using Suc.prems(1) zs(1) by auto
  have "?ys ! k = (if k < Suc m \<or> length xs - 1 - k < Suc m then xs ! (length xs - 1 - k) else xs ! k)" if k: "k < length xs" for k
  proof -
    have n: "?ys ! k = (if k = length xs - 1 - m then zs ! m else if k = m then zs ! (length xs - 1 - m) else zs ! k)"
      unfolding ys by (rule nth_swap) (use m k zs in simp_all)
    consider "k = length xs - 1 - m" | "k = m" "k \<noteq> length xs - 1 - m" | "k \<noteq> m" "k \<noteq> length xs - 1 - m" by blast
    then show ?thesis
    proof cases
      case 1
      have "length xs - 1 - k = m" using 1 m by simp
      moreover have "\<not> length xs - 1 - m < m" using m by linarith
      ultimately show ?thesis using n 1 zs(2) m by simp
    next
      case 2
      then have "\<not> length xs - 1 - (length xs - 1 - m) < m" "\<not> length xs - 1 - m < m" using m by auto
      then show ?thesis using n 2 zs m by simp
    next
      case 3
      then have "length xs - 1 - k \<noteq> m" using k m by simp
      then have "k < Suc m \<or> length xs - 1 - k < Suc m \<longleftrightarrow> k < m \<or> length xs - 1 - k < m" using 3 by (auto simp: less_Suc_eq)
      then show ?thesis using n 3 zs(2) k by simp
    qed
  qed
  then show ?case using ys zs(1) by simp
qed (simp add: reverse_steps_def)

lemma reverse_loop_rev: "reverse_loop xs = rev xs"
proof (rule nth_equalityI)
  note s = reverse_loop_steps [OF le_refl, of xs, folded reverse_loop_def]
  show l: "length (reverse_loop xs) = length (rev xs)" using s by simp
  fix k assume "k < length (reverse_loop xs)"
  then have k: "k < length xs" using s by simp
  show "reverse_loop xs ! k = rev xs ! k"
  proof (cases "k < length xs div 2 \<or> length xs - 1 - k < length xs div 2")
    case True
    then show ?thesis using s k by (auto simp: rev_nth)
  next
    case False
    then have "k = length xs - 1 - k" using k by linarith
    then show ?thesis using s k False by (auto simp: rev_nth)
  qed
qed

end
