(* ===== verification/Clique.thy ===== *)
theory Clique
  imports CliqueSnapshot Bytes
begin

text \<open>
  \<open>consensus/clique/clique.go\<close> and \<open>api.go\<close>: the proof-of-authority engine. The record \<open>engine\<close> holds
  the engine's own state (the cache of snapshots, the snapshots in the database, the proposals, the
  signer); \<open>cliqueEnv\<close> holds the configuration, the chain it reads, and what the cache drops and the
  database refuses. Snapshots are stored as values; their JSON form is not modelled. The header at
  number 0 has number 0, so the check of the genesis header inside \<open>snapshot\<close> is the basic one.
  Wall-clock times are arguments. \<open>New\<close> makes the epoch nonzero, so the remainders by it are defined; the
  cache of recovered signers is left out, since it holds values of \<open>ecrecover\<close> only.
\<close>

section \<open>State\<close>

record engine =
  eg_recents :: "(hash, Snapshot) gomap"
  eg_db :: "(hash, Snapshot) gomap"
  proposals :: "(address, bool) gomap"
  eg_signer :: address

record cliqueEnv =
  cfg :: clique
  cr_GetHeader :: "hash \<Rightarrow> uint64 \<Rightarrow> header option"
  cr_genesis :: header
  cr_byNumber :: "uint64 \<Rightarrow> header option"
  cr_byHash :: "hash \<Rightarrow> header option"
  cr_current :: "header option"
  lru_evict :: "(hash, Snapshot) gomap \<Rightarrow> (hash, Snapshot) gomap"
  db_put_ok :: "Snapshot \<Rightarrow> bool"

definition checkpointInterval :: uint64 where "checkpointInterval = 1024"
definition epochLength :: uint64 where "epochLength = 30000"
definition blockPeriod :: uint64 where "blockPeriod = 15"
definition diffInTurn :: bigint where "diffInTurn = 2"
definition diffNoTurn :: bigint where "diffNoTurn = 1"

definition NewClique :: "clique \<Rightarrow> (hash, Snapshot) gomap \<Rightarrow> clique \<times> engine" where
  "NewClique config db =
     (let c1 = (if Epoch config = 0 then config\<lparr>Epoch := epochLength\<rparr> else config);
          c2 = (if Period c1 = 0 then c1\<lparr>Period := blockPeriod\<rparr> else c1)
      in (c2, \<lparr>eg_recents = [], eg_db = db, proposals = [], eg_signer = 0\<rparr>))"

definition CliqueAuthor :: "clique \<Rightarrow> header \<Rightarrow> clique_error + address" where
  "CliqueAuthor c header = ecrecover c header"

section \<open>Stand-alone checks\<close>

definition verify_basic :: "clique \<Rightarrow> int \<Rightarrow> header \<Rightarrow> clique_error + unit" where
  "verify_basic c now header =
     (let number = low64 (h_number header);
          checkpoint = (number mod Epoch c = 0);
          signersBytes = int (length (h_extra header)) - int extraVanity - int extraSeal
      in if now < h_time header then Inl ErrFutureBlock
         else if checkpoint \<and> h_coinbase header \<noteq> 0 then Inl errInvalidCheckpointBeneficiary
         else if h_nonce header \<noteq> nonceAuthVote \<and> h_nonce header \<noteq> nonceDropVote then Inl errInvalidVote
         else if checkpoint \<and> h_nonce header \<noteq> nonceDropVote then Inl errInvalidCheckpointVote
         else if length (h_extra header) < extraVanity then Inl errMissingVanity
         else if length (h_extra header) < extraVanity + extraSeal then Inl errMissingSignature
         else if \<not> checkpoint \<and> signersBytes \<noteq> 0 then Inl errExtraSigners
         else if checkpoint \<and> signersBytes mod 20 \<noteq> 0 then Inl errInvalidCheckpointSigners
         else if MixDigest header \<noteq> 0 then Inl errInvalidMixDigest
         else if UncleHash header \<noteq> emptyUncleHash c then Inl errInvalidUncleHash
         else if 0 < number \<and> h_difficulty header \<noteq> diffInTurn \<and> h_difficulty header \<noteq> diffNoTurn
         then Inl errInvalidDifficulty
         else Inr ())"

section \<open>Snapshots\<close>

definition store_snapshot :: "cliqueEnv \<Rightarrow> Snapshot \<Rightarrow> engine \<Rightarrow> (clique_error + unit) \<times> engine" where
  "store_snapshot e s g =
     (if db_put_ok e s then (Inr (), g\<lparr>eg_db := AList.update (s_hash s) s (eg_db g)\<rparr>) else (Inl errStore, g))"

definition genesis_signers :: "header \<Rightarrow> address list" where
  "genesis_signers genesis =
     map (\<lambda>i. bytes_address (take 20 (drop (extraVanity + i * 20) (h_extra genesis))))
       [0..<(length (h_extra genesis) - extraVanity - extraSeal) div 20]"

definition genesis_snapshot :: "cliqueEnv \<Rightarrow> int \<Rightarrow> engine \<Rightarrow> (clique_error + Snapshot) \<times> engine" where
  "genesis_snapshot e now g =
     (case verify_basic (cfg e) now (cr_genesis e) of
        Inl err \<Rightarrow> (Inl err, g)
      | Inr _ \<Rightarrow>
          let s = newSnapshot 0 (HeaderHash (cfg e) (cr_genesis e)) (genesis_signers (cr_genesis e))
          in case store_snapshot e s g of (Inl err, g') \<Rightarrow> (Inl err, g') | (Inr _, g') \<Rightarrow> (Inr s, g'))"

definition next_header ::
  "cliqueEnv \<Rightarrow> uint64 \<Rightarrow> hash \<Rightarrow> header list \<Rightarrow> clique_error + header \<times> header list"
where
  "next_header e number h parents =
     (if parents \<noteq> [] then
        let hdr = last parents
        in if HeaderHash (cfg e) hdr \<noteq> h \<or> low64 (h_number hdr) \<noteq> number then Inl ErrUnknownAncestor
           else Inr (hdr, butlast parents)
      else case cr_GetHeader e h number of None \<Rightarrow> Inl ErrUnknownAncestor | Some hdr \<Rightarrow> Inr (hdr, []))"

text \<open>The search backwards; the number goes down by one per turn and the search ends at 0.\<close>

fun find_snapshot ::
  "cliqueEnv \<Rightarrow> int \<Rightarrow> nat \<Rightarrow> uint64 \<Rightarrow> hash \<Rightarrow> header list \<Rightarrow> header list \<Rightarrow> engine \<Rightarrow>
   ((clique_error + Snapshot \<times> header list) \<times> engine) option"
where
  "find_snapshot e now 0 number h parents headers g = None"
| "find_snapshot e now (Suc fuel) number h parents headers g =
     (case map_of (eg_recents g) h of
        Some s \<Rightarrow> Some (Inr (s, headers), g)
      | None \<Rightarrow>
          (case (if number mod checkpointInterval = 0 then map_of (eg_db g) h else None) of
             Some s \<Rightarrow> Some (Inr (s, headers), g)
           | None \<Rightarrow>
               if number = 0 then
                 (case genesis_snapshot e now g of
                    (Inl err, g') \<Rightarrow> Some (Inl err, g') | (Inr s, g') \<Rightarrow> Some (Inr (s, headers), g'))
               else (case next_header e number h parents of
                       Inl err \<Rightarrow> Some (Inl err, g)
                     | Inr (hdr, parents') \<Rightarrow>
                         find_snapshot e now fuel (number - 1) (ParentHash hdr) parents' (headers @ [hdr]) g)))"

definition snapshot ::
  "cliqueEnv \<Rightarrow> int \<Rightarrow> uint64 \<Rightarrow> hash \<Rightarrow> header list \<Rightarrow> engine \<Rightarrow> ((clique_error + Snapshot) \<times> engine) option"
where
  "snapshot e now number h parents g = do {
     (r, g1) \<leftarrow> find_snapshot e now (Suc (unat number)) number h parents [] g;
     Some (case r of
         Inl err \<Rightarrow> (Inl err, g1)
       | Inr (s0, headers) \<Rightarrow>
           (case apply_headers (cfg e) s0 (reverse_loop headers) of
              Inl err \<Rightarrow> (Inl err, g1)
            | Inr s \<Rightarrow>
                let g2 = g1\<lparr>eg_recents := lru_evict e (AList.update (s_hash s) s (eg_recents g1))\<rparr>
                in if Number s mod checkpointInterval = 0 \<and> 0 < length headers then
                     (case store_snapshot e s g2 of (Inl err, g3) \<Rightarrow> (Inl err, g3) | (Inr _, g3) \<Rightarrow> (Inr s, g3))
                   else (Inr s, g2)))
   }"

section \<open>Checks that need the snapshot\<close>

definition signer_bytes :: "Snapshot \<Rightarrow> byte list" where
  "signer_bytes s = concat (map address_bytes (sorted_signers s))"

definition check_checkpoint :: "clique \<Rightarrow> Snapshot \<Rightarrow> header \<Rightarrow> clique_error + unit" where
  "check_checkpoint c s header =
     (if low64 (h_number header) mod Epoch c = 0 \<and>
         take (length (h_extra header) - extraSeal - extraVanity) (drop extraVanity (h_extra header)) \<noteq> signer_bytes s
      then Inl errInvalidCheckpointSigners else Inr ())"

text \<open>\<open>seen > number - limit\<close> is computed in \<open>uint64\<close>, without the test \<open>number < limit\<close> that \<open>Seal\<close> has.\<close>

definition check_seal :: "clique \<Rightarrow> Snapshot \<Rightarrow> header \<Rightarrow> (clique_error + unit) option" where
  "check_seal c s header =
     (case ecrecover c header of
        Inl err \<Rightarrow> Some (Inl err)
      | Inr signer \<Rightarrow>
          let number = low64 (h_number header)
          in if signer \<notin> set (Signers s) then Some (Inl errUnauthorized)
             else if \<exists>p \<in> set (Recents s). snd p = signer \<and> number - signer_limit s < fst p
             then Some (Inl errUnauthorized)
             else do {
               turn \<leftarrow> inturn number signer s;
               Some (if turn \<and> h_difficulty header \<noteq> diffInTurn then Inl errInvalidDifficulty
                     else if \<not> turn \<and> h_difficulty header \<noteq> diffNoTurn then Inl errInvalidDifficulty
                     else Inr ())
             })"

definition verifySeal ::
  "cliqueEnv \<Rightarrow> int \<Rightarrow> header \<Rightarrow> header list \<Rightarrow> engine \<Rightarrow> ((clique_error + unit) \<times> engine) option"
where
  "verifySeal e now header parents g =
     (let number = low64 (h_number header)
      in if number = 0 then Some (Inl errUnknownBlock, g)
         else do {
           (r, g1) \<leftarrow> snapshot e now (number - 1) (ParentHash header) parents g;
           case r of Inl err \<Rightarrow> Some (Inl err, g1)
           | Inr s \<Rightarrow> do { v \<leftarrow> check_seal (cfg e) s header; Some (v, g1) }
         })"

definition find_parent :: "cliqueEnv \<Rightarrow> header \<Rightarrow> header list \<Rightarrow> header option" where
  "find_parent e header parents =
     (if parents \<noteq> [] then Some (last parents)
      else cr_GetHeader e (ParentHash header) (low64 (h_number header) - 1))"

definition check_parent :: "clique \<Rightarrow> header option \<Rightarrow> header \<Rightarrow> clique_error + unit" where
  "check_parent c op header =
     (case op of
        None \<Rightarrow> Inl ErrUnknownAncestor
      | Some parent \<Rightarrow>
          if low64 (h_number parent) \<noteq> low64 (h_number header) - 1 \<or> HeaderHash c parent \<noteq> ParentHash header
          then Inl ErrUnknownAncestor
          else if low64 (h_time header) < low64 (h_time parent) + Period c then Inl ErrInvalidTimestamp
          else Inr ())"

definition verifyCascadingFields ::
  "cliqueEnv \<Rightarrow> int \<Rightarrow> header \<Rightarrow> header list \<Rightarrow> engine \<Rightarrow> ((clique_error + unit) \<times> engine) option"
where
  "verifyCascadingFields e now header parents g =
     (let number = low64 (h_number header)
      in if number = 0 then Some (Inr (), g)
         else case check_parent (cfg e) (find_parent e header parents) header of
           Inl err \<Rightarrow> Some (Inl err, g)
         | Inr _ \<Rightarrow> do {
             (r, g1) \<leftarrow> snapshot e now (number - 1) (ParentHash header) parents g;
             case r of Inl err \<Rightarrow> Some (Inl err, g1)
             | Inr s \<Rightarrow>
                 (case check_checkpoint (cfg e) s header of
                    Inl err \<Rightarrow> Some (Inl err, g1)
                  | Inr _ \<Rightarrow> verifySeal e now header parents g1)
           })"

definition verifyHeader ::
  "cliqueEnv \<Rightarrow> int \<Rightarrow> header \<Rightarrow> header list \<Rightarrow> engine \<Rightarrow> ((clique_error + unit) \<times> engine) option"
where
  "verifyHeader e now header parents g =
     (case verify_basic (cfg e) now header of
        Inl err \<Rightarrow> Some (Inl err, g)
      | Inr _ \<Rightarrow> verifyCascadingFields e now header parents g)"

text \<open>A batch: each header is checked with the ones before it as parents.\<close>

fun verify_batch ::
  "cliqueEnv \<Rightarrow> int \<Rightarrow> header list \<Rightarrow> header list \<Rightarrow> engine \<Rightarrow> ((clique_error + unit) list \<times> engine) option"
where
  "verify_batch e now parents [] g = Some ([], g)"
| "verify_batch e now parents (h # hs) g = do {
     (r, g1) \<leftarrow> verifyHeader e now h parents g;
     (rs, g2) \<leftarrow> verify_batch e now (parents @ [h]) hs g1;
     Some (r # rs, g2)
   }"

definition CliqueVerifyUncles :: "header list \<Rightarrow> clique_error + unit" where
  "CliqueVerifyUncles uncles = (if 0 < length uncles then Inl errUnclesNotAllowed else Inr ())"

section \<open>Making blocks\<close>

text \<open>The vote of a new header: one of the proposals that make sense, chosen at random.\<close>

definition choose_vote :: "Snapshot \<Rightarrow> (address, bool) gomap \<Rightarrow> nat \<Rightarrow> header \<Rightarrow> header" where
  "choose_vote s props rnd header =
     (let addresses = map fst (filter (\<lambda>p. validVote (fst p) (snd p) s) props)
      in if 0 < length addresses then
           let a = addresses ! (rnd mod length addresses)
           in header\<lparr>h_coinbase := a, h_nonce := (if map_of props a = Some True then nonceAuthVote else nonceDropVote)\<rparr>
         else header)"

definition prepare_extra :: "clique \<Rightarrow> Snapshot \<Rightarrow> header \<Rightarrow> byte list" where
  "prepare_extra c s header =
     (let x1 = (if length (h_extra header) < extraVanity
                then h_extra header @ replicate (extraVanity - length (h_extra header)) 0 else h_extra header);
          x2 = take extraVanity x1;
          x3 = (if low64 (h_number header) mod Epoch c = 0 then x2 @ signer_bytes s else x2)
      in x3 @ replicate extraSeal 0)"

definition prepare_time :: "clique \<Rightarrow> int \<Rightarrow> header \<Rightarrow> bigint" where
  "prepare_time c now parent =
     (let t = h_time parent + uint (Period c) in if sint (low64 t) < now then now else t)"

definition prepare_fields ::
  "clique \<Rightarrow> Snapshot \<Rightarrow> (address, bool) gomap \<Rightarrow> address \<Rightarrow> nat \<Rightarrow> header \<Rightarrow> header option"
where
  "prepare_fields c s props signer rnd header = do {
     let number = low64 (h_number header);
     let h0 = header\<lparr>h_coinbase := 0, h_nonce := replicate 8 0\<rparr>;
     let h1 = (if number mod Epoch c \<noteq> 0 then choose_vote s props rnd h0 else h0);
     turn \<leftarrow> inturn number signer s;
     let h2 = h1\<lparr>h_difficulty := (if turn then diffInTurn else diffNoTurn)\<rparr>;
     Some (h2\<lparr>h_extra := prepare_extra c s h2, MixDigest := 0\<rparr>)
   }"

definition CliquePrepare ::
  "cliqueEnv \<Rightarrow> int \<Rightarrow> nat \<Rightarrow> header \<Rightarrow> engine \<Rightarrow> ((clique_error + header) \<times> engine) option"
where
  "CliquePrepare e now rnd header g = do {
     let number = low64 (h_number header);
     (r, g1) \<leftarrow> snapshot e now (number - 1) (ParentHash header) [] g;
     case r of Inl err \<Rightarrow> Some (Inl err, g1)
     | Inr s \<Rightarrow> do {
         h \<leftarrow> prepare_fields (cfg e) s (proposals g1) (eg_signer g1) rnd header;
         Some (case cr_GetHeader e (ParentHash header) (number - 1) of
             None \<Rightarrow> (Inl ErrUnknownAncestor, g1)
           | Some parent \<Rightarrow> (Inr (h\<lparr>h_time := prepare_time (cfg e) now parent\<rparr>), g1))
       }
   }"

definition CliqueFinalize :: "clique \<Rightarrow> hash \<Rightarrow> header \<Rightarrow> header" where
  "CliqueFinalize c root header = header\<lparr>h_root := root, UncleHash := emptyUncleHash c\<rparr>"

definition Authorize :: "address \<Rightarrow> engine \<Rightarrow> engine" where
  "Authorize signer g = g\<lparr>eg_signer := signer\<rparr>"

text \<open>\<open>Seal\<close> with the outcome of its waits as arguments: \<open>None\<close> inside is a stop, outside a panic.\<close>

definition may_seal :: "uint64 \<Rightarrow> address \<Rightarrow> Snapshot \<Rightarrow> bool" where
  "may_seal number signer s \<longleftrightarrow>
     \<not> (\<exists>p \<in> set (Recents s). snd p = signer \<and> (number < signer_limit s \<or> number - signer_limit s < fst p))"

definition put_seal :: "byte list \<Rightarrow> byte list \<Rightarrow> byte list option" where
  "put_seal extra sighash =
     (if length extra < extraSeal then None
      else let tail = drop (length extra - extraSeal) extra
           in Some (take (length extra - extraSeal) extra @ take extraSeal sighash @ drop (length sighash) tail))"

definition CliqueSeal ::
  "cliqueEnv \<Rightarrow> int \<Rightarrow> bool \<Rightarrow> (address \<Rightarrow> header \<Rightarrow> byte list option) \<Rightarrow> header \<Rightarrow> engine \<Rightarrow>
   ((clique_error + header option) \<times> engine) option"
where
  "CliqueSeal e now stopped sign header g =
     (let number = low64 (h_number header)
      in if number = 0 then Some (Inl errUnknownBlock, g)
         else do {
           (r, g1) \<leftarrow> snapshot e now (number - 1) (ParentHash header) [] g;
           case r of Inl err \<Rightarrow> Some (Inl err, g1)
           | Inr s \<Rightarrow>
               if eg_signer g \<notin> set (Signers s) then Some (Inl errUnauthorized, g1)
               else if \<not> may_seal number (eg_signer g) s \<or> stopped then Some (Inr None, g1)
               else if length (h_extra header) < extraSeal then None
               else (case sign (eg_signer g) header of
                       None \<Rightarrow> Some (Inl errSign, g1)
                     | Some sighash \<Rightarrow> do {
                         extra \<leftarrow> put_seal (h_extra header) sighash;
                         Some (Inr (Some (header\<lparr>h_extra := extra\<rparr>)), g1)
                       })
         })"

section \<open>The remote interface\<close>

definition api_header :: "cliqueEnv \<Rightarrow> uint64 option \<Rightarrow> header option" where
  "api_header e number = (case number of None \<Rightarrow> cr_current e | Some n \<Rightarrow> cr_byNumber e n)"

definition snapshot_of ::
  "cliqueEnv \<Rightarrow> int \<Rightarrow> header option \<Rightarrow> engine \<Rightarrow> ((clique_error + Snapshot) \<times> engine) option"
where
  "snapshot_of e now oh g =
     (case oh of None \<Rightarrow> Some (Inl errUnknownBlock, g)
      | Some h \<Rightarrow> snapshot e now (low64 (h_number h)) (HeaderHash (cfg e) h) [] g)"

definition GetSnapshot :: "cliqueEnv \<Rightarrow> int \<Rightarrow> uint64 option \<Rightarrow> engine \<Rightarrow> ((clique_error + Snapshot) \<times> engine) option" where
  "GetSnapshot e now number g = snapshot_of e now (api_header e number) g"

definition GetSnapshotAtHash :: "cliqueEnv \<Rightarrow> int \<Rightarrow> hash \<Rightarrow> engine \<Rightarrow> ((clique_error + Snapshot) \<times> engine) option" where
  "GetSnapshotAtHash e now h g = snapshot_of e now (cr_byHash e h) g"

definition GetSigners :: "cliqueEnv \<Rightarrow> int \<Rightarrow> uint64 option \<Rightarrow> engine \<Rightarrow> ((clique_error + address list) \<times> engine) option" where
  "GetSigners e now number g = do {
     (r, g1) \<leftarrow> snapshot_of e now (api_header e number) g;
     Some (case r of Inl err \<Rightarrow> Inl err | Inr s \<Rightarrow> Inr (sorted_signers s), g1)
   }"

definition GetSignersAtHash :: "cliqueEnv \<Rightarrow> int \<Rightarrow> hash \<Rightarrow> engine \<Rightarrow> ((clique_error + address list) \<times> engine) option" where
  "GetSignersAtHash e now h g = do {
     (r, g1) \<leftarrow> snapshot_of e now (cr_byHash e h) g;
     Some (case r of Inl err \<Rightarrow> Inl err | Inr s \<Rightarrow> Inr (sorted_signers s), g1)
   }"

definition Proposals :: "engine \<Rightarrow> (address, bool) gomap" where
  "Proposals g = proposals g"

definition Propose :: "address \<Rightarrow> bool \<Rightarrow> engine \<Rightarrow> engine" where
  "Propose a auth g = g\<lparr>proposals := AList.update a auth (proposals g)\<rparr>"

definition Discard :: "address \<Rightarrow> engine \<Rightarrow> engine" where
  "Discard a g = g\<lparr>proposals := AList.delete a (proposals g)\<rparr>"

section \<open>The search for a snapshot\<close>

text \<open>
  The invariant of the engine: every snapshot it keeps is well-formed, and its number of signers grew
  by at most one per block. Of the chain: a header comes with the number and hash it was asked for, and
  the header with number 0 is the genesis header. Of the cache: it drops entries only, never the newest.
\<close>

definition kept_ok :: "Snapshot \<Rightarrow> bool" where
  "kept_ok s \<longleftrightarrow> snap_ok s \<and> length (Signers s) \<le> 2 ^ 62 + unat (Number s) \<and> unat (Number s) < 2 ^ 62"

definition engine_ok :: "engine \<Rightarrow> bool" where
  "engine_ok g \<longleftrightarrow> (\<forall>p \<in> set (eg_recents g) \<union> set (eg_db g). kept_ok (snd p) \<and> s_hash (snd p) = fst p)"

definition cliqueEnv_ok :: "cliqueEnv \<Rightarrow> bool" where
  "cliqueEnv_ok e \<longleftrightarrow> (\<forall>h n hdr. cr_GetHeader e h n = Some hdr \<longrightarrow> low64 (h_number hdr) = n \<and> HeaderHash (cfg e) hdr = h) \<and>
     (\<forall>h hdr. cr_GetHeader e h 0 = Some hdr \<longrightarrow> hdr = cr_genesis e) \<and>
     (\<forall>m. set (lru_evict e m) \<subseteq> set m) \<and> (\<forall>k v m. map_of (lru_evict e (AList.update k v m)) k = Some v) \<and> length (h_extra (cr_genesis e)) \<le> 2 ^ 62"

definition gathered :: "uint64 \<Rightarrow> uint64 \<Rightarrow> header list \<Rightarrow> bool" where
  "gathered n0 n headers \<longleftrightarrow> unat n + length headers = unat n0 \<and> (headers \<noteq> [] \<longrightarrow> low64 (h_number (last headers)) = n + 1)"

lemma next_header_number:
  "cliqueEnv_ok e \<Longrightarrow> next_header e n h parents = Inr (hdr, ps) \<Longrightarrow> low64 (h_number hdr) = n \<and> HeaderHash (cfg e) hdr = h"
  by (auto simp: next_header_def cliqueEnv_ok_def Let_def split: if_splits option.splits)

lemma engine_ok_cached: "engine_ok g \<Longrightarrow> map_of (eg_recents g) h = Some s \<Longrightarrow> kept_ok s \<and> s_hash s = h"
  by (drule map_of_SomeD) (auto simp: engine_ok_def dest: bspec)

lemma engine_ok_stored: "engine_ok g \<Longrightarrow> map_of (eg_db g) h = Some s \<Longrightarrow> kept_ok s \<and> s_hash s = h"
  by (drule map_of_SomeD) (auto simp: engine_ok_def dest: bspec)

lemma genesis_snapshot_ok:
  assumes e: "cliqueEnv_ok e" and g: "engine_ok g" and r: "genesis_snapshot e now g = (r, g')"
  shows "engine_ok g'" "r = Inr s \<Longrightarrow> kept_ok s \<and> Number s = 0"
proof -
  let ?s = "newSnapshot 0 (HeaderHash (cfg e) (cr_genesis e)) (genesis_signers (cr_genesis e))"
  have "length (genesis_signers (cr_genesis e)) \<le> length (h_extra (cr_genesis e))" by (simp add: genesis_signers_def)
  then have "length (genesis_signers (cr_genesis e)) \<le> 2 ^ 62" using e by (simp add: cliqueEnv_ok_def)
  with length_remdups_leq have "length (remdups (genesis_signers (cr_genesis e))) \<le> 2 ^ 62" by (rule le_trans)
  then have "length (Signers ?s) \<le> 2 ^ 62" by (simp add: newSnapshot_def)
  then have k: "kept_ok ?s" "Number ?s = 0" using newSnapshot_ok by (simp_all add: kept_ok_def newSnapshot_def)
  have sub: "set (AList.update (s_hash ?s) ?s (eg_db g)) \<subseteq> insert (s_hash ?s, ?s) (set (eg_db g))" by (rule set_update_subset)
  show "engine_ok g'" using r g k(1) sub
    by (auto simp: genesis_snapshot_def store_snapshot_def engine_ok_def Let_def split: sum.splits if_splits)
  show "r = Inr s \<Longrightarrow> kept_ok s \<and> Number s = 0" using r k
    by (auto simp: genesis_snapshot_def store_snapshot_def Let_def split: sum.splits if_splits)
qed

lemma find_snapshot_ok:
  assumes e: "cliqueEnv_ok e" and g: "engine_ok g"
  shows "unat n < fuel \<Longrightarrow> gathered n0 n headers \<Longrightarrow>
    \<exists>r g'. find_snapshot e now fuel n h parents headers g = Some (r, g') \<and> engine_ok g' \<and>
      (\<forall>s hs. r = Inr (s, hs) \<longrightarrow> kept_ok s \<and> (\<exists>m. gathered n0 m hs))"
proof (induction fuel arbitrary: n h parents headers)
  case (Suc fuel)
  consider (recent) s where "map_of (eg_recents g) h = Some s"
    | (disk) s where "map_of (eg_recents g) h = None" "(if n mod checkpointInterval = 0 then map_of (eg_db g) h else None) = Some s"
    | (rest) "map_of (eg_recents g) h = None" "(if n mod checkpointInterval = 0 then map_of (eg_db g) h else None) = None" by blast
  then show ?case
  proof cases
    case recent
    then have "kept_ok s" by (rule engine_ok_cached [OF g, THEN conjunct1])
    then show ?thesis using recent g Suc.prems(2) by auto
  next
    case disk
    then have "map_of (eg_db g) h = Some s" by (simp split: if_splits)
    then have "kept_ok s" by (rule engine_ok_stored [OF g, THEN conjunct1])
    then show ?thesis using disk g Suc.prems(2) by auto
  next
    case rest
    show ?thesis
    proof (cases "n = 0")
      case True
      obtain r g' where gs: "genesis_snapshot e now g = (r, g')" by (rule prod.exhaust)
      note ok = genesis_snapshot_ok [OF e g gs]
      show ?thesis
      proof (cases r)
        case (Inl err)
        then show ?thesis using rest True gs ok(1) by simp
      next
        case (Inr s)
        then show ?thesis using rest True gs ok Suc.prems(2) by auto
      qed
    next
      case False
      show ?thesis
      proof (cases "next_header e n h parents")
        case (Inl err)
        then show ?thesis using rest False g by simp
      next
        case (Inr p)
        then obtain hdr ps where p: "next_header e n h parents = Inr (hdr, ps)" by (cases p) simp
        have num: "low64 (h_number hdr) = n" using next_header_number [OF e p] by simp
        have u: "unat (n - 1) = unat n - 1" "0 < unat n" using False by (simp_all add: unat_minus_one word_gt_0 unat_gt_0)
        have ga: "gathered n0 (n - 1) (headers @ [hdr])" using Suc.prems(2) u num by (simp add: gathered_def)
        have "unat (n - 1) < fuel" using Suc.prems(1) u by simp
        from this ga have "\<exists>r g'. find_snapshot e now fuel (n - 1) (ParentHash hdr) ps (headers @ [hdr]) g = Some (r, g') \<and> engine_ok g' \<and>
          (\<forall>s hs. r = Inr (s, hs) \<longrightarrow> kept_ok s \<and> (\<exists>m. gathered n0 m hs))" by (rule Suc.IH)
        then show ?thesis using rest False p by simp
      qed
    qed
  qed
qed simp

lemma cache_ok:
  assumes "cliqueEnv_ok e" "engine_ok g" "kept_ok s"
  shows "engine_ok (g\<lparr>eg_recents := lru_evict e (AList.update (s_hash s) s (eg_recents g))\<rparr>)"
proof -
  have "set (lru_evict e (AList.update (s_hash s) s (eg_recents g))) \<subseteq> set (AList.update (s_hash s) s (eg_recents g))"
    using assms(1) unfolding cliqueEnv_ok_def by blast
  also have "\<dots> \<subseteq> insert (s_hash s, s) (set (eg_recents g))" by (rule set_update_subset)
  finally show ?thesis using assms(2,3) by (auto simp: engine_ok_def)
qed

lemma store_ok:
  assumes "engine_ok g" "kept_ok s" "store_snapshot e s g = (r, g')"
  shows "engine_ok g'"
  using assms set_update_subset [of "s_hash s" s "eg_db g"] by (auto simp: store_snapshot_def engine_ok_def split: if_splits)

lemma apply_kept:
  assumes s0: "kept_ok s0" and m: "gathered number m headers" and n: "unat number < 2 ^ 62"
    and a: "apply_headers c s0 (reverse_loop headers) = Inr s"
  shows "kept_ok s" "headers \<noteq> [] \<Longrightarrow> Number s = number"
proof -
  have l: "length headers \<le> unat number" using m by (simp add: gathered_def)
  have b: "length (Signers s0) + length (rev headers) < 2 ^ 64" "unat (Number s0) + length (rev headers) < 2 ^ 64"
    using s0 l n by (simp_all add: kept_ok_def)
  have "snap_ok s0" using s0 by (simp add: kept_ok_def)
  note ah = apply_headers_ok [OF this a [unfolded reverse_loop_rev] b]
  have num: "unat (Number s) = unat number" if "headers \<noteq> []"
  proof -
    have "Number s0 + 1 = m + 1" using ah(5) m that by (simp add: gathered_def hd_rev)
    then have "Number s0 = m" by simp
    then show ?thesis using ah(2) m by (simp add: gathered_def)
  qed
  show "headers \<noteq> [] \<Longrightarrow> Number s = number" using num by (simp add: word_unat_eq_iff)
  have "unat (Number s) < 2 ^ 62" using num ah(4) s0 n by (cases "headers = []") (simp_all add: kept_ok_def)
  then show "kept_ok s" using ah(1-3) s0 by (simp add: kept_ok_def)
qed

lemma snapshot_ok:
  assumes e: "cliqueEnv_ok e" and g: "engine_ok g" and n: "unat number < 2 ^ 62"
  obtains r g' where "snapshot e now number h parents g = Some (r, g')" "engine_ok g'" "\<forall>s. r = Inr s \<longrightarrow> kept_ok s"
proof -
  have "gathered number number []" by (simp add: gathered_def)
  from find_snapshot_ok [OF e g, of number "Suc (unat number)", OF _ this] obtain r1 g1 where
    f: "find_snapshot e now (Suc (unat number)) number h parents [] g = Some (r1, g1)" "engine_ok g1"
      "\<forall>s hs. r1 = Inr (s, hs) \<longrightarrow> kept_ok s \<and> (\<exists>m. gathered number m hs)" by blast
  show ?thesis
  proof (cases r1)
    case (Inl err)
    then have "snapshot e now number h parents g = Some (Inl err, g1)" using f(1) by (simp add: snapshot_def del: find_snapshot.simps)
    then show ?thesis by (rule that) (simp_all add: f(2))
  next
    case (Inr p)
    obtain s0 headers where p: "p = (s0, headers)" by (rule prod.exhaust)
    then obtain m where s0: "kept_ok s0" and m: "gathered number m headers" using f(3) Inr by blast
    show ?thesis
    proof (cases "apply_headers (cfg e) s0 (reverse_loop headers)")
      case (Inl err)
      then have "snapshot e now number h parents g = Some (Inl err, g1)" using f(1) Inr p by (simp add: snapshot_def del: find_snapshot.simps)
      then show ?thesis by (rule that) (simp_all add: f(2))
    next
      case (Inr s)
      have ks: "kept_ok s" by (rule apply_kept(1) [OF s0 m n Inr])
      define g2 where "g2 = g1\<lparr>eg_recents := lru_evict e (AList.update (s_hash s) s (eg_recents g1))\<rparr>"
      have g2: "engine_ok g2" unfolding g2_def by (rule cache_ok [OF e f(2) ks])
      obtain r3 g3 where st: "store_snapshot e s g2 = (r3, g3)" by (rule prod.exhaust)
      have g3: "engine_ok g3" by (rule store_ok [OF g2 ks st])
      have "snapshot e now number h parents g = Some (
          if Number s mod checkpointInterval = 0 \<and> 0 < length headers
          then (case r3 of Inl err \<Rightarrow> (Inl err, g3) | Inr _ \<Rightarrow> (Inr s, g3)) else (Inr s, g2))"
        using f(1) \<open>r1 = Inr p\<close> p Inr st [unfolded g2_def]
        by (simp add: snapshot_def g2_def [symmetric] Let_def del: find_snapshot.simps split: sum.split)
      then show ?thesis using that g2 g3 ks by (auto split: if_splits sum.splits)
    qed
  qed
qed

end
