(* ===== verification/CliqueProps.thy ===== *)
theory CliqueProps
  imports Clique
begin

text \<open>
  Properties of the engine of \<open>consensus/clique/clique.go\<close>: the checks return for every header; the
  block that \<open>Prepare\<close>, \<open>Finalize\<close> and \<open>Seal\<close> make passes \<open>VerifyHeader\<close>; a header that passes can be
  applied to the snapshot it was checked against.
\<close>

section \<open>Asking for the same snapshot again\<close>

lemma find_snapshot_hash:
  assumes e: "cliqueEnv_ok e" and g: "engine_ok g"
  shows "find_snapshot e now fuel n h ps headers g = Some (Inr (s, hs), g') \<Longrightarrow>
    (\<exists>ext. hs = headers @ ext \<and>
       (if ext = [] then s_hash s = h \<or> n = 0 \<and> s_hash s = HeaderHash (cfg e) (cr_genesis e) else HeaderHash (cfg e) (hd ext) = h)) \<and>
    eg_signer g' = eg_signer g \<and> proposals g' = proposals g"
proof (induction fuel arbitrary: n h ps headers)
  case (Suc fuel)
  show ?case
  proof (cases "map_of (eg_recents g) h")
    case (Some x)
    then show ?thesis using Suc.prems engine_ok_cached [OF g Some] by simp
  next
    case None
    show ?thesis
    proof (cases "if n mod checkpointInterval = 0 then map_of (eg_db g) h else None")
      case (Some x)
      then have "map_of (eg_db g) h = Some x" by (simp split: if_splits)
      then show ?thesis using Suc.prems None Some engine_ok_stored [OF g, of h x] by simp
    next
      case none: None
      show ?thesis
      proof (cases "n = 0")
        case True
        then have "genesis_snapshot e now g = (Inr s, g')" "hs = headers"
          using Suc.prems None none by (simp_all split: prod.splits sum.splits)
        then show ?thesis using True
          by (auto simp: genesis_snapshot_def store_snapshot_def newSnapshot_def Let_def split: sum.splits if_splits)
      next
        case False
        note found = Suc.prems [unfolded find_snapshot.simps None none option.case if_not_P [OF False]]
        obtain q where q: "next_header e n h ps = Inr q" using found by (cases "next_header e n h ps") simp_all
        obtain hdr ps' where "q = (hdr, ps')" by (rule prod.exhaust)
        then have p: "next_header e n h ps = Inr (hdr, ps')"
          "find_snapshot e now fuel (n - 1) (ParentHash hdr) ps' (headers @ [hdr]) g = Some (Inr (s, hs), g')"
          using found q by simp_all
        have hh: "HeaderHash (cfg e) hdr = h" using next_header_number [OF e p(1)] by simp
        from Suc.IH [OF p(2)] obtain ext where ext: "hs = (headers @ [hdr]) @ ext" "eg_signer g' = eg_signer g" "proposals g' = proposals g"
          by blast
        then have "hs = headers @ (hdr # ext)" by simp
        then show ?thesis using hh ext(2,3) by (intro conjI exI [of _ "hdr # ext"]) simp_all
      qed
    qed
  qed
qed simp

lemma snapshot_cached:
  assumes e: "cliqueEnv_ok e" and g: "engine_ok g" and n: "unat number < 2 ^ 62"
    and h: "number = 0 \<Longrightarrow> h = HeaderHash (cfg e) (cr_genesis e)"
    and s: "snapshot e now number h ps g = Some (Inr s, g')"
  shows "map_of (eg_recents g') h = Some s" "s_hash s = h" "eg_signer g' = eg_signer g" "proposals g' = proposals g"
proof -
  obtain s0 headers g1 where f: "find_snapshot e now (Suc (unat number)) number h ps [] g = Some (Inr (s0, headers), g1)"
    and a: "apply_headers (cfg e) s0 (reverse_loop headers) = Inr s"
    and g': "eg_recents g' = lru_evict e (AList.update (s_hash s) s (eg_recents g1))" "eg_signer g' = eg_signer g1" "proposals g' = proposals g1"
    using s by (auto simp: snapshot_def store_snapshot_def Let_def simp del: find_snapshot.simps split: bind_splits sum.splits if_splits)
  have ga: "gathered number number []" by (simp add: gathered_def)
  from find_snapshot_ok [OF e g, of number "Suc (unat number)" number "[]" now h ps, OF _ ga] f
  obtain m where s0: "kept_ok s0" and m: "gathered number m headers" by (auto simp del: find_snapshot.simps)
  have sh: "if headers = [] then s_hash s0 = h else HeaderHash (cfg e) (hd headers) = h"
    and fr: "eg_signer g1 = eg_signer g" "proposals g1 = proposals g"
    using find_snapshot_hash [OF e g f] h by (auto split: if_splits)
  have l: "length headers \<le> unat number" using m by (simp add: gathered_def)
  have b: "length (Signers s0) + length (rev headers) < 2 ^ 64" "unat (Number s0) + length (rev headers) < 2 ^ 64" "snap_ok s0"
    using s0 l n by (simp_all add: kept_ok_def)
  note ah = apply_headers_ok [OF b(3) a [unfolded reverse_loop_rev] b(1,2)]
  show sh': "s_hash s = h" using sh ah(4,5) by (cases "headers = []") (simp_all add: last_rev)
  have "map_of (lru_evict e (AList.update (s_hash s) s (eg_recents g1))) (s_hash s) = Some s"
    using e unfolding cliqueEnv_ok_def by blast
  then show "map_of (eg_recents g') h = Some s" using g'(1) sh' by simp
  show "eg_signer g' = eg_signer g" "proposals g' = proposals g" using g' fr by simp_all
qed

lemma snapshot_hit:
  assumes e: "cliqueEnv_ok e" and m: "map_of (eg_recents g) h = Some s" and h: "s_hash s = h"
  obtains g' where "snapshot e now n h ps g = Some (Inr s, g')" "map_of (eg_recents g') h = Some s" "eg_signer g' = eg_signer g"
proof -
  have "map_of (lru_evict e (AList.update h s (eg_recents g))) h = Some s"
    using e unfolding cliqueEnv_ok_def by blast
  then show ?thesis using that [of "g\<lparr>eg_recents := lru_evict e (AList.update h s (eg_recents g))\<rparr>"] m h
    by (simp add: snapshot_def apply_headers_def reverse_loop_rev Let_def)
qed

section \<open>The checks return\<close>

lemma check_seal_total: "\<exists>r. check_seal c s header = Some r"
proof (cases "ecrecover c header")
  case (Inr signer)
  show ?thesis
  proof (cases "signer \<in> set (Signers s)")
    case True
    then have "signer \<in> set (sorted_signers s)" by (simp add: sorted_signers_sort)
    then have "sorted_signers s \<noteq> []" by (cases "sorted_signers s") simp_all
    then have "inturn (low64 (h_number header)) signer s \<noteq> None" by (simp add: inturn_def Let_def)
    then show ?thesis using Inr by (auto simp: check_seal_def Let_def)
  qed (simp add: check_seal_def Inr Let_def)
qed (simp add: check_seal_def)

lemma verifySeal_total:
  assumes e: "cliqueEnv_ok e" and g: "engine_ok g" and n: "unat (low64 (h_number header)) \<le> 2 ^ 62"
  shows "\<exists>r g'. verifySeal e now header ps g = Some (r, g') \<and> engine_ok g'"
proof (cases "low64 (h_number header) = 0")
  case False
  then have "unat (low64 (h_number header) - 1) < 2 ^ 62" using n by (simp add: unat_minus_one word_gt_0 unat_gt_0)
  from snapshot_ok [OF e g this] obtain r1 g1 where
    s: "snapshot e now (low64 (h_number header) - 1) (ParentHash header) ps g = Some (r1, g1)" "engine_ok g1" by metis
  show ?thesis
  proof (cases r1)
    case (Inl err)
    then show ?thesis using False s by (simp add: verifySeal_def Let_def)
  next
    case (Inr sn)
    obtain v where "check_seal (cfg e) sn header = Some v" using check_seal_total by blast
    then show ?thesis using False s Inr by (simp add: verifySeal_def Let_def)
  qed
qed (simp add: verifySeal_def g)

lemma verifyHeader_total:
  assumes e: "cliqueEnv_ok e" and g: "engine_ok g" and n: "unat (low64 (h_number header)) \<le> 2 ^ 62"
  shows "\<exists>r g'. verifyHeader e now header ps g = Some (r, g') \<and> engine_ok g'"
proof (cases "verify_basic (cfg e) now header = Inr () \<and> low64 (h_number header) \<noteq> 0 \<and>
    check_parent (cfg e) (find_parent e header ps) header = Inr ()")
  case True
  then have "unat (low64 (h_number header) - 1) < 2 ^ 62" using n by (simp add: unat_minus_one word_gt_0 unat_gt_0)
  from snapshot_ok [OF e g this] obtain r1 g1 where
    s: "snapshot e now (low64 (h_number header) - 1) (ParentHash header) ps g = Some (r1, g1)" "engine_ok g1" by metis
  show ?thesis
  proof (cases r1)
    case (Inl err)
    then show ?thesis using True s by (simp add: verifyHeader_def verifyCascadingFields_def Let_def)
  next
    case (Inr sn)
    show ?thesis using True s Inr verifySeal_total [OF e s(2) n, of now ps]
      by (cases "check_checkpoint (cfg e) sn header") (simp_all add: verifyHeader_def verifyCascadingFields_def Let_def)
  qed
next
  case False
  then show ?thesis using g
    by (auto simp: verifyHeader_def verifyCascadingFields_def Let_def split: sum.splits)
qed

lemma verify_batch_ok:
  assumes e: "cliqueEnv_ok e"
  shows "engine_ok g \<Longrightarrow> \<forall>h \<in> set hs. unat (low64 (h_number h)) \<le> 2 ^ 62 \<Longrightarrow>
    \<exists>rs g'. verify_batch e now ps hs g = Some (rs, g') \<and> length rs = length hs \<and> engine_ok g'"
proof (induction hs arbitrary: ps g)
  case (Cons h hs)
  from Cons.prems(2) have "unat (low64 (h_number h)) \<le> 2 ^ 62" by simp
  from verifyHeader_total [OF e Cons.prems(1) this] obtain r g1 where
    v: "verifyHeader e now h ps g = Some (r, g1)" "engine_ok g1" by blast
  from Cons.IH [OF v(2)] Cons.prems(2) obtain rs g' where
    "verify_batch e now (ps @ [h]) hs g1 = Some (rs, g')" "length rs = length hs" "engine_ok g'" by (meson list.set_intros(2))
  then show ?case using v by simp
qed simp

text \<open>A chain of the genesis block alone, with one signer, and an engine of that signer.\<close>

definition sample_genesis :: header where
  "sample_genesis = sample_header 0 0 nonceDropVote (replicate 32 0 @ address_bytes 1 @ replicate 65 0)"

definition sample_chain :: cliqueEnv where
  "sample_chain = \<lparr>cfg = sample_clique, cr_GetHeader = (\<lambda>h n. if h = 0 \<and> n = 0 then Some sample_genesis else None),
     cr_genesis = sample_genesis, cr_byNumber = (\<lambda>n. None), cr_byHash = (\<lambda>h. None), cr_current = None,
     lru_evict = (\<lambda>m. m), db_put_ok = (\<lambda>s. True)\<rparr>"

definition sample_engine :: engine where
  "sample_engine = \<lparr>eg_recents = [(0, newSnapshot 0 0 [1])], eg_db = [], proposals = [(9, True)], eg_signer = 1\<rparr>"

lemma sample_chain_ok: "cliqueEnv_ok sample_chain"
  by (simp add: cliqueEnv_ok_def sample_chain_def sample_genesis_def sample_header_def sample_clique_def low64_def update_conv')

lemma sample_engine_ok: "engine_ok sample_engine"
  using newSnapshot_ok by (simp add: engine_ok_def sample_engine_def kept_ok_def) (simp add: newSnapshot_def)



section \<open>What is sealed verifies\<close>

lemma choose_vote_shape:
  "h_nonce (choose_vote s props rnd h) \<in> {h_nonce h, nonceAuthVote, nonceDropVote}"
  "h_number (choose_vote s props rnd h) = h_number h" "ParentHash (choose_vote s props rnd h) = ParentHash h"
  "h_extra (choose_vote s props rnd h) = h_extra h"
  by (simp_all add: choose_vote_def Let_def)

lemma prepare_extra_shape:
  obtains v where "length v = extraVanity"
    "prepare_extra c s h = (v @ (if low64 (h_number h) mod Epoch c = 0 then signer_bytes s else [])) @ replicate extraSeal 0"
proof -
  let ?x = "if length (h_extra h) < extraVanity
    then h_extra h @ replicate (extraVanity - length (h_extra h)) 0 else h_extra h"
  show ?thesis by (rule that [of "take extraVanity ?x"]) (simp_all add: prepare_extra_def Let_def)
qed

definition prepared :: "clique \<Rightarrow> Snapshot \<Rightarrow> address \<Rightarrow> header \<Rightarrow> bool" where
  "prepared c s signer h \<longleftrightarrow>
     (let number = low64 (h_number h); checkpoint = (number mod Epoch c = 0)
      in MixDigest h = 0 \<and> h_nonce h \<in> {nonceAuthVote, nonceDropVote} \<and>
         (checkpoint \<longrightarrow> h_coinbase h = 0 \<and> h_nonce h = nonceDropVote) \<and>
         (\<exists>turn. inturn number signer s = Some turn \<and> h_difficulty h = (if turn then diffInTurn else diffNoTurn)) \<and>
         (\<exists>v t. length v = extraVanity \<and> length t = extraSeal \<and>
            h_extra h = (v @ (if checkpoint then signer_bytes s else [])) @ t))"

lemma prepare_fields_shape:
  assumes p: "prepare_fields c s props signer rnd h0 = Some h"
  shows "prepared c s signer h" "h_number h = h_number h0" "ParentHash h = ParentHash h0"
proof -
  let ?n = "low64 (h_number h0)"
  let ?z = "h0\<lparr>h_coinbase := 0, h_nonce := replicate 8 0\<rparr>"
  define h1 where "h1 = (if ?n mod Epoch c \<noteq> 0 then choose_vote s props rnd ?z else ?z)"
  have h1: "h_number h1 = h_number h0" "ParentHash h1 = ParentHash h0" "h_nonce h1 \<in> {nonceAuthVote, nonceDropVote}"
    "?n mod Epoch c = 0 \<longrightarrow> h_coinbase h1 = 0 \<and> h_nonce h1 = nonceDropVote"
    using choose_vote_shape [of s props rnd ?z] by (auto simp: h1_def nonceDropVote_def)
  obtain turn where t: "inturn ?n signer s = Some turn" using p by (cases "inturn ?n signer s") (simp_all add: prepare_fields_def Let_def)
  define h2 where "h2 = h1\<lparr>h_difficulty := (if turn then diffInTurn else diffNoTurn)\<rparr>"
  have h: "h = h2\<lparr>h_extra := prepare_extra c s h2, MixDigest := 0\<rparr>"
    using p t by (simp add: prepare_fields_def Let_def h1_def h2_def)
  have n2: "h_number h2 = h_number h0" by (simp add: h2_def h1)
  obtain v where v: "length v = extraVanity"
    "prepare_extra c s h2 = (v @ (if ?n mod Epoch c = 0 then signer_bytes s else [])) @ replicate extraSeal 0"
    by (rule prepare_extra_shape [of c s h2, unfolded n2])
  show "h_number h = h_number h0" "ParentHash h = ParentHash h0" using h h1 by (simp_all add: h2_def)
  have fs: "h_number h = h_number h0" "MixDigest h = 0" "h_nonce h = h_nonce h1" "h_coinbase h = h_coinbase h1"
    "h_difficulty h = (if turn then diffInTurn else diffNoTurn)" "h_extra h = prepare_extra c s h2"
    using h h1 by (simp_all add: h2_def)
  have "\<exists>v t. length v = extraVanity \<and> length t = extraSeal \<and>
      h_extra h = (v @ (if ?n mod Epoch c = 0 then signer_bytes s else [])) @ t"
    unfolding fs(6) by (rule exI [of _ v], rule exI [of _ "replicate extraSeal 0"]) (simp add: v)
  then show "prepared c s signer h"
    unfolding prepared_def Let_def fs(1-5) using h1 t by simp
qed

lemma put_seal_shape:
  "length t = extraSeal \<Longrightarrow> length sig = extraSeal \<Longrightarrow> put_seal (p @ t) sig = Some (p @ sig)"
  by (simp add: put_seal_def Let_def)

lemma prepared_seal:
  assumes h: "prepared c s signer h" and sig: "length sig = extraSeal"
  obtains x where "put_seal (h_extra h) sig = Some x" "prepared c s signer (h\<lparr>h_extra := x\<rparr>)"
proof -
  let ?k = "if low64 (h_number h) mod Epoch c = 0 then signer_bytes s else []"
  from h obtain v t where x: "length v = extraVanity" "length t = extraSeal" "h_extra h = (v @ ?k) @ t"
    unfolding prepared_def Let_def by blast
  have "put_seal (h_extra h) sig = Some ((v @ ?k) @ sig)" unfolding x(3) by (rule put_seal_shape [OF x(2) sig])
  moreover have "prepared c s signer (h\<lparr>h_extra := (v @ ?k) @ sig\<rparr>)"
    using h x(1) sig unfolding prepared_def Let_def by auto
  ultimately show ?thesis by (rule that)
qed

lemma prepared_verifies:
  assumes h: "prepared c s signer h" and u: "UncleHash h = emptyUncleHash c" and t: "h_time h \<le> now"
    and r: "ecrecover c h = Inr signer" and a: "signer \<in> set (Signers s)" and m: "may_seal (low64 (h_number h)) signer s"
  shows "verify_basic c now h = Inr ()" "check_checkpoint c s h = Inr ()" "check_seal c s h = Some (Inr ())"
proof -
  let ?n = "low64 (h_number h)"
  let ?k = "if ?n mod Epoch c = 0 then signer_bytes s else []"
  from h obtain v q turn where x: "length v = extraVanity" "length q = extraSeal" "h_extra h = (v @ ?k) @ q"
    and turn: "inturn ?n signer s = Some turn" "h_difficulty h = (if turn then diffInTurn else diffNoTurn)"
    and f: "MixDigest h = 0" "h_nonce h \<in> {nonceAuthVote, nonceDropVote}"
      "?n mod Epoch c = 0 \<longrightarrow> h_coinbase h = 0 \<and> h_nonce h = nonceDropVote"
    unfolding prepared_def Let_def by blast
  have lk: "length (signer_bytes s) = 20 * length (sorted_signers s)"
    unfolding signer_bytes_def by (rule length_concat_chunks) simp
  have ls: "int (length (h_extra h)) - int extraVanity - int extraSeal = (if ?n mod Epoch c = 0 then 20 * int (length (sorted_signers s)) else 0)"
    using x lk by simp
  have le: "extraVanity + extraSeal \<le> length (h_extra h)" using x by simp
  show "verify_basic c now h = Inr ()"
    using t f u turn(2) ls le by (auto simp: verify_basic_def Let_def)
  show "check_checkpoint c s h = Inr ()" using x lk by (auto simp: check_checkpoint_def)
  show "check_seal c s h = Some (Inr ())"
    using r a m turn by (auto simp: check_seal_def may_seal_def Let_def)
qed

lemma low64_id: "0 \<le> x \<Longrightarrow> x < 2 ^ 64 \<Longrightarrow> uint (low64 x) = x"
  by (simp add: uint_low64)

lemma prepare_time_ok:
  assumes "0 \<le> h_time parent" "h_time parent + uint (Period c) < 2 ^ 63" "now < 2 ^ 63"
  shows "low64 (h_time parent) + Period c \<le> low64 (prepare_time c now parent)"
proof -
  let ?t = "h_time parent + uint (Period c)"
  have t: "0 \<le> ?t" using assms(1) by simp
  have "uint (low64 ?t) = ?t" using assms(2) t by (intro low64_id) simp_all
  then have st: "sint (low64 ?t) = ?t" using assms(2) t by (simp add: sint_uint signed_take_bit_int_eq_self)
  have ge: "?t \<le> prepare_time c now parent" "prepare_time c now parent < 2 ^ 63"
    using assms(2,3) st by (simp_all add: prepare_time_def Let_def)
  have "h_time parent < 2 ^ 63" using assms(2) uint_ge_0 [of "Period c"] by linarith
  then have "uint (low64 (h_time parent)) = h_time parent" using assms(1) by (intro low64_id) simp_all
  then have "uint (low64 (h_time parent) + Period c) = ?t"
    using assms t by (simp add: uint_word_ariths)
  moreover have "uint (low64 (prepare_time c now parent)) = prepare_time c now parent" using ge t by (intro low64_id) simp_all
  ultimately show ?thesis using ge(1) by (simp add: word_le_def)
qed

lemma prepared_time: "prepared c s signer (h\<lparr>h_time := t\<rparr>) = prepared c s signer h"
  by (simp add: prepared_def)

lemma prepared_finalize: "prepared c s signer (CliqueFinalize c root h) = prepared c s signer h"
  by (simp add: prepared_def CliqueFinalize_def)

lemma CliquePrepare_cases:
  assumes e: "cliqueEnv_ok e" and g: "engine_ok g" and n: "unat (low64 (h_number h0) - 1) < 2 ^ 62"
    and p: "CliquePrepare e now rnd h0 g = Some (Inr h1, g1)"
  obtains s parent where "cr_GetHeader e (ParentHash h0) (low64 (h_number h0) - 1) = Some parent"
    "map_of (eg_recents g1) (ParentHash h0) = Some s" "s_hash s = ParentHash h0" "eg_signer g1 = eg_signer g"
    "prepared (cfg e) s (eg_signer g) h1" "h_number h1 = h_number h0" "ParentHash h1 = ParentHash h0"
    "h_time h1 = prepare_time (cfg e) now parent"
proof -
  let ?n = "low64 (h_number h0) - 1"
  obtain r ga where sn: "snapshot e now ?n (ParentHash h0) [] g = Some (r, ga)"
    using p by (cases "snapshot e now ?n (ParentHash h0) [] g") (auto simp: CliquePrepare_def Let_def)
  obtain s where r: "r = Inr s" using p sn by (cases r) (simp_all add: CliquePrepare_def Let_def)
  obtain h where f: "prepare_fields (cfg e) s (proposals ga) (eg_signer ga) rnd h0 = Some h"
    using p sn r by (cases "prepare_fields (cfg e) s (proposals ga) (eg_signer ga) rnd h0") (simp_all add: CliquePrepare_def Let_def)
  obtain parent where ph: "cr_GetHeader e (ParentHash h0) ?n = Some parent"
    using p sn r f by (cases "cr_GetHeader e (ParentHash h0) ?n") (simp_all add: CliquePrepare_def Let_def)
  have h1: "h1 = h\<lparr>h_time := prepare_time (cfg e) now parent\<rparr>" "g1 = ga"
    using p sn r f ph by (simp_all add: CliquePrepare_def Let_def)
  have gen: "?n = 0 \<Longrightarrow> ParentHash h0 = HeaderHash (cfg e) (cr_genesis e)" using e ph unfolding cliqueEnv_ok_def by metis
  note c = snapshot_cached [OF e g n gen sn [unfolded r]]
  note pf = prepare_fields_shape [OF f]
  show ?thesis
    by (rule that [OF ph c(1) [folded h1(2)] c(2) c(3) [folded h1(2)]])
      (simp_all add: h1(1) prepared_time pf c(3) [symmetric])
qed

lemma CliquePrepare_number:
  assumes "CliquePrepare e now rnd h0 g = Some (Inr h1, g1)"
  shows "h_number h1 = h_number h0"
proof -
  obtain s h where "prepare_fields (cfg e) s (proposals g1) (eg_signer g1) rnd h0 = Some h" "h_number h1 = h_number h"
    using assms unfolding CliquePrepare_def Let_def by (auto split: bind_splits sum.splits option.splits)
  then show ?thesis using prepare_fields_shape(2) by metis
qed

lemma CliqueSeal_cases:
  assumes e: "cliqueEnv_ok e" and m: "map_of (eg_recents g) (ParentHash f) = Some s" "s_hash s = ParentHash f"
    and seal: "CliqueSeal e now stopped sign f g = Some (Inr (Some h), g')"
  obtains sig x where "eg_signer g \<in> set (Signers s)" "may_seal (low64 (h_number f)) (eg_signer g) s"
    "sign (eg_signer g) f = Some sig" "put_seal (h_extra f) sig = Some x" "h = f\<lparr>h_extra := x\<rparr>"
    "map_of (eg_recents g') (ParentHash f) = Some s" "low64 (h_number f) \<noteq> 0"
proof -
  have nz: "low64 (h_number f) \<noteq> 0" using seal by (auto simp: CliqueSeal_def Let_def split: if_splits)
  from snapshot_hit [OF e m] obtain ga where
    sn: "snapshot e now (low64 (h_number f) - 1) (ParentHash f) [] g = Some (Inr s, ga)"
      "map_of (eg_recents ga) (ParentHash f) = Some s" by metis
  have au: "eg_signer g \<in> set (Signers s)" "may_seal (low64 (h_number f)) (eg_signer g) s"
    using seal sn(1) nz by (simp_all add: CliqueSeal_def Let_def split: if_splits)
  obtain sig where sig: "sign (eg_signer g) f = Some sig"
    using seal sn(1) nz au by (cases "sign (eg_signer g) f") (simp_all add: CliqueSeal_def Let_def split: if_splits)
  obtain x where x: "put_seal (h_extra f) sig = Some x"
    using seal sn(1) nz au sig by (cases "put_seal (h_extra f) sig") (simp_all add: CliqueSeal_def Let_def split: if_splits)
  have "h = f\<lparr>h_extra := x\<rparr>" "g' = ga"
    using seal sn(1) nz au sig x by (simp_all add: CliqueSeal_def Let_def split: if_splits)
  then show ?thesis using that [OF au sig x] sn(2) nz by simp
qed

lemma verifyHeader_accepts:
  assumes e: "cliqueEnv_ok e" and m: "map_of (eg_recents g) (ParentHash h) = Some s" "s_hash s = ParentHash h"
    and nz: "low64 (h_number h) \<noteq> 0"
    and v: "verify_basic (cfg e) now h = Inr ()" "check_checkpoint (cfg e) s h = Inr ()" "check_seal (cfg e) s h = Some (Inr ())"
    and ph: "cr_GetHeader e (ParentHash h) (low64 (h_number h) - 1) = Some parent"
    and t: "low64 (h_time parent) + Period (cfg e) \<le> low64 (h_time h)"
  shows "\<exists>g'. verifyHeader e now h [] g = Some (Inr (), g')"
proof -
  have pn: "low64 (h_number parent) = low64 (h_number h) - 1" "HeaderHash (cfg e) parent = ParentHash h"
    using e ph unfolding cliqueEnv_ok_def by blast+
  have cp: "check_parent (cfg e) (find_parent e h []) h = Inr ()"
    using ph pn t by (simp add: check_parent_def find_parent_def not_less [symmetric])
  from snapshot_hit [OF e m] obtain gb where
    sb: "snapshot e now (low64 (h_number h) - 1) (ParentHash h) [] g = Some (Inr s, gb)"
      "map_of (eg_recents gb) (ParentHash h) = Some s" by metis
  from snapshot_hit [OF e sb(2) m(2)] obtain gc where
    sc: "snapshot e now (low64 (h_number h) - 1) (ParentHash h) [] gb = Some (Inr s, gc)" by metis
  have "verifySeal e now h [] gb = Some (Inr (), gc)" using sc v(3) nz by (simp add: verifySeal_def Let_def)
  then have "verifyHeader e now h [] g = Some (Inr (), gc)"
    using v(1,2) cp sb nz by (simp add: verifyHeader_def verifyCascadingFields_def Let_def)
  then show ?thesis ..
qed


definition sample_sign :: "address \<Rightarrow> header \<Rightarrow> byte list option" where
  "sample_sign a h = Some (replicate 64 0 @ [ucast a])"

definition sample_prepared :: header where
  "sample_prepared = (sample_header 1 9 nonceAuthVote (replicate 97 0))\<lparr>h_time := 20\<rparr>"

lemma sample_snapshot: "snapshot sample_chain now 0 0 [] sample_engine = Some (Inr (newSnapshot 0 0 [1]), sample_engine)"
proof -
  have h: "s_hash (newSnapshot 0 0 [1]) = 0" by (simp add: newSnapshot_def)
  show ?thesis
    by (simp add: snapshot_def sample_chain_def sample_engine_def reverse_loop_rev apply_headers_def h)
qed

lemma sample_sorted: "sorted_signers (newSnapshot 0 0 [1]) = [1]"
  unfolding sorted_signers_sort by (simp add: newSnapshot_def)

lemma sample_fields:
  "prepare_fields sample_clique (newSnapshot 0 0 [1]) [(9, True)] 1 0 (sample_header 1 0 nonceDropVote []) =
   Some (sample_header 1 9 nonceAuthVote (replicate 97 0))"
proof -
  have t: "inturn 1 1 (newSnapshot 0 0 [1]) = Some True" by (simp add: inturn_def sample_sorted)
  have v: "validVote 9 True (newSnapshot 0 0 [1])" by (simp add: validVote_def newSnapshot_def)
  have x: "prepare_extra sample_clique (newSnapshot 0 0 [1]) h = replicate 97 0"
    if "h_extra h = []" "h_number h = 1" for h :: header
    using that by (simp add: prepare_extra_def extraVanity_def extraSeal_def low64_def sample_clique_def Let_def flip: replicate_add)
  show ?thesis
    by (simp add: prepare_fields_def sample_header_def low64_def t x Let_def choose_vote_def v diffInTurn_def)
      (simp add: sample_clique_def)
qed

lemma sample_prepare:
  "CliquePrepare sample_chain 20 0 (sample_header 1 0 nonceDropVote []) sample_engine = Some (Inr sample_prepared, sample_engine)"
proof -
  let ?h = "sample_header 1 0 nonceDropVote []"
  have f: "low64 (h_number ?h) = 1" "ParentHash ?h = 0" "cfg sample_chain = sample_clique"
    "proposals sample_engine = [(9, True)]" "eg_signer sample_engine = 1" "cr_GetHeader sample_chain 0 0 = Some sample_genesis"
    by (simp_all add: sample_header_def sample_chain_def sample_engine_def low64_def)
  have t: "prepare_time sample_clique 20 sample_genesis = 20"
    by (simp add: prepare_time_def sample_clique_def sample_genesis_def sample_header_def low64_def)
  show ?thesis unfolding CliquePrepare_def Let_def f
    by (simp add: f sample_snapshot sample_fields t sample_prepared_def)
qed

lemma sample_seal:
  "CliqueSeal sample_chain 21 False sample_sign (CliqueFinalize sample_clique 3 sample_prepared) sample_engine =
   Some (Inr (Some (sample_prepared\<lparr>h_root := 3, h_extra := replicate 96 0 @ [1]\<rparr>)), sample_engine)"
proof -
  let ?f = "sample_prepared\<lparr>h_root := 3\<rparr>"
  have ff: "CliqueFinalize sample_clique 3 sample_prepared = ?f"
    by (simp add: CliqueFinalize_def sample_prepared_def sample_header_def sample_clique_def)
  have f: "low64 (h_number ?f) = 1" "ParentHash ?f = 0" "eg_signer sample_engine = 1"
    "h_extra ?f = replicate 32 0 @ replicate 65 0"
    by (simp_all add: sample_prepared_def sample_header_def sample_engine_def low64_def flip: replicate_add)
  have m: "may_seal 1 1 (newSnapshot 0 0 [1])" "1 \<in> set (Signers (newSnapshot 0 0 [1]))" by (simp_all add: may_seal_def newSnapshot_def)
  have p: "put_seal (replicate 32 0 @ replicate 65 0) (replicate 64 0 @ [1]) = Some (replicate 32 0 @ (replicate 64 0 @ [1]))"
    by (rule put_seal_shape) (simp_all add: extraSeal_def)
  have r: "replicate 32 0 @ (replicate 64 (0 :: byte) @ [1]) = replicate 96 0 @ [1]" by (simp flip: append_assoc replicate_add)
  show ?thesis unfolding ff CliqueSeal_def Let_def f
    by (simp add: f sample_snapshot m sample_sign_def p r extraSeal_def del: append_assoc replicate.simps)
qed


section \<open>What verifies can be applied\<close>

text \<open>
  C16: a header that passes the checks against the snapshot of its parent can be applied to that
  snapshot, from the block on whose number reaches the signing limit: the signer, the recent signers
  and the vote are all acceptable.
\<close>
theorem verified_header_applies:
  assumes ok: "snap_ok s" and len: "length (Signers s) < 2 ^ 64"
    and n: "unat (low64 (h_number h)) = Suc (unat (Number s))" and lim: "signer_limit s \<le> low64 (h_number h)"
    and b: "verify_basic c now h = Inr ()" and cs: "check_seal c s h = Some (Inr ())"
  shows "\<exists>s'. apply_header c s h = Inr s'"
proof -
  let ?n = "low64 (h_number h)"
  let ?s1 = "if ?n mod Epoch c = 0 then s\<lparr>Votes := [], s_tally := []\<rparr> else s"
  obtain sg where sg: "ecrecover c h = Inr sg" using cs by (cases "ecrecover c h") (simp_all add: check_seal_def)
  have au: "sg \<in> set (Signers s)" "\<forall>p \<in> set (Recents s). snd p = sg \<longrightarrow> \<not> ?n - signer_limit s < fst p"
    using cs sg by (auto simp: check_seal_def Let_def split: if_splits)
  have r: "recents_ok (unat (Number s)) s" using ok by (simp add: snap_ok_def)
  note dr = drop_recent_next [OF r n len]
  have fresh: "sg \<notin> snd ` set (Recents (drop_recent ?n s))"
  proof
    assume "sg \<in> snd ` set (Recents (drop_recent ?n s))"
    then obtain p where p: "p \<in> set (Recents (drop_recent ?n s))" "snd p = sg" by blast
    have "Signers (drop_recent ?n s) = Signers s" by (simp add: drop_recent_def)
    then have "unat ?n < unat (fst p) + (length (Signers s) div 2 + 1)" using dr(1) p(1) unfolding recents_ok_def by simp
    moreover have "unat (signer_limit s) = length (Signers s) div 2 + 1" using len by (rule unat_limit)
    moreover have "unat (?n - signer_limit s) = unat ?n - unat (signer_limit s)" using lim by (rule unat_sub)
    moreover have "unat (signer_limit s) \<le> unat ?n" using lim by (simp add: word_le_nat_alt)
    ultimately have "?n - signer_limit s < fst p" unfolding word_less_nat_alt by linarith
    then show False using au(2) p dr(2) by blast
  qed
  have same: "Recents (drop_recent ?n ?s1) = Recents (drop_recent ?n s)" "Signers (drop_recent ?n ?s1) = Signers s"
    by (simp_all add: drop_recent_def signer_limit_def)
  have "h_nonce h = nonceAuthVote \<or> h_nonce h = nonceDropVote" using b by (auto simp: verify_basic_def Let_def split: if_splits)
  then have "\<exists>auth. vote_of (h_nonce h) = Inr auth" by (cases "h_nonce h = nonceAuthVote") (auto simp: vote_of_def)
  then obtain auth where v: "vote_of (h_nonce h) = Inr auth" ..
  show ?thesis using sg au(1) fresh same v by (simp add: apply_header_def Let_def split: prod.split)
qed

theorem verified_header_applies_witness:
  "\<exists>s'. check_seal sample_clique (newSnapshot 0 0 [1]) (sample_header 1 9 nonceAuthVote (signed_by 1)) = Some (Inr ()) \<and>
     apply_header sample_clique (newSnapshot 0 0 [1]) (sample_header 1 9 nonceAuthVote (signed_by 1)) = Inr s'"
proof -
  let ?h = "sample_header 1 9 nonceAuthVote (signed_by 1)" and ?s = "newSnapshot 0 0 [1]"
  have r: "ecrecover sample_clique ?h = Inr 1" and n: "low64 (h_number ?h) = 1"
    by (simp_all add: ecrecover_def sample_clique_def sample_header_def signed_by_def extraSeal_def low64_def)
  have b: "verify_basic sample_clique 0 ?h = Inr ()"
    by (simp add: verify_basic_def sample_clique_def sample_header_def signed_by_def extraSeal_def extraVanity_def low64_def
      diffInTurn_def Let_def)
  have t: "inturn 1 1 ?s = Some True" by (simp add: inturn_def sample_sorted)
  have c: "check_seal sample_clique ?s ?h = Some (Inr ())"
    by (simp add: check_seal_def r n t Let_def) (simp add: newSnapshot_def diffInTurn_def sample_header_def)
  have f: "length (Signers ?s) < 2 ^ 64" "unat (low64 (h_number ?h)) = Suc (unat (Number ?s))" "signer_limit ?s \<le> low64 (h_number ?h)"
    unfolding n by (simp_all add: newSnapshot_def signer_limit_def)
  from verified_header_applies [OF newSnapshot_ok f b c] show ?thesis using c by blast
qed

text \<open>
  C17: before the signing limit the guard is missing from \<open>verifySeal\<close>: with four signers, the signer of
  block 1 also seals block 2, the header passes every check, and the snapshot refuses it.
\<close>
theorem early_recent_signer_accepted:
  "\<exists>s h. apply_headers sample_clique (newSnapshot 0 0 [1, 2, 3, 4]) [sample_header 1 0 nonceDropVote (signed_by 1)] = Inr s \<and>
     Number s = 1 \<and> h_number h = 2 \<and> verify_basic sample_clique 0 h = Inr () \<and>
     check_seal sample_clique s h = Some (Inr ()) \<and> apply_header sample_clique s h = Inl errUnauthorized"
proof -
  define s where "s = \<lparr>Number = 1, s_hash = 1, Signers = [1, 2, 3, 4], Recents = [(1, 1)], Votes = [], s_tally = []\<rparr>"
  define h where "h = (sample_header 2 0 nonceDropVote (signed_by 1))\<lparr>h_difficulty := 1\<rparr>"
  have a: "apply_headers sample_clique (newSnapshot 0 0 [1, 2, 3, 4]) [sample_header 1 0 nonceDropVote (signed_by 1)] = Inr s"
    by (simp add: s_def apply_headers_def apply_header_def newSnapshot_def sample_clique_def sample_header_def signed_by_def ecrecover_def
      extraSeal_def low64_def drop_recent_def signer_limit_def vote_of_def settle_vote_def record_vote_def cast_def validVote_def
      nonceDropVote_def nonceAuthVote_def Let_def)
  have r: "ecrecover sample_clique h = Inr 1"
    by (simp add: h_def ecrecover_def sample_clique_def sample_header_def signed_by_def extraSeal_def)
  have n: "low64 (h_number h) = 2" by (simp add: h_def sample_header_def low64_def)
  have b: "verify_basic sample_clique 0 h = Inr ()"
    by (simp add: h_def verify_basic_def sample_clique_def sample_header_def signed_by_def extraSeal_def extraVanity_def low64_def
      diffInTurn_def diffNoTurn_def Let_def)
  have l: "signer_limit s = 3" by (simp add: s_def signer_limit_def)
  have srt: "sorted_signers s = [1, 2, 3, 4]" unfolding sorted_signers_sort s_def by simp
  have "inturn 2 1 s = Some False" by (simp add: inturn_def srt offset_of.simps Let_def)
  then have cs: "check_seal sample_clique s h = Some (Inr ())"
    by (simp add: check_seal_def r n l Let_def) (simp add: s_def h_def diffNoTurn_def sample_header_def)
  have ap: "apply_header sample_clique s h = Inl errUnauthorized"
    by (simp add: apply_header_def r n Let_def drop_recent_def) (simp add: s_def signer_limit_def sample_clique_def)
  have "Number s = 1" "h_number h = 2" by (simp_all add: s_def h_def sample_header_def)
  then show ?thesis using a b cs ap by blast
qed

end
