(* ===== verification/StateTransition.thy ===== *)
theory StateTransition
  imports Gas Header
begin

text \<open>
  \<open>core/state_transition.go\<close>: applying one message to the world state. The state database and the
  virtual machine are library code (\<open>MoacLib/state\<close>, \<open>MoacLib/vm\<close>): \<open>evm\<close> holds the operations the
  code calls on them, over an abstract state \<open>'s\<close>. The record \<open>transition\<close> is the struct
  \<open>StateTransition\<close> without its pointers to the message and the machine, which are arguments.
  \<open>whiteUpdates\<close> counts the calls of the relay's \<open>UpdateWhiteState\<close>.
\<close>

section \<open>State\<close>

datatype vm_error = ErrInsufficientBalance | ErrVm nat

datatype st_error =
    ErrOutOfGas | errInsufficientBalanceForGas | ErrPoolGas gas_error | NonceTooHigh | NonceTooLow
  | ErrVmBalance | ErrSender

record message =
  m_from :: address
  m_to :: "address option"
  m_waitBlockNumber :: bigint
  m_shardFlag :: uint64
  m_gasPrice :: bigint
  m_gasLimit :: bigint
  m_value :: bigint
  m_nonce :: uint64
  m_checkNonce :: bool
  m_data :: "byte list"
  m_system :: uint64
  m_hash :: hash

record 's evm =
  Exist :: "'s \<Rightarrow> address \<Rightarrow> bool"
  CreateAccount :: "address \<Rightarrow> 's \<Rightarrow> 's"
  BalanceOf :: "'s \<Rightarrow> address \<Rightarrow> bigint"
  AddBalance :: "address \<Rightarrow> bigint \<Rightarrow> 's \<Rightarrow> 's"
  SubBalance :: "address \<Rightarrow> bigint \<Rightarrow> 's \<Rightarrow> 's"
  NonceOf :: "'s \<Rightarrow> address \<Rightarrow> uint64"
  SetNonce :: "address \<Rightarrow> uint64 \<Rightarrow> 's \<Rightarrow> 's"
  GetRefund :: "'s \<Rightarrow> bigint"
  evm_Create :: "address \<Rightarrow> byte list \<Rightarrow> uint64 \<Rightarrow> bigint \<Rightarrow> uint64 \<Rightarrow> hash \<Rightarrow> 's \<Rightarrow>
    (byte list \<times> address \<times> uint64 \<times> vm_error option) \<times> 's"
  evm_Call :: "address \<Rightarrow> address \<Rightarrow> byte list \<Rightarrow> uint64 \<Rightarrow> bigint \<Rightarrow> bool \<Rightarrow> uint64 \<Rightarrow> hash \<Rightarrow> 's \<Rightarrow>
    (byte list \<times> uint64 \<times> vm_error option) \<times> 's"
  evm_CreateSystemContract :: "address \<Rightarrow> byte list \<Rightarrow> hash \<Rightarrow> 's \<Rightarrow> (byte list \<times> vm_error option) \<times> 's"
  Coinbase :: address
  IsPangu :: bool
  HasRelay :: bool
  evm_gas :: gasParams

record 's transition =
  gp :: gasPool
  gasRemaining :: uint64
  st_gasPrice :: bigint
  initialGas :: bigint
  st_value :: bigint
  st_data :: "byte list"
  st_state :: 's
  whiteUpdates :: nat

section \<open>Gas accounting\<close>

definition NewStateTransition :: "'s \<Rightarrow> message \<Rightarrow> gasPool \<Rightarrow> nat \<Rightarrow> 's transition" where
  "NewStateTransition s msg g w = \<lparr>gp = g, gasRemaining = 0, st_gasPrice = m_gasPrice msg, initialGas = 0,
     st_value = m_value msg, st_data = m_data msg, st_state = s, whiteUpdates = w\<rparr>"

definition st_from :: "'s evm \<Rightarrow> message \<Rightarrow> 's transition \<Rightarrow> address \<times> 's transition" where
  "st_from e msg st =
     (let f = m_from msg
      in (f, if \<not> Exist e (st_state st) f then st\<lparr>st_state := CreateAccount e f (st_state st)\<rparr> else st))"

definition st_to :: "'s evm \<Rightarrow> message \<Rightarrow> 's transition \<Rightarrow> address \<times> 's transition" where
  "st_to e msg st =
     (case m_to msg of None \<Rightarrow> (0, st)
      | Some to \<Rightarrow>
          (to, if \<not> Exist e (st_state st) to then st\<lparr>st_state := CreateAccount e to (st_state st)\<rparr> else st))"

definition useGas :: "uint64 \<Rightarrow> 's transition \<Rightarrow> (st_error + unit) \<times> 's transition" where
  "useGas amount st =
     (if gasRemaining st < amount then (Inl ErrOutOfGas, st)
      else (Inr (), st\<lparr>gasRemaining := gasRemaining st - amount\<rparr>))"

text \<open>\<open>x.BitLen() > 64\<close> reads the magnitude of a big integer, as \<open>low64\<close> does.\<close>

definition over64 :: "bigint \<Rightarrow> bool" where
  "over64 x \<longleftrightarrow> 2 ^ 64 \<le> \<bar>x\<bar>"

definition buyGas :: "'s evm \<Rightarrow> message \<Rightarrow> 's transition \<Rightarrow> (st_error + unit) \<times> 's transition" where
  "buyGas e msg st0 =
     (let mgas = m_gasLimit msg
      in if over64 mgas then (Inl ErrOutOfGas, st0)
         else let mgval = mgas * st_gasPrice st0;
                  (sender, st) = st_from e msg st0
              in if BalanceOf e (st_state st) sender < mgval then (Inl errInsufficientBalanceForGas, st)
                 else case SubGas (gp st) mgas of
                   Inl err \<Rightarrow> (Inl (ErrPoolGas err), st)
                 | Inr g \<Rightarrow> (Inr (), st\<lparr>gp := g, gasRemaining := gasRemaining st + low64 mgas,
                     initialGas := mgas, st_state := SubBalance e sender mgval (st_state st)\<rparr>))"

definition preCheck :: "'s evm \<Rightarrow> message \<Rightarrow> 's transition \<Rightarrow> (st_error + unit) \<times> 's transition" where
  "preCheck e msg st0 =
     (let (sender, st) = st_from e msg st0; nonce = NonceOf e (st_state st) sender
      in if m_checkNonce msg \<and> nonce < m_nonce msg then (Inl NonceTooHigh, st)
         else if m_checkNonce msg \<and> m_nonce msg < nonce then (Inl NonceTooLow, st)
         else buyGas e msg st)"

definition gasUsed :: "'s transition \<Rightarrow> bigint" where
  "gasUsed st = (if uint (gasRemaining st) < initialGas st then initialGas st - uint (gasRemaining st) else 0)"

definition refundGas :: "'s evm \<Rightarrow> message \<Rightarrow> 's transition \<Rightarrow> 's transition" where
  "refundGas e msg st0 =
     (let (sender, st) = st_from e msg st0;
          remaining = uint (gasRemaining st) * st_gasPrice st;
          st1 = (if uint (gasRemaining st) < initialGas st
                 then st\<lparr>st_state := AddBalance e sender remaining (st_state st)\<rparr> else st);
          uhalf = gasUsed st1 div 2;
          refund = min uhalf (GetRefund e (st_state st1));
          st2 = st1\<lparr>gasRemaining := gasRemaining st1 + low64 refund,
                    st_state := AddBalance e sender (refund * st_gasPrice st1) (st_state st1)\<rparr>
      in if uint (gasRemaining st2) < initialGas st2
         then st2\<lparr>gp := AddGas (gp st2) (uint (gasRemaining st2))\<rparr> else st2)"

section \<open>The transition\<close>

text \<open>\<open>IsWhiteListCall\<close> of \<open>core/contracts/contracts.go\<close>, on the first four bytes of the data.\<close>

definition whiteListContractCallAddr :: address where
  "whiteListContractCallAddr = 0x406f4c2d1ca8be4709b6a3cc66066cf176aa01ca"

definition IsWhiteListCall :: "address \<Rightarrow> byte list \<Rightarrow> bool" where
  "IsWhiteListCall addr data \<longleftrightarrow> addr = whiteListContractCallAddr \<and>
     data \<in> set [[0xdc, 0xcb, 0xd0, 0x14], [0x21, 0xb0, 0x4c, 0x93], [0xe1, 0xfa, 0x8e, 0x84], [0x95, 0xbc, 0x26, 0x73]]"

text \<open>
  The part both transitions share: intrinsic gas, then the creation or the call. \<open>white\<close> tells that
  a successful call of the white list contract is reported to the relay, which only \<open>TransitionDb\<close>
  does.
\<close>

definition pay_intrinsic :: "'s evm \<Rightarrow> message \<Rightarrow> 's transition \<Rightarrow> (st_error + unit) \<times> 's transition" where
  "pay_intrinsic e msg st =
     (let igas = IntrinsicGas (evm_gas e) (st_data st) (m_to msg = None) (IsPangu e)
      in if over64 igas then (Inl ErrOutOfGas, st)
         else if m_system msg = 0 then useGas (low64 igas) st
         else (Inr (), st))"

definition create_contract ::
  "'s evm \<Rightarrow> message \<Rightarrow> address \<Rightarrow> 's transition \<Rightarrow> (byte list \<times> vm_error option) \<times> 's transition"
where
  "create_contract e msg sender st =
     (if 0 < m_system msg then
        let addr = ucast (ucast (m_system msg) :: byte);
            ((ret, vmerr), s) = evm_CreateSystemContract e addr (st_data st) (m_hash msg) (st_state st)
        in ((ret, vmerr), st\<lparr>st_state := s\<rparr>)
      else
        let ((ret, addr, left, vmerr), s) =
              evm_Create e sender (st_data st) (gasRemaining st) (st_value st) (m_shardFlag msg) (m_hash msg) (st_state st)
        in ((ret, vmerr), st\<lparr>gasRemaining := left, st_state := s\<rparr>))"

definition call_contract ::
  "'s evm \<Rightarrow> bool \<Rightarrow> message \<Rightarrow> address \<Rightarrow> 's transition \<Rightarrow> (byte list \<times> vm_error option) \<times> 's transition"
where
  "call_contract e white msg sender st0 =
     (let st1 = st0\<lparr>st_state := SetNonce e sender (NonceOf e (st_state st0) sender + 1) (st_state st0)\<rparr>;
          (to, st) = st_to e msg st1;
          ((ret, left, vmerr), s) = evm_Call e sender to (st_data st) (gasRemaining st) (st_value st)
             (m_waitBlockNumber msg = 0) (m_shardFlag msg) (m_hash msg) (st_state st);
          st2 = st\<lparr>gasRemaining := left, st_state := s\<rparr>
      in ((ret, vmerr),
          if white \<and> vmerr = None \<and> HasRelay e \<and> 4 \<le> length (st_data st) \<and> IsWhiteListCall to (take 4 (st_data st))
          then st2\<lparr>whiteUpdates := Suc (whiteUpdates st2)\<rparr> else st2))"

definition settle :: "'s evm \<Rightarrow> message \<Rightarrow> 's transition \<Rightarrow> bigint \<times> bigint \<times> 's transition" where
  "settle e msg st =
     (let requiredGas = gasUsed st;
          st1 = refundGas e msg st;
          st2 = st1\<lparr>st_state := AddBalance e (Coinbase e) (gasUsed st1 * st_gasPrice st1) (st_state st1)\<rparr>
      in (requiredGas, gasUsed st2, st2))"

definition execute ::
  "'s evm \<Rightarrow> bool \<Rightarrow> message \<Rightarrow> 's transition \<Rightarrow> (st_error + byte list \<times> bigint \<times> bigint \<times> bool) \<times> 's transition"
where
  "execute e white msg st0 =
     (let (sender, st) = st_from e msg st0
      in case pay_intrinsic e msg st of
           (Inl err, st1) \<Rightarrow> (Inl err, st1)
         | (Inr _, st1) \<Rightarrow>
             (case (if m_to msg = None then create_contract e msg sender st1 else call_contract e white msg sender st1) of
                ((ret, vmerr), st2) \<Rightarrow>
                  if vmerr = Some ErrInsufficientBalance then (Inl ErrVmBalance, st2)
                  else let (requiredGas, usedGas, st3) = settle e msg st2
                       in (Inr (ret, requiredGas, usedGas, vmerr \<noteq> None), st3)))"

definition TransitionDb ::
  "'s evm \<Rightarrow> message \<Rightarrow> 's transition \<Rightarrow> (st_error + byte list \<times> bigint \<times> bigint \<times> bool) \<times> 's transition"
where
  "TransitionDb e msg st =
     (case preCheck e msg st of (Inl err, st1) \<Rightarrow> (Inl err, st1) | (Inr _, st1) \<Rightarrow> execute e True msg st1)"

definition TransitionDbForCalculateGas ::
  "'s evm \<Rightarrow> message \<Rightarrow> 's transition \<Rightarrow> (st_error + byte list \<times> bigint \<times> bigint \<times> bool) \<times> 's transition"
where
  "TransitionDbForCalculateGas e msg st =
     (case buyGas e msg st of (Inl err, st1) \<Rightarrow> (Inl err, st1) | (Inr _, st1) \<Rightarrow> execute e False msg st1)"

definition ApplyMessage ::
  "'s evm \<Rightarrow> message \<Rightarrow> gasPool \<Rightarrow> nat \<Rightarrow> 's \<Rightarrow> (st_error + byte list \<times> bigint \<times> bool) \<times> 's transition"
where
  "ApplyMessage e msg g w s =
     (case TransitionDb e msg (NewStateTransition s msg g w) of
        (Inl err, st) \<Rightarrow> (Inl err, st)
      | (Inr (ret, _, used, failed), st) \<Rightarrow> (Inr (ret, used, failed), st))"

definition ApplyMessageForCalculateGas ::
  "'s evm \<Rightarrow> message \<Rightarrow> gasPool \<Rightarrow> nat \<Rightarrow> 's \<Rightarrow> (st_error + byte list \<times> bigint \<times> bool) \<times> 's transition"
where
  "ApplyMessageForCalculateGas e msg g w s =
     (case TransitionDbForCalculateGas e msg (NewStateTransition s msg g w) of
        (Inl err, st) \<Rightarrow> (Inl err, st)
      | (Inr (ret, _, used, failed), st) \<Rightarrow> (Inr (ret, used, failed), st))"

section \<open>What the library promises\<close>

text \<open>
  \<open>supply\<close> stands for the sum of all balances plus what self-destructing contracts have burned. The
  machine moves funds and spends gas; it creates neither.
\<close>

definition db_ok :: "'s evm \<Rightarrow> ('s \<Rightarrow> int) \<Rightarrow> bool" where
  "db_ok e supply \<longleftrightarrow>
     (\<forall>a v s. supply (AddBalance e a v s) = supply s + v) \<and> (\<forall>a v s. supply (SubBalance e a v s) = supply s - v) \<and>
     (\<forall>a s. Exist e s a \<or> supply (CreateAccount e a s) = supply s) \<and> (\<forall>a n s. supply (SetNonce e a n s) = supply s) \<and>
     (\<forall>s. 0 \<le> GetRefund e s)"

definition vm_ok :: "'s evm \<Rightarrow> ('s \<Rightarrow> int) \<Rightarrow> bool" where
  "vm_ok e supply \<longleftrightarrow>
     (\<forall>a d g v f h s. case evm_Create e a d g v f h s of ((_, _, left, _), s') \<Rightarrow> left \<le> g \<and> supply s' = supply s) \<and>
     (\<forall>a b d g v y f h s. case evm_Call e a b d g v y f h s of ((_, left, _), s') \<Rightarrow> left \<le> g \<and> supply s' = supply s) \<and>
     (\<forall>a d h s. supply (snd (evm_CreateSystemContract e a d h s)) = supply s)"

lemma db_okD:
  assumes "db_ok e supply"
  shows "supply (AddBalance e a v s) = supply s + v" "supply (SubBalance e a v s) = supply s - v"
    "\<not> Exist e s a \<Longrightarrow> supply (CreateAccount e a s) = supply s" "supply (SetNonce e a n s) = supply s" "0 \<le> GetRefund e s"
  using assms by (auto simp: db_ok_def)

lemma vm_okD:
  assumes "vm_ok e supply"
  shows "evm_Create e a d g v f h s = ((ret, c, left, err), s') \<Longrightarrow> left \<le> g \<and> supply s' = supply s"
    "evm_Call e a b d g v y f h s = ((ret, left, err), s') \<Longrightarrow> left \<le> g \<and> supply s' = supply s"
    "supply (snd (evm_CreateSystemContract e a d h s)) = supply s"
proof -
  have c: "case evm_Create e a d g v f h s of ((_, _, left, _), s') \<Rightarrow> left \<le> g \<and> supply s' = supply s"
    by (rule assms [unfolded vm_ok_def, THEN conjunct1, THEN spec [of _ a], THEN spec [of _ d], THEN spec, THEN spec,
      THEN spec, THEN spec, THEN spec])
  show "left \<le> g \<and> supply s' = supply s" if "evm_Create e a d g v f h s = ((ret, c, left, err), s')" using c that by simp
  have c: "case evm_Call e a b d g v y f h s of ((_, left, _), s') \<Rightarrow> left \<le> g \<and> supply s' = supply s"
    by (rule assms [unfolded vm_ok_def, THEN conjunct2, THEN conjunct1, THEN spec [of _ a], THEN spec [of _ b],
      THEN spec, THEN spec, THEN spec, THEN spec, THEN spec, THEN spec, THEN spec])
  show "left \<le> g \<and> supply s' = supply s" if "evm_Call e a b d g v y f h s = ((ret, left, err), s')" using c that by simp
  show "supply (snd (evm_CreateSystemContract e a d h s)) = supply s" using assms unfolding vm_ok_def by blast
qed

section \<open>The steps\<close>

lemma st_from_ok:
  assumes "db_ok e supply" "st_from e msg st = (a, st')"
  shows "a = m_from msg" "supply (st_state st') = supply (st_state st)" "gp st' = gp st" "gasRemaining st' = gasRemaining st"
    "initialGas st' = initialGas st" "st_gasPrice st' = st_gasPrice st" "st_data st' = st_data st"
  using assms(2) db_okD(3) [OF assms(1)] by (auto simp: st_from_def Let_def)

lemma st_to_ok:
  assumes "db_ok e supply" "st_to e msg st = (a, st')"
  shows "supply (st_state st') = supply (st_state st)" "gp st' = gp st" "gasRemaining st' = gasRemaining st"
    "initialGas st' = initialGas st" "st_gasPrice st' = st_gasPrice st"
  using assms(2) db_okD(3) [OF assms(1)] by (auto simp: st_to_def split: option.splits)

lemma low64_fits: "0 \<le> x \<Longrightarrow> \<not> over64 x \<Longrightarrow> uint (low64 x) = x"
  by (simp add: over64_def uint_low64)

lemma buyGas_ok:
  assumes db: "db_ok e supply" and b: "buyGas e msg st = (r, st')" and g0: "gasRemaining st = 0" and pos: "0 \<le> m_gasLimit msg"
  shows "r = Inr () \<Longrightarrow> gp st' = gp st - m_gasLimit msg \<and> 0 \<le> gp st' \<and> uint (gasRemaining st') = m_gasLimit msg \<and>
      initialGas st' = m_gasLimit msg \<and> supply (st_state st') = supply (st_state st) - m_gasLimit msg * st_gasPrice st \<and>
      st_gasPrice st' = st_gasPrice st \<and> st_data st' = st_data st"
    "r \<noteq> Inr () \<Longrightarrow> gp st' = gp st \<and> supply (st_state st') = supply (st_state st)"
proof -
  obtain a st1 where f: "st_from e msg st = (a, st1)" by (rule prod.exhaust)
  note s1 = st_from_ok [OF db f]
  show "gp st' = gp st - m_gasLimit msg \<and> 0 \<le> gp st' \<and> uint (gasRemaining st') = m_gasLimit msg \<and>
      initialGas st' = m_gasLimit msg \<and> supply (st_state st') = supply (st_state st) - m_gasLimit msg * st_gasPrice st \<and>
      st_gasPrice st' = st_gasPrice st \<and> st_data st' = st_data st" if "r = Inr ()"
    using b that g0 pos by (auto simp: buyGas_def f Let_def s1 SubGas_def db_okD(2) [OF db] low64_fits split: if_splits)
  show "gp st' = gp st \<and> supply (st_state st') = supply (st_state st)" if "r \<noteq> Inr ()"
    using b that s1 by (auto simp: buyGas_def f Let_def SubGas_def split: if_splits)
qed

lemma preCheck_ok:
  assumes db: "db_ok e supply" and b: "preCheck e msg st = (r, st')" and g0: "gasRemaining st = 0" and pos: "0 \<le> m_gasLimit msg"
  shows "r = Inr () \<Longrightarrow> gp st' = gp st - m_gasLimit msg \<and> 0 \<le> gp st' \<and> uint (gasRemaining st') = m_gasLimit msg \<and>
      initialGas st' = m_gasLimit msg \<and> supply (st_state st') = supply (st_state st) - m_gasLimit msg * st_gasPrice st \<and>
      st_gasPrice st' = st_gasPrice st \<and> st_data st' = st_data st"
    "r \<noteq> Inr () \<Longrightarrow> gp st' = gp st \<and> supply (st_state st') = supply (st_state st)"
proof -
  obtain a st1 where f: "st_from e msg st = (a, st1)" by (rule prod.exhaust)
  note s1 = st_from_ok [OF db f]
  have r: "r \<noteq> Inr () \<and> st' = st1 \<or> buyGas e msg st1 = (r, st')"
    using b by (auto simp: preCheck_def f Let_def split: if_splits)
  have g1: "gasRemaining st1 = 0" using g0 s1 by simp
  show "gp st' = gp st - m_gasLimit msg \<and> 0 \<le> gp st' \<and> uint (gasRemaining st') = m_gasLimit msg \<and>
      initialGas st' = m_gasLimit msg \<and> supply (st_state st') = supply (st_state st) - m_gasLimit msg * st_gasPrice st \<and>
      st_gasPrice st' = st_gasPrice st \<and> st_data st' = st_data st" if "r = Inr ()"
    using r that buyGas_ok(1) [OF db _ g1 pos] s1 by auto
  show "gp st' = gp st \<and> supply (st_state st') = supply (st_state st)" if "r \<noteq> Inr ()"
    using r that buyGas_ok(2) [OF db _ g1 pos] s1 by auto
qed

lemma pay_intrinsic_ok:
  assumes "pay_intrinsic e msg st = (Inr u, st')"
  shows "gp st' = gp st" "initialGas st' = initialGas st" "st_state st' = st_state st" "st_gasPrice st' = st_gasPrice st"
    "st_data st' = st_data st"
    "uint (gasRemaining st') = uint (gasRemaining st) -
       (if m_system msg = 0 then IntrinsicGas (evm_gas e) (st_data st) (m_to msg = None) (IsPangu e) else 0)"
proof -
  let ?ig = "IntrinsicGas (evm_gas e) (st_data st) (m_to msg = None) (IsPangu e)"
  have pos: "0 \<le> ?ig" by (simp add: IntrinsicGas_nonneg)
  have no: "\<not> over64 ?ig" using assms by (auto simp: pay_intrinsic_def Let_def split: if_splits)
  have st': "st' = (if m_system msg = 0 then st\<lparr>gasRemaining := gasRemaining st - low64 ?ig\<rparr> else st)"
    and le: "m_system msg = 0 \<Longrightarrow> low64 ?ig \<le> gasRemaining st"
    using assms no by (auto simp: pay_intrinsic_def useGas_def Let_def not_less split: if_splits)
  show "gp st' = gp st" "initialGas st' = initialGas st" "st_state st' = st_state st" "st_gasPrice st' = st_gasPrice st"
    "st_data st' = st_data st" by (simp_all add: st')
  show "uint (gasRemaining st') = uint (gasRemaining st) - (if m_system msg = 0 then ?ig else 0)"
    using le by (simp add: st' uint_sub_lem [THEN iffD1] word_le_def low64_fits [OF pos no])
qed

lemma create_contract_ok:
  assumes vm: "vm_ok e supply" and c: "create_contract e msg a st = (r, st')"
  shows "gp st' = gp st" "initialGas st' = initialGas st" "st_gasPrice st' = st_gasPrice st"
    "supply (st_state st') = supply (st_state st)" "gasRemaining st' \<le> gasRemaining st"
    "0 < m_system msg \<Longrightarrow> gasRemaining st' = gasRemaining st"
  using c vm_okD(1) [OF vm] vm_okD(3) [OF vm, of "ucast (ucast (m_system msg) :: byte)" "st_data st" "m_hash msg" "st_state st"]
  by (auto simp: create_contract_def Let_def split: if_splits prod.splits)

lemma call_contract_ok:
  assumes db: "db_ok e supply" and vm: "vm_ok e supply" and c: "call_contract e white msg a st = (r, st')"
  shows "gp st' = gp st" "initialGas st' = initialGas st" "st_gasPrice st' = st_gasPrice st"
    "supply (st_state st') = supply (st_state st)" "gasRemaining st' \<le> gasRemaining st"
proof -
  let ?st1 = "st\<lparr>st_state := SetNonce e a (NonceOf e (st_state st) a + 1) (st_state st)\<rparr>"
  obtain to st1 where t: "st_to e msg ?st1 = (to, st1)" by (rule prod.exhaust)
  obtain ret left err s where v: "evm_Call e a to (st_data st1) (gasRemaining st1) (st_value st1) (m_waitBlockNumber msg = 0)
      (m_shardFlag msg) (m_hash msg) (st_state st1) = ((ret, left, err), s)" by (metis prod_cases3 surj_pair)
  note s1 = st_to_ok [OF db t]
  have s: "left \<le> gasRemaining st1 \<and> supply s = supply (st_state st1)" by (rule vm_okD(2) [OF vm v])
  have st': "gp st' = gp st1" "initialGas st' = initialGas st1" "st_gasPrice st' = st_gasPrice st1" "st_state st' = s"
    "gasRemaining st' = left"
    using c by (auto simp: call_contract_def t v Let_def split: if_splits)
  show "gp st' = gp st" "initialGas st' = initialGas st" "st_gasPrice st' = st_gasPrice st"
    "supply (st_state st') = supply (st_state st)" "gasRemaining st' \<le> gasRemaining st"
    using s st' s1 db_okD(4) [OF db] by simp_all
qed

text \<open>
  Settling after the machine has run. With gas spent, everything bought is paid out again: the rest
  and the refund to the sender, the used part to the coinbase, and the block's pool gets back what
  was not used. With none spent, nothing is paid out.
\<close>

lemma refundGas_ok:
  assumes db: "db_ok e supply" and le: "uint (gasRemaining st) \<le> initialGas st" and fit: "initialGas st < 2 ^ 64"
    and r: "refundGas e msg st = st'"
  obtains refund where "0 \<le> refund" "refund \<le> gasUsed st div 2" "initialGas st' = initialGas st" "st_gasPrice st' = st_gasPrice st"
    "uint (gasRemaining st') = uint (gasRemaining st) + refund"
    "gp st' = gp st + (if uint (gasRemaining st) < initialGas st then uint (gasRemaining st) + refund else 0)"
    "supply (st_state st') = supply (st_state st) +
       (if uint (gasRemaining st) < initialGas st then uint (gasRemaining st) * st_gasPrice st else 0) + refund * st_gasPrice st"
proof -
  obtain a st1 where f: "st_from e msg st = (a, st1)" by (rule prod.exhaust)
  note s1 = st_from_ok [OF db f]
  define s2 where "s2 = (if uint (gasRemaining st) < initialGas st
    then AddBalance e a (uint (gasRemaining st) * st_gasPrice st) (st_state st1) else st_state st1)"
  define refund where "refund = min (gasUsed st div 2) (GetRefund e s2)"
  have used: "0 \<le> gasUsed st" "gasUsed st = initialGas st - uint (gasRemaining st)" using le by (auto simp: gasUsed_def)
  have rb: "0 \<le> refund" "refund \<le> gasUsed st div 2" using used(1) db_okD(5) [OF db] by (simp_all add: refund_def)
  have up: "uint (gasRemaining st) + refund \<le> initialGas st" using rb used by linarith
  have r64: "uint (low64 refund) = refund"
  proof (rule low64_fits [OF rb(1)])
    have "refund < 2 ^ 64" using up fit uint_ge_0 [of "gasRemaining st"] by linarith
    with rb(1) show "\<not> over64 refund" by (simp add: over64_def)
  qed
  have sum: "uint (gasRemaining st + low64 refund) = uint (gasRemaining st) + refund"
    using uint_add_lem [of "gasRemaining st" "low64 refund"] r64 up fit by simp
  have lt: "uint (gasRemaining st) + refund < initialGas st \<longleftrightarrow> uint (gasRemaining st) < initialGas st"
    using rb used by auto
  have u1: "gasUsed (st1\<lparr>st_state := x\<rparr>) = gasUsed st" "gasUsed st1 = gasUsed st" for x using s1 by (simp_all add: gasUsed_def)
  have i: "(if uint (gasRemaining st1) < initialGas st1
      then st1\<lparr>st_state := AddBalance e a (uint (gasRemaining st1) * st_gasPrice st1) (st_state st1)\<rparr> else st1) =
    st1\<lparr>st_state := s2\<rparr>" by (simp add: s2_def s1)
  let ?st2 = "st1\<lparr>gasRemaining := gasRemaining st + low64 refund,
     st_state := AddBalance e a (refund * st_gasPrice st) s2\<rparr>"
  have "st' = (if uint (gasRemaining st) < initialGas st
      then ?st2\<lparr>gp := gp st + (uint (gasRemaining st) + refund)\<rparr> else ?st2)"
    unfolding r [symmetric] refundGas_def f prod.case Let_def i
    by (simp add: u1 s1(3-6) refund_def [symmetric] sum lt AddGas_def)
  then show ?thesis
    by (intro that [of refund]) (use rb s1 in \<open>auto simp: sum s2_def db_okD(1) [OF db]\<close>)
qed

lemma settle_ok:
  assumes db: "db_ok e supply" and le: "uint (gasRemaining st) \<le> initialGas st" and fit: "initialGas st < 2 ^ 64"
    and r: "settle e msg st = (req, used, st')"
  shows "req = initialGas st - uint (gasRemaining st)" "used \<le> req" "req \<le> 2 * used"
    "gp st' = gp st + (if uint (gasRemaining st) < initialGas st then initialGas st - used else 0)"
    "supply (st_state st') = supply (st_state st) +
       (if uint (gasRemaining st) < initialGas st then initialGas st * st_gasPrice st else 0)"
proof -
  obtain refund where R: "0 \<le> refund" "refund \<le> gasUsed st div 2" "initialGas (refundGas e msg st) = initialGas st"
    "st_gasPrice (refundGas e msg st) = st_gasPrice st"
    "uint (gasRemaining (refundGas e msg st)) = uint (gasRemaining st) + refund"
    "gp (refundGas e msg st) = gp st + (if uint (gasRemaining st) < initialGas st then uint (gasRemaining st) + refund else 0)"
    "supply (st_state (refundGas e msg st)) = supply (st_state st) +
       (if uint (gasRemaining st) < initialGas st then uint (gasRemaining st) * st_gasPrice st else 0) + refund * st_gasPrice st"
    by (rule refundGas_ok [OF db le fit refl])
  have u0: "gasUsed st = initialGas st - uint (gasRemaining st)" using le by (simp add: gasUsed_def)
  have u1: "gasUsed (refundGas e msg st) = gasUsed st - refund"
    using R(1,2) unfolding gasUsed_def [of "refundGas e msg st"] R(3,5) u0 by auto
  have "req = gasUsed st" "used = gasUsed (refundGas e msg st)" "gp st' = gp (refundGas e msg st)"
    "supply (st_state st') = supply (st_state (refundGas e msg st)) + gasUsed (refundGas e msg st) * st_gasPrice (refundGas e msg st)"
    using r by (auto simp: settle_def Let_def gasUsed_def db_okD(1) [OF db])
  then show "req = initialGas st - uint (gasRemaining st)" "used \<le> req" "req \<le> 2 * used"
    "gp st' = gp st + (if uint (gasRemaining st) < initialGas st then initialGas st - used else 0)"
    "supply (st_state st') = supply (st_state st) +
       (if uint (gasRemaining st) < initialGas st then initialGas st * st_gasPrice st else 0)"
    using R u0 u1 le by (cases "uint (gasRemaining st) = initialGas st"; auto simp: algebra_simps)+
qed

text \<open>The whole execution, from a state in which the gas has been bought.\<close>

lemma execute_ok:
  assumes db: "db_ok e supply" and vm: "vm_ok e supply" and fit: "uint (gasRemaining st) = initialGas st"
    and x: "execute e white msg st = (Inr (ret, req, used, failed), st')"
  obtains left where "0 \<le> left" "left \<le> initialGas st" "req = initialGas st - left" "used \<le> req" "req \<le> 2 * used"
    "gp st' = gp st + (if left < initialGas st then initialGas st - used else 0)"
    "supply (st_state st') = supply (st_state st) + (if left < initialGas st then initialGas st * st_gasPrice st else 0)"
    "m_system msg = 0 \<longrightarrow> left + IntrinsicGas (evm_gas e) (st_data st) (m_to msg = None) (IsPangu e) \<le> initialGas st"
    "0 < m_system msg \<and> m_to msg = None \<longrightarrow> left = initialGas st"
proof -
  obtain a st1 where f: "st_from e msg st = (a, st1)" by (rule prod.exhaust)
  note s1 = st_from_ok [OF db f]
  obtain r2 st2 where p: "pay_intrinsic e msg st1 = (r2, st2)" by (rule prod.exhaust)
  obtain u where r2: "r2 = Inr u" using x f p by (cases r2) (simp_all add: execute_def)
  note s2 = pay_intrinsic_ok [OF p [unfolded r2]]
  let ?run = "if m_to msg = None then create_contract e msg a st2 else call_contract e white msg a st2"
  obtain ret' vmerr st3 where c: "?run = ((ret', vmerr), st3)" by (metis surj_pair)
  have s3: "gp st3 = gp st2" "initialGas st3 = initialGas st2" "st_gasPrice st3 = st_gasPrice st2"
    "supply (st_state st3) = supply (st_state st2)" "gasRemaining st3 \<le> gasRemaining st2"
    "0 < m_system msg \<and> m_to msg = None \<Longrightarrow> gasRemaining st3 = gasRemaining st2"
    using c create_contract_ok [OF vm, of msg a st2 "(ret', vmerr)" st3] call_contract_ok [OF db vm, of white msg a st2 "(ret', vmerr)" st3]
    by (simp_all split: if_splits)
  have st: "settle e msg st3 = (req, used, st')"
    using x f p r2 c by (auto simp: execute_def split: if_splits prod.splits)
  let ?left = "uint (gasRemaining st3)"
  have ig: "0 \<le> IntrinsicGas (evm_gas e) (st_data st1) (m_to msg = None) (IsPangu e)" by (rule IntrinsicGas_nonneg)
  have l3: "?left \<le> uint (gasRemaining st2)" using s3(5) by (simp add: word_le_def)
  have le: "?left \<le> initialGas st3" using l3 s3(2) s2 s1 fit ig by (cases "m_system msg = 0") simp_all
  have "initialGas st3 < 2 ^ 64" using s3(2) s2 s1 fit uint_lt2p [of "gasRemaining st"] by simp
  note se = settle_ok [OF db le this st]
  show ?thesis
  proof (rule that [of ?left])
    show "0 \<le> ?left" by simp
    show "?left \<le> initialGas st" using le s3 s2 s1 by simp
    show "req = initialGas st - ?left" "used \<le> req" "req \<le> 2 * used" using se(1-3) s3 s2 s1 by simp_all
    show "gp st' = gp st + (if ?left < initialGas st then initialGas st - used else 0)"
      "supply (st_state st') = supply (st_state st) + (if ?left < initialGas st then initialGas st * st_gasPrice st else 0)"
      using se(4,5) s3 s2 s1 by simp_all
    show "m_system msg = 0 \<longrightarrow> ?left + IntrinsicGas (evm_gas e) (st_data st) (m_to msg = None) (IsPangu e) \<le> initialGas st"
      using l3 s2 s1 fit by auto
    show "0 < m_system msg \<and> m_to msg = None \<longrightarrow> ?left = initialGas st"
      using s3(6) s2 s1 fit by auto
  qed
qed

lemma TransitionDb_cases:
  assumes db: "db_ok e supply" and g0: "gasRemaining st = 0" and pos: "0 \<le> m_gasLimit msg"
    and t: "TransitionDb e msg st = (Inr x, st')"
  obtains st1 where "execute e True msg st1 = (Inr x, st')" "gp st1 = gp st - m_gasLimit msg" "0 \<le> gp st1"
    "uint (gasRemaining st1) = m_gasLimit msg" "initialGas st1 = m_gasLimit msg"
    "supply (st_state st1) = supply (st_state st) - m_gasLimit msg * st_gasPrice st" "st_gasPrice st1 = st_gasPrice st"
    "st_data st1 = st_data st"
proof -
  obtain r st1 where p: "preCheck e msg st = (r, st1)" by (rule prod.exhaust)
  have "r = Inr ()" "execute e True msg st1 = (Inr x, st')" using t p by (cases r; simp add: TransitionDb_def)+
  with preCheck_ok(1) [OF db p g0 pos] show ?thesis by (intro that [of st1]) simp_all
qed

section \<open>Properties\<close>

text \<open>A machine on two balances, that of account 7 and that of all others; a call spends 100 gas.\<close>

definition sample_evm :: "(int \<times> int) evm" where
  "sample_evm = \<lparr>Exist = (\<lambda>_ _. True), CreateAccount = (\<lambda>_ s. s), BalanceOf = (\<lambda>s a. if a = 7 then fst s else snd s),
     AddBalance = (\<lambda>a v s. if a = 7 then (fst s + v, snd s) else (fst s, snd s + v)),
     SubBalance = (\<lambda>a v s. if a = 7 then (fst s - v, snd s) else (fst s, snd s - v)),
     NonceOf = (\<lambda>_ _. 0), SetNonce = (\<lambda>_ _ s. s), GetRefund = (\<lambda>_. 10),
     evm_Create = (\<lambda>a d g v f h s. (([], 1, if 100 \<le> g then g - 100 else 0, None), s)),
     evm_Call = (\<lambda>a b d g v y f h s. (([], if 100 \<le> g then g - 100 else 0, None), s)),
     evm_CreateSystemContract = (\<lambda>a d h s. (([], None), s)),
     Coinbase = 9, IsPangu = True, HasRelay = False,
     evm_gas = \<lparr>TxGas = 1000, TxGasContractCreation = 53000, TxDataNonZeroGas = 68, TxDataZeroGas = 4\<rparr>\<rparr>"

lemma sample_evm_ok: "db_ok sample_evm (\<lambda>s. fst s + snd s)" "vm_ok sample_evm (\<lambda>s. fst s + snd s)"
proof -
  have le: "g - 100 \<le> g" if "100 \<le> g" for g :: uint64
    using that by (simp add: word_sub_le)
  show "db_ok sample_evm (\<lambda>s. fst s + snd s)" by (simp add: db_ok_def sample_evm_def)
  show "vm_ok sample_evm (\<lambda>s. fst s + snd s)" by (simp add: vm_ok_def sample_evm_def le)
qed

definition sample_msg :: "bigint \<Rightarrow> uint64 \<Rightarrow> address option \<Rightarrow> message" where
  "sample_msg lim sys to = \<lparr>m_from = 7, m_to = to, m_waitBlockNumber = 0, m_shardFlag = 0, m_gasPrice = 2, m_gasLimit = lim,
     m_value = 0, m_nonce = 0, m_checkNonce = True, m_data = [], m_system = sys, m_hash = 1\<rparr>"

definition sample_st :: "bigint \<Rightarrow> uint64 \<Rightarrow> int \<times> int \<Rightarrow> (int \<times> int) transition" where
  "sample_st g r s = \<lparr>gp = g, gasRemaining = r, st_gasPrice = 2, initialGas = 5000, st_value = 0, st_data = [],
     st_state = s, whiteUpdates = 0\<rparr>"

lemma sample_from: "st_from sample_evm (sample_msg l y t) st = (7, st)"
  by (simp add: st_from_def sample_evm_def sample_msg_def)

lemma sample_preCheck:
  "preCheck sample_evm (sample_msg 5000 y t) (NewStateTransition (50000, 0) (sample_msg 5000 y t) 8000 0) =
     (Inr (), sample_st 3000 5000 (40000, 0))"
  unfolding preCheck_def buyGas_def sample_from Let_def prod.case
  by (simp add: NewStateTransition_def sample_evm_def sample_msg_def sample_st_def over64_def low64_def SubGas_def)

lemma sample_settle:
  "settle sample_evm (sample_msg 5000 0 (Some 8)) (sample_st 3000 3900 (40000, 0)) = (1100, 1090, sample_st 6910 3910 (47820, 2180))"
  "settle sample_evm (sample_msg 5000 3 None) (sample_st 3000 5000 (40000, 0)) = (0, 0, sample_st 3000 5000 (40000, 0))"
  unfolding settle_def refundGas_def sample_from Let_def prod.case
  by (simp_all add: sample_evm_def sample_st_def gasUsed_def low64_def AddGas_def)

lemma sample_call:
  "TransitionDb sample_evm (sample_msg 5000 0 (Some 8)) (NewStateTransition (50000, 0) (sample_msg 5000 0 (Some 8)) 8000 0) =
     (Inr ([], 1100, 1090, False), sample_st 6910 3910 (47820, 2180))"
proof -
  let ?m = "sample_msg 5000 0 (Some 8)"
  have 1: "pay_intrinsic sample_evm ?m (sample_st 3000 5000 (40000, 0)) = (Inr (), sample_st 3000 4000 (40000, 0))"
    by (simp add: pay_intrinsic_def useGas_def sample_evm_def sample_msg_def sample_st_def over64_def low64_def IntrinsicGas_def Let_def)
  have 2: "call_contract sample_evm True ?m 7 (sample_st 3000 4000 (40000, 0)) = (([], None), sample_st 3000 3900 (40000, 0))"
    by (simp add: call_contract_def st_to_def sample_evm_def sample_msg_def sample_st_def Let_def)
  have "m_to ?m = Some 8" by (simp add: sample_msg_def)
  then show ?thesis by (simp add: TransitionDb_def sample_preCheck execute_def sample_from 1 2 sample_settle)
qed

lemma sample_system:
  "TransitionDb sample_evm (sample_msg 5000 3 None) (NewStateTransition (50000, 0) (sample_msg 5000 3 None) 8000 0) =
     (Inr ([], 0, 0, False), sample_st 3000 5000 (40000, 0))"
proof -
  let ?m = "sample_msg 5000 3 None"
  have 1: "pay_intrinsic sample_evm ?m (sample_st 3000 5000 (40000, 0)) = (Inr (), sample_st 3000 5000 (40000, 0))"
    by (simp add: pay_intrinsic_def sample_evm_def sample_msg_def sample_st_def over64_def IntrinsicGas_def Let_def)
  have 2: "create_contract sample_evm ?m 7 (sample_st 3000 5000 (40000, 0)) = (([], None), sample_st 3000 5000 (40000, 0))"
    by (simp add: create_contract_def sample_evm_def sample_msg_def sample_st_def Let_def)
  have "m_to ?m = None" by (simp add: sample_msg_def)
  then show ?thesis by (simp add: TransitionDb_def sample_preCheck execute_def sample_from 1 2 sample_settle)
qed

text \<open>
  C2: a successful transition of an ordinary message neither creates nor destroys funds: what the
  sender paid for gas and did not get back went to the coinbase. The gas used is at least half of the
  gas the execution required and at most the gas bought, and the block's pool loses exactly the gas
  used.
\<close>
theorem transition_conserves:
  assumes "db_ok e supply" "vm_ok e supply" "0 \<le> m_gasLimit msg" "m_system msg = 0"
    "0 < TxGas (evm_gas e)" "0 < TxGasContractCreation (evm_gas e)"
    "TransitionDb e msg (NewStateTransition s msg g w) = (Inr (ret, req, used, failed), st')"
  shows "supply (st_state st') = supply s \<and> gp st' = g - used \<and> 0 < used \<and> used \<le> req \<and> req \<le> 2 * used \<and>
    req \<le> m_gasLimit msg \<and> IntrinsicGas (evm_gas e) (m_data msg) (m_to msg = None) (IsPangu e) \<le> req"
proof -
  let ?st = "NewStateTransition s msg g w"
  have st: "gasRemaining ?st = 0" "gp ?st = g" "st_state ?st = s" "st_data ?st = m_data msg" by (simp_all add: NewStateTransition_def)
  obtain st1 where 1: "execute e True msg st1 = (Inr (ret, req, used, failed), st')" "gp st1 = gp ?st - m_gasLimit msg" "0 \<le> gp st1"
    "uint (gasRemaining st1) = m_gasLimit msg" "initialGas st1 = m_gasLimit msg"
    "supply (st_state st1) = supply (st_state ?st) - m_gasLimit msg * st_gasPrice ?st" "st_gasPrice st1 = st_gasPrice ?st"
    "st_data st1 = st_data ?st"
    by (rule TransitionDb_cases [OF assms(1) st(1) assms(3,7)])
  have eq: "uint (gasRemaining st1) = initialGas st1" using 1(4,5) by simp
  let ?ig = "IntrinsicGas (evm_gas e) (m_data msg) (m_to msg = None) (IsPangu e)"
  obtain left where l: "0 \<le> left" "left \<le> initialGas st1" "req = initialGas st1 - left" "used \<le> req" "req \<le> 2 * used"
    "gp st' = gp st1 + (if left < initialGas st1 then initialGas st1 - used else 0)"
    "supply (st_state st') = supply (st_state st1) + (if left < initialGas st1 then initialGas st1 * st_gasPrice st1 else 0)"
    "left + ?ig \<le> initialGas st1"
    by (rule execute_ok [OF assms(1,2) eq 1(1)]) (use assms(4) 1(8) st(4) in simp)
  have "0 < ?ig" by (rule IntrinsicGas_pos [OF assms(5,6)])
  then have "left < initialGas st1" using l(8) by linarith
  with l 1 st show ?thesis by simp
qed

theorem transition_conserves_witness:
  "\<exists>st'. TransitionDb sample_evm (sample_msg 5000 0 (Some 8)) (NewStateTransition (50000, 0) (sample_msg 5000 0 (Some 8)) 8000 0)
     = (Inr ([], 1100, 1090, False), st') \<and> fst (st_state st') + snd (st_state st') = 50000 \<and> gp st' = 6910"
  using transition_conserves [OF sample_evm_ok _ _ _ _ sample_call] sample_call
  by (simp add: sample_msg_def sample_evm_def)

text \<open>
  C31: a message that creates a system contract forfeits all gas it bought. No gas is spent, so
  \<open>gasUsed\<close> is 0 and \<open>refundGas\<close> finds nothing to refund: neither the sender nor the block's pool gets
  anything back and the coinbase gets nothing.
\<close>
theorem system_creation_forfeits:
  assumes "db_ok e supply" "vm_ok e supply" "0 \<le> m_gasLimit msg" "0 < m_system msg" "m_to msg = None"
    "TransitionDb e msg (NewStateTransition s msg g w) = (Inr (ret, req, used, failed), st')"
  shows "used = 0 \<and> gp st' = g - m_gasLimit msg \<and> supply (st_state st') = supply s - m_gasLimit msg * m_gasPrice msg"
proof -
  let ?st = "NewStateTransition s msg g w"
  have st: "gasRemaining ?st = 0" "gp ?st = g" "st_state ?st = s" "st_gasPrice ?st = m_gasPrice msg"
    by (simp_all add: NewStateTransition_def)
  obtain st1 where 1: "execute e True msg st1 = (Inr (ret, req, used, failed), st')" "gp st1 = gp ?st - m_gasLimit msg" "0 \<le> gp st1"
    "uint (gasRemaining st1) = m_gasLimit msg" "initialGas st1 = m_gasLimit msg"
    "supply (st_state st1) = supply (st_state ?st) - m_gasLimit msg * st_gasPrice ?st"
    by (rule TransitionDb_cases [OF assms(1) st(1) assms(3,6)])
  have eq: "uint (gasRemaining st1) = initialGas st1" using 1(4,5) by simp
  obtain left where l: "req = initialGas st1 - left" "used \<le> req" "req \<le> 2 * used"
    "gp st' = gp st1 + (if left < initialGas st1 then initialGas st1 - used else 0)"
    "supply (st_state st') = supply (st_state st1) + (if left < initialGas st1 then initialGas st1 * st_gasPrice st1 else 0)"
    "left = initialGas st1"
    by (rule execute_ok [OF assms(1,2) eq 1(1)]) (use assms(4,5) in simp)
  with 1 st show ?thesis by simp
qed

theorem system_creation_forfeits_witness:
  "\<exists>st'. TransitionDb sample_evm (sample_msg 5000 3 None) (NewStateTransition (50000, 0) (sample_msg 5000 3 None) 8000 0)
     = (Inr ([], 0, 0, False), st') \<and> fst (st_state st') + snd (st_state st') = 40000 \<and> gp st' = 3000"
  using system_creation_forfeits [OF sample_evm_ok _ _ _ sample_system] sample_system
  by (simp add: sample_msg_def)



end
