(* ===== verification/StateProcessor.thy ===== *)
theory StateProcessor
  imports StateTransition TxSortedMap
begin

text \<open>
  \<open>core/state_processor.go\<close> and \<open>core/evm.go\<close>: running the transactions of a block. The library's
  state database, signer, transaction constructor and virtual machine, and the consensus engine's
  \<open>Author\<close> and \<open>Finalize\<close>, are the fields of \<open>processor\<close>; logs and blooms are opaque numbers.
\<close>

section \<open>Execution context\<close>

record vm_context =
  c_getHash :: "uint64 \<Rightarrow> hash option"
  c_origin :: address
  c_coinbase :: address
  c_number :: bigint
  c_time :: bigint
  c_difficulty :: bigint
  c_gasLimit :: bigint
  c_gasPrice :: bigint

record receipt =
  r_failed :: bool
  r_cumulative :: bigint
  r_txHash :: hash
  r_gasUsed :: bigint
  r_contract :: address
  r_logs :: "nat list"
  r_bloom :: nat

record 's processor =
  NewEVM :: "vm_context \<Rightarrow> 's evm"
  Author :: "header \<Rightarrow> address"
  GetHeader :: "hash \<Rightarrow> uint64 \<Rightarrow> header option"
  HashOf :: "header \<Rightarrow> hash"
  AsMessage :: "tx \<Rightarrow> header \<Rightarrow> st_error + message"
  GetFlag :: "'s \<Rightarrow> address \<Rightarrow> uint64"
  SetFlag :: "address \<Rightarrow> uint64 \<Rightarrow> 's \<Rightarrow> 's"
  Prepare :: "hash \<Rightarrow> hash \<Rightarrow> nat \<Rightarrow> 's \<Rightarrow> 's"
  Finalise :: "'s \<Rightarrow> 's"
  GetLogs :: "'s \<Rightarrow> hash \<Rightarrow> nat list"
  CreateBloom :: "nat list \<Rightarrow> nat"
  CreateAddress :: "address \<Rightarrow> uint64 \<Rightarrow> address"
  CopyState :: "'s \<Rightarrow> 's"
  SysNonce :: "'s \<Rightarrow> address \<Rightarrow> uint64"
  NewTransaction :: "uint64 \<Rightarrow> address \<Rightarrow> bigint \<Rightarrow> bigint \<Rightarrow> bigint \<Rightarrow> uint64 \<Rightarrow> address option \<Rightarrow> byte list \<Rightarrow> tx"
  SetSystemFlag :: "tx \<Rightarrow> uint64 \<Rightarrow> tx"
  FinalizeBlock :: "header \<Rightarrow> tx list \<Rightarrow> header list \<Rightarrow> receipt list \<Rightarrow> bool \<Rightarrow> 's \<Rightarrow> 's"

text \<open>
  \<open>GetHashFn\<close> walks back from the parent. Every step goes one number down, so the parent's number
  bounds the walk.
\<close>

fun hash_walk :: "'s processor \<Rightarrow> nat \<Rightarrow> header option \<Rightarrow> uint64 \<Rightarrow> hash option" where
  "hash_walk p 0 h n = None"
| "hash_walk p (Suc fuel) None n = Some 0"
| "hash_walk p (Suc fuel) (Some h) n =
     (if low64 (h_number h) = n then Some (HashOf p h)
      else hash_walk p fuel (GetHeader p (ParentHash h) (low64 (h_number h) - 1)) n)"

definition GetHashFn :: "'s processor \<Rightarrow> header \<Rightarrow> uint64 \<Rightarrow> hash option" where
  "GetHashFn p ref n =
     (let k = low64 (h_number ref) - 1
      in hash_walk p (Suc (Suc (unat k))) (GetHeader p (ParentHash ref) k) n)"

definition NewEVMContext :: "'s processor \<Rightarrow> message \<Rightarrow> header \<Rightarrow> address option \<Rightarrow> vm_context" where
  "NewEVMContext p msg header author =
     (let beneficiary = (case author of None \<Rightarrow> Author p header | Some a \<Rightarrow> a)
      in \<lparr>c_getHash = GetHashFn p header, c_origin = m_from msg, c_coinbase = beneficiary,
          c_number = h_number header, c_time = h_time header, c_difficulty = h_difficulty header,
          c_gasLimit = h_gasLimit header, c_gasPrice = m_gasPrice msg\<rparr>)"

section \<open>Transactions\<close>

record 's procState =
  ps_gp :: gasPool
  ps_state :: 's
  ps_used :: bigint
  ps_cache :: "'s option"
  ps_white :: nat

type_synonym 's applier =
  "'s evm \<Rightarrow> message \<Rightarrow> gasPool \<Rightarrow> nat \<Rightarrow> 's \<Rightarrow> (st_error + byte list \<times> bigint \<times> bool) \<times> 's transition"

definition shard_message :: "'s processor \<Rightarrow> message \<Rightarrow> 's \<Rightarrow> message" where
  "shard_message p msg s = msg\<lparr>m_shardFlag := (case m_to msg of Some to \<Rightarrow> GetFlag p s to | None \<Rightarrow> 0)\<rparr>"

definition make_receipt :: "'s processor \<Rightarrow> message \<Rightarrow> tx \<Rightarrow> bool \<Rightarrow> bigint \<Rightarrow> bigint \<Rightarrow> 's \<Rightarrow> receipt \<times> 's" where
  "make_receipt p msg t failed used gas s =
     (let (contract, s1) = (case m_to msg of
              None \<Rightarrow> (let a = CreateAddress p (m_from msg) (Nonce t) in (a, SetFlag p a (ShardingFlag t) s))
            | Some to \<Rightarrow> (to, s));
          logs = GetLogs p s1 (Hash t)
      in (\<lparr>r_failed = failed, r_cumulative = used, r_txHash = Hash t, r_gasUsed = gas, r_contract = contract,
           r_logs = logs, r_bloom = CreateBloom p logs\<rparr>, s1))"

definition apply_with ::
  "'s applier \<Rightarrow> bool \<Rightarrow> 's processor \<Rightarrow> address option \<Rightarrow> header \<Rightarrow> tx \<Rightarrow> 's procState \<Rightarrow>
   (st_error + receipt \<times> bigint) \<times> 's procState"
where
  "apply_with appl cached p author header t ps =
     (case AsMessage p t header of
        Inl err \<Rightarrow> (Inl err, ps)
      | Inr msg0 \<Rightarrow>
          let msg = shard_message p msg0 (ps_state ps);
              e = NewEVM p (NewEVMContext p msg header author);
              (r, st) = appl e msg (ps_gp ps) (ps_white ps) (ps_state ps);
              ps1 = ps\<lparr>ps_gp := gp st, ps_state := st_state st, ps_white := whiteUpdates st\<rparr>
          in case r of
               Inl err \<Rightarrow> (Inl err, ps1)
             | Inr (ret, gas, failed) \<Rightarrow>
                 let used = ps_used ps1 + gas;
                     (receipt, s) = make_receipt p msg t failed used gas (Finalise p (ps_state ps1));
                     ps2 = ps1\<lparr>ps_used := used, ps_state := s\<rparr>
                 in (Inr (receipt, gas), if cached then ps2\<lparr>ps_cache := Some (CopyState p s)\<rparr> else ps2))"

definition ApplyTransaction ::
  "bool \<Rightarrow> 's processor \<Rightarrow> address option \<Rightarrow> header \<Rightarrow> tx \<Rightarrow> 's procState \<Rightarrow> (st_error + receipt \<times> bigint) \<times> 's procState"
where
  "ApplyTransaction hasChain = apply_with ApplyMessage hasChain"

definition ApplyTransactionForCalculateGas ::
  "'s processor \<Rightarrow> address option \<Rightarrow> header \<Rightarrow> tx \<Rightarrow> 's procState \<Rightarrow> (st_error + receipt \<times> bigint) \<times> 's procState"
where
  "ApplyTransactionForCalculateGas = apply_with ApplyMessageForCalculateGas False"

section \<open>Blocks\<close>

definition systemContractCallAddr :: address where "systemContractCallAddr = 100"
definition systemContractEntryAddrV1 :: address where "systemContractEntryAddrV1 = 101"
definition systemCntEntry :: uint64 where "systemCntEntry = 101"
definition SYSCALLGASPRICE :: bigint where "SYSCALLGASPRICE = 20000000000"
definition EXEC :: "byte list" where "EXEC = [0xc1, 0xc0, 0xe9, 0xc4]"

definition CreateSysTx :: "'s processor \<Rightarrow> 's \<Rightarrow> tx \<times> 's" where
  "CreateSysTx p s =
     (let nonce = SysNonce p s systemContractCallAddr;
          t0 = NewTransaction p nonce systemContractEntryAddrV1 0 0 SYSCALLGASPRICE 0 None EXEC;
          t = SetSystemFlag p t0 systemCntEntry
      in (t, Prepare p (Hash t) 0 0 s))"

fun process_each ::
  "'s processor \<Rightarrow> hash \<Rightarrow> header \<Rightarrow> nat \<Rightarrow> tx list \<Rightarrow> receipt list \<Rightarrow> 's procState \<Rightarrow>
   (st_error + receipt list) \<times> 's procState"
where
  "process_each p bhash header i [] receipts ps = (Inr receipts, ps)"
| "process_each p bhash header i (t # ts) receipts ps =
     (case ApplyTransaction True p None header t (ps\<lparr>ps_state := Prepare p (Hash t) bhash i (ps_state ps)\<rparr>) of
        (Inl err, ps1) \<Rightarrow> (Inl err, ps1)
      | (Inr (receipt, _), ps1) \<Rightarrow> process_each p bhash header (Suc i) ts (receipts @ [receipt]) ps1)"

definition ProcessBlock ::
  "'s processor \<Rightarrow> hash \<Rightarrow> header \<Rightarrow> tx list \<Rightarrow> header list \<Rightarrow> bool \<Rightarrow> 's option \<Rightarrow> nat \<Rightarrow> 's \<Rightarrow>
   (st_error + receipt list \<times> nat list \<times> bigint) \<times> 's procState"
where
  "ProcessBlock p bhash header btxs uncles live c0 w s =
     (let (systx, s1) = CreateSysTx p s;
          txs = systx # filter (\<lambda>t. SystemFlag t = 0) btxs;
          ps0 = \<lparr>ps_gp = AddGas 0 (h_gasLimit header), ps_state = s1, ps_used = 0, ps_cache = c0, ps_white = w\<rparr>
      in case process_each p bhash header 0 txs [] ps0 of
           (Inl err, ps) \<Rightarrow> (Inl err, ps)
         | (Inr receipts, ps) \<Rightarrow>
             (Inr (receipts, concat (map r_logs receipts), ps_used ps),
              ps\<lparr>ps_state := FinalizeBlock p header txs uncles receipts live (ps_state ps)\<rparr>))"

section \<open>Gas of a block\<close>

definition msg_ok :: "'s processor \<Rightarrow> bool" where
  "msg_ok p \<longleftrightarrow> (\<forall>t h m. AsMessage p t h = Inr m \<longrightarrow> 0 \<le> m_gasLimit m)"

definition machine_ok :: "'s processor \<Rightarrow> ('s \<Rightarrow> int) \<Rightarrow> bool" where
  "machine_ok p supply \<longleftrightarrow> (\<forall>c. db_ok (NewEVM p c) supply \<and> vm_ok (NewEVM p c) supply)"

lemma ApplyMessage_gas:
  assumes db: "db_ok e supply" and vm: "vm_ok e supply" and pos: "0 \<le> m_gasLimit msg"
    and a: "ApplyMessage e msg g w s = (Inr (ret, used, failed), st')"
  shows "0 \<le> used" "0 \<le> gp st'" "gp st' + used \<le> g"
proof -
  let ?st = "NewStateTransition s msg g w"
  obtain req where t: "TransitionDb e msg ?st = (Inr (ret, req, used, failed), st')"
    using a by (auto simp: ApplyMessage_def split: prod.splits sum.splits)
  have st: "gasRemaining ?st = 0" "gp ?st = g" by (simp_all add: NewStateTransition_def)
  obtain st1 where 1: "execute e True msg st1 = (Inr (ret, req, used, failed), st')" "gp st1 = gp ?st - m_gasLimit msg" "0 \<le> gp st1"
    "uint (gasRemaining st1) = m_gasLimit msg" "initialGas st1 = m_gasLimit msg"
    by (rule TransitionDb_cases [OF db st(1) pos t])
  have eq: "uint (gasRemaining st1) = initialGas st1" using 1(4,5) by simp
  obtain left where l: "0 \<le> left" "left \<le> initialGas st1" "req = initialGas st1 - left" "used \<le> req" "req \<le> 2 * used"
    "gp st' = gp st1 + (if left < initialGas st1 then initialGas st1 - used else 0)"
    by (rule execute_ok [OF db vm eq 1(1)])
  show "0 \<le> used" using l by linarith
  show "0 \<le> gp st'" "gp st' + used \<le> g"
    using l 1(2,3,5) st(2) pos by (auto split: if_splits)
qed

lemma ApplyTransaction_gas:
  assumes m: "machine_ok p supply" and ok: "msg_ok p"
    and a: "ApplyTransaction cached p author header t ps = (Inr (receipt, gas), ps')"
  shows "0 \<le> gas" "0 \<le> ps_gp ps'" "ps_gp ps' + gas \<le> ps_gp ps" "ps_used ps' = ps_used ps + gas"
    "r_gasUsed receipt = gas" "r_cumulative receipt = ps_used ps'" "r_txHash receipt = Hash t"
proof -
  obtain msg0 where m0: "AsMessage p t header = Inr msg0"
    using a by (cases "AsMessage p t header") (simp_all add: ApplyTransaction_def apply_with_def)
  define msg where "msg = shard_message p msg0 (ps_state ps)"
  define e where "e = NewEVM p (NewEVMContext p msg header author)"
  obtain r st where r: "ApplyMessage e msg (ps_gp ps) (ps_white ps) (ps_state ps) = (r, st)" by (rule prod.exhaust)
  obtain ret failed where ri: "r = Inr (ret, gas, failed)" and
    ps': "ps_gp ps' = gp st" "ps_used ps' = ps_used ps + gas" "r_gasUsed receipt = gas" "r_cumulative receipt = ps_used ps'"
    "r_txHash receipt = Hash t"
    using a by (auto simp: ApplyTransaction_def apply_with_def m0 msg_def [symmetric] e_def [symmetric] r Let_def make_receipt_def
      split: sum.splits prod.splits option.splits if_splits)
  have pos: "0 \<le> m_gasLimit msg" using ok m0 by (auto simp: msg_ok_def msg_def shard_message_def)
  have "db_ok e supply" "vm_ok e supply" using m by (simp_all add: machine_ok_def e_def)
  from ApplyMessage_gas [OF this pos r [unfolded ri]] ps' show "0 \<le> gas" "0 \<le> ps_gp ps'" "ps_gp ps' + gas \<le> ps_gp ps" "ps_used ps' = ps_used ps + gas"
    "r_gasUsed receipt = gas" "r_cumulative receipt = ps_used ps'" "r_txHash receipt = Hash t" by simp_all
qed

text \<open>The receipts so far account for the gas taken from the pool.\<close>

definition receipts_ok :: "receipt list \<Rightarrow> bool" where
  "receipts_ok rs \<longleftrightarrow> (\<forall>r \<in> set rs. 0 \<le> r_gasUsed r) \<and>
     (\<forall>i < length rs. r_cumulative (rs ! i) = sum_list (map r_gasUsed (take (Suc i) rs)))"

lemma receipts_ok_snoc:
  "receipts_ok rs \<Longrightarrow> 0 \<le> r_gasUsed r \<Longrightarrow> r_cumulative r = sum_list (map r_gasUsed rs) + r_gasUsed r \<Longrightarrow> receipts_ok (rs @ [r])"
  by (auto simp: receipts_ok_def nth_append less_Suc_eq)

lemma process_each_gas:
  assumes m: "machine_ok p supply" and ok: "msg_ok p"
  shows "process_each p bhash header i ts rs ps = (Inr rs', ps') \<Longrightarrow> receipts_ok rs \<Longrightarrow> ps_used ps = sum_list (map r_gasUsed rs) \<Longrightarrow>
    0 \<le> ps_gp ps \<Longrightarrow> receipts_ok rs' \<and> ps_used ps' = sum_list (map r_gasUsed rs') \<and> 0 \<le> ps_gp ps' \<and>
    ps_gp ps' + ps_used ps' \<le> ps_gp ps + ps_used ps \<and> map r_txHash rs' = map r_txHash rs @ map Hash ts"
proof (induction ts arbitrary: i rs ps)
  case (Cons t ts)
  let ?ps = "ps\<lparr>ps_state := Prepare p (Hash t) bhash i (ps_state ps)\<rparr>"
  obtain r ps1 where a: "ApplyTransaction True p None header t ?ps = (r, ps1)" by (rule prod.exhaust)
  obtain receipt gas where r: "r = Inr (receipt, gas)" using Cons.prems(1) a by (cases r) auto
  note g = ApplyTransaction_gas [OF m ok a [unfolded r]]
  have rec: "process_each p bhash header (Suc i) ts (rs @ [receipt]) ps1 = (Inr rs', ps')" using Cons.prems(1) a r by simp
  have "receipts_ok (rs @ [receipt])"
    by (rule receipts_ok_snoc [OF Cons.prems(2)]) (use g Cons.prems(3) in simp_all)
  from Cons.IH [OF rec this] g Cons.prems(3) show ?case by auto
qed (simp add: receipts_ok_def)

text \<open>\<open>GetHashFn\<close> ends, and what it returns is the hash of a header with the wanted number or zero.\<close>

lemma hash_walk_total:
  assumes num: "\<forall>h k hd. GetHeader p h k = Some hd \<longrightarrow> low64 (h_number hd) = k" and low: "\<forall>h. GetHeader p h (- 1) = None"
  shows "(case oh of None \<Rightarrow> 0 < fuel | Some h \<Rightarrow> Suc (unat (low64 (h_number h))) < fuel) \<Longrightarrow>
    \<exists>r. hash_walk p fuel oh n = Some r \<and> (r = 0 \<or> (\<exists>h. low64 (h_number h) = n \<and> r = HashOf p h))"
proof (induction fuel arbitrary: oh)
  case (Suc fuel)
  show ?case
  proof (cases oh)
    case (Some h)
    let ?k = "low64 (h_number h)"
    show ?thesis
    proof (cases "?k = n")
      case False
      have "case GetHeader p (ParentHash h) (?k - 1) of None \<Rightarrow> 0 < fuel | Some h \<Rightarrow> Suc (unat (low64 (h_number h))) < fuel"
      proof (cases "GetHeader p (ParentHash h) (?k - 1)")
        case None
        then show ?thesis using Suc.prems Some by simp
      next
        case (Some h')
        then have "low64 (h_number h') = ?k - 1" "?k \<noteq> 0" using num low by auto
        then have "Suc (unat (low64 (h_number h'))) = unat ?k"
          using unat_minus_one [of ?k] unat_eq_zero [of ?k] by simp
        then show ?thesis using Some Suc.prems \<open>oh = Some h\<close> by simp
      qed
      from Suc.IH [OF this] Some False show ?thesis by simp
    qed (use Some in auto)
  qed simp
qed (simp split: option.splits)

section \<open>Properties\<close>

definition sample_processor :: "(int \<times> int) processor" where
  "sample_processor = \<lparr>NewEVM = (\<lambda>c. sample_evm), Author = h_coinbase, GetHeader = (\<lambda>_ _. None), HashOf = (\<lambda>_. 1),
     AsMessage = (\<lambda>t h. Inr (sample_msg (if SystemFlag t = 0 then 5000 else 0) (SystemFlag t) (To t))),
     GetFlag = (\<lambda>_ _. 0), SetFlag = (\<lambda>_ _ s. s), Prepare = (\<lambda>_ _ _ s. s), Finalise = (\<lambda>s. s), GetLogs = (\<lambda>_ _. []),
     CreateBloom = (\<lambda>_. 0), CreateAddress = (\<lambda>a n. a), CopyState = (\<lambda>s. s), SysNonce = (\<lambda>_ _. 0),
     NewTransaction = (\<lambda>n to v g gp f via d. (sample_tx 1 n gp)\<lparr>To := Some to, GasLimit := g, Data := d\<rparr>),
     SetSystemFlag = (\<lambda>t f. t\<lparr>SystemFlag := f\<rparr>), FinalizeBlock = (\<lambda>_ _ _ _ _ s. s)\<rparr>"



end
