(* ===== verification/Hashimoto.thy ===== *)
theory Hashimoto
  imports Bytes
begin

unbundle bit_operations_syntax

text \<open>
  \<open>consensus/ethash/algorithm.go\<close>: the verification cache, the mining dataset and the proof-of-work
  hash. The Keccak functions of the library are the arguments \<open>k512\<close> and \<open>k256\<close>; the laws used are the
  lengths of what they return. A slice of \<open>uint32\<close> that the code also views as bytes is modelled by its
  bytes while it is filled and read in the byte order \<open>le\<close> of the machine afterwards. Offsets are
  computed in \<open>uint32\<close> where the code does so. \<open>None\<close> is a run-time panic. The threads that fill the
  dataset write in an arbitrary order, which is an argument.
\<close>

section \<open>Constants and byte order\<close>

type_synonym uint32 = "32 word"

definition hashBytes :: nat where "hashBytes = 64"
definition hashWords :: nat where "hashWords = 16"
definition mixBytes :: nat where "mixBytes = 128"
definition datasetParents :: nat where "datasetParents = 256"
definition cacheRounds :: nat where "cacheRounds = 3"
definition loopAccesses :: nat where "loopAccesses = 64"

definition le32 :: "byte list \<Rightarrow> uint32" where
  "le32 bs = word_of_int (be_int (rev (take 4 bs)))"

definition be32 :: "byte list \<Rightarrow> uint32" where
  "be32 bs = word_of_int (be_int (take 4 bs))"

definition put_le32 :: "uint32 \<Rightarrow> byte list" where
  "put_le32 w = rev (be_bytes 4 (uint w))"

definition put_be32 :: "uint32 \<Rightarrow> byte list" where
  "put_be32 w = be_bytes 4 (uint w)"

definition put_le64 :: "uint64 \<Rightarrow> byte list" where
  "put_le64 w = rev (be_bytes 8 (uint w))"

text \<open>\<open>copy(dst[off:], src)\<close>\<close>

definition copy_at :: "nat \<Rightarrow> 'a list \<Rightarrow> 'a list \<Rightarrow> 'a list" where
  "copy_at off src dst = take off dst @ take (length dst - off) src @ drop (off + length src) dst"

definition read_words :: "nat \<Rightarrow> byte list \<Rightarrow> uint32 list" where
  "read_words n src = map (\<lambda>i. le32 (drop (i * 4) src)) [0..<n]"

definition flatten :: "uint32 list \<Rightarrow> byte list" where
  "flatten ws = concat (map put_le32 ws)"

definition machine_words :: "bool \<Rightarrow> nat \<Rightarrow> byte list \<Rightarrow> uint32 list" where
  "machine_words le n mem = map (\<lambda>i. (if le then le32 else be32) (drop (i * 4) mem)) [0..<n]"

fun swap_bytes :: "byte list \<Rightarrow> byte list option" where
  "swap_bytes [] = Some []"
| "swap_bytes (a # b # c # d # r) = map_option (\<lambda>s. put_be32 (le32 [a, b, c, d]) @ s) (swap_bytes r)"
| "swap_bytes _ = None"

section \<open>The verification cache\<close>

definition seedHash :: "(byte list \<Rightarrow> byte list) \<Rightarrow> uint64 \<Rightarrow> byte list" where
  "seedHash k256 block =
     (if block < 30000 then replicate 32 0 else (k256 ^^ unat (block div 30000)) (replicate 32 0))"

definition sum_into :: "nat \<Rightarrow> byte list \<Rightarrow> byte list \<Rightarrow> byte list" where
  "sum_into off h mem = (if off + length h \<le> length mem then copy_at off h mem else mem)"

definition fill_cache :: "(byte list \<Rightarrow> byte list) \<Rightarrow> byte list \<Rightarrow> byte list" where
  "fill_cache k512 mem =
     fold (\<lambda>i c. sum_into (i * hashBytes) (k512 (take hashBytes (drop ((i - 1) * hashBytes) c))) c)
       [1..<(length mem + hashBytes - 1) div hashBytes] mem"

definition memo_step :: "(byte list \<Rightarrow> byte list) \<Rightarrow> nat \<Rightarrow> nat \<Rightarrow> byte list \<Rightarrow> byte list" where
  "memo_step k512 rows j c =
     (let srcOff = ((j + rows - 1) mod rows) * hashBytes;
          dstOff = j * hashBytes;
          xorOff = unat ((le32 (drop dstOff c) mod of_nat rows) * of_nat hashBytes);
          temp = map2 (\<lambda>a b. a XOR b) (take hashBytes (drop srcOff c)) (take hashBytes (drop xorOff c))
      in sum_into dstOff (k512 temp) c)"

definition generateCache :: "(byte list \<Rightarrow> byte list) \<Rightarrow> bool \<Rightarrow> nat \<Rightarrow> byte list \<Rightarrow> uint32 list option" where
  "generateCache k512 le n seed = do {
     let sz = 4 * n;
     let rows = sz div hashBytes;
     let c0 = fill_cache k512 (sum_into 0 (k512 seed) (replicate sz 0));
     let c1 = ((\<lambda>c. fold (memo_step k512 rows) [0..<rows] c) ^^ cacheRounds) c0;
     c2 \<leftarrow> (if le then Some c1 else swap_bytes c1);
     Some (machine_words le n c2)
   }"

section \<open>The dataset\<close>

definition fnv :: "uint32 \<Rightarrow> uint32 \<Rightarrow> uint32" where
  "fnv a b = a * 0x01000193 XOR b"

definition fnvHash :: "uint32 list \<Rightarrow> uint32 list \<Rightarrow> uint32 list" where
  "fnvHash mix data = map2 fnv mix data"

text \<open>The sixteen words from an offset of the cache.\<close>

definition words_at :: "uint32 list \<Rightarrow> uint32 \<Rightarrow> uint32 list option" where
  "words_at c off = (if unat off + hashWords \<le> length c then Some (take hashWords (drop (unat off) c)) else None)"

fun parents_loop :: "uint32 list \<Rightarrow> uint32 \<Rightarrow> uint32 \<Rightarrow> nat list \<Rightarrow> uint32 list \<Rightarrow> uint32 list option" where
  "parents_loop cache index rows [] mix = Some mix"
| "parents_loop cache index rows (i # is) mix = do {
     let parent = fnv (index XOR of_nat i) (mix ! (i mod 16)) mod rows;
     data \<leftarrow> words_at cache (parent * of_nat hashWords);
     parents_loop cache index rows is (fnvHash mix data)
   }"

definition generateDatasetItem :: "(byte list \<Rightarrow> byte list) \<Rightarrow> uint32 list \<Rightarrow> uint32 \<Rightarrow> byte list option" where
  "generateDatasetItem k512 cache index = do {
     let rows = of_nat (length cache div hashWords);
     if rows = 0 then None else do {
       ws \<leftarrow> words_at cache ((index mod rows) * of_nat hashWords);
       let mix = k512 (flatten ((hd ws XOR index) # tl ws));
       intMix \<leftarrow> parents_loop cache index rows [0..<datasetParents] (read_words hashWords mix);
       Some (k512 (flatten intMix))
     }
   }"

definition segment :: "nat \<Rightarrow> nat \<Rightarrow> nat \<Rightarrow> nat list" where
  "segment threads sz tid =
     (let batch = of_nat ((sz + hashBytes * threads - 1) div (hashBytes * threads)) :: uint32;
          first = of_nat tid * batch;
          limit = (if of_nat (sz div hashBytes) < first + batch then of_nat (sz div hashBytes) else first + batch)
      in [unat first..<unat limit])"

definition item_offset :: "uint32 \<Rightarrow> nat" where
  "item_offset index = unat (index * of_nat hashBytes)"

definition write_item ::
  "(byte list \<Rightarrow> byte list) \<Rightarrow> bool \<Rightarrow> uint32 list \<Rightarrow> nat \<Rightarrow> nat \<Rightarrow> byte list \<Rightarrow> byte list option"
where
  "write_item k512 le cache sz index mem = do {
     item \<leftarrow> generateDatasetItem k512 cache (of_nat index);
     item' \<leftarrow> (if le then Some item else swap_bytes item);
     if length mem < item_offset (of_nat index) \<or> (of_nat (sz div hashBytes div 100) :: uint32) = 0 then None
     else Some (copy_at (item_offset (of_nat index)) item' mem)
   }"

fun write_items ::
  "(byte list \<Rightarrow> byte list) \<Rightarrow> bool \<Rightarrow> uint32 list \<Rightarrow> nat \<Rightarrow> nat list \<Rightarrow> byte list \<Rightarrow> byte list option"
where
  "write_items k512 le cache sz [] mem = Some mem"
| "write_items k512 le cache sz (i # is) mem = do {
     mem' \<leftarrow> write_item k512 le cache sz i mem;
     write_items k512 le cache sz is mem'
   }"

definition dataset_order :: "nat \<Rightarrow> nat \<Rightarrow> nat list \<Rightarrow> bool" where
  "dataset_order threads sz order \<longleftrightarrow> mset order = mset (concat (map (segment threads sz) [0..<threads]))"

definition generateDataset ::
  "(byte list \<Rightarrow> byte list) \<Rightarrow> bool \<Rightarrow> nat list \<Rightarrow> nat \<Rightarrow> uint32 list \<Rightarrow> uint32 list option"
where
  "generateDataset k512 le order n cache = do {
     mem \<leftarrow> write_items k512 le cache (4 * n) order (replicate (4 * n) 0);
     Some (machine_words le n mem)
   }"

section \<open>The hash\<close>

fun access_loop ::
  "(uint32 \<Rightarrow> uint32 list option) \<Rightarrow> uint32 \<Rightarrow> uint32 \<Rightarrow> nat list \<Rightarrow> uint32 list \<Rightarrow> uint32 list \<Rightarrow> uint32 list option"
where
  "access_loop lookup rows seedHead [] temp mix = Some mix"
| "access_loop lookup rows seedHead (i # is) temp mix = do {
     let parent = fnv (of_nat i XOR seedHead) (mix ! (i mod length mix)) mod rows;
     d0 \<leftarrow> lookup (2 * parent);
     d1 \<leftarrow> lookup (2 * parent + 1);
     let temp' = copy_at hashWords d1 (copy_at 0 d0 temp);
     access_loop lookup rows seedHead is temp' (fnvHash mix temp')
   }"

definition compress :: "uint32 list \<Rightarrow> uint32 list" where
  "compress mix = take (length mix div 4)
     (foldl (\<lambda>m q. m[q := fnv (fnv (fnv (m ! (4 * q)) (m ! (4 * q + 1))) (m ! (4 * q + 2))) (m ! (4 * q + 3))])
       mix [0..<length mix div 4])"

definition hashimoto ::
  "(byte list \<Rightarrow> byte list) \<Rightarrow> (byte list \<Rightarrow> byte list) \<Rightarrow> byte list \<Rightarrow> uint64 \<Rightarrow> nat \<Rightarrow>
   (uint32 \<Rightarrow> uint32 list option) \<Rightarrow> (byte list \<times> byte list) option"
where
  "hashimoto k512 k256 h nonce sz lookup = do {
     let rows = of_nat (sz div mixBytes);
     let seed = k512 (take 32 (h @ replicate 32 0) @ put_le64 nonce);
     if rows = 0 then None else do {
       let mix0 = map (\<lambda>i. le32 (drop (i mod 16 * 4) seed)) [0..<mixBytes div 4];
       mix1 \<leftarrow> access_loop lookup rows (le32 seed) [0..<loopAccesses] (replicate (mixBytes div 4) 0) mix0;
       let digest = flatten (compress mix1);
       Some (digest, k256 (seed @ digest))
     }
   }"

definition light_lookup :: "(byte list \<Rightarrow> byte list) \<Rightarrow> uint32 list \<Rightarrow> uint32 \<Rightarrow> uint32 list option" where
  "light_lookup k512 cache index = do {
     rawData \<leftarrow> generateDatasetItem k512 cache index;
     Some (read_words (length rawData div 4) rawData)
   }"

definition hashimotoLight ::
  "(byte list \<Rightarrow> byte list) \<Rightarrow> (byte list \<Rightarrow> byte list) \<Rightarrow> nat \<Rightarrow> uint32 list \<Rightarrow> byte list \<Rightarrow> uint64 \<Rightarrow> (byte list \<times> byte list) option"
where
  "hashimotoLight k512 k256 sz cache h nonce = hashimoto k512 k256 h nonce sz (light_lookup k512 cache)"

definition full_lookup :: "uint32 list \<Rightarrow> uint32 \<Rightarrow> uint32 list option" where
  "full_lookup dataset index =
     (let offset = index * of_nat hashWords; limit = offset + of_nat hashWords
      in if offset \<le> limit \<and> unat limit \<le> length dataset
         then Some (take (unat limit - unat offset) (drop (unat offset) dataset)) else None)"

definition hashimotoFull ::
  "(byte list \<Rightarrow> byte list) \<Rightarrow> (byte list \<Rightarrow> byte list) \<Rightarrow> uint32 list \<Rightarrow> byte list \<Rightarrow> uint64 \<Rightarrow> (byte list \<times> byte list) option"
where
  "hashimotoFull k512 k256 dataset h nonce = hashimoto k512 k256 h nonce (length dataset * 4) (full_lookup dataset)"

section \<open>Byte order\<close>

lemma length_put_le32 [simp]: "length (put_le32 w) = 4"
  by (simp add: put_le32_def)

lemma length_put_be32 [simp]: "length (put_be32 w) = 4"
  by (simp add: put_be32_def)

lemma uint32_bytes: "be_int (be_bytes 4 (uint (w :: uint32))) = uint w"
  unfolding be_int_bytes using uint_lt2p [of w] by simp

lemma le32_put [simp]: "le32 (put_le32 w @ r) = w"
  by (simp add: le32_def put_le32_def uint32_bytes)

lemma be32_put [simp]: "be32 (put_be32 w @ r) = w"
  by (simp add: be32_def put_be32_def uint32_bytes)

lemma le32_take: "4 \<le> m \<Longrightarrow> le32 (take m bs) = le32 bs"
  by (simp add: le32_def min_def)

lemma be32_take: "4 \<le> m \<Longrightarrow> be32 (take m bs) = be32 bs"
  by (simp add: be32_def min_def)

lemma swap_bytes_ok:
  assumes "length mem = 4 * n"
  obtains s where "swap_bytes mem = Some s" "length s = length mem" "machine_words False n s = machine_words True n mem"
proof -
  have "\<exists>s. swap_bytes mem = Some s \<and> length s = length mem \<and> (\<forall>i < n. be32 (drop (i * 4) s) = le32 (drop (i * 4) mem))"
    using assms
  proof (induction mem arbitrary: n rule: swap_bytes.induct)
    case (2 a b c d r)
    obtain m where m: "n = Suc m" "length r = 4 * m" using 2(2) by (cases n) simp_all
    from 2(1) [OF m(2)] obtain s where s: "swap_bytes r = Some s" "length s = length r"
      "\<forall>i < m. be32 (drop (i * 4) s) = le32 (drop (i * 4) r)" by blast
    have "be32 (drop (i * 4) (put_be32 (le32 [a, b, c, d]) @ s)) = le32 (drop (i * 4) (a # b # c # d # r))" if "i < n" for i
    proof (cases i)
      case 0
      then show ?thesis by (simp add: le32_def)
    next
      case (Suc k)
      have "drop (Suc k * 4) (a # b # c # d # r) = drop (k * 4) r"
        unfolding mult_Suc by (simp add: numeral_eq_Suc del: mult_Suc_right)
      moreover have "drop (Suc k * 4) (put_be32 (le32 [a, b, c, d]) @ s) = drop (k * 4) s" by simp
      ultimately show ?thesis using s(3) that m(1) unfolding Suc by simp
    qed
    then show ?case using s by simp
  qed (simp_all, presburger+)
  then show ?thesis using that by (force simp: machine_words_def)
qed

lemma length_machine_words [simp]: "length (machine_words le n mem) = n"
  by (simp add: machine_words_def)

lemma read_words_machine: "read_words n mem = machine_words True n mem"
  by (simp add: read_words_def machine_words_def)

lemma length_read_words [simp]: "length (read_words n mem) = n"
  by (simp add: read_words_def)

lemma length_flatten [simp]: "length (flatten ws) = 4 * length ws"
  unfolding flatten_def by (rule length_concat_chunks) simp

lemma length_copy_at [simp]: "off \<le> length dst \<Longrightarrow> length (copy_at off src dst) = length dst"
  by (simp add: copy_at_def)

section \<open>The cache\<close>

lemma length_sum_into [simp]: "length (sum_into off h mem) = length mem"
  by (simp add: sum_into_def)

lemma length_fold_inv: "(\<And>i c. length (f i c) = length c) \<Longrightarrow> length (fold f xs c) = length c"
  by (induction xs arbitrary: c) simp_all

lemma length_cache: "length (((\<lambda>c. fold (memo_step k rows) [0..<rows] c) ^^ r) c) = length c"
proof -
  have "length (memo_step k rows j c) = length c" for j c by (simp add: memo_step_def Let_def)
  then show ?thesis by (induction r) (simp_all add: length_fold_inv)
qed

lemma length_fill: "length (fill_cache k mem) = length mem"
  unfolding fill_cache_def by (rule length_fold_inv) simp

lemma generateCache_ok:
  obtains c where "generateCache k True n seed = Some c" "generateCache k False n seed = Some c" "length c = n"
proof -
  define mem where "mem = ((\<lambda>c. fold (memo_step k (4 * n div hashBytes)) [0..<4 * n div hashBytes] c) ^^ cacheRounds)
    (fill_cache k (sum_into 0 (k seed) (replicate (4 * n) 0)))"
  have "length mem = 4 * n" unfolding mem_def length_cache length_fill by simp
  then obtain s where "swap_bytes mem = Some s" "machine_words False n s = machine_words True n mem" by (rule swap_bytes_ok)
  then show ?thesis using that [of "machine_words True n mem"] by (simp add: generateCache_def Let_def mem_def)
qed

section \<open>Items of the dataset\<close>

definition rows_ok :: "uint32 list \<Rightarrow> bool" where
  "rows_ok c \<longleftrightarrow> 0 < length c \<and> 16 dvd length c \<and> length c < 2 ^ 32"

lemma words_at_row:
  assumes c: "rows_ok c"
  obtains ws where "words_at c ((x mod of_nat (length c div hashWords)) * of_nat hashWords) = Some ws" "length ws = hashWords"
proof -
  obtain r where r: "length c = 16 * r" using c by (auto simp: rows_ok_def)
  have r0: "0 < r" "16 * r < 2 ^ 32" using c r by (simp_all add: rows_ok_def)
  have ur: "unat (of_nat r :: uint32) = r" using r0 by (simp add: unat_of_nat take_bit_nat_eq_self)
  have lt: "unat (x mod of_nat r) < r" unfolding unat_mod ur by (rule mod_less_divisor [OF r0(1)])
  have "unat ((x mod of_nat r) * of_nat hashWords) = unat (x mod of_nat r) * 16"
    unfolding unat_word_ariths(2) using lt r0 by (simp add: hashWords_def)
  moreover have "unat (x mod of_nat r) * 16 + 16 \<le> 16 * r" using lt by linarith
  ultimately show ?thesis using that r by (simp add: words_at_def hashWords_def)
qed

lemma rows_nonzero: "rows_ok c \<Longrightarrow> (of_nat (length c div hashWords) :: uint32) \<noteq> 0"
proof -
  assume c: "rows_ok c"
  then obtain r where r: "length c = 16 * r" by (auto simp: rows_ok_def)
  have "unat (of_nat r :: uint32) = r" using c r by (simp add: rows_ok_def unat_of_nat take_bit_nat_eq_self)
  then show ?thesis using c r by (auto simp: rows_ok_def hashWords_def)
qed

lemma parents_loop_total:
  assumes c: "rows_ok c"
  shows "length mix = hashWords \<Longrightarrow>
    \<exists>m. parents_loop c index (of_nat (length c div hashWords)) is mix = Some m \<and> length m = hashWords"
proof (induction "is" arbitrary: mix)
  case (Cons i "is")
  obtain ws where ws: "words_at c ((fnv (index XOR of_nat i) (mix ! (i mod 16)) mod of_nat (length c div hashWords)) * of_nat hashWords) = Some ws"
    "length ws = hashWords" by (rule words_at_row [OF c])
  from Cons.IH [of "fnvHash mix ws"] ws Cons.prems show ?case by (simp add: fnvHash_def)
qed simp

lemma generateDatasetItem_total:
  assumes c: "rows_ok c" and k: "\<forall>x. length (k512 x) = hashBytes"
  obtains item where "generateDatasetItem k512 c index = Some item" "length item = hashBytes"
proof -
  obtain ws where ws: "words_at c ((index mod of_nat (length c div hashWords)) * of_nat hashWords) = Some ws"
    by (rule words_at_row [OF c])
  from parents_loop_total [OF c, of "read_words hashWords (k512 (flatten ((hd ws XOR index) # tl ws)))" index "[0..<datasetParents]"]
  obtain m where "parents_loop c index (of_nat (length c div hashWords)) [0..<datasetParents]
      (read_words hashWords (k512 (flatten ((hd ws XOR index) # tl ws)))) = Some m" by auto
  then show ?thesis using that [of "k512 (flatten m)"] ws rows_nonzero [OF c] k by (simp add: generateDatasetItem_def Let_def)
qed

end
