(* ===== verification/Ethash.thy ===== *)
theory Ethash
  imports Header Hashimoto
begin

text \<open>
  \<open>consensus/ethash/consensus.go\<close>, \<open>sealer.go\<close> and \<open>ethash.go\<close>: the proof-of-work engine. The record
  \<open>ethashEnv\<close> holds what the engine reads from elsewhere: the Keccak functions, the byte order of the
  machine, the tables of sizes, the protocol parameters and hashes of the library, the chain, and the
  files of caches and datasets. The record \<open>ethash\<close> is the engine's own state. The content of a cache
  depends on its epoch only, so the state keeps which epochs are in memory and when they were used.
  Times are arguments; the removal of old files and the log are left out.
\<close>

section \<open>State\<close>

record ethashEnv =
  ek512 :: "byte list \<Rightarrow> byte list"
  ek256 :: "byte list \<Rightarrow> byte list"
  isLittleEndian :: bool
  cacheSizes :: "uint64 list"
  datasetSizes :: "uint64 list"
  ProbablyPrime :: "uint64 \<Rightarrow> bool"
  thread_order :: "nat \<Rightarrow> nat list"
  cache_file :: "uint64 \<Rightarrow> uint32 list option"
  dataset_file :: "uint64 \<Rightarrow> uint32 list option"
  map_file :: "uint32 list \<Rightarrow> uint32 list option"
  MaximumExtraDataSize :: uint64
  GasLimitBoundDivisor :: bigint
  MinGasLimit :: bigint
  DifficultyBoundDivisor :: bigint
  MinimumDifficulty :: bigint
  DiffBombDefuseBlock :: bigint
  EmptyUncleHash :: hash
  eh_hash :: "header \<Rightarrow> hash"
  HashNoNonce :: "header \<Rightarrow> byte list"
  ec_GetHeader :: "hash \<Rightarrow> uint64 \<Rightarrow> header option"
  ec_GetBlock :: "hash \<Rightarrow> uint64 \<Rightarrow> (header \<times> header list) option"

record epochEntry =
  ee_epoch :: uint64
  ee_used :: int

record ethash =
  cachedir :: bool
  cachesinmem :: int
  dagsinmem :: int
  caches :: "(uint64, epochEntry) gomap"
  fcache :: "epochEntry option"
  datasets :: "(uint64, epochEntry) gomap"
  fdataset :: "epochEntry option"
  eth_threads :: int
  tester :: bool
  fakeMode :: bool
  fakeFull :: bool
  fakeFail :: uint64

datatype ethash_error = EthExtraTooLong | EthLargeBlockTime | EthFutureBlock | EthZeroBlockTime | EthWrongDifficulty
  | EthGasLimitTooBig | EthGasUsedTooBig | EthWrongGasLimit | EthInvalidNumber | EthUnknownAncestor
  | EthTooManyUncles | EthDuplicateUncle | EthUncleIsAncestor | EthDanglingUncle | EthNonceOutOfRange
  | EthInvalidDifficulty | EthInvalidMixDigest | EthInvalidPoW

definition NewEthash :: "bool \<Rightarrow> int \<Rightarrow> int \<Rightarrow> ethash" where
  "NewEthash dir ncaches ndags =
     \<lparr>cachedir = dir, cachesinmem = (if ncaches \<le> 0 then 1 else ncaches), dagsinmem = ndags,
      caches = [], fcache = None, datasets = [], fdataset = None, eth_threads = 0, tester = False,
      fakeMode = False, fakeFull = False, fakeFail = 0\<rparr>"

definition blank_ethash :: ethash where
  "blank_ethash = \<lparr>cachedir = False, cachesinmem = 0, dagsinmem = 0, caches = [], fcache = None, datasets = [], fdataset = None,
     eth_threads = 0, tester = False, fakeMode = False, fakeFull = False, fakeFail = 0\<rparr>"

definition NewTester :: ethash where "NewTester = blank_ethash\<lparr>cachesinmem := 1, tester := True\<rparr>"
definition NewFaker :: ethash where "NewFaker = blank_ethash\<lparr>fakeMode := True\<rparr>"
definition NewFakeFailer :: "uint64 \<Rightarrow> ethash" where "NewFakeFailer n = blank_ethash\<lparr>fakeMode := True, fakeFail := n\<rparr>"
definition NewFakeDelayer :: ethash where "NewFakeDelayer = blank_ethash\<lparr>fakeMode := True\<rparr>"
definition NewFullFaker :: ethash where "NewFullFaker = blank_ethash\<lparr>fakeMode := True, fakeFull := True\<rparr>"

section \<open>Sizes and contents\<close>

definition ethash_epochLength :: uint64 where "ethash_epochLength = 30000"
definition maxEpoch :: nat where "maxEpoch = 2048"
definition cacheInitBytes :: uint64 where "cacheInitBytes = 2 ^ 24"
definition cacheGrowthBytes :: uint64 where "cacheGrowthBytes = 2 ^ 17"
definition datasetInitBytes :: uint64 where "datasetInitBytes = 2 ^ 30"
definition datasetGrowthBytes :: uint64 where "datasetGrowthBytes = 2 ^ 23"

fun prime_loop :: "(uint64 \<Rightarrow> bool) \<Rightarrow> uint64 \<Rightarrow> nat \<Rightarrow> uint64 \<Rightarrow> uint64 option" where
  "prime_loop prime unit 0 sz = None"
| "prime_loop prime unit (Suc fuel) sz =
     (if prime (sz div unit) then Some sz else prime_loop prime unit fuel (sz - 2 * unit))"

definition cacheSize :: "ethashEnv \<Rightarrow> uint64 \<Rightarrow> uint64 option" where
  "cacheSize e block =
     (let epoch = unat (block div ethash_epochLength)
      in if epoch < maxEpoch then (if epoch < length (cacheSizes e) then Some (cacheSizes e ! epoch) else None)
         else let sz = cacheInitBytes + cacheGrowthBytes * of_nat epoch - of_nat hashBytes
              in prime_loop (ProbablyPrime e) (of_nat hashBytes) (Suc (unat sz)) sz)"

definition datasetSize :: "ethashEnv \<Rightarrow> uint64 \<Rightarrow> uint64 option" where
  "datasetSize e block =
     (let epoch = unat (block div ethash_epochLength)
      in if epoch < maxEpoch then (if epoch < length (datasetSizes e) then Some (datasetSizes e ! epoch) else None)
         else let sz = datasetInitBytes + datasetGrowthBytes * of_nat epoch - of_nat mixBytes
              in prime_loop (ProbablyPrime e) (of_nat mixBytes) (Suc (unat sz)) sz)"

text \<open>The content of the cache of an epoch: from the file if there is one, else generated.\<close>

definition cache_generate :: "ethashEnv \<Rightarrow> bool \<Rightarrow> bool \<Rightarrow> uint64 \<Rightarrow> uint32 list option" where
  "cache_generate e dir test epoch = do {
     let block = epoch * ethash_epochLength + 1;
     let seed = seedHash (ek256 e) block;
     let gen = (\<lambda>n. generateCache (ek512 e) (isLittleEndian e) n seed);
     if test then gen 256 else do {
       sz \<leftarrow> cacheSize e block;
       let n = unat sz div 4;
       if \<not> dir then gen n
       else case cache_file e epoch of
         Some c \<Rightarrow> Some c
       | None \<Rightarrow> do {
           c \<leftarrow> gen n;
           case map_file e c of Some c' \<Rightarrow> Some c' | None \<Rightarrow> gen n
         }
     }
   }"

text \<open>
  The content of the dataset of an epoch. Without a directory the code generates the dataset and then
  goes on as with one, so the first generation has no effect on the result; when the file cannot be
  written, the dataset is made with \<open>dsize/2\<close> words.
\<close>

definition dataset_generate :: "ethashEnv \<Rightarrow> bool \<Rightarrow> uint64 \<Rightarrow> uint32 list option" where
  "dataset_generate e test epoch = do {
     let block = epoch * ethash_epochLength + 1;
     let seed = seedHash (ek256 e) block;
     let gen = (\<lambda>n. generateCache (ek512 e) (isLittleEndian e) n seed);
     let full = (\<lambda>n c. generateDataset (ek512 e) (isLittleEndian e) (thread_order e (4 * n)) n c);
     if test then do { c \<leftarrow> gen 256; full 8192 c } else do {
       csize \<leftarrow> cacheSize e block;
       dsize \<leftarrow> datasetSize e block;
       case dataset_file e epoch of
         Some d \<Rightarrow> Some d
       | None \<Rightarrow> do {
           c \<leftarrow> gen (unat csize div 4);
           d \<leftarrow> full (unat dsize div 4) c;
           case map_file e d of Some d' \<Rightarrow> Some d' | None \<Rightarrow> full (unat dsize div 2) c
         }
     }
   }"

section \<open>Epochs in memory\<close>

definition oldest :: "(uint64, epochEntry) gomap \<Rightarrow> epochEntry \<Rightarrow> epochEntry" where
  "oldest m c = foldl (\<lambda>ev p. if ee_used (snd p) < ee_used ev then snd p else ev) c m"

fun evict_loop :: "int \<Rightarrow> nat \<Rightarrow> (uint64, epochEntry) gomap \<Rightarrow> (uint64, epochEntry) gomap" where
  "evict_loop limit 0 m = m"
| "evict_loop limit (Suc fuel) m =
     (case m of
        [] \<Rightarrow> m
      | p # ps \<Rightarrow>
          if limit \<le> int (length m) then evict_loop limit fuel (AList.delete (ee_epoch (oldest ps (snd p))) m) else m)"

definition acquire ::
  "int \<Rightarrow> int \<Rightarrow> uint64 \<Rightarrow> (uint64, epochEntry) gomap \<Rightarrow> epochEntry option \<Rightarrow>
   (uint64, epochEntry) gomap \<times> epochEntry option \<times> epochEntry option"
where
  "acquire limit now epoch m fut =
     (case map_of m epoch of
        Some c \<Rightarrow> (m, fut, None)
      | None \<Rightarrow>
          let m1 = evict_loop limit (length m) m;
              fut1 = (case fut of Some f \<Rightarrow> if ee_epoch f = epoch then None else Some f | None \<Rightarrow> None);
              m2 = AList.update epoch \<lparr>ee_epoch = epoch, ee_used = now\<rparr> m1
          in case fut1 of
               Some f \<Rightarrow>
                 if ee_epoch f \<le> epoch
                 then (m2, Some \<lparr>ee_epoch = epoch + 1, ee_used = 0\<rparr>, Some \<lparr>ee_epoch = epoch + 1, ee_used = 0\<rparr>)
                 else (m2, Some f, None)
             | None \<Rightarrow> (m2, Some \<lparr>ee_epoch = epoch + 1, ee_used = 0\<rparr>, Some \<lparr>ee_epoch = epoch + 1, ee_used = 0\<rparr>))"

definition touch :: "int \<Rightarrow> uint64 \<Rightarrow> (uint64, epochEntry) gomap \<Rightarrow> (uint64, epochEntry) gomap" where
  "touch now epoch m =
     (case map_of m epoch of Some c \<Rightarrow> AList.update epoch (c\<lparr>ee_used := now\<rparr>) m | None \<Rightarrow> m)"

definition ethash_cache :: "ethashEnv \<Rightarrow> int \<Rightarrow> int \<Rightarrow> uint64 \<Rightarrow> ethash \<Rightarrow> (uint32 list \<times> ethash) option" where
  "ethash_cache e now now' block g = do {
     let epoch = block div ethash_epochLength;
     let (m, fut, future) = acquire (cachesinmem g) now epoch (caches g) (fcache g);
     c \<leftarrow> cache_generate e (cachedir g) (tester g) epoch;
     Some (c, g\<lparr>caches := touch now' epoch m, fcache := fut\<rparr>)
   }"

definition ethash_dataset :: "ethashEnv \<Rightarrow> int \<Rightarrow> int \<Rightarrow> uint64 \<Rightarrow> ethash \<Rightarrow> (uint32 list \<times> ethash) option" where
  "ethash_dataset e now now' block g = do {
     let epoch = block div ethash_epochLength;
     let (m, fut, future) = acquire (dagsinmem g) now epoch (datasets g) (fdataset g);
     d \<leftarrow> dataset_generate e (tester g) epoch;
     Some (d, g\<lparr>datasets := touch now' epoch m, fdataset := fut\<rparr>)
   }"

definition Threads :: "ethash \<Rightarrow> int" where "Threads g = eth_threads g"
definition SetThreads :: "int \<Rightarrow> ethash \<Rightarrow> ethash" where "SetThreads n g = g\<lparr>eth_threads := n\<rparr>"

section \<open>Rewards and difficulty\<close>

definition HalvBlockInterval :: bigint where "HalvBlockInterval = 12500000"
definition HalvBlockInterval2 :: bigint where "HalvBlockInterval2 = 25000000"
definition HalvBlockInterval4 :: bigint where "HalvBlockInterval4 = 37500000"
definition HalvBlockInterval5 :: bigint where "HalvBlockInterval5 = 50000000"
definition HalvBlockInterval6 :: bigint where "HalvBlockInterval6 = 62500000"
definition maxUncles :: nat where "maxUncles = 2"
definition maxSyncBlockNum :: uint64 where "maxSyncBlockNum = 20"

definition calcBlockReward :: "bigint \<Rightarrow> bigint" where
  "calcBlockReward num =
     (if num \<le> HalvBlockInterval then 2 * 10 ^ 18
      else if num \<le> HalvBlockInterval2 then 10 ^ 18
      else if num \<le> HalvBlockInterval4 then 5 * 10 ^ 17
      else if num \<le> HalvBlockInterval5 then 25 * 10 ^ 16
      else if num \<le> HalvBlockInterval6 then 125 * 10 ^ 15
      else 10 ^ 17)"

definition calcDifficultyPangu :: "ethashEnv \<Rightarrow> uint64 \<Rightarrow> header \<Rightarrow> bigint" where
  "calcDifficultyPangu e time parent =
     (let x0 = (uint time - h_time parent) div 9;
          x1 = (if UncleHash parent = EmptyUncleHash e then 1 - x0 else 2 - x0);
          x2 = (if x1 < -99 then -99 else x1);
          y = h_difficulty parent div DifficultyBoundDivisor e;
          x3 = h_difficulty parent + y * x2;
          x4 = (if x3 < MinimumDifficulty e then MinimumDifficulty e else x3);
          fakeBlockNumber =
            (if 2999999 \<le> h_number parent \<and> h_number parent < DiffBombDefuseBlock e then h_number parent - 2999999 else 0);
          periodCount = fakeBlockNumber div 100000
      in if 1 < periodCount then x4 + 2 ^ nat (periodCount - 2) else x4)"

definition CalcDifficulty :: "ethashEnv \<Rightarrow> uint64 \<Rightarrow> header \<Rightarrow> bigint" where
  "CalcDifficulty e time parent = calcDifficultyPangu e time parent"

text \<open>The balances credited, in the order of the calls of \<open>AddBalance\<close>.\<close>

definition AccumulateRewards :: "header \<Rightarrow> header list \<Rightarrow> (address \<times> bigint) list" where
  "AccumulateRewards header uncles =
     (let blockReward = calcBlockReward (h_number header)
      in map (\<lambda>u. (h_coinbase u, (h_number u + 8 - h_number header) * blockReward div 8)) uncles @
         [(h_coinbase header, foldl (\<lambda>reward u. reward + blockReward div 32) blockReward uncles)])"

section \<open>Verification\<close>

text \<open>The constant \<open>maxUint256\<close> is \<open>2 ^ 256\<close>, one more than its comment says.\<close>

definition maxUint256 :: bigint where "maxUint256 = 2 ^ 256"

definition VerifySeal_own ::
  "ethashEnv \<Rightarrow> int \<Rightarrow> int \<Rightarrow> header \<Rightarrow> ethash \<Rightarrow> ((ethash_error + unit) \<times> ethash) option"
where
  "VerifySeal_own e now now' header g =
     (let number = low64 (h_number header)
      in if length (cacheSizes e) \<le> unat (number div ethash_epochLength) then Some (Inl EthNonceOutOfRange, g)
         else if h_difficulty header \<le> 0 then Some (Inl EthInvalidDifficulty, g)
         else do {
           (c, g1) \<leftarrow> ethash_cache e now now' number g;
           dsize \<leftarrow> datasetSize e number;
           let sz = (if tester g then 32 * 1024 else unat dsize);
           (digest, result) \<leftarrow> hashimotoLight (ek512 e) (ek256 e) sz c (HashNoNonce e header) (word_of_int (be_int (h_nonce header)));
           Some (if be_bytes 32 (uint (MixDigest header)) \<noteq> digest then Inl EthInvalidMixDigest
                 else if maxUint256 div h_difficulty header < be_int result then Inl EthInvalidPoW
                 else Inr (), g1)
         })"

text \<open>An engine made by \<open>NewShared\<close> delegates to the shared engine, here the argument \<open>sh\<close>.\<close>

definition VerifySeal ::
  "ethashEnv \<Rightarrow> ethash option \<Rightarrow> int \<Rightarrow> int \<Rightarrow> header \<Rightarrow> ethash \<Rightarrow> ((ethash_error + unit) \<times> ethash option \<times> ethash) option"
where
  "VerifySeal e sh now now' header g =
     (if fakeMode g then Some (if fakeFail g = low64 (h_number header) then Inl EthInvalidPoW else Inr (), sh, g)
      else case sh of
        Some s \<Rightarrow> do { (r, s') \<leftarrow> VerifySeal_own e now now' header s; Some (r, Some s', g) }
      | None \<Rightarrow> do { (r, g') \<leftarrow> VerifySeal_own e now now' header g; Some (r, None, g') })"

definition check_fields :: "ethashEnv \<Rightarrow> int \<Rightarrow> header \<Rightarrow> header \<Rightarrow> bool \<Rightarrow> ethash_error + unit" where
  "check_fields e now header parent uncle =
     (let diff = \<bar>h_gasLimit parent - h_gasLimit header\<bar>;
          limit = h_gasLimit parent div GasLimitBoundDivisor e
      in if unat (MaximumExtraDataSize e) < length (h_extra header) then Inl EthExtraTooLong
         else if uncle \<and> 2 ^ 256 - 1 < h_time header then Inl EthLargeBlockTime
         else if \<not> uncle \<and> now < h_time header then Inl EthFutureBlock
         else if h_time header \<le> h_time parent then Inl EthZeroBlockTime
         else if CalcDifficulty e (low64 (h_time header)) parent \<noteq> h_difficulty header then Inl EthWrongDifficulty
         else if 2 ^ 63 - 1 < h_gasLimit header then Inl EthGasLimitTooBig
         else if h_gasLimit header < h_gasUsed header then Inl EthGasUsedTooBig
         else if limit \<le> diff \<or> h_gasLimit header < MinGasLimit e then Inl EthWrongGasLimit
         else if h_number header - h_number parent \<noteq> 1 then Inl EthInvalidNumber
         else Inr ())"

definition eth_verifyHeader ::
  "ethashEnv \<Rightarrow> ethash option \<Rightarrow> int \<Rightarrow> int \<Rightarrow> header \<Rightarrow> header \<Rightarrow> bool \<Rightarrow> bool \<Rightarrow> ethash \<Rightarrow>
   ((ethash_error + unit) \<times> ethash option \<times> ethash) option"
where
  "eth_verifyHeader e sh now now' header parent uncle seal g =
     (case check_fields e now header parent uncle of
        Inl err \<Rightarrow> Some (Inl err, sh, g)
      | Inr _ \<Rightarrow> if seal then VerifySeal e sh now now' header g else Some (Inr (), sh, g))"

definition EthVerifyHeader ::
  "ethashEnv \<Rightarrow> ethash option \<Rightarrow> int \<Rightarrow> int \<Rightarrow> header \<Rightarrow> bool \<Rightarrow> ethash \<Rightarrow> ((ethash_error + unit) \<times> ethash option \<times> ethash) option"
where
  "EthVerifyHeader e sh now now' header seal g =
     (if fakeFull g then Some (Inr (), sh, g)
      else if ec_GetHeader e (eh_hash e header) (low64 (h_number header)) \<noteq> None then Some (Inr (), sh, g)
      else case ec_GetHeader e (ParentHash header) (low64 (h_number header) - 1) of
        None \<Rightarrow> Some (Inl EthUnknownAncestor, sh, g)
      | Some parent \<Rightarrow> eth_verifyHeader e sh now now' header parent False seal g)"

definition verifyHeaderWorker ::
  "ethashEnv \<Rightarrow> ethash option \<Rightarrow> int \<Rightarrow> int \<Rightarrow> header list \<Rightarrow> bool list \<Rightarrow> nat \<Rightarrow> ethash \<Rightarrow>
   ((ethash_error + unit) \<times> ethash option \<times> ethash) option"
where
  "verifyHeaderWorker e sh now now' headers seals index g =
     (let h = headers ! index;
          parent = (if index = 0 then ec_GetHeader e (ParentHash (headers ! 0)) (low64 (h_number (headers ! 0)) - 1)
                    else if eh_hash e (headers ! (index - 1)) = ParentHash h then Some (headers ! (index - 1)) else None)
      in case parent of
           None \<Rightarrow> Some (Inl EthUnknownAncestor, sh, g)
         | Some p \<Rightarrow>
             if ec_GetHeader e (eh_hash e h) (low64 (h_number h)) \<noteq> None then Some (Inr (), sh, g)
             else eth_verifyHeader e sh now now' h p False (seals ! index) g)"

text \<open>The ancestors of a block, seven generations, and the uncles they include.\<close>

fun gather :: "ethashEnv \<Rightarrow> nat \<Rightarrow> hash \<Rightarrow> uint64 \<Rightarrow> (hash, header) gomap \<Rightarrow> hash list \<Rightarrow> (hash, header) gomap \<times> hash list" where
  "gather e 0 parent number ancestors uncles = (ancestors, uncles)"
| "gather e (Suc n) parent number ancestors uncles =
     (case ec_GetBlock e parent number of
        None \<Rightarrow> (ancestors, uncles)
      | Some (h, us) \<Rightarrow>
          gather e n (ParentHash h) (number - 1) (AList.update (eh_hash e h) h ancestors) (uncles @ map (eh_hash e) us))"

fun uncles_loop ::
  "ethashEnv \<Rightarrow> ethash option \<Rightarrow> int \<Rightarrow> int \<Rightarrow> hash \<Rightarrow> (hash, header) gomap \<Rightarrow> hash list \<Rightarrow> header list \<Rightarrow> ethash \<Rightarrow>
   ((ethash_error + unit) \<times> ethash option \<times> ethash) option"
where
  "uncles_loop e sh now now' blockParent ancestors uncles [] g = Some (Inr (), sh, g)"
| "uncles_loop e sh now now' blockParent ancestors uncles (u # us) g =
     (let h = eh_hash e u
      in if h \<in> set uncles then Some (Inl EthDuplicateUncle, sh, g)
         else if map_of ancestors h \<noteq> None then Some (Inl EthUncleIsAncestor, sh, g)
         else case map_of ancestors (ParentHash u) of
             None \<Rightarrow> Some (Inl EthDanglingUncle, sh, g)
           | Some p \<Rightarrow>
               if ParentHash u = blockParent then Some (Inl EthDanglingUncle, sh, g)
               else do {
                 (r, sh', g') \<leftarrow> eth_verifyHeader e sh now now' u p True True g;
                 case r of
                   Inl err \<Rightarrow> Some (Inl err, sh', g')
                 | Inr _ \<Rightarrow> uncles_loop e sh' now now' blockParent ancestors (uncles @ [h]) us g'
               })"

definition EthVerifyUncles ::
  "ethashEnv \<Rightarrow> ethash option \<Rightarrow> int \<Rightarrow> int \<Rightarrow> header \<Rightarrow> header list \<Rightarrow> ethash \<Rightarrow> ((ethash_error + unit) \<times> ethash option \<times> ethash) option"
where
  "EthVerifyUncles e sh now now' block us g =
     (if fakeFull g then Some (Inr (), sh, g)
      else if maxUncles < length us then Some (Inl EthTooManyUncles, sh, g)
      else let (ancestors, uncles) = gather e 7 (ParentHash block) (low64 (h_number block) - 1) [] []
           in uncles_loop e sh now now' (ParentHash block) (AList.update (eh_hash e block) block ancestors)
                (uncles @ [eh_hash e block]) us g)"

section \<open>Making blocks\<close>

definition EthPrepare :: "ethashEnv \<Rightarrow> header \<Rightarrow> ethash_error + header" where
  "EthPrepare e header =
     (case ec_GetHeader e (ParentHash header) (low64 (h_number header) - 1) of
        None \<Rightarrow> Inl EthUnknownAncestor
      | Some parent \<Rightarrow> Inr (header\<lparr>h_difficulty := CalcDifficulty e (low64 (h_time header)) parent\<rparr>))"

text \<open>\<open>Finalize\<close>: the credits, the header with the state root \<open>root credits\<close>, and the flag sent to the
  relay; \<open>highest\<close> is the highest block of a running download.\<close>

definition EthFinalize ::
  "((address \<times> bigint) list \<Rightarrow> hash) \<Rightarrow> uint64 option \<Rightarrow> header \<Rightarrow> header list \<Rightarrow> (address \<times> bigint) list \<times> header \<times> bool"
where
  "EthFinalize root highest header uncles =
     (let credits = AccumulateRewards header uncles
      in (credits, header\<lparr>h_root := root credits\<rparr>,
          case highest of Some n \<Rightarrow> n \<le> low64 (h_number header) + maxSyncBlockNum | None \<Rightarrow> True))"

text \<open>The search of one mining thread: \<open>None\<close> is an abort before a nonce is found (or a panic).\<close>

fun mine_loop ::
  "ethashEnv \<Rightarrow> uint32 list \<Rightarrow> bigint \<Rightarrow> header \<Rightarrow> nat \<Rightarrow> uint64 \<Rightarrow> header option"
where
  "mine_loop e ds target header 0 nonce = None"
| "mine_loop e ds target header (Suc fuel) nonce = do {
     (digest, result) \<leftarrow> hashimotoFull (ek512 e) (ek256 e) ds (HashNoNonce e header) nonce;
     if be_int result \<le> target
     then Some (header\<lparr>h_nonce := be_bytes 8 (uint nonce), MixDigest := word_of_int (be_int digest)\<rparr>)
     else mine_loop e ds target header fuel (nonce + 1)
   }"

definition mine :: "ethashEnv \<Rightarrow> int \<Rightarrow> int \<Rightarrow> nat \<Rightarrow> uint64 \<Rightarrow> header \<Rightarrow> ethash \<Rightarrow> (header option \<times> ethash) option" where
  "mine e now now' attempts seed header g =
     (if h_difficulty header = 0 then None
      else do {
        (ds, g1) \<leftarrow> ethash_dataset e now now' (low64 (h_number header)) g;
        Some (mine_loop e ds (maxUint256 div h_difficulty header) header attempts seed, g1)
      })"

definition seal_threads :: "nat \<Rightarrow> ethash \<Rightarrow> nat" where
  "seal_threads cpus g = (if eth_threads g = 0 then cpus else if eth_threads g < 0 then 0 else nat (eth_threads g))"

text \<open>
  \<open>Seal\<close>: \<open>winner\<close> is the thread whose block arrives first and the number of nonces it tried, \<open>None\<close> when
  sealing is stopped. A change of the number of threads starts a new run.
\<close>

definition EthSeal ::
  "ethashEnv \<Rightarrow> ethash option \<Rightarrow> int \<Rightarrow> int \<Rightarrow> nat \<Rightarrow> (nat \<Rightarrow> uint64) \<Rightarrow> (nat \<times> nat) option \<Rightarrow> header \<Rightarrow> ethash \<Rightarrow>
   (header option \<times> ethash option \<times> ethash) option"
where
  "EthSeal e sh now now' cpus seeds winner header g =
     (let run = (\<lambda>s. case winner of
            Some (i, attempts) \<Rightarrow> if i < seal_threads cpus s then mine e now now' attempts (seeds i) header s else Some (None, s)
          | None \<Rightarrow> Some (None, s))
      in if fakeMode g then Some (Some (header\<lparr>h_nonce := replicate 8 0, MixDigest := 0\<rparr>), sh, g)
         else case sh of
           Some s \<Rightarrow> do { (r, s') \<leftarrow> run s; Some (r, Some s', g) }
         | None \<Rightarrow> do { (r, g') \<leftarrow> run g; Some (r, None, g') })"

end
