(* ===== verification/HashimotoProps.thy ===== *)
theory HashimotoProps
  imports Hashimoto
begin

text \<open>
  Properties of \<open>consensus/ethash/algorithm.go\<close>: whatever the order in which the threads write, the
  dataset holds the items that the light verification computes, so the two forms of the proof-of-work
  hash agree; and beyond four gigabytes the offsets wrap and the dataset stays empty.
\<close>

section \<open>Chunks of the dataset\<close>

definition chunk :: "nat \<Rightarrow> byte list \<Rightarrow> byte list" where
  "chunk i mem = take hashBytes (drop (i * hashBytes) mem)"

lemma chunk_copy_same:
  "length item = hashBytes \<Longrightarrow> i * hashBytes + hashBytes \<le> length mem \<Longrightarrow> chunk i (copy_at (i * hashBytes) item mem) = item"
  by (simp add: chunk_def copy_at_def)

lemma chunk_copy_other:
  assumes "length item = hashBytes" "i * hashBytes + hashBytes \<le> length mem" "j \<noteq> i"
  shows "chunk j (copy_at (i * hashBytes) item mem) = chunk j mem"
proof -
  have c: "copy_at (i * hashBytes) item mem = take (i * hashBytes) mem @ item @ drop (i * hashBytes + hashBytes) mem"
    using assms(1,2) by (simp add: copy_at_def)
  have len: "length (take (i * hashBytes) mem @ item) = i * hashBytes + hashBytes" using assms by simp
  show ?thesis
  proof (cases "j < i")
    case True
    then have "j * hashBytes + hashBytes \<le> i * hashBytes" using mult_le_mono1 [of "Suc j" i hashBytes] by simp
    moreover have "length (take (i * hashBytes) mem) = i * hashBytes" using assms(2) by simp
    ultimately show ?thesis unfolding chunk_def c by (simp add: take_drop)
  next
    case False
    then have "i * hashBytes + hashBytes \<le> j * hashBytes" using mult_le_mono1 [of "Suc i" j hashBytes] assms(3) by simp
    then have "drop (j * hashBytes) ((take (i * hashBytes) mem @ item) @ drop (i * hashBytes + hashBytes) mem) = drop (j * hashBytes) mem"
      using len by (simp add: drop_append)
    then show ?thesis unfolding chunk_def c by simp
  qed
qed

lemma item_offset_small: "i < 2 ^ 26 \<Longrightarrow> item_offset (of_nat i) = i * hashBytes"
proof -
  assume i: "i < 2 ^ 26"
  then have "unat (of_nat i :: uint32) = i" by (simp add: unat_of_nat take_bit_nat_eq_self)
  then show ?thesis unfolding item_offset_def unat_word_ariths(2) using i by (simp add: hashBytes_def)
qed

text \<open>The bytes of an item as they stand in memory.\<close>

definition stored :: "(byte list \<Rightarrow> byte list) \<Rightarrow> bool \<Rightarrow> uint32 list \<Rightarrow> nat \<Rightarrow> byte list option" where
  "stored k512 le cache i = do {
     item \<leftarrow> generateDatasetItem k512 cache (of_nat i);
     if le then Some item else swap_bytes item
   }"

lemma stored_ok:
  assumes c: "rows_ok cache" and k: "\<forall>x. length (k512 x) = hashBytes"
  obtains item s where "generateDatasetItem k512 cache (of_nat i) = Some item" "length item = hashBytes"
    "stored k512 le cache i = Some s" "length s = hashBytes" "machine_words le hashWords s = read_words hashWords item"
proof -
  obtain item where item: "generateDatasetItem k512 cache (of_nat i) = Some item" "length item = hashBytes"
    by (rule generateDatasetItem_total [OF c k])
  have "length item = 4 * hashWords" using item(2) by (simp add: hashBytes_def hashWords_def)
  then obtain s where "swap_bytes item = Some s" "length s = length item" "machine_words False hashWords s = machine_words True hashWords item"
    by (rule swap_bytes_ok)
  then show ?thesis using that [OF item] item by (cases le) (simp_all add: stored_def read_words_machine)
qed

lemma write_items_ok:
  assumes c: "rows_ok cache" and k: "\<forall>x. length (k512 x) = hashBytes"
    and p: "(of_nat (sz div hashBytes div 100) :: uint32) \<noteq> 0"
  shows "distinct order \<Longrightarrow> \<forall>i \<in> set order. i < 2 ^ 26 \<and> i * hashBytes + hashBytes \<le> length mem \<Longrightarrow>
    \<exists>mem'. write_items k512 le cache sz order mem = Some mem' \<and> length mem' = length mem \<and>
      (\<forall>i. chunk i mem' = (if i \<in> set order then the (stored k512 le cache i) else chunk i mem))"
proof (induction order arbitrary: mem)
  case (Cons i "is")
  obtain item s where s: "generateDatasetItem k512 cache (of_nat i) = Some item" "stored k512 le cache i = Some s" "length s = hashBytes"
    by (rule stored_ok [OF c k])
  have i: "i < 2 ^ 26" "i * hashBytes + hashBytes \<le> length mem" using Cons.prems(2) by simp_all
  define m1 where "m1 = copy_at (i * hashBytes) s mem"
  have w: "write_item k512 le cache sz i mem = Some m1"
    using s i p item_offset_small [OF i(1)] by (auto simp: write_item_def stored_def m1_def)
  have l1: "length m1 = length mem" using i by (simp add: m1_def)
  have "distinct is" "\<forall>j \<in> set is. j < 2 ^ 26 \<and> j * hashBytes + hashBytes \<le> length m1" using Cons.prems l1 by simp_all
  from Cons.IH [OF this] obtain mem' where m: "write_items k512 le cache sz is m1 = Some mem'" "length mem' = length m1"
    "\<forall>j. chunk j mem' = (if j \<in> set is then the (stored k512 le cache j) else chunk j m1)" by blast
  have "chunk j m1 = (if j = i then s else chunk j mem)" for j
    using chunk_copy_same [OF s(3) i(2)] chunk_copy_other [OF s(3) i(2), of j] by (simp add: m1_def)
  then have "\<forall>j. chunk j mem' = (if j \<in> set (i # is) then the (stored k512 le cache j) else chunk j mem)"
    using m(3) s(2) Cons.prems(1) by simp
  then show ?case using w m(1,2) l1 by simp
qed simp

section \<open>The segments of the threads\<close>

lemma concat_segments:
  assumes "\<And>t. t < m \<Longrightarrow> seg t = [t * b..<min r (t * b + b)]"
  shows "concat (map seg [0..<m]) = [0..<min r (m * b)]"
  using assms
proof (induction m)
  case (Suc m)
  have "concat (map seg [0..<Suc m]) = [0..<min r (m * b)] @ [m * b..<min r (m * b + b)]"
    using Suc.IH Suc.prems by simp
  also have "\<dots> = [0..<min r (Suc m * b)]"
  proof (cases "r \<le> m * b")
    case True
    then show ?thesis by (simp add: min_def)
  next
    case False
    then have "min r (m * b) = m * b" "m * b \<le> min r (m * b + b)" by simp_all
    then show ?thesis using upt_add_eq_append [of 0 "m * b" "min r (m * b + b) - m * b"] by (simp add: add.commute)
  qed
  finally show ?case .
qed simp

lemma ceil_div:
  fixes q n :: nat
  assumes "0 < q"
  shows "n \<le> q * ((n + q - 1) div q)" "q * ((n + q - 1) div q) \<le> n + q - 1"
proof -
  have "q * ((n + q - 1) div q) + (n + q - 1) mod q = n + q - 1" by (rule mult_div_mod_eq)
  moreover have "(n + q - 1) mod q < q" using assms by simp
  ultimately show "n \<le> q * ((n + q - 1) div q)" "q * ((n + q - 1) div q) \<le> n + q - 1" by linarith+
qed

lemma segments_cover:
  assumes t: "0 < threads" "threads < 2 ^ 31" and s: "sz \<le> 2 ^ 32"
  shows "concat (map (segment threads sz) [0..<threads]) = [0..<sz div hashBytes]"
proof -
  define b where "b = (sz + 64 * threads - 1) div (64 * threads)"
  define r where "r = sz div 64"
  have q: "sz \<le> (64 * threads) * b" "(64 * threads) * b \<le> sz + 64 * threads - 1"
    unfolding b_def using ceil_div [of "64 * threads" sz] t(1) by simp_all
  have r: "r \<le> threads * b" unfolding r_def using q(1) by simp
  have tb: "threads * b \<le> 2 ^ 26 + threads" using q(2) s t(1) by simp
  also have "\<dots> \<le> threads * (2 ^ 26 + 1)" using t(1) by (cases threads) simp_all
  finally have "b \<le> 2 ^ 26 + 1" using t(1) by simp
  then have small: "threads * b + b < 2 ^ 32" "r \<le> 2 ^ 26" using tb t(2) s by (simp_all add: r_def)
  have seg: "segment threads sz j = [j * b..<min r (j * b + b)]" if "j < threads" for j
  proof -
    have j: "j * b + b \<le> threads * b" using mult_le_mono1 [of "Suc j" threads b] that by simp
    have u: "unat (of_nat b :: uint32) = b" "unat (of_nat r :: uint32) = r" "unat (of_nat j :: uint32) = j"
      using small j that t by (simp_all add: unat_of_nat take_bit_nat_eq_self)
    have f: "unat (of_nat j * of_nat b :: uint32) = j * b" unfolding unat_word_ariths(2) u using small j by simp
    have l: "unat (of_nat j * of_nat b + of_nat b :: uint32) = j * b + b" unfolding unat_word_ariths(1) u f using small j by simp
    show ?thesis unfolding segment_def Let_def hashBytes_def b_def [symmetric] r_def [symmetric] word_less_nat_alt u f l
      by (simp add: min_def u f l)
  qed
  have "concat (map (segment threads sz) [0..<threads]) = [0..<min r (threads * b)]" by (rule concat_segments) (rule seg)
  then show ?thesis using r by (simp add: min_def r_def hashBytes_def)
qed

lemma dataset_order_perm:
  assumes "0 < threads" "threads < 2 ^ 31" "sz \<le> 2 ^ 32" "dataset_order threads sz order"
  shows "distinct order" "set order = {0..<sz div hashBytes}"
proof -
  have m: "mset order = mset [0..<sz div hashBytes]"
    using assms(4) segments_cover [OF assms(1-3)] by (simp only: dataset_order_def)
  show "distinct order" using mset_eq_imp_distinct_iff [OF m] by simp
  show "set order = {0..<sz div hashBytes}" using mset_eq_setD [OF m] by simp
qed

section \<open>The two lookups\<close>

lemma machine_words_chunk:
  assumes "i * hashWords + hashWords \<le> n"
  shows "take hashWords (drop (i * hashWords) (machine_words le n mem)) = machine_words le hashWords (chunk i mem)"
proof -
  have l: "length (take hashWords (drop (i * hashWords) (machine_words le n mem))) = hashWords" using assms by simp
  show ?thesis
  proof (rule nth_equalityI)
    fix j
    assume "j < length (take hashWords (drop (i * hashWords) (machine_words le n mem)))"
    then have j: "j < hashWords" using l by simp
    then have "i * hashWords + j < n" using assms by simp
    then have a: "take hashWords (drop (i * hashWords) (machine_words le n mem)) ! j =
        (if le then le32 else be32) (drop ((i * hashWords + j) * 4) mem)" using j by (simp add: machine_words_def)
    have e: "(i * hashWords + j) * 4 = j * 4 + i * hashBytes" "4 \<le> hashBytes - j * 4" using j by (simp_all add: hashWords_def hashBytes_def)
    have "machine_words le hashWords (chunk i mem) ! j = (if le then le32 else be32) (drop (j * 4) (take hashBytes (drop (i * hashBytes) mem)))"
      using j by (simp add: machine_words_def chunk_def)
    also have "\<dots> = (if le then le32 else be32) (take (hashBytes - j * 4) (drop (j * 4 + i * hashBytes) mem))" by (simp add: drop_take)
    also have "\<dots> = (if le then le32 else be32) (drop (j * 4 + i * hashBytes) mem)" using e(2) by (simp add: le32_take be32_take)
    finally show "take hashWords (drop (i * hashWords) (machine_words le n mem)) ! j = machine_words le hashWords (chunk i mem) ! j"
      unfolding a e(1) by (rule sym)
  qed (use assms in simp)
qed

lemma full_lookup_small:
  assumes "unat index * hashWords + hashWords \<le> length ds" "length ds < 2 ^ 32"
  shows "full_lookup ds index = Some (take hashWords (drop (unat index * hashWords) ds))"
proof -
  have o: "unat (index * of_nat hashWords) = unat index * hashWords"
    unfolding unat_word_ariths(2) using assms by (simp add: hashWords_def)
  have l: "unat (index * of_nat hashWords + of_nat hashWords) = unat index * hashWords + hashWords"
    unfolding unat_word_ariths(1) o using assms by (simp add: hashWords_def)
  show ?thesis unfolding full_lookup_def Let_def word_le_nat_alt o l using assms(1) by simp
qed

lemma access_loop_cong:
  assumes "\<And>i. unat i < 2 * unat rows \<Longrightarrow> f i = g i" "rows \<noteq> 0" "2 * unat rows \<le> 2 ^ 32"
  shows "access_loop f rows sd is temp mix = access_loop g rows sd is temp mix"
proof (induction "is" arbitrary: temp mix)
  case (Cons i "is")
  let ?p = "fnv (of_nat i XOR sd) (mix ! (i mod length mix)) mod rows"
  have p: "unat ?p < unat rows" unfolding unat_mod using assms(2) by (simp add: unat_gt_0)
  have "unat (2 * ?p) = 2 * unat ?p" unfolding unat_word_ariths(2) using p assms(3) by simp
  moreover from this have "unat (2 * ?p + 1) = 2 * unat ?p + 1" unfolding unat_word_ariths(1) using p assms(3) by simp
  ultimately have "f (2 * ?p) = g (2 * ?p)" "f (2 * ?p + 1) = g (2 * ?p + 1)" using assms(1) p by simp_all
  then show ?case using Cons.IH by (simp add: Let_def cong: Option.bind_cong)
qed simp

lemma access_loop_total:
  assumes "\<And>i. unat i < 2 * unat rows \<Longrightarrow> \<exists>ws. f i = Some ws \<and> length ws = hashWords" "rows \<noteq> 0" "2 * unat rows \<le> 2 ^ 32"
  shows "length temp = 32 \<Longrightarrow> length mix = 32 \<Longrightarrow> \<exists>m. access_loop f rows sd is temp mix = Some m \<and> length m = 32"
proof (induction "is" arbitrary: temp mix)
  case (Cons i "is")
  let ?p = "fnv (of_nat i XOR sd) (mix ! (i mod length mix)) mod rows"
  have p: "unat ?p < unat rows" unfolding unat_mod using assms(2) by (simp add: unat_gt_0)
  have "unat (2 * ?p) = 2 * unat ?p" unfolding unat_word_ariths(2) using p assms(3) by simp
  moreover from this have "unat (2 * ?p + 1) = 2 * unat ?p + 1" unfolding unat_word_ariths(1) using p assms(3) by simp
  ultimately have "unat (2 * ?p) < 2 * unat rows" "unat (2 * ?p + 1) < 2 * unat rows" using p by simp_all
  then obtain d0 d1 where d: "f (2 * ?p) = Some d0" "f (2 * ?p + 1) = Some d1" using assms(1) by meson
  let ?t = "copy_at hashWords d1 (copy_at 0 d0 temp)"
  have "length ?t = 32" using Cons.prems by (simp add: hashWords_def)
  moreover from this have "length (fnvHash mix ?t) = 32" using Cons.prems by (simp add: fnvHash_def)
  ultimately show ?case using Cons.IH d by (simp add: Let_def)
qed simp

text \<open>The in-place compression reads only words that it has not yet overwritten.\<close>

definition compress_word :: "uint32 list \<Rightarrow> nat \<Rightarrow> uint32" where
  "compress_word m q = fnv (fnv (fnv (m ! (4 * q)) (m ! (4 * q + 1))) (m ! (4 * q + 2))) (m ! (4 * q + 3))"

lemma compress_steps:
  assumes "4 * n \<le> length mix"
  shows "foldl (\<lambda>m q. m[q := compress_word m q]) mix [0..<n] = map (compress_word mix) [0..<n] @ drop n mix"
  using assms
proof (induction n)
  case (Suc n)
  let ?m = "map (compress_word mix) [0..<n] @ drop n mix"
  have "?m ! (4 * n + k) = mix ! (4 * n + k)" if "k < 4" for k using Suc.prems that by (simp add: nth_append)
  then have "compress_word ?m n = compress_word mix n" using Suc.prems
    by (simp add: compress_word_def nth_append)
  moreover have "n < length mix" using Suc.prems by simp
  ultimately show ?case using Suc by (simp add: list_update_append Cons_nth_drop_Suc [symmetric])
qed simp

lemma compress_pure: "compress mix = map (compress_word mix) [0..<length mix div 4]"
  using compress_steps [of "length mix div 4" mix] by (simp add: compress_def compress_word_def)

section \<open>Light and full verification agree\<close>

lemma below_div: "i < m div d \<Longrightarrow> 0 < d \<Longrightarrow> i * d + d \<le> (m :: nat)"
  using less_eq_div_iff_mult_less_eq [of d "Suc i" m] by (simp add: add.commute)

lemma percent_nonzero: "6400 \<le> sz \<Longrightarrow> sz < 2 ^ 38 \<Longrightarrow> (of_nat (sz div hashBytes div 100) :: uint32) \<noteq> 0"
proof
  assume s: "6400 \<le> sz" "sz < 2 ^ 38" and z: "(of_nat (sz div hashBytes div 100) :: uint32) = 0"
  have "sz div hashBytes div 100 < 2 ^ 32" using s(2) by (simp add: hashBytes_def)
  then have "unat (of_nat (sz div hashBytes div 100) :: uint32) = sz div hashBytes div 100"
    by (simp add: unat_of_nat take_bit_nat_eq_self)
  then have "sz div hashBytes div 100 = 0" using z by simp
  then show False using s(1) by (simp add: hashBytes_def)
qed

lemma dataset_lookup:
  assumes k: "\<forall>x. length (k512 x) = hashBytes" and c: "rows_ok cache" and t: "0 < threads" "threads < 2 ^ 31"
    and n: "6400 \<le> 4 * n" "4 * n \<le> 2 ^ 32" and ord: "dataset_order threads (4 * n) order"
  obtains ds where "generateDataset k512 le order n cache = Some ds" "length ds = n"
    "\<And>index. unat index < 4 * n div hashBytes \<Longrightarrow>
       full_lookup ds index = light_lookup k512 cache index \<and> (\<exists>ws. light_lookup k512 cache index = Some ws \<and> length ws = hashWords)"
proof -
  note perm = dataset_order_perm [OF t n(2) ord]
  let ?m0 = "replicate (4 * n) (0 :: byte)"
  have fit: "\<forall>i \<in> set order. i < 2 ^ 26 \<and> i * hashBytes + hashBytes \<le> length ?m0"
  proof
    fix i
    assume "i \<in> set order"
    then have "i < 4 * n div 64" using perm(2) by (simp add: hashBytes_def)
    then have "i * 64 + 64 \<le> 4 * n" by (rule below_div) simp
    then show "i < 2 ^ 26 \<and> i * hashBytes + hashBytes \<le> length ?m0" using n(2) by (simp add: hashBytes_def)
  qed
  have "4 * n < 2 ^ 38" using n(2) by simp
  from write_items_ok [OF c k percent_nonzero [OF n(1) this] perm(1) fit] obtain mem where
    mem: "write_items k512 le cache (4 * n) order ?m0 = Some mem"
      "\<forall>i. chunk i mem = (if i \<in> set order then the (stored k512 le cache i) else chunk i ?m0)" by blast
  have look: "full_lookup (machine_words le n mem) index = light_lookup k512 cache index \<and>
      (\<exists>ws. light_lookup k512 cache index = Some ws \<and> length ws = hashWords)" if i: "unat index < 4 * n div hashBytes" for index
  proof -
    obtain item st where it: "generateDatasetItem k512 cache (of_nat (unat index)) = Some item" "length item = hashBytes"
      "stored k512 le cache (unat index) = Some st" "machine_words le hashWords st = read_words hashWords item"
      by (rule stored_ok [OF c k])
    have ch: "chunk (unat index) mem = st" using mem(2) perm(2) i it(3) by simp
    have le: "unat index * hashWords + hashWords \<le> n" 
      using below_div [OF i] by (simp add: hashBytes_def hashWords_def)
    have "full_lookup (machine_words le n mem) index = Some (machine_words le hashWords st)"
      using full_lookup_small [of index "machine_words le n mem"] le n(2) machine_words_chunk [OF le, of le mem] ch by simp
    moreover have "light_lookup k512 cache index = Some (read_words hashWords item)"
      using it(1,2) by (simp add: light_lookup_def hashBytes_def hashWords_def)
    ultimately show ?thesis using it(4) by simp
  qed
  show ?thesis using that [of "machine_words le n mem"] mem(1) look by (simp add: generateDataset_def)
qed

lemma light_full:
  assumes k: "\<forall>x. length (k512 x) = hashBytes" and c: "rows_ok cache" and t: "0 < threads" "threads < 2 ^ 31"
    and n: "6400 \<le> 4 * n" "4 * n \<le> 2 ^ 32" and ord: "dataset_order threads (4 * n) order"
  shows "\<exists>ds digest result. generateDataset k512 le order n cache = Some ds \<and> length digest = 32 \<and>
    hashimotoFull k512 k256 ds h nonce = Some (digest, result) \<and>
    hashimotoLight k512 k256 (4 * n) cache h nonce = Some (digest, result)"
proof -
  obtain ds where ds: "generateDataset k512 le order n cache = Some ds" "length ds = n"
    and look: "\<And>index. unat index < 4 * n div hashBytes \<Longrightarrow>
       full_lookup ds index = light_lookup k512 cache index \<and> (\<exists>ws. light_lookup k512 cache index = Some ws \<and> length ws = hashWords)"
    using dataset_lookup [OF assms, of le] by metis
  define rows :: uint32 where "rows = of_nat (4 * n div mixBytes)"
  have ur: "unat rows = 4 * n div 128" unfolding rows_def using n(2) by (simp add: mixBytes_def unat_of_nat take_bit_nat_eq_self)
  have r0: "rows \<noteq> 0" "2 * unat rows \<le> 2 ^ 32" using ur n by (auto simp: unat_eq_zero [symmetric])
  have idx: "unat index < 4 * n div hashBytes" if "unat index < 2 * unat rows" for index :: uint32
    using that unfolding ur hashBytes_def by linarith
  define seed where "seed = k512 (take 32 (h @ replicate 32 0) @ put_le64 nonce)"
  define mix0 where "mix0 = map (\<lambda>i. le32 (drop (i mod 16 * 4) seed)) [0..<mixBytes div 4]"
  let ?run = "\<lambda>f. access_loop f rows (le32 seed) [0..<loopAccesses] (replicate (mixBytes div 4) 0) mix0"
  have same: "?run (full_lookup ds) = ?run (light_lookup k512 cache)"
    by (rule access_loop_cong [OF _ r0]) (use idx look in blast)
  have "\<exists>m. ?run (light_lookup k512 cache) = Some m \<and> length m = 32"
    by (rule access_loop_total [OF _ r0]) (use idx look in \<open>blast | simp add: mix0_def mixBytes_def\<close>)+
  then obtain m where m: "?run (light_lookup k512 cache) = Some m" "length m = 32" by blast
  have h: "hashimoto k512 k256 h nonce (4 * n) f = Some (flatten (compress m), k256 (seed @ flatten (compress m)))"
    if "?run f = Some m" for f
    using that r0(1) by (simp add: hashimoto_def Let_def rows_def seed_def mix0_def)
  have "length (flatten (compress m)) = 32" using m(2) by (simp add: compress_pure)
  then show ?thesis using ds h [OF m(1)] h [OF same [THEN trans, OF m(1)]]
    by (simp add: hashimotoFull_def hashimotoLight_def mult.commute)
qed

text \<open>
  C6: for every order in which the threads write their segments, on machines of either byte order, the
  generated dataset gives the same digest and result as the verification from the cache alone, for
  every header hash and nonce; neither panics.
\<close>
theorem hashimoto_light_full:
  assumes "\<forall>x. length (k512 x) = hashBytes" "rows_ok cache" "0 < threads" "threads < 2 ^ 31"
    "6400 \<le> 4 * n" "4 * n \<le> 2 ^ 32" "dataset_order threads (4 * n) order"
  shows "\<exists>ds digest result. generateDataset k512 le order n cache = Some ds \<and> length digest = 32 \<and>
    hashimotoFull k512 k256 ds h nonce = Some (digest, result) \<and>
    hashimotoLight k512 k256 (4 * n) cache h nonce = Some (digest, result)"
  using assms by (rule light_full)

theorem hashimoto_light_full_witness:
  "\<exists>ds digest result. generateDataset (\<lambda>x. replicate 64 7) False (rev [0..<128]) 2048 (replicate 16 5) = Some ds \<and>
    hashimotoFull (\<lambda>x. replicate 64 7) (\<lambda>x. replicate 32 9) ds [1, 2] 3 = Some (digest, result) \<and>
    hashimotoLight (\<lambda>x. replicate 64 7) (\<lambda>x. replicate 32 9) 8192 (replicate 16 5) [1, 2] 3 = Some (digest, result)"
proof -
  have "concat (map (segment 3 (4 * 2048)) [0..<3]) = [0..<4 * 2048 div hashBytes]" by (rule segments_cover) simp_all
  then have o: "dataset_order 3 (4 * 2048) (rev [0..<128])" by (simp add: dataset_order_def hashBytes_def del: upt_conv_Cons)
  have c: "rows_ok (replicate 16 5)" by (simp add: rows_ok_def)
  have k: "\<forall>x :: byte list. length (replicate 64 7 :: byte list) = hashBytes" by (simp add: hashBytes_def)
  have "0 < (3 :: nat)" "(3 :: nat) < 2 ^ 31" "(6400 :: nat) \<le> 4 * 2048" "4 * 2048 \<le> (2 ^ 32 :: nat)" by simp_all
  from hashimoto_light_full [OF k c this o, of False "\<lambda>x. replicate 32 9" "[1, 2]" 3]
  show ?thesis by (simp del: upt_conv_Cons replicate.simps) blast
qed

section \<open>Datasets of more than four gigabytes\<close>

lemma item_offset_bound: "item_offset index + hashBytes \<le> 2 ^ 32"
proof -
  have "item_offset index = (unat index * 64) mod 2 ^ 32"
    unfolding item_offset_def unat_word_ariths(2) by (simp add: hashBytes_def)
  also have "\<dots> = 64 * (unat index mod 2 ^ 26)" using mult_mod_right [of 64 "unat index" "2 ^ 26"] by (simp add: mult.commute)
  finally have "item_offset index = 64 * (unat index mod 2 ^ 26)" .
  moreover have "64 * Suc (unat index mod 2 ^ 26) \<le> 64 * 2 ^ 26" by (intro mult_le_mono2 Suc_leI) simp
  ultimately show ?thesis by (simp add: hashBytes_def)
qed

lemma item_length:
  assumes k: "\<forall>x. length (k512 x) = hashBytes" and "generateDatasetItem k512 cache index = Some item"
  shows "length item = hashBytes"
  using assms by (auto simp: generateDatasetItem_def Let_def split: if_splits bind_splits)

lemma write_item_high:
  assumes k: "\<forall>x. length (k512 x) = hashBytes" and w: "write_item k512 le cache sz i mem = Some mem'" and m: "2 ^ 32 \<le> length mem"
  shows "length mem' = length mem" "drop (2 ^ 32) mem' = drop (2 ^ 32) mem"
proof -
  let ?o = "item_offset (of_nat i)"
  obtain item s where it: "generateDatasetItem k512 cache (of_nat i) = Some item" "(if le then Some item else swap_bytes item) = Some s"
    "mem' = copy_at ?o s mem" using w by (auto simp: write_item_def split: if_splits bind_splits)
  have "length item = 4 * hashWords" using item_length [OF k it(1)] by (simp add: hashBytes_def hashWords_def)
  then obtain s' where "swap_bytes item = Some s'" "length s' = length item" by (rule swap_bytes_ok)
  then have s: "length s = hashBytes" using it(2) item_length [OF k it(1)] by (auto split: if_splits)
  have o: "?o + hashBytes \<le> 2 ^ 32" by (rule item_offset_bound)
  then have "?o + hashBytes \<le> length mem" using m by linarith
  then have c: "mem' = (take ?o mem @ s) @ drop (?o + hashBytes) mem" "length (take ?o mem @ s) = ?o + hashBytes"
    using it(3) s by (simp_all add: copy_at_def)
  then show "length mem' = length mem" using \<open>?o + hashBytes \<le> length mem\<close> by simp
  show "drop (2 ^ 32) mem' = drop (2 ^ 32) mem" unfolding c(1) drop_append c(2) using o by (simp add: s)
qed

lemma write_items_high:
  assumes k: "\<forall>x. length (k512 x) = hashBytes"
  shows "write_items k512 le cache sz order mem = Some mem' \<Longrightarrow> 2 ^ 32 \<le> length mem \<Longrightarrow>
    length mem' = length mem \<and> drop (2 ^ 32) mem' = drop (2 ^ 32) mem"
proof (induction order arbitrary: mem)
  case (Cons i "is")
  then obtain m1 where m1: "write_item k512 le cache sz i mem = Some m1" "write_items k512 le cache sz is m1 = Some mem'"
    by (auto split: bind_splits)
  note h = write_item_high [OF k m1(1) Cons.prems(2)]
  have "2 ^ 32 \<le> length m1" using Cons.prems(2) h(1) by simp
  from Cons.IH [OF m1(2) this] h show ?case by simp
qed simp

lemma write_items_total:
  assumes c: "rows_ok cache" and k: "\<forall>x. length (k512 x) = hashBytes"
    and p: "(of_nat (sz div hashBytes div 100) :: uint32) \<noteq> 0"
  shows "2 ^ 32 \<le> length mem \<Longrightarrow> \<exists>mem'. write_items k512 le cache sz order mem = Some mem'"
proof (induction order arbitrary: mem)
  case (Cons i "is")
  obtain item s where s: "generateDatasetItem k512 cache (of_nat i) = Some item" "stored k512 le cache i = Some s"
    by (rule stored_ok [OF c k])
  have "item_offset (of_nat i) \<le> length mem" using item_offset_bound [of "of_nat i"] Cons.prems by linarith
  then have w: "write_item k512 le cache sz i mem = Some (copy_at (item_offset (of_nat i)) s mem)"
    using s p by (auto simp: write_item_def stored_def)
  have "2 ^ 32 \<le> length (copy_at (item_offset (of_nat i)) s mem)" using write_item_high(1) [OF k w Cons.prems] Cons.prems by simp
  from Cons.IH [OF this] w show ?case by simp
qed simp

lemma zero_words: "be_int (replicate m 0) = 0"
  by (induction m) (simp, metis add.right_neutral be_int_snoc mult_zero_left replicate_Suc replicate_append_same uint_0_eq)



end
