(* ===== verification/BlockValidator.thy ===== *)
theory BlockValidator
  imports Header
begin

text \<open>
  \<open>core/block_validator.go\<close>: the checks of a block's body and of the state after its transactions, and
  the gas limit a miner proposes. The chain, the engine's check of uncles, the roots and the bloom
  filter of the library are fields of the record \<open>validatorEnv\<close>.
\<close>

section \<open>Model\<close>

record 't validatedBlock =
  vb_header :: header
  vb_txHash :: hash
  vb_receiptHash :: hash
  vb_bloom :: "byte list"
  vb_txs :: "'t list"
  vb_uncles :: "header list"

record ('t, 'r, 'err) validatorEnv =
  v_hash :: "header \<Rightarrow> hash"
  HasBlockAndState :: "hash \<Rightarrow> bool"
  v_VerifyUncles :: "header \<Rightarrow> header list \<Rightarrow> 'err + unit"
  CalcUncleHash :: "header list \<Rightarrow> hash"
  DeriveSha_txs :: "'t list \<Rightarrow> hash"
  DeriveSha_receipts :: "'r list \<Rightarrow> hash"
  v_CreateBloom :: "'r list \<Rightarrow> byte list"

datatype 'err validation_error = ErrKnownBlock | VUnknownAncestor | EngineError 'err | UncleRootMismatch | TxRootMismatch
  | GasUsedMismatch | BloomMismatch | ReceiptRootMismatch | StateRootMismatch

definition ValidateBody :: "('t, 'r, 'err) validatorEnv \<Rightarrow> 't validatedBlock \<Rightarrow> 'err validation_error + unit" where
  "ValidateBody e block =
     (let header = vb_header block
      in if HasBlockAndState e (v_hash e header) then Inl ErrKnownBlock
         else if \<not> HasBlockAndState e (ParentHash header) then Inl VUnknownAncestor
         else case v_VerifyUncles e header (vb_uncles block) of
           Inl err \<Rightarrow> Inl (EngineError err)
         | Inr _ \<Rightarrow>
             if CalcUncleHash e (vb_uncles block) \<noteq> UncleHash header then Inl UncleRootMismatch
             else if DeriveSha_txs e (vb_txs block) \<noteq> vb_txHash block then Inl TxRootMismatch
             else Inr ())"

definition ValidateState ::
  "('t, 'r, 'err) validatorEnv \<Rightarrow> 't validatedBlock \<Rightarrow> hash \<Rightarrow> 'r list \<Rightarrow> bigint \<Rightarrow> 'err validation_error + unit"
where
  "ValidateState e block root receipts usedGas =
     (if h_gasUsed (vb_header block) \<noteq> usedGas then Inl GasUsedMismatch
      else if v_CreateBloom e receipts \<noteq> vb_bloom block then Inl BloomMismatch
      else if DeriveSha_receipts e receipts \<noteq> vb_receiptHash block then Inl ReceiptRootMismatch
      else if h_root (vb_header block) \<noteq> root then Inl StateRootMismatch
      else Inr ())"

definition CalcGasLimit :: "bigint \<Rightarrow> bigint \<Rightarrow> bigint \<Rightarrow> header \<Rightarrow> bigint" where
  "CalcGasLimit divisor minGas target parent =
     (let contrib = h_gasUsed parent * 3 div 2 div divisor;
          decay = h_gasLimit parent div divisor - 1;
          gl = max (h_gasLimit parent - decay + contrib) minGas
      in if gl < target then min (h_gasLimit parent + decay) target else gl)"

section \<open>The proposed gas limit\<close>

lemma div_below:
  fixes x k d :: int
  assumes "0 < d" "x < k * d"
  shows "x div d < k"
proof (rule ccontr)
  assume "\<not> x div d < k"
  then have "k * d \<le> x div d * d" using assms(1) by (intro mult_right_mono) simp_all
  moreover have "x div d * d \<le> x" using div_mult_mod_eq [of x d] pos_mod_sign [OF assms(1), of x] by linarith
  ultimately show False using assms(2) by linarith
qed

lemma CalcGasLimit_step:
  assumes d: "0 < divisor" and q: "5 \<le> h_gasLimit parent div divisor" and u: "0 \<le> h_gasUsed parent" "h_gasUsed parent \<le> h_gasLimit parent"
    and m: "minGas \<le> h_gasLimit parent"
  shows "\<bar>h_gasLimit parent - CalcGasLimit divisor minGas target parent\<bar> < h_gasLimit parent div divisor"
    "minGas \<le> CalcGasLimit divisor minGas target parent"
proof -
  let ?L = "h_gasLimit parent" and ?q = "h_gasLimit parent div divisor"
  define c where "c = h_gasUsed parent * 3 div 2 div divisor"
  have c0: "0 \<le> c" unfolding c_def using u(1) d by (simp add: pos_imp_zdiv_nonneg_iff)
  have "c \<le> ?L * 3 div 2 div divisor" unfolding c_def using u(2) d by (intro zdiv_mono1) simp_all
  also have "\<dots> < 2 * ?q - 1"
  proof -
    define P where "P = (?q + 1) * divisor"
    have "P = divisor * ?q + divisor" by (simp add: P_def algebra_simps)
    then have lt: "?L < P" using mult_div_mod_eq [of divisor ?L] pos_mod_bound [OF d, of ?L] by linarith
    have "3 * (?q + 1) * divisor \<le> (4 * ?q - 2) * divisor" using q d by (intro mult_right_mono) simp_all
    then have le: "3 * P \<le> 2 * ((2 * ?q - 1) * divisor)" unfolding P_def by (simp add: algebra_simps)
    have "?L * 3 div 2 < (2 * ?q - 1) * divisor" using lt le by linarith
    then show ?thesis by (rule div_below [OF d])
  qed
  finally have c1: "c < 2 * ?q - 1" .
  have g: "CalcGasLimit divisor minGas target parent =
      (if max (?L - (?q - 1) + c) minGas < target then min (?L + (?q - 1)) target else max (?L - (?q - 1) + c) minGas)"
    by (simp add: CalcGasLimit_def Let_def c_def)
  show "\<bar>?L - CalcGasLimit divisor minGas target parent\<bar> < ?q" unfolding g using c0 c1 q m by (auto simp: max_def min_def)
  show "minGas \<le> CalcGasLimit divisor minGas target parent" unfolding g using c0 q m by (auto simp: max_def min_def)
qed

end
