(* ===== verification/EthashProps.thy ===== *)
theory EthashProps
  imports Ethash HashimotoProps BlockValidator
begin

text \<open>
  Properties of the proof-of-work engine: a header made by the miner passes the checks, seal included;
  the difficulty stays within bounds and falls with time; accepted uncles are recent, distinct and
  rewarded within bounds; the epochs in memory stay within their limit.
\<close>

section \<open>Contents of caches and datasets\<close>

text \<open>What the files and the tables are relied on for: a file found for an epoch holds what an earlier
  run generated for it, a file written is read back, and the sizes are those of whole rows, with
  datasets of at most four gigabytes.\<close>

definition true_cache :: "ethashEnv \<Rightarrow> bool \<Rightarrow> uint64 \<Rightarrow> uint32 list option" where
  "true_cache e test epoch =
     generateCache (ek512 e) (isLittleEndian e) (if test then 256 else unat (cacheSizes e ! unat epoch) div 4)
       (seedHash (ek256 e) (epoch * ethash_epochLength + 1))"

definition true_words :: "ethashEnv \<Rightarrow> bool \<Rightarrow> uint64 \<Rightarrow> nat" where
  "true_words e test epoch = (if test then 8192 else unat (datasetSizes e ! unat epoch) div 4)"

definition true_dataset :: "ethashEnv \<Rightarrow> bool \<Rightarrow> uint64 \<Rightarrow> uint32 list option" where
  "true_dataset e test epoch = do {
     c \<leftarrow> true_cache e test epoch;
     generateDataset (ek512 e) (isLittleEndian e) (thread_order e (4 * true_words e test epoch)) (true_words e test epoch) c
   }"

definition files_ok :: "ethashEnv \<Rightarrow> bool" where
  "files_ok e \<longleftrightarrow> (\<forall>epoch c. cache_file e epoch = Some c \<longrightarrow> true_cache e False epoch = Some c) \<and>
     (\<forall>epoch d. dataset_file e epoch = Some d \<longrightarrow> true_dataset e False epoch = Some d) \<and> (\<forall>d. map_file e d = Some d)"

definition sizes_ok :: "ethashEnv \<Rightarrow> bool" where
  "sizes_ok e \<longleftrightarrow> length (cacheSizes e) = maxEpoch \<and> length (datasetSizes e) = maxEpoch \<and>
     (\<forall>s \<in> set (cacheSizes e). 64 dvd unat s \<and> 0 < unat s \<and> unat s < 2 ^ 34) \<and>
     (\<forall>s \<in> set (datasetSizes e). 4 dvd unat s \<and> 6400 \<le> unat s \<and> unat s \<le> 2 ^ 32)"

definition hashes_ok :: "ethashEnv \<Rightarrow> bool" where
  "hashes_ok e \<longleftrightarrow> (\<forall>x. length (ek512 e x) = hashBytes) \<and>
     (\<forall>n. \<exists>threads. 0 < threads \<and> threads < 2 ^ 31 \<and> dataset_order threads n (thread_order e n)) \<and>
     (\<forall>h n m. HashNoNonce e (h\<lparr>h_nonce := n, MixDigest := m\<rparr>) = HashNoNonce e h)"

definition pow_ok :: "ethashEnv \<Rightarrow> bool" where
  "pow_ok e \<longleftrightarrow> files_ok e \<and> sizes_ok e \<and> hashes_ok e"

lemma epoch_block:
  assumes "unat (epoch :: uint64) < maxEpoch"
  shows "(epoch * ethash_epochLength + 1) div ethash_epochLength = epoch"
proof -
  have u: "unat (epoch * ethash_epochLength + 1) = unat epoch * 30000 + 1"
    using assms by (simp add: unat_word_ariths ethash_epochLength_def maxEpoch_def)
  have "unat ((epoch * ethash_epochLength + 1) div ethash_epochLength) = unat epoch"
    unfolding unat_div u by (simp add: ethash_epochLength_def)
  then show ?thesis by (simp add: word_unat_eq_iff)
qed

lemma cache_generate_true:
  assumes e: "pow_ok e" and n: "unat epoch < maxEpoch"
  shows "cache_generate e dir test epoch = true_cache e test epoch"
proof -
  have sz: "cacheSize e (epoch * ethash_epochLength + 1) = Some (cacheSizes e ! unat epoch)"
    using e n by (simp add: cacheSize_def epoch_block pow_ok_def sizes_ok_def)
  have f: "\<And>c. cache_file e epoch = Some c \<Longrightarrow> true_cache e False epoch = Some c" "\<And>d. map_file e d = Some d"
    using e by (simp_all add: pow_ok_def files_ok_def)
  show ?thesis
  proof (cases "test \<or> \<not> dir")
    case True
    then show ?thesis by (auto simp: cache_generate_def true_cache_def sz Let_def)
  next
    case False
    then show ?thesis using f by (cases "cache_file e epoch") (simp_all add: cache_generate_def true_cache_def sz Let_def)
  qed
qed

lemma dataset_generate_true:
  assumes e: "pow_ok e" and n: "unat epoch < maxEpoch"
  shows "dataset_generate e test epoch = true_dataset e test epoch"
proof -
  have sz: "cacheSize e (epoch * ethash_epochLength + 1) = Some (cacheSizes e ! unat epoch)"
    "datasetSize e (epoch * ethash_epochLength + 1) = Some (datasetSizes e ! unat epoch)"
    using e n by (simp_all add: cacheSize_def datasetSize_def epoch_block pow_ok_def sizes_ok_def)
  have f: "\<And>d. dataset_file e epoch = Some d \<Longrightarrow> true_dataset e False epoch = Some d" "\<And>d. map_file e d = Some d"
    using e by (simp_all add: pow_ok_def files_ok_def)
  show ?thesis
  proof (cases test)
    case True
    then show ?thesis by (simp add: dataset_generate_def true_dataset_def true_cache_def true_words_def Let_def)
  next
    case False
    show ?thesis
    proof (cases "dataset_file e epoch")
      case None
      then show ?thesis using False f(2)
        by (simp add: dataset_generate_def true_dataset_def true_cache_def true_words_def sz Let_def)
    next
      case (Some d)
      then show ?thesis using False f(1) [OF Some] by (simp add: dataset_generate_def sz Let_def)
    qed
  qed
qed

lemma generateCache_some:
  obtains c where "generateCache k le n seed = Some c" "length c = n"
proof -
  obtain c where "generateCache k True n seed = Some c" "generateCache k False n seed = Some c" "length c = n"
    by (rule generateCache_ok)
  then show ?thesis using that by (cases le) simp_all
qed

lemma true_cache_ok:
  assumes e: "pow_ok e" and n: "unat epoch < maxEpoch"
  obtains c where "true_cache e test epoch = Some c" "rows_ok c"
proof -
  let ?n = "if test then 256 else unat (cacheSizes e ! unat epoch) div 4"
  obtain c where c: "true_cache e test epoch = Some c" "length c = ?n"
    unfolding true_cache_def by (rule generateCache_some)
  have "cacheSizes e ! unat epoch \<in> set (cacheSizes e)" using e n by (simp add: pow_ok_def sizes_ok_def)
  then have s: "64 dvd unat (cacheSizes e ! unat epoch)" "0 < unat (cacheSizes e ! unat epoch)" "unat (cacheSizes e ! unat epoch) < 2 ^ 34"
    using e by (simp_all add: pow_ok_def sizes_ok_def)
  then obtain k where "unat (cacheSizes e ! unat epoch) = 64 * k" by (auto simp: dvd_def)
  then have "rows_ok c" using c(2) s by (auto simp: rows_ok_def)
  then show ?thesis using that c(1) by blast
qed

lemma true_hashes:
  assumes e: "pow_ok e" and n: "unat epoch < maxEpoch"
  obtains c ds digest result where "true_cache e test epoch = Some c" "true_dataset e test epoch = Some ds" "length digest = 32"
    "hashimotoFull (ek512 e) (ek256 e) ds h nonce = Some (digest, result)"
    "hashimotoLight (ek512 e) (ek256 e) (4 * true_words e test epoch) c h nonce = Some (digest, result)"
proof -
  obtain c where c: "true_cache e test epoch = Some c" "rows_ok c" by (rule true_cache_ok [OF e n])
  have "datasetSizes e ! unat epoch \<in> set (datasetSizes e)" using e n by (simp add: pow_ok_def sizes_ok_def)
  then have s: "4 dvd unat (datasetSizes e ! unat epoch)" "6400 \<le> unat (datasetSizes e ! unat epoch)" "unat (datasetSizes e ! unat epoch) \<le> 2 ^ 32"
    using e by (simp_all add: pow_ok_def sizes_ok_def)
  have w: "6400 \<le> 4 * true_words e test epoch" "4 * true_words e test epoch \<le> 2 ^ 32"
    unfolding true_words_def using s by (auto elim!: dvdE)
  have k: "\<forall>x. length (ek512 e x) = hashBytes" using e by (simp add: pow_ok_def hashes_ok_def)
  obtain threads where t: "0 < threads" "threads < 2 ^ 31"
    "dataset_order threads (4 * true_words e test epoch) (thread_order e (4 * true_words e test epoch))"
    using e unfolding pow_ok_def hashes_ok_def by blast
  from light_full [OF k c(2) t(1,2) w t(3), of "isLittleEndian e" "ek256 e" h nonce]
  show ?thesis using that c(1) by (auto simp: true_dataset_def)
qed

section \<open>What is mined verifies\<close>

lemma mine_loop_found:
  assumes "mine_loop e ds target header fuel nonce = Some h"
  shows "\<exists>n digest result. hashimotoFull (ek512 e) (ek256 e) ds (HashNoNonce e header) n = Some (digest, result) \<and>
    be_int result \<le> target \<and> h = header\<lparr>h_nonce := be_bytes 8 (uint n), MixDigest := word_of_int (be_int digest)\<rparr>"
  using assms
proof (induction fuel arbitrary: nonce)
  case (Suc fuel)
  then obtain digest result where f: "hashimotoFull (ek512 e) (ek256 e) ds (HashNoNonce e header) nonce = Some (digest, result)"
    by (cases "hashimotoFull (ek512 e) (ek256 e) ds (HashNoNonce e header) nonce") auto
  show ?case
  proof (cases "be_int result \<le> target")
    case True
    then show ?thesis using Suc.prems f by auto
  next
    case False
    then show ?thesis using Suc f by simp
  qed
qed simp

lemma nonce_roundtrip: "word_of_int (be_int (be_bytes 8 (uint (n :: uint64)))) = n"
  unfolding be_int_bytes using uint_lt2p [of n] by simp

lemma digest_roundtrip:
  assumes "length d = 32"
  shows "be_bytes 32 (uint (word_of_int (be_int d) :: hash)) = d"
proof -
  have "be_int d < 256 ^ 32" "0 \<le> be_int d" using be_int_bounds [of d] assms by simp_all
  then have "uint (word_of_int (be_int d) :: hash) = be_int d" by (simp add: uint_word_of_int take_bit_int_eq_self)
  then show ?thesis using be_bytes_int [of d] assms by simp
qed

lemma ethash_cache_some:
  assumes "pow_ok e" "unat (block div ethash_epochLength) < maxEpoch"
    "true_cache e (tester g) (block div ethash_epochLength) = Some c"
  shows "\<exists>g'. ethash_cache e now now' block g = Some (c, g')"
  using assms cache_generate_true [OF assms(1,2)] by (simp add: ethash_cache_def Let_def split: prod.split)

lemma mine_verifies:
  assumes e: "pow_ok e" and d: "0 < h_difficulty header" and n: "unat (low64 (h_number header) div ethash_epochLength) < maxEpoch"
    and m: "mine e t0 t1 attempts seed header g = Some (Some h, g1)" and t: "tester g2 = tester g"
  shows "\<exists>g3. VerifySeal_own e t2 t3 h g2 = Some (Inr (), g3)"
proof -
  let ?ep = "low64 (h_number header) div ethash_epochLength"
  obtain ds where ds: "true_dataset e (tester g) ?ep = Some ds"
    "mine_loop e ds (maxUint256 div h_difficulty header) header attempts seed = Some h"
    using m dataset_generate_true [OF e n]
    by (auto simp: mine_def ethash_dataset_def Let_def split: if_splits bind_splits prod.splits)
  from mine_loop_found [OF ds(2)] obtain nonce digest result where
    f: "hashimotoFull (ek512 e) (ek256 e) ds (HashNoNonce e header) nonce = Some (digest, result)"
      "be_int result \<le> maxUint256 div h_difficulty header"
      "h = header\<lparr>h_nonce := be_bytes 8 (uint nonce), MixDigest := word_of_int (be_int digest)\<rparr>" by blast
  obtain c ds' digest' result' where tr: "true_cache e (tester g) ?ep = Some c" "true_dataset e (tester g) ?ep = Some ds'" "length digest' = 32"
    "hashimotoFull (ek512 e) (ek256 e) ds' (HashNoNonce e header) nonce = Some (digest', result')"
    "hashimotoLight (ek512 e) (ek256 e) (4 * true_words e (tester g) ?ep) c (HashNoNonce e header) nonce = Some (digest', result')"
    by (rule true_hashes [OF e n])
  then have same: "digest' = digest" "result' = result" using ds(1) f(1) by simp_all
  have hh: "HashNoNonce e h = HashNoNonce e header" using e f(3) by (simp add: pow_ok_def hashes_ok_def)
  have hf: "h_number h = h_number header" "h_difficulty h = h_difficulty header" "word_of_int (be_int (h_nonce h)) = nonce"
    "be_bytes 32 (uint (MixDigest h)) = digest"
    unfolding f(3) using digest_roundtrip [of digest] tr(3) same(1) nonce_roundtrip [of nonce] by simp_all
  have "true_cache e (tester g2) ?ep = Some c" using tr(1) t by simp
  from ethash_cache_some [OF e n this] obtain g3 where g3: "ethash_cache e t2 t3 (low64 (h_number header)) g2 = Some (c, g3)" by blast
  have len: "length (cacheSizes e) = maxEpoch" "length (datasetSizes e) = maxEpoch" using e by (simp_all add: pow_ok_def sizes_ok_def)
  have ds2: "datasetSize e (low64 (h_number header)) = Some (datasetSizes e ! unat ?ep)" using n len by (simp add: datasetSize_def)
  have "4 dvd unat (datasetSizes e ! unat ?ep)" using e n len by (simp add: pow_ok_def sizes_ok_def)
  then have sz: "(if tester g2 then 32 * 1024 else unat (datasetSizes e ! unat ?ep)) = 4 * true_words e (tester g) ?ep"
    using t by (simp add: true_words_def)
  have "VerifySeal_own e t2 t3 h g2 = Some (Inr (), g3)"
    unfolding VerifySeal_own_def Let_def hf(1,2,3) hh g3 ds2 using n len d f(2) hf(4) tr(5) same by (simp add: sz)
  then show ?thesis by blast
qed

section \<open>Difficulty\<close>

definition params_ok :: "ethashEnv \<Rightarrow> bool" where
  "params_ok e \<longleftrightarrow> 0 < MinimumDifficulty e \<and> 100 \<le> DifficultyBoundDivisor e \<and> 0 < GasLimitBoundDivisor e \<and>
     5 * GasLimitBoundDivisor e \<le> MinGasLimit e"

definition bomb :: "ethashEnv \<Rightarrow> header \<Rightarrow> bigint" where
  "bomb e parent = (let n = h_number parent - 2999999
     in if 200000 \<le> n \<and> h_number parent < DiffBombDefuseBlock e then 2 ^ nat (n div 100000 - 2) else 0)"

definition adjustment :: "ethashEnv \<Rightarrow> uint64 \<Rightarrow> header \<Rightarrow> int" where
  "adjustment e time parent = max ((if UncleHash parent = EmptyUncleHash e then 1 else 2) - (uint time - h_time parent) div 9) (-99)"

lemma CalcDifficulty_formula:
  "CalcDifficulty e time parent =
     max (MinimumDifficulty e) (h_difficulty parent + h_difficulty parent div DifficultyBoundDivisor e * adjustment e time parent) + bomb e parent"
proof -
  have b: "(if 1 < (if 2999999 \<le> h_number parent \<and> h_number parent < DiffBombDefuseBlock e then h_number parent - 2999999 else 0) div 100000
      then y + 2 ^ nat ((if 2999999 \<le> h_number parent \<and> h_number parent < DiffBombDefuseBlock e then h_number parent - 2999999 else 0) div 100000 - 2)
      else y) = y + bomb e parent" for y
  proof (cases "2999999 \<le> h_number parent \<and> h_number parent < DiffBombDefuseBlock e")
    case True
    have "1 < (h_number parent - 2999999) div 100000 \<longleftrightarrow> 200000 \<le> h_number parent - 2999999"
      using mult_div_mod_eq [of 100000 "h_number parent - 2999999"] pos_mod_bound [of 100000 "h_number parent - 2999999"]
        pos_mod_sign [of 100000 "h_number parent - 2999999"] by linarith
    then show ?thesis using True by (simp add: bomb_def Let_def)
  next
    case False
    then show ?thesis by (auto simp: bomb_def Let_def)
  qed
  have a: "(if (if UncleHash parent = EmptyUncleHash e then 1 - x else 2 - x) < -99 then -99
      else (if UncleHash parent = EmptyUncleHash e then 1 - x else 2 - x)) = max ((if UncleHash parent = EmptyUncleHash e then 1 else 2) - x) (-99)"
    for x :: int by auto
  show ?thesis unfolding CalcDifficulty_def calcDifficultyPangu_def Let_def b a adjustment_def [symmetric] by (simp add: max_def)
qed

lemma adjustment_bounds: "h_time parent < uint time \<Longrightarrow> -99 \<le> adjustment e time parent \<and> adjustment e time parent \<le> 2"
  using pos_imp_zdiv_nonneg_iff [of 9 "uint time - h_time parent"] by (auto simp: adjustment_def)

lemma adjustment_mono: "time \<le> time' \<Longrightarrow> adjustment e time' parent \<le> adjustment e time parent"
proof -
  assume "time \<le> time'"
  then have "(uint time - h_time parent) div 9 \<le> (uint time' - h_time parent) div 9"
    by (intro zdiv_mono1) (simp_all add: word_le_def)
  then show ?thesis by (simp add: adjustment_def)
qed

text \<open>
  C10: the difficulty of a block is its parent's, changed by at most two and down by at most ninety-nine
  parts of the bound divisor, never below the minimum and positive, plus the difficulty bomb, which is
  off from the defusing block on; a later block is never harder. The value is the closed formula of
  the rule.
\<close>
theorem CalcDifficulty_rule:
  assumes p: "params_ok e" and d: "0 \<le> h_difficulty parent" and t: "h_time parent < uint time"
  shows "CalcDifficulty e time parent =
      max (MinimumDifficulty e) (h_difficulty parent + h_difficulty parent div DifficultyBoundDivisor e * adjustment e time parent) + bomb e parent \<and>
    MinimumDifficulty e \<le> CalcDifficulty e time parent \<and>
    h_difficulty parent - 99 * (h_difficulty parent div DifficultyBoundDivisor e) \<le> CalcDifficulty e time parent \<and>
    CalcDifficulty e time parent - bomb e parent \<le>
      max (MinimumDifficulty e) (h_difficulty parent + 2 * (h_difficulty parent div DifficultyBoundDivisor e)) \<and>
    (\<forall>time'. time \<le> time' \<longrightarrow> CalcDifficulty e time' parent \<le> CalcDifficulty e time parent) \<and>
    (DiffBombDefuseBlock e \<le> h_number parent \<longrightarrow> bomb e parent = 0)"
proof -
  let ?q = "h_difficulty parent div DifficultyBoundDivisor e"
  have q: "0 \<le> ?q" using p d by (simp add: params_ok_def pos_imp_zdiv_nonneg_iff)
  have b: "0 \<le> bomb e parent" by (simp add: bomb_def Let_def)
  have a: "?q * (-99) \<le> ?q * adjustment e time parent" "?q * adjustment e time parent \<le> ?q * 2"
    using adjustment_bounds [OF t, of e] q by (intro mult_left_mono; simp)+
  have m: "CalcDifficulty e time' parent \<le> CalcDifficulty e time parent" if "time \<le> time'" for time'
  proof -
    have "?q * adjustment e time' parent \<le> ?q * adjustment e time parent"
      by (rule mult_left_mono [OF adjustment_mono [OF that] q])
    then show ?thesis unfolding CalcDifficulty_formula by simp
  qed
  have z: "DiffBombDefuseBlock e \<le> h_number parent \<longrightarrow> bomb e parent = 0" by (simp add: bomb_def Let_def)
  show ?thesis using m z a b unfolding CalcDifficulty_formula by auto
qed

theorem CalcDifficulty_rule_witness:
  "\<exists>e parent. params_ok e \<and> h_difficulty parent = 1000000 \<and> h_time parent = 10 \<and>
     CalcDifficulty e 1000 parent \<le> CalcDifficulty e 20 parent \<and> MinimumDifficulty e \<le> CalcDifficulty e 20 parent"
proof -
  fix e0 :: ethashEnv and h0 :: header
  define e where "e = e0\<lparr>MinimumDifficulty := 131072, DifficultyBoundDivisor := 2048, GasLimitBoundDivisor := 1024, MinGasLimit := 5120\<rparr>"
  define parent where "parent = h0\<lparr>h_difficulty := 1000000, h_time := 10\<rparr>"
  have p: "params_ok e" by (simp add: params_ok_def e_def)
  have d: "0 \<le> h_difficulty parent" "h_time parent < uint (20 :: uint64)" by (simp_all add: parent_def)
  have "(20 :: uint64) \<le> 1000" by simp
  with CalcDifficulty_rule [OF p d] have "CalcDifficulty e 1000 parent \<le> CalcDifficulty e 20 parent"
    "MinimumDifficulty e \<le> CalcDifficulty e 20 parent" by blast+
  moreover have "h_difficulty parent = 1000000" "h_time parent = 10" by (simp_all add: parent_def)
  ultimately show ?thesis using p by blast
qed

section \<open>Uncles and rewards\<close>

text \<open>What the chain is relied on for: a block comes with the hash and number it was asked for.\<close>

definition blocks_ok :: "ethashEnv \<Rightarrow> bool" where
  "blocks_ok e \<longleftrightarrow> (\<forall>h n hdr us. ec_GetBlock e h n = Some (hdr, us) \<longrightarrow>
     eh_hash e hdr = h \<and> h_number hdr = uint n \<and> uint n < 2 ^ 63)"

lemma gather_none: "ec_GetBlock e parent number = None \<Longrightarrow> gather e m parent number anc unc = (anc, unc)"
  by (cases m) simp_all

lemma gather_ancestors:
  assumes e: "blocks_ok e"
  shows "gather e m parent number anc unc = (anc', unc') \<Longrightarrow> map_of anc' k = Some p \<Longrightarrow>
    map_of anc k = Some p \<or> (\<exists>i < m. h_number p = uint number - int i \<and> (i = 0 \<longrightarrow> k = parent))"
proof (induction m arbitrary: parent number anc unc)
  case (Suc m)
  show ?case
  proof (cases "ec_GetBlock e parent number")
    case None
    then show ?thesis using Suc.prems by simp
  next
    case (Some b)
    then obtain h us where b: "ec_GetBlock e parent number = Some (h, us)" by (cases b) simp
    have h: "eh_hash e h = parent" "h_number h = uint number" using e b unfolding blocks_ok_def by blast+
    let ?anc = "AList.update (eh_hash e h) h anc"
    have g: "gather e m (ParentHash h) (number - 1) ?anc (unc @ map (eh_hash e) us) = (anc', unc')" using Suc.prems(1) b by simp
    have base: ?thesis if "map_of ?anc k = Some p"
    proof (cases "k = eh_hash e h")
      case True
      then have "p = h" using that by (simp add: update_conv')
      then show ?thesis using True h by (intro disjI2 exI [of _ 0]) simp
    next
      case False
      then show ?thesis using that by (simp add: update_conv')
    qed
    show ?thesis
    proof (cases "number = 0")
      case True
      have "ec_GetBlock e (ParentHash h) (number - 1) = None"
      proof (rule ccontr)
        assume "ec_GetBlock e (ParentHash h) (number - 1) \<noteq> None"
        then obtain h' us' where "ec_GetBlock e (ParentHash h) (number - 1) = Some (h', us')" by auto
        then have "uint (number - 1) < 2 ^ 63" using e unfolding blocks_ok_def by blast
        then show False using True by (simp add: unsigned_minus_1_eq_mask mask_eq_exp_minus_1)
      qed
      from gather_none [OF this] g have "anc' = ?anc" by simp
      then show ?thesis using base Suc.prems(2) by simp
    next
      case False
      then have "uint number \<noteq> 0" by (simp add: uint_0_iff)
      then have "1 \<le> uint number" using uint_ge_0 [of number] by linarith
      then have "1 \<le> number" by (simp add: word_le_def)
      then have u: "uint (number - 1) = uint number - 1" by (simp add: uint_minus_simple_alt)
      from Suc.IH [OF g Suc.prems(2)] show ?thesis
      proof
        assume "\<exists>i < m. h_number p = uint (number - 1) - int i \<and> (i = 0 \<longrightarrow> k = ParentHash h)"
        then obtain i where "i < m" "h_number p = uint number - int (Suc i)" using u by auto
        then show ?thesis by (intro disjI2 exI [of _ "Suc i"]) simp
      qed (rule base)
    qed
  qed
qed simp

lemma uncles_loop_ok:
  "uncles_loop e sh now now' bp anc unc us g = Some (Inr (), sh', g') \<Longrightarrow>
   distinct (map (eh_hash e) us) \<and> eh_hash e ` set us \<inter> set unc = {} \<and>
   (\<forall>u \<in> set us. map_of anc (eh_hash e u) = None \<and> ParentHash u \<noteq> bp \<and>
      (\<exists>p. map_of anc (ParentHash u) = Some p \<and> check_fields e now u p True = Inr ()))"
proof (induction us arbitrary: sh unc g)
  case (Cons u us)
  let ?h = "eh_hash e u"
  have new: "?h \<notin> set unc" "map_of anc ?h = None" using Cons.prems by (auto simp: Let_def split: if_splits)
  obtain p where p: "map_of anc (ParentHash u) = Some p" "ParentHash u \<noteq> bp"
    using Cons.prems new by (cases "map_of anc (ParentHash u)") (auto simp: Let_def split: if_splits)
  obtain r sh1 g1 where v: "eth_verifyHeader e sh now now' u p True True g = Some (r, sh1, g1)"
    using Cons.prems new p by (cases "eth_verifyHeader e sh now now' u p True True g") (auto simp: Let_def)
  have r: "r = Inr ()" using Cons.prems new p v by (cases r) (simp_all add: Let_def)
  have c: "check_fields e now u p True = Inr ()"
    using v r by (cases "check_fields e now u p True") (simp_all add: eth_verifyHeader_def)
  have "uncles_loop e sh1 now now' bp anc (unc @ [?h]) us g1 = Some (Inr (), sh', g')"
    using Cons.prems new p v r by (simp add: Let_def)
  note ih = Cons.IH [OF this]
  have "?h \<notin> eh_hash e ` set us" using ih by auto
  then show ?case using ih new p c by auto
qed simp

lemma check_fields_number: "check_fields e now u p uncle = Inr () \<Longrightarrow> h_number u = h_number p + 1"
  by (simp add: check_fields_def Let_def split: if_splits)

lemma EthVerifyUncles_ok:
  assumes e: "blocks_ok e" and v: "EthVerifyUncles e sh now now' block us g = Some (Inr (), sh', g')" and g: "\<not> fakeFull g"
    and n: "0 < h_number block" "h_number block < 2 ^ 63" and acyclic: "\<forall>u \<in> set us. ParentHash u \<noteq> eh_hash e block"
  shows "length us \<le> 2" "distinct (map (eh_hash e) us)" "eh_hash e block \<notin> eh_hash e ` set us"
    "\<forall>u \<in> set us. h_number block - 6 \<le> h_number u \<and> h_number u < h_number block"
proof -
  obtain anc unc where ga: "gather e 7 (ParentHash block) (low64 (h_number block) - 1) [] [] = (anc, unc)" by (rule prod.exhaust)
  have len: "length us \<le> maxUncles" using v g by (auto simp: EthVerifyUncles_def split: if_splits)
  then show "length us \<le> 2" by (simp add: maxUncles_def)
  have l: "uncles_loop e sh now now' (ParentHash block) (AList.update (eh_hash e block) block anc) (unc @ [eh_hash e block]) us g = Some (Inr (), sh', g')"
    using v g len ga by (simp add: EthVerifyUncles_def)
  note lo = uncles_loop_ok [OF l]
  show "distinct (map (eh_hash e) us)" "eh_hash e block \<notin> eh_hash e ` set us" using lo by auto
  have un: "uint (low64 (h_number block) - 1) = h_number block - 1"
  proof -
    have b: "uint (low64 (h_number block)) = h_number block" using n by (simp add: uint_low64)
    then have "1 \<le> low64 (h_number block)" using n by (simp add: word_le_def)
    then show ?thesis using b by (simp add: uint_minus_simple_alt)
  qed
  show "\<forall>u \<in> set us. h_number block - 6 \<le> h_number u \<and> h_number u < h_number block"
  proof
    fix u
    assume u: "u \<in> set us"
    obtain p where p: "map_of (AList.update (eh_hash e block) block anc) (ParentHash u) = Some p" "check_fields e now u p True = Inr ()"
      "ParentHash u \<noteq> ParentHash block" using lo u by blast
    have "ParentHash u \<noteq> eh_hash e block" using acyclic u by blast
    then have "map_of anc (ParentHash u) = Some p" using p(1) by (simp add: update_conv')
    from gather_ancestors [OF e ga this] obtain i where i: "i < 7" "h_number p = h_number block - 1 - int i" "i = 0 \<longrightarrow> ParentHash u = ParentHash block"
      unfolding un by auto
    have "0 < i" using i(3) p(3) by (cases i) simp_all
    then show "h_number block - 6 \<le> h_number u \<and> h_number u < h_number block"
      using i check_fields_number [OF p(2)] by simp
  qed
qed

lemma calcBlockReward_pos: "0 < calcBlockReward n"
  by (simp add: calcBlockReward_def)

lemma reward_fold: "foldl (\<lambda>r u. r + c) a us = a + int (length us) * c"
  by (induction us arbitrary: a) (simp_all add: algebra_simps)

lemma uncle_share:
  assumes "n - 6 \<le> u" "u < n" "0 < (R :: int)"
  shows "R div 4 \<le> (u + 8 - n) * R div 8 \<and> (u + 8 - n) * R div 8 \<le> 7 * R div 8"
proof -
  have "2 * R \<le> (u + 8 - n) * R" "(u + 8 - n) * R \<le> 7 * R" using assms by (intro mult_right_mono; simp)+
  then have "2 * R div 8 \<le> (u + 8 - n) * R div 8" "(u + 8 - n) * R div 8 \<le> 7 * R div 8" by (intro zdiv_mono1; simp)+
  then show ?thesis by simp
qed

lemma sum_shares: "\<forall>x \<in> set xs. f x \<le> c \<Longrightarrow> length xs \<le> 2 \<Longrightarrow> 0 \<le> c \<Longrightarrow> sum_list (map f xs) \<le> 2 * (c :: int)"
proof -
  assume f: "\<forall>x \<in> set xs. f x \<le> c" and l: "length xs \<le> 2" and c: "0 \<le> c"
  have "sum_list (map f xs) \<le> int (length xs) * c" using f by (induction xs) (auto simp: algebra_simps)
  also have "\<dots> \<le> 2 * c" using l c by (intro mult_right_mono) simp_all
  finally show ?thesis .
qed

text \<open>
  C21: in a block whose uncles are accepted, there are at most two uncles, all distinct and from the
  last six generations; each uncle's miner gets between a quarter and seven eighths of the block
  reward, the block's miner gets the reward and a thirty-second per uncle, so that a block never mints
  more than the reward plus two such shares.
\<close>
theorem uncle_rewards_bounded:
  assumes v: "blocks_ok e" "EthVerifyUncles e sh now now' block us g = Some (Inr (), sh', g')" "\<not> fakeFull g"
    "0 < h_number block" "h_number block < 2 ^ 63" "\<forall>u \<in> set us. ParentHash u \<noteq> eh_hash e block"
  shows "length us \<le> 2 \<and> distinct (map (eh_hash e) us) \<and>
    (\<forall>u \<in> set us. h_number block - 6 \<le> h_number u \<and> h_number u < h_number block) \<and>
    map fst (AccumulateRewards block us) = map h_coinbase us @ [h_coinbase block] \<and>
    (\<forall>c \<in> set (butlast (AccumulateRewards block us)).
       calcBlockReward (h_number block) div 4 \<le> snd c \<and> snd c \<le> 7 * calcBlockReward (h_number block) div 8) \<and>
    snd (last (AccumulateRewards block us)) =
      calcBlockReward (h_number block) + int (length us) * (calcBlockReward (h_number block) div 32) \<and>
    sum_list (map snd (AccumulateRewards block us)) \<le>
      calcBlockReward (h_number block) + 2 * (7 * calcBlockReward (h_number block) div 8 + calcBlockReward (h_number block) div 32)"
proof -
  note u = EthVerifyUncles_ok [OF v]
  let ?R = "calcBlockReward (h_number block)"
  let ?f = "\<lambda>u. (h_coinbase u, (h_number u + 8 - h_number block) * ?R div 8)"
  have acc: "AccumulateRewards block us = map ?f us @ [(h_coinbase block, ?R + int (length us) * (?R div 32))]"
    by (simp add: AccumulateRewards_def Let_def reward_fold)
  have R: "0 < ?R" by (rule calcBlockReward_pos)
  have sh: "\<forall>x \<in> set us. ?R div 4 \<le> snd (?f x) \<and> snd (?f x) \<le> 7 * ?R div 8"
    using u(4) uncle_share R by simp
  have "sum_list (map (\<lambda>x. snd (?f x)) us) \<le> 2 * (7 * ?R div 8)"
    by (rule sum_shares) (use sh u(1) R in \<open>simp_all add: pos_imp_zdiv_nonneg_iff\<close>)
  moreover have "int (length us) * (?R div 32) \<le> 2 * (?R div 32)"
    using u(1) R by (intro mult_right_mono) (simp_all add: pos_imp_zdiv_nonneg_iff)
  ultimately have "sum_list (map snd (AccumulateRewards block us)) \<le> ?R + 2 * (7 * ?R div 8 + ?R div 32)"
    unfolding acc by (simp add: comp_def)
  then show ?thesis using u(1,2,4) sh unfolding acc by (simp add: comp_def)
qed

text \<open>A chain of three blocks, hashed by their times.\<close>

definition pow_header :: "int \<Rightarrow> int \<Rightarrow> hash \<Rightarrow> header" where
  "pow_header n t parent = \<lparr>ParentHash = parent, UncleHash = 0, h_coinbase = 7, h_root = 0, h_difficulty = 1, h_number = n,
     h_gasLimit = 10000, h_gasUsed = 0, h_time = t, h_extra = [], MixDigest = 0, h_nonce = replicate 8 0\<rparr>"

definition pow_chain :: "hash \<Rightarrow> uint64 \<Rightarrow> (header \<times> header list) option" where
  "pow_chain h n =
     (if h = 0 \<and> n = 0 then Some (pow_header 0 0 99, [])
      else if h = 10 \<and> n = 1 then Some (pow_header 1 10 0, [])
      else if h = 20 \<and> n = 2 then Some (pow_header 2 20 10, []) else None)"

definition pow_env :: ethashEnv where
  "pow_env = \<lparr>ek512 = (\<lambda>x. replicate 64 0), ek256 = (\<lambda>x. replicate 32 0), isLittleEndian = True,
     cacheSizes = replicate 2048 1024, datasetSizes = replicate 2048 32768, ProbablyPrime = (\<lambda>x. True),
     thread_order = (\<lambda>n. segment 1 n 0), cache_file = (\<lambda>x. None), dataset_file = (\<lambda>x. None), map_file = Some,
     MaximumExtraDataSize = 32, GasLimitBoundDivisor = 1024, MinGasLimit = 5120, DifficultyBoundDivisor = 2048,
     MinimumDifficulty = 1, DiffBombDefuseBlock = 0, EmptyUncleHash = 0, eh_hash = (\<lambda>h. word_of_int (h_time h)),
     HashNoNonce = (\<lambda>h. []), ec_GetHeader = (\<lambda>h n. map_option fst (pow_chain h n)), ec_GetBlock = pow_chain\<rparr>"

lemma pow_env_ok: "pow_ok pow_env"
proof -
  have "dataset_order 1 n (thread_order pow_env n)" for n by (simp add: dataset_order_def pow_env_def)
  then have "hashes_ok pow_env" unfolding hashes_ok_def
    by (intro conjI allI exI [of _ 1]) (simp_all add: pow_env_def hashBytes_def)
  moreover have "files_ok pow_env" by (simp add: files_ok_def pow_env_def)
  moreover have "sizes_ok pow_env" by (simp add: sizes_ok_def pow_env_def maxEpoch_def)
  ultimately show ?thesis by (simp add: pow_ok_def)
qed

lemma pow_env_params: "params_ok pow_env"
  by (simp add: params_ok_def pow_env_def)

lemma pow_env_blocks: "blocks_ok pow_env"
  by (auto simp: blocks_ok_def pow_env_def pow_chain_def pow_header_def split: if_splits)

lemma pow_env_difficulty: "CalcDifficulty pow_env time (pow_header n t p) = 1"
  unfolding CalcDifficulty_formula by (simp add: pow_env_def pow_header_def bomb_def Let_def)

lemma pow_env_gather:
  "gather pow_env 7 20 2 [] [] = ([(20, pow_header 2 20 10), (10, pow_header 1 10 0), (0, pow_header 0 0 99)], [])"
proof -
  have c: "ec_GetBlock pow_env = pow_chain" "eh_hash pow_env (pow_header n t p) = word_of_int t" for n t p
    by (simp_all add: pow_env_def pow_header_def)
  have p: "ParentHash (pow_header n t p) = p" for n t p by (simp add: pow_header_def)
  have b: "pow_chain 20 2 = Some (pow_header 2 20 10, [])" "pow_chain 10 1 = Some (pow_header 1 10 0, [])"
    "pow_chain 0 0 = Some (pow_header 0 0 99, [])" "pow_chain 99 (-1) = None" by (simp_all add: pow_chain_def)
  have seven: "(7 :: nat) = Suc (Suc (Suc (Suc (Suc (Suc (Suc 0))))))" by simp
  show ?thesis unfolding seven by (simp add: c b p)
qed

theorem uncle_rewards_bounded_witness:
  "\<exists>sh' g'. EthVerifyUncles pow_env None 100 100 (pow_header 3 30 20) [pow_header 2 25 10] NewFaker = Some (Inr (), sh', g') \<and>
     map fst (AccumulateRewards (pow_header 3 30 20) [pow_header 2 25 10]) = [7, 7] \<and>
     snd (last (AccumulateRewards (pow_header 3 30 20) [pow_header 2 25 10])) = 2062500000000000000"
proof -
  let ?b = "pow_header 3 30 20" and ?u = "pow_header 2 25 10"
  have h: "eh_hash pow_env (pow_header n t p) = word_of_int t" "ParentHash (pow_header n t p) = p" "h_number (pow_header n t p) = n" for n t p
    by (simp_all add: pow_env_def pow_header_def)
  have f: "fakeFull NewFaker = False" "fakeMode NewFaker" "fakeFail NewFaker = 0" by (simp_all add: NewFaker_def blank_ethash_def)
  have c: "check_fields pow_env 100 ?u (pow_header 1 10 0) True = Inr ()"
    using pow_env_difficulty [of 25 1 10 0] by (simp add: check_fields_def pow_header_def low64_def pow_env_def Let_def)
  have v: "eth_verifyHeader pow_env None 100 100 ?u (pow_header 1 10 0) True True NewFaker = Some (Inr (), None, NewFaker)"
    by (simp add: eth_verifyHeader_def c VerifySeal_def f h low64_def)
  have "low64 (h_number ?b) - 1 = 2" by (simp add: h low64_def)
  then have e: "EthVerifyUncles pow_env None 100 100 ?b [?u] NewFaker = Some (Inr (), None, NewFaker)"
    by (simp add: EthVerifyUncles_def f maxUncles_def h pow_env_gather v Let_def)
  have "0 < h_number ?b" "h_number ?b < 2 ^ 63" "\<forall>u \<in> set [?u]. ParentHash u \<noteq> eh_hash pow_env ?b" by (simp_all add: h)
  from uncle_rewards_bounded [OF pow_env_blocks e _ this] f(1)
  have "map fst (AccumulateRewards ?b [?u]) = [h_coinbase ?u, h_coinbase ?b]"
    "snd (last (AccumulateRewards ?b [?u])) = calcBlockReward (h_number ?b) + int (length [?u]) * (calcBlockReward (h_number ?b) div 32)" by simp_all
  moreover have "h_coinbase ?u = 7" "h_coinbase ?b = 7" "calcBlockReward (h_number ?b) = 2000000000000000000"
    by (simp_all add: pow_header_def calcBlockReward_def HalvBlockInterval_def)
  ultimately show ?thesis using e by simp
qed

section \<open>Epochs in memory\<close>

definition epochs_ok :: "int \<Rightarrow> (uint64, epochEntry) gomap \<Rightarrow> bool" where
  "epochs_ok limit m \<longleftrightarrow> gomap_ok m \<and> (\<forall>p \<in> set m. ee_epoch (snd p) = fst p) \<and> int (length m) \<le> max 1 limit"

lemma oldest_min:
  "oldest m c \<in> insert c (snd ` set m) \<and> ee_used (oldest m c) \<le> ee_used c \<and> (\<forall>p \<in> set m. ee_used (oldest m c) \<le> ee_used (snd p))"
proof (induction m arbitrary: c)
  case (Cons p m)
  let ?c = "if ee_used (snd p) < ee_used c then snd p else c"
  have o: "oldest (p # m) c = oldest m ?c" by (simp add: oldest_def)
  from Cons [of ?c] show ?case unfolding o by (auto split: if_splits)
qed (simp add: oldest_def)

lemma evict_one:
  assumes m: "gomap_ok (p # ps)" "\<forall>q \<in> set (p # ps). ee_epoch (snd q) = fst q"
  shows "\<exists>q. q \<in> set (p # ps) \<and> set (AList.delete (ee_epoch (oldest ps (snd p))) (p # ps)) = set (p # ps) - {q} \<and>
    (\<forall>r \<in> set (p # ps). ee_used (snd q) \<le> ee_used (snd r)) \<and>
    length (AList.delete (ee_epoch (oldest ps (snd p))) (p # ps)) = length ps"
proof -
  have "oldest ps (snd p) \<in> snd ` set (p # ps)" using oldest_min [of ps "snd p"] by auto
  then obtain q where q: "q \<in> set (p # ps)" "snd q = oldest ps (snd p)" unfolding image_iff by metis
  have k: "ee_epoch (oldest ps (snd p)) = fst q" using m(2) q by auto
  have d: "distinct (map fst (p # ps))" using m(1) by (simp add: gomap_ok_def)
  then have dd: "distinct (p # ps)" unfolding distinct_map by blast
  have s: "set (AList.delete (fst q) (p # ps)) = set (p # ps) - {q}"
  proof -
    have "r = q" if "r \<in> set (p # ps)" "fst r = fst q" for r using d that q(1) unfolding distinct_map inj_on_def by blast
    then show ?thesis unfolding delete_as_filter by auto
  qed
  have "distinct (AList.delete (fst q) (p # ps))"
    unfolding delete_as_filter by (rule distinct_filter [OF dd])
  then have "length (AList.delete (fst q) (p # ps)) = card (set (p # ps) - {q})" using distinct_card [of "AList.delete (fst q) (p # ps)"] s by simp
  also have "\<dots> = length ps"
  proof -
    have "card (set (p # ps)) = length (p # ps)" using dd by (rule distinct_card)
    then show ?thesis using q(1) by (simp add: card_Diff_singleton)
  qed
  finally have l: "length (AList.delete (fst q) (p # ps)) = length ps" .
  have mn: "\<forall>r \<in> set (p # ps). ee_used (snd q) \<le> ee_used (snd r)" using oldest_min [of ps "snd p"] q(2) by auto
  show ?thesis unfolding k by (rule exI [of _ q], intro conjI) (rule q(1), rule s, rule mn, rule l)
qed

lemma evict_loop_ok:
  "gomap_ok m \<Longrightarrow> \<forall>p \<in> set m. ee_epoch (snd p) = fst p \<Longrightarrow> length m \<le> fuel \<Longrightarrow>
   gomap_ok (evict_loop limit fuel m) \<and> set (evict_loop limit fuel m) \<subseteq> set m \<and>
   (evict_loop limit fuel m = [] \<or> int (length (evict_loop limit fuel m)) < limit) \<and>
   (\<forall>p \<in> set m - set (evict_loop limit fuel m). \<forall>q \<in> set (evict_loop limit fuel m). ee_used (snd p) \<le> ee_used (snd q))"
proof (induction fuel arbitrary: m)
  case (Suc fuel)
  show ?case
  proof (cases m)
    case (Cons p ps)
    show ?thesis
    proof (cases "limit \<le> int (length m)")
      case True
      let ?d = "AList.delete (ee_epoch (oldest ps (snd p))) (p # ps)"
      from evict_one [OF Suc.prems(1,2) [unfolded Cons]] obtain q where q: "q \<in> set m" "set ?d = set m - {q}"
        "\<forall>r \<in> set m. ee_used (snd q) \<le> ee_used (snd r)" "length ?d = length ps" unfolding Cons by blast
      have r: "evict_loop limit (Suc fuel) m = evict_loop limit fuel ?d" using True Cons by simp
      have "gomap_ok ?d" by (rule gomap_ok_delete [OF Suc.prems(1) [unfolded Cons]])
      moreover have "\<forall>p \<in> set ?d. ee_epoch (snd p) = fst p" using Suc.prems(2) q(2) by blast
      moreover have "length ?d \<le> fuel" using Suc.prems(3) Cons q(4) by simp
      ultimately have ih: "gomap_ok (evict_loop limit fuel ?d) \<and> set (evict_loop limit fuel ?d) \<subseteq> set ?d \<and>
        (evict_loop limit fuel ?d = [] \<or> int (length (evict_loop limit fuel ?d)) < limit) \<and>
        (\<forall>p \<in> set ?d - set (evict_loop limit fuel ?d). \<forall>q \<in> set (evict_loop limit fuel ?d). ee_used (snd p) \<le> ee_used (snd q))"
        by (rule Suc.IH)
      then show ?thesis unfolding r using q by blast
    qed (simp add: Cons Suc.prems(1) [unfolded Cons])
  qed simp
qed simp

lemma acquire_ok:
  assumes ok: "epochs_ok limit m" and a: "acquire limit now epoch m fut = (m', fut', future)"
  shows "epochs_ok limit m'" "\<exists>c. map_of m' epoch = Some c" "\<forall>q \<in> set m'. fst q \<noteq> epoch \<longrightarrow> q \<in> set m"
    "\<forall>p \<in> set m. \<forall>q \<in> set m. p \<notin> set m' \<longrightarrow> q \<in> set m' \<longrightarrow> fst q \<noteq> epoch \<longrightarrow> ee_used (snd p) \<le> ee_used (snd q)"
proof -
  have "epochs_ok limit m' \<and> (\<exists>c. map_of m' epoch = Some c) \<and> (\<forall>q \<in> set m'. fst q \<noteq> epoch \<longrightarrow> q \<in> set m) \<and>
    (\<forall>p \<in> set m. \<forall>q \<in> set m. p \<notin> set m' \<longrightarrow> q \<in> set m' \<longrightarrow> fst q \<noteq> epoch \<longrightarrow> ee_used (snd p) \<le> ee_used (snd q))"
  proof (cases "map_of m epoch")
    case (Some c)
    then have "m' = m" using a by (simp add: acquire_def)
    then show ?thesis using ok Some by simp
  next
    case None
    let ?m1 = "evict_loop limit (length m) m"
    let ?c = "\<lparr>ee_epoch = epoch, ee_used = now\<rparr>"
    have m': "m' = AList.update epoch ?c ?m1"
      using a by (auto simp: acquire_def None Let_def split: option.splits if_splits)
    have ev: "gomap_ok ?m1" "set ?m1 \<subseteq> set m" "?m1 = [] \<or> int (length ?m1) < limit"
      "\<forall>p \<in> set m - set ?m1. \<forall>q \<in> set ?m1. ee_used (snd p) \<le> ee_used (snd q)"
      using evict_loop_ok [of m "length m" limit] ok by (simp_all add: epochs_ok_def)
    have nk: "epoch \<notin> set (keys ?m1)" using None ev(2) by (force simp: map_of_eq_None_iff)
    then have u: "m' = ?m1 @ [(epoch, ?c)]" unfolding m' by (intro update_fresh) simp
    have "epochs_ok limit m'" using ok ev nk unfolding u by (auto simp: epochs_ok_def gomap_ok_def)
    moreover have "\<forall>q \<in> set m'. fst q \<noteq> epoch \<longrightarrow> q \<in> set m" using ev(2) unfolding u by auto
    moreover have "map_of m' epoch = Some ?c" unfolding m' by (simp add: update_conv')
    moreover have "\<forall>p \<in> set m. \<forall>q \<in> set m. p \<notin> set m' \<longrightarrow> q \<in> set m' \<longrightarrow> fst q \<noteq> epoch \<longrightarrow> ee_used (snd p) \<le> ee_used (snd q)"
      using ev(4) unfolding u by auto
    ultimately show ?thesis by blast
  qed
  then show "epochs_ok limit m'" "\<exists>c. map_of m' epoch = Some c" "\<forall>q \<in> set m'. fst q \<noteq> epoch \<longrightarrow> q \<in> set m"
    "\<forall>p \<in> set m. \<forall>q \<in> set m. p \<notin> set m' \<longrightarrow> q \<in> set m' \<longrightarrow> fst q \<noteq> epoch \<longrightarrow> ee_used (snd p) \<le> ee_used (snd q)" by blast+
qed

lemma touch_ok:
  assumes ok: "epochs_ok limit m" and c: "map_of m epoch = Some c"
  shows "epochs_ok limit (touch now epoch m)" "\<exists>c'. map_of (touch now epoch m) epoch = Some c' \<and> ee_epoch c' = epoch \<and> ee_used c' = now"
    "keys (touch now epoch m) = keys m" "\<forall>q \<in> set m. fst q \<noteq> epoch \<longrightarrow> (q \<in> set (touch now epoch m))"
proof -
  let ?c = "c\<lparr>ee_used := now\<rparr>"
  have k: "epoch \<in> set (keys m)" "ee_epoch c = epoch" using ok map_of_SomeD [OF c] by (force simp: epochs_ok_def)+
  have t: "touch now epoch m = AList.update epoch ?c m" by (simp add: touch_def c)
  show kk: "keys (touch now epoch m) = keys m" unfolding t using k(1) by (induction m) auto
  have s: "set (AList.update epoch ?c m) \<subseteq> insert (epoch, ?c) (set m)" by (rule set_update_subset)
  have "length (touch now epoch m) = length m" using arg_cong [OF kk, of length] by simp
  then show "epochs_ok limit (touch now epoch m)" using ok s k(2) unfolding epochs_ok_def gomap_ok_def kk unfolding t by force
  show "\<exists>c'. map_of (touch now epoch m) epoch = Some c' \<and> ee_epoch c' = epoch \<and> ee_used c' = now"
    unfolding t by (simp add: update_conv' k(2))
  show "\<forall>q \<in> set m. fst q \<noteq> epoch \<longrightarrow> (q \<in> set (touch now epoch m))" unfolding t by (induction m) auto
qed

text \<open>
  C22: asking for the cache of a block gives the cache of the block's epoch, marks it as used now, keeps
  at most the configured number of caches (at least one) each under its own epoch, and drops a cache
  only if every older one that was not asked for is dropped too.
\<close>
theorem ethash_cache_lru:
  assumes ok: "epochs_ok (cachesinmem g) (caches g)" and c: "ethash_cache e now now' block g = Some (c, g')"
  shows "cache_generate e (cachedir g) (tester g) (block div ethash_epochLength) = Some c \<and>
    epochs_ok (cachesinmem g') (caches g') \<and> cachesinmem g' = cachesinmem g \<and>
    (\<exists>n. map_of (caches g') (block div ethash_epochLength) = Some n \<and> ee_epoch n = block div ethash_epochLength \<and> ee_used n = now') \<and>
    (\<forall>p \<in> set (caches g). \<forall>q \<in> set (caches g). fst p \<notin> set (keys (caches g')) \<longrightarrow> fst q \<in> set (keys (caches g')) \<longrightarrow>
       fst q \<noteq> block div ethash_epochLength \<longrightarrow> ee_used (snd p) \<le> ee_used (snd q))"
proof -
  let ?ep = "block div ethash_epochLength"
  obtain m fut future where a: "acquire (cachesinmem g) now ?ep (caches g) (fcache g) = (m, fut, future)" by (rule prod_cases3)
  have gen: "cache_generate e (cachedir g) (tester g) ?ep = Some c" and g': "g' = g\<lparr>caches := touch now' ?ep m, fcache := fut\<rparr>"
    using c a by (auto simp: ethash_cache_def Let_def split: bind_splits)
  note ac = acquire_ok [OF ok a]
  obtain n where n: "map_of m ?ep = Some n" using ac(2) by blast
  note tc = touch_ok [OF ac(1) n, of now']
  have lru: "ee_used (snd p) \<le> ee_used (snd q)"
    if pq: "p \<in> set (caches g)" "q \<in> set (caches g)" "fst p \<notin> set (keys m)" "fst q \<in> set (keys m)" "fst q \<noteq> ?ep" for p q
  proof -
    have "p \<notin> set m" using pq(3) by auto
    moreover have "q \<in> set m"
    proof -
      obtain q' where q': "q' \<in> set m" "fst q' = fst q" using pq(4) by auto
      have "q' \<in> set (caches g)" using ac(3) q' pq(5) by simp
      moreover have "inj_on fst (set (caches g))" using ok unfolding epochs_ok_def gomap_ok_def distinct_map by blast
      ultimately have "q' = q" using q'(2) pq(2) by (auto dest: inj_onD)
      then show ?thesis using q'(1) by simp
    qed
    ultimately show ?thesis using ac(4) pq by blast
  qed
  show ?thesis using gen tc lru unfolding g' by auto
qed

theorem ethash_cache_lru_witness:
  "\<exists>c g'. ethash_cache pow_env 10 11 30000 (NewTester\<lparr>caches := [(0, \<lparr>ee_epoch = 0, ee_used = 5\<rparr>)]\<rparr>) = Some (c, g') \<and>
     epochs_ok 1 (caches g') \<and> (\<exists>n. map_of (caches g') 1 = Some n \<and> ee_used n = 11)"
proof -
  let ?g = "NewTester\<lparr>caches := [(0, \<lparr>ee_epoch = 0, ee_used = 5\<rparr>)]\<rparr>"
  have f: "cachesinmem ?g = 1" "tester ?g" "caches ?g = [(0, \<lparr>ee_epoch = 0, ee_used = 5\<rparr>)]"
    by (simp_all add: NewTester_def blank_ethash_def)
  have ep: "(30000 :: uint64) div ethash_epochLength = 1" by (simp add: ethash_epochLength_def)
  have ok: "epochs_ok (cachesinmem ?g) (caches ?g)" unfolding f by (simp add: epochs_ok_def gomap_ok_def)
  obtain c where "cache_generate pow_env (cachedir ?g) (tester ?g) 1 = Some c"
    unfolding cache_generate_def Let_def using f(2) by (simp del: ethash.simps) (metis generateCache_some)
  then have "\<exists>g'. ethash_cache pow_env 10 11 30000 ?g = Some (c, g')"
    unfolding ethash_cache_def Let_def ep by (simp split: prod.split)
  then obtain g' where g': "ethash_cache pow_env 10 11 30000 ?g = Some (c, g')" ..
  from ethash_cache_lru [OF ok g'] show ?thesis using g' unfolding ep f(1) by metis
qed

end
