(* ===== verification/Worker.thy ===== *)
theory Worker
  imports StateProcessor EthashProps
begin

text \<open>
  \<open>miner/worker.go\<close> and \<open>miner/unconfirmed.go\<close>: the block a miner works on. The record \<open>work\<close> is
  \<open>Work\<close> with the running state of the transaction processor; the gas used so far is the \<open>GasUsed\<close> of
  its header. Transactions come from the library's sets ordered by price and nonce, given by their
  \<open>Peek\<close>, \<open>Shift\<close> and \<open>Pop\<close>. Reverting to a snapshot of the state gives back the state. Events, logs
  and locks are left out.
\<close>

section \<open>The header of new work\<close>

definition work_time :: "int \<Rightarrow> header \<Rightarrow> bigint" where
  "work_time now par = (if now \<le> h_time par then sint (low64 (h_time par) + 1) else now)"

definition work_header ::
  "ethashEnv \<Rightarrow> bigint \<Rightarrow> byte list \<Rightarrow> address option \<Rightarrow> int \<Rightarrow> header \<Rightarrow> header"
where
  "work_header e target extra coinbase now par =
     \<lparr>ParentHash = eh_hash e par, UncleHash = 0, h_coinbase = (case coinbase of Some a \<Rightarrow> a | None \<Rightarrow> 0), h_root = 0,
      h_difficulty = 0, h_number = h_number par + 1,
      h_gasLimit = CalcGasLimit (GasLimitBoundDivisor e) (MinGasLimit e) target par, h_gasUsed = 0,
      h_time = work_time now par, h_extra = extra, MixDigest = 0, h_nonce = replicate 8 0\<rparr>"

section \<open>Work\<close>

record 's work =
  w_ancestors :: "hash list"
  w_family :: "hash list"
  w_uncles :: "hash list"
  w_tcount :: nat
  w_header :: header
  w_txs :: "tx list"
  w_receipts :: "receipt list"
  w_ps :: "'s procState"

datatype uncle_error = UncleNotUnique | UncleParentUnknown | UncleInFamily

definition makeCurrent :: "ethashEnv \<Rightarrow> (header \<times> header list) list \<Rightarrow> 's procState \<Rightarrow> header \<Rightarrow> 's work" where
  "makeCurrent e blocks ps header =
     \<lparr>w_ancestors = map (\<lambda>b. eh_hash e (fst b)) blocks,
      w_family = concat (map (\<lambda>b. map (eh_hash e) (snd b) @ [eh_hash e (fst b)]) blocks),
      w_uncles = [], w_tcount = 0, w_header = header, w_txs = [], w_receipts = [], w_ps = ps\<rparr>"

definition commitUncle :: "ethashEnv \<Rightarrow> header \<Rightarrow> 's work \<Rightarrow> (uncle_error + unit) \<times> 's work" where
  "commitUncle e uncle w =
     (let h = eh_hash e uncle
      in if h \<in> set (w_uncles w) then (Inl UncleNotUnique, w)
         else if ParentHash uncle \<notin> set (w_ancestors w) then (Inl UncleParentUnknown, w)
         else if h \<in> set (w_family w) then (Inl UncleInFamily, w)
         else (Inr (), w\<lparr>w_uncles := w_uncles w @ [h]\<rparr>))"

fun choose_uncles ::
  "ethashEnv \<Rightarrow> (hash, header) gomap \<Rightarrow> header list \<Rightarrow> hash list \<Rightarrow> 's work \<Rightarrow> header list \<times> hash list \<times> 's work"
where
  "choose_uncles e [] us bad w = (us, bad, w)"
| "choose_uncles e ((h, u) # rest) us bad w =
     (if length us = 2 then (us, bad, w)
      else case commitUncle e u w of
        (Inl _, w') \<Rightarrow> choose_uncles e rest us (bad @ [h]) w'
      | (Inr _, w') \<Rightarrow> choose_uncles e rest (us @ [u]) bad w')"

definition drop_bad :: "hash list \<Rightarrow> (hash, header) gomap \<Rightarrow> (hash, header) gomap" where
  "drop_bad bad m = foldl (\<lambda>m h. AList.delete h m) m bad"

section \<open>Transactions\<close>

record 'q txSource =
  ts_Peek :: "'q \<Rightarrow> tx option"
  ts_Shift :: "'q \<Rightarrow> 'q"
  ts_Pop :: "'q \<Rightarrow> 'q"

definition commitTransaction ::
  "'s processor \<Rightarrow> address \<Rightarrow> tx \<Rightarrow> 's work \<Rightarrow> (st_error + receipt) \<times> 's work"
where
  "commitTransaction p coinbase t w =
     (case ApplyTransaction True p (Some coinbase) (w_header w) t (w_ps w) of
        (Inl err, ps) \<Rightarrow> (Inl err, w\<lparr>w_ps := ps\<lparr>ps_state := ps_state (w_ps w)\<rparr>\<rparr>)
      | (Inr (receipt, _), ps) \<Rightarrow>
          (Inr receipt,
           w\<lparr>w_ps := ps, w_header := (w_header w)\<lparr>h_gasUsed := ps_used ps\<rparr>,
             w_txs := w_txs w @ [t], w_receipts := w_receipts w @ [receipt]\<rparr>))"

text \<open>One source of transactions; \<open>None\<close> when the fuel does not suffice.\<close>

fun commit_source ::
  "'s processor \<Rightarrow> 'q txSource \<Rightarrow> address \<Rightarrow> nat \<Rightarrow> 'q \<Rightarrow> 's work \<Rightarrow> 's work option"
where
  "commit_source p ts coinbase 0 q w = None"
| "commit_source p ts coinbase (Suc fuel) q w =
     (case ts_Peek ts q of
        None \<Rightarrow> Some w
      | Some t \<Rightarrow>
          let w0 = w\<lparr>w_ps := (w_ps w)\<lparr>ps_state := Prepare p (Hash t) 0 (w_tcount w) (ps_state (w_ps w))\<rparr>\<rparr>
          in case commitTransaction p coinbase t w0 of
               (Inl err, w1) \<Rightarrow>
                 commit_source p ts coinbase fuel
                   (if err = ErrPoolGas ErrGasLimitReached \<or> err = NonceTooHigh then ts_Pop ts q else ts_Shift ts q) w1
             | (Inr receipt, w1) \<Rightarrow> commit_source p ts coinbase fuel (ts_Shift ts q) (w1\<lparr>w_tcount := Suc (w_tcount w1)\<rparr>))"

fun commit_sources ::
  "'s processor \<Rightarrow> 'q txSource \<Rightarrow> address \<Rightarrow> nat \<Rightarrow> 'q list \<Rightarrow> 's work \<Rightarrow> 's work option"
where
  "commit_sources p ts coinbase fuel [] w = Some w"
| "commit_sources p ts coinbase fuel (q # qs) w = do {
     w1 \<leftarrow> commit_source p ts coinbase fuel q w;
     commit_sources p ts coinbase fuel qs w1
   }"

definition commitTransactions ::
  "'s processor \<Rightarrow> 'q txSource \<Rightarrow> address \<Rightarrow> nat \<Rightarrow> 'q list \<Rightarrow> 's work \<Rightarrow> 's work option"
where
  "commitTransactions p ts coinbase fuel qs w =
     (let (systx, s) = CreateSysTx p (ps_state (w_ps w));
          w0 = w\<lparr>w_ps := (w_ps w)\<lparr>ps_gp := AddGas 0 (h_gasLimit (w_header w)), ps_state := s\<rparr>\<rparr>
      in case commitTransaction p coinbase systx w0 of
           (Inl _, w1) \<Rightarrow> commit_sources p ts coinbase fuel qs w1
         | (Inr _, w1) \<Rightarrow> commit_sources p ts coinbase fuel qs (w1\<lparr>w_tcount := Suc (w_tcount w1)\<rparr>))"

section \<open>Blocks awaiting confirmation\<close>

text \<open>The ring of \<open>unconfirmed.go\<close> as the list from its first block on.\<close>

type_synonym unconfirmed = "(uint64 \<times> hash) list"

fun Shift :: "uint64 \<Rightarrow> uint64 \<Rightarrow> unconfirmed \<Rightarrow> unconfirmed" where
  "Shift depth height [] = []"
| "Shift depth height ((num, h) # bs) =
     (if height < num + depth then (num, h) # bs else Shift depth height bs)"

definition Insert :: "uint64 \<Rightarrow> uint64 \<Rightarrow> hash \<Rightarrow> unconfirmed \<Rightarrow> unconfirmed" where
  "Insert depth num h bs = Shift depth num bs @ [(num, h)]"

section \<open>A mined block verifies\<close>

lemma work_time_ok:
  assumes "0 \<le> h_time par" "h_time par < 2 ^ 63 - 1"
  shows "h_time par < work_time now par"
proof -
  have u: "uint (low64 (h_time par)) = h_time par" using assms by (simp add: uint_low64)
  then have "uint (low64 (h_time par) + 1) = h_time par + 1" using assms by (simp add: uint_word_ariths)
  then have "sint (low64 (h_time par) + 1) = h_time par + 1"
    using assms by (simp add: sint_uint signed_take_bit_int_eq_self)
  then show ?thesis by (simp add: work_time_def)
qed

lemma work_header_fields:
  assumes p: "params_ok e" and gl: "MinGasLimit e \<le> h_gasLimit par" "0 \<le> h_gasUsed par" "h_gasUsed par \<le> h_gasLimit par"
    "h_gasLimit par < 2 ^ 62" and tm: "0 \<le> h_time par" "h_time par < 2 ^ 63 - 1"
    and h: "h_number h = h_number par + 1" "h_gasLimit h = CalcGasLimit (GasLimitBoundDivisor e) (MinGasLimit e) target par"
      "h_time h = work_time now par" "h_difficulty h = CalcDifficulty e (low64 (h_time h)) par"
    and x: "length (h_extra h) \<le> unat (MaximumExtraDataSize e)" and used: "h_gasUsed h \<le> h_gasLimit h" and later: "h_time h \<le> now'"
  shows "check_fields e now' h par False = Inr ()"
proof -
  let ?d = "GasLimitBoundDivisor e"
  have d: "0 < ?d" "5 * ?d \<le> h_gasLimit par" using p gl by (simp_all add: params_ok_def)
  have "5 \<le> h_gasLimit par div ?d" using zdiv_mono1 [OF d(2) d(1)] d(1) by simp
  note g = CalcGasLimit_step [OF d(1) this gl(2,3,1), of target]
  have "h_gasLimit par div ?d \<le> h_gasLimit par" using d by (intro int_div_le_self) simp_all
  then have "h_gasLimit h < 2 * 2 ^ 62" using g(1) gl(4) unfolding h(2) by linarith
  then have "h_gasLimit h \<le> 2 ^ 63 - 1" by simp
  then show ?thesis using g work_time_ok [OF tm, of now] h x used later by (simp add: check_fields_def Let_def not_less)
qed


lemma pow_env_mine:
  assumes "unat (low64 (h_number header) div ethash_epochLength) < maxEpoch" "h_difficulty header = 1"
  shows "\<exists>h g. mine pow_env t0 t1 1 seed header NewTester = Some (Some h, g)"
proof -
  let ?ep = "low64 (h_number header) div ethash_epochLength"
  obtain c ds digest result where ds: "true_dataset pow_env True ?ep = Some ds"
    "hashimotoFull (ek512 pow_env) (ek256 pow_env) ds (HashNoNonce pow_env header) seed = Some (digest, result)"
    using true_hashes [OF pow_env_ok assms(1)] by metis
  have "result = replicate 32 0"
    using ds(2) by (auto simp: hashimotoFull_def hashimoto_def pow_env_def Let_def split: if_splits bind_splits)
  then have "be_int result \<le> maxUint256 div h_difficulty header" by (simp add: zero_words assms(2) maxUint256_def)
  then have loop: "\<exists>h. mine_loop pow_env ds (maxUint256 div h_difficulty header) header 1 seed = Some h"
    using ds(2) by simp
  have "tester NewTester" by (simp add: NewTester_def)
  then have "dataset_generate pow_env (tester NewTester) ?ep = Some ds" using dataset_generate_true [OF pow_env_ok assms(1)] ds(1) by simp
  then have "\<exists>g. ethash_dataset pow_env t0 t1 (low64 (h_number header)) NewTester = Some (ds, g)"
    by (simp add: ethash_dataset_def Let_def split: prod.split)
  then show ?thesis using loop assms(2) by (auto simp: mine_def)
qed


section \<open>Gas of the mined block\<close>

lemma TransitionDb_err:
  assumes db: "db_ok e supply" and vm: "vm_ok e supply" and g0: "gasRemaining st = 0" and pos: "0 \<le> m_gasLimit msg"
    and t: "TransitionDb e msg st = (Inl err, st')"
  shows "gp st' \<le> gp st" "0 \<le> gp st \<Longrightarrow> 0 \<le> gp st'"
proof -
  obtain r st1 where p: "preCheck e msg st = (r, st1)" by (rule prod.exhaust)
  have "gp st' = gp st \<or> 0 \<le> gp st' \<and> gp st' \<le> gp st"
  proof (cases r)
    case (Inl x)
    then show ?thesis using t p preCheck_ok(2) [OF db p g0 pos] by (simp add: TransitionDb_def)
  next
    case (Inr u)
    then have x: "execute e True msg st1 = (Inl err, st')" using t p by (simp add: TransitionDb_def)
    have g1: "gp st1 = gp st - m_gasLimit msg" "0 \<le> gp st1" using preCheck_ok(1) [OF db p g0 pos] Inr by simp_all
    obtain a st2 where f: "st_from e msg st1 = (a, st2)" by (rule prod.exhaust)
    obtain q st3 where i: "pay_intrinsic e msg st2 = (q, st3)" by (rule prod.exhaust)
    have s3: "gp st3 = gp st1"
      using st_from_ok(3) [OF db f] i by (auto simp: pay_intrinsic_def useGas_def Let_def split: if_splits)
    have "gp st' = gp st3"
    proof (cases q)
      case (Inl y)
      then show ?thesis using x f i by (simp add: execute_def)
    next
      case (Inr v)
      obtain ret vmerr st4 where c: "(if m_to msg = None then create_contract e msg a st3 else call_contract e True msg a st3) = ((ret, vmerr), st4)"
        by (metis surj_pair)
      have "gp st4 = gp st3"
        using c create_contract_ok(1) [OF vm] call_contract_ok(1) [OF db vm] by (metis (full_types))
      moreover have "st' = st4" using x f i Inr c by (auto simp: execute_def Let_def split: if_splits prod.splits)
      ultimately show ?thesis by simp
    qed
    then show ?thesis using s3 g1 pos by simp
  qed
  then show "gp st' \<le> gp st" "0 \<le> gp st \<Longrightarrow> 0 \<le> gp st'" by auto
qed

lemma ApplyTransaction_err:
  assumes m: "machine_ok p supply" and ok: "msg_ok p" and a: "ApplyTransaction cached p author header t ps = (Inl err, ps')"
  shows "ps_used ps' = ps_used ps" "ps_gp ps' \<le> ps_gp ps" "0 \<le> ps_gp ps \<Longrightarrow> 0 \<le> ps_gp ps'"
proof -
  have "ps_used ps' = ps_used ps \<and> ps_gp ps' \<le> ps_gp ps \<and> (0 \<le> ps_gp ps \<longrightarrow> 0 \<le> ps_gp ps')"
  proof (cases "AsMessage p t header")
    case (Inl x)
    then show ?thesis using a by (auto simp: ApplyTransaction_def apply_with_def)
  next
    case (Inr msg0)
    define msg where "msg = shard_message p msg0 (ps_state ps)"
    define e where "e = NewEVM p (NewEVMContext p msg header author)"
    obtain r st where r: "TransitionDb e msg (NewStateTransition (ps_state ps) msg (ps_gp ps) (ps_white ps)) = (r, st)" by (rule prod.exhaust)
    obtain x where ri: "r = Inl x" and ps': "ps_gp ps' = gp st" "ps_used ps' = ps_used ps"
      using a r by (auto simp: ApplyTransaction_def apply_with_def ApplyMessage_def Inr msg_def [symmetric] e_def [symmetric] Let_def
        split: sum.splits prod.splits if_splits)
    have pos: "0 \<le> m_gasLimit msg" using ok Inr by (auto simp: msg_ok_def msg_def shard_message_def)
    have v: "db_ok e supply" "vm_ok e supply" using m by (simp_all add: machine_ok_def e_def)
    have "gasRemaining (NewStateTransition (ps_state ps) msg (ps_gp ps) (ps_white ps)) = 0"
      "gp (NewStateTransition (ps_state ps) msg (ps_gp ps) (ps_white ps)) = ps_gp ps" by (simp_all add: NewStateTransition_def)
    then show ?thesis using TransitionDb_err [OF v _ pos r [unfolded ri]] ps' by simp
  qed
  then show "ps_used ps' = ps_used ps" "ps_gp ps' \<le> ps_gp ps" "0 \<le> ps_gp ps \<Longrightarrow> 0 \<le> ps_gp ps'" by blast+
qed

definition work_ok :: "bigint \<Rightarrow> 's work \<Rightarrow> bool" where
  "work_ok limit w \<longleftrightarrow> h_gasLimit (w_header w) = limit \<and> 0 \<le> ps_gp (w_ps w) \<and> ps_used (w_ps w) + ps_gp (w_ps w) \<le> limit \<and>
     h_gasUsed (w_header w) = ps_used (w_ps w) \<and> ps_used (w_ps w) = sum_list (map r_gasUsed (w_receipts w)) \<and>
     map r_txHash (w_receipts w) = map Hash (w_txs w)"

lemma commitTransaction_ok:
  assumes m: "machine_ok p supply" and ok: "msg_ok p" and w: "work_ok limit w" and c: "commitTransaction p coinbase t w = (r, w')"
  shows "work_ok limit w'"
proof (cases "ApplyTransaction True p (Some coinbase) (w_header w) t (w_ps w)")
  case (Pair q ps)
  show ?thesis
  proof (cases q)
    case (Inl err)
    note g = ApplyTransaction_err [OF m ok Pair [unfolded Inl]]
    show ?thesis using c Pair Inl w g by (auto simp: commitTransaction_def work_ok_def)
  next
    case (Inr x)
    obtain receipt gas where x: "x = (receipt, gas)" by (rule prod.exhaust)
    note g = ApplyTransaction_gas [OF m ok Pair [unfolded Inr x]]
    have w': "w' = w\<lparr>w_ps := ps, w_header := (w_header w)\<lparr>h_gasUsed := ps_used ps\<rparr>,
        w_txs := w_txs w @ [t], w_receipts := w_receipts w @ [receipt]\<rparr>" using c Pair Inr x by (simp add: commitTransaction_def)
    show ?thesis using w g unfolding w' work_ok_def by simp
  qed
qed

definition source_ok :: "'q txSource \<Rightarrow> ('q \<Rightarrow> nat) \<Rightarrow> bool" where
  "source_ok ts left \<longleftrightarrow> (\<forall>q t. ts_Peek ts q = Some t \<longrightarrow> left (ts_Shift ts q) < left q \<and> left (ts_Pop ts q) < left q)"

lemma commit_source_ok:
  assumes m: "machine_ok p supply" and ok: "msg_ok p" and ts: "source_ok ts left"
  shows "work_ok limit w \<Longrightarrow> left q < fuel \<Longrightarrow> \<exists>w'. commit_source p ts coinbase fuel q w = Some w' \<and> work_ok limit w'"
proof (induction fuel arbitrary: q w)
  case (Suc fuel)
  show ?case
  proof (cases "ts_Peek ts q")
    case None
    then show ?thesis using Suc.prems by simp
  next
    case (Some t)
    let ?w0 = "w\<lparr>w_ps := (w_ps w)\<lparr>ps_state := Prepare p (Hash t) 0 (w_tcount w) (ps_state (w_ps w))\<rparr>\<rparr>"
    have w0: "work_ok limit ?w0" using Suc.prems(1) by (simp add: work_ok_def)
    obtain r w1 where c: "commitTransaction p coinbase t ?w0 = (r, w1)" by (rule prod.exhaust)
    have w1: "work_ok limit w1" by (rule commitTransaction_ok [OF m ok w0 c])
    have l: "left (ts_Shift ts q) < fuel" "left (ts_Pop ts q) < fuel" using ts Some Suc.prems(2) by (auto simp: source_ok_def)
    show ?thesis
    proof (cases r)
      case (Inl err)
      then show ?thesis using Some c Suc.IH [OF w1] l by (simp add: Let_def)
    next
      case (Inr receipt)
      have "work_ok limit (w1\<lparr>w_tcount := Suc (w_tcount w1)\<rparr>)" using w1 by (simp add: work_ok_def)
      then show ?thesis using Some c Inr Suc.IH l by (simp add: Let_def)
    qed
  qed
qed simp

lemma commit_sources_ok:
  assumes m: "machine_ok p supply" and ok: "msg_ok p" and ts: "source_ok ts left"
  shows "work_ok limit w \<Longrightarrow> \<forall>q \<in> set qs. left q < fuel \<Longrightarrow> \<exists>w'. commit_sources p ts coinbase fuel qs w = Some w' \<and> work_ok limit w'"
proof (induction qs arbitrary: w)
  case (Cons q qs)
  from commit_source_ok [OF m ok ts Cons.prems(1)] Cons.prems(2) obtain w1 where
    "commit_source p ts coinbase fuel q w = Some w1" "work_ok limit w1" by (meson list.set_intros(1))
  then show ?case using Cons.IH Cons.prems(2) by simp
qed simp

text \<open>
  C11: filling a block from any sources of transactions comes to an end, whatever transactions fail, and
  the block then has a receipt for every transaction it includes, in order, its gas used is the sum of
  theirs and does not exceed its gas limit.
\<close>
theorem commitTransactions_within_limit:
  assumes m: "machine_ok p supply" and ok: "msg_ok p" and ts: "source_ok ts left" and q: "\<forall>q \<in> set qs. left q < fuel"
    and w: "w_txs w = []" "w_receipts w = []" "ps_used (w_ps w) = 0" "h_gasUsed (w_header w) = 0" "0 \<le> h_gasLimit (w_header w)"
  shows "\<exists>w'. commitTransactions p ts coinbase fuel qs w = Some w' \<and> h_gasLimit (w_header w') = h_gasLimit (w_header w) \<and>
    h_gasUsed (w_header w') \<le> h_gasLimit (w_header w') \<and> h_gasUsed (w_header w') = sum_list (map r_gasUsed (w_receipts w')) \<and>
    map r_txHash (w_receipts w') = map Hash (w_txs w')"
proof -
  obtain systx s where y: "CreateSysTx p (ps_state (w_ps w)) = (systx, s)" by (rule prod.exhaust)
  let ?w0 = "w\<lparr>w_ps := (w_ps w)\<lparr>ps_gp := AddGas 0 (h_gasLimit (w_header w)), ps_state := s\<rparr>\<rparr>"
  let ?L = "h_gasLimit (w_header w)"
  have w0: "work_ok ?L ?w0" using w by (simp add: work_ok_def AddGas_def)
  obtain r w1 where c: "commitTransaction p coinbase systx ?w0 = (r, w1)" by (rule prod.exhaust)
  have w1: "work_ok ?L w1" by (rule commitTransaction_ok [OF m ok w0 c])
  have w2: "work_ok ?L (w1\<lparr>w_tcount := Suc (w_tcount w1)\<rparr>)" using w1 by (simp add: work_ok_def)
  have "\<exists>w'. commitTransactions p ts coinbase fuel qs w = Some w' \<and> work_ok ?L w'"
    using commit_sources_ok [OF m ok ts w1 q] commit_sources_ok [OF m ok ts w2 q] y c
    by (cases r) (simp_all add: commitTransactions_def Let_def)
  then show ?thesis by (force simp: work_ok_def)
qed

definition list_source :: "tx list txSource" where
  "list_source = \<lparr>ts_Peek = (\<lambda>q. case q of [] \<Rightarrow> None | t # _ \<Rightarrow> Some t), ts_Shift = tl, ts_Pop = tl\<rparr>"

definition sample_work :: "(int \<times> int) work" where
  "sample_work = makeCurrent pow_env [] \<lparr>ps_gp = 0, ps_state = (50000, 0), ps_used = 0, ps_cache = None, ps_white = 0\<rparr> (pow_header 1 1 0)"

theorem commitTransactions_within_limit_witness:
  "\<exists>w'. commitTransactions sample_processor list_source 9 5 [[sample_tx 2 0 2], []] sample_work = Some w' \<and>
     h_gasUsed (w_header w') \<le> 10000 \<and> map r_txHash (w_receipts w') = map Hash (w_txs w')"
proof -
  have m: "machine_ok sample_processor (\<lambda>s. fst s + snd s)" "msg_ok sample_processor"
    using sample_evm_ok by (simp_all add: machine_ok_def msg_ok_def sample_processor_def, simp add: sample_msg_def)
  have ts: "source_ok list_source length" by (auto simp: source_ok_def list_source_def split: list.splits)
  have q: "\<forall>q \<in> set [[sample_tx 2 0 2], []]. length q < 5" by simp
  have w: "w_txs sample_work = []" "w_receipts sample_work = []" "ps_used (w_ps sample_work) = 0" "h_gasUsed (w_header sample_work) = 0"
    "h_gasLimit (w_header sample_work) = 10000" by (simp_all add: sample_work_def makeCurrent_def pow_header_def)
  then have "0 \<le> h_gasLimit (w_header sample_work)" by simp
  from commitTransactions_within_limit [OF m ts q w(1-4) this, of 9] show ?thesis unfolding w(5) by auto
qed

section \<open>Uncles of the mined block\<close>

lemma choose_uncles_ok:
  "choose_uncles e m us bad w = (us', bad', w') \<Longrightarrow> length us \<le> 2 \<Longrightarrow> map (eh_hash e) us = w_uncles w \<Longrightarrow> distinct (w_uncles w) \<Longrightarrow>
   \<forall>u \<in> set us. ParentHash u \<in> set (w_ancestors w) \<and> eh_hash e u \<notin> set (w_family w) \<Longrightarrow>
   length us' \<le> 2 \<and> distinct (map (eh_hash e) us') \<and>
   (\<forall>u \<in> set us'. ParentHash u \<in> set (w_ancestors w) \<and> eh_hash e u \<notin> set (w_family w))"
proof (induction m arbitrary: us bad w)
  case (Cons p m)
  obtain h u where p: "p = (h, u)" by (rule prod.exhaust)
  show ?case
  proof (cases "length us = 2")
    case True
    then show ?thesis using Cons.prems p by auto
  next
    case False
    show ?thesis
    proof (cases "fst (commitUncle e u w)")
      case (Inl err)
      then have "commitUncle e u w = (Inl err, w)" by (auto simp: commitUncle_def Let_def split: if_splits)
      then have "choose_uncles e m us (bad @ [h]) w = (us', bad', w')" using Cons.prems(1) p False by simp
      from Cons.IH [OF this Cons.prems(2-5)] show ?thesis .
    next
      case (Inr x)
      let ?w = "w\<lparr>w_uncles := w_uncles w @ [eh_hash e u]\<rparr>"
      have c: "commitUncle e u w = (Inr (), ?w)" "eh_hash e u \<notin> set (w_uncles w)" "ParentHash u \<in> set (w_ancestors w)" "eh_hash e u \<notin> set (w_family w)"
        using Inr by (auto simp: commitUncle_def Let_def split: if_splits)
      then have r: "choose_uncles e m (us @ [u]) bad ?w = (us', bad', w')" using Cons.prems(1) p False by simp
      have "length (us @ [u]) \<le> 2" using Cons.prems(2) False by simp
      moreover have "map (eh_hash e) (us @ [u]) = w_uncles ?w" "distinct (w_uncles ?w)" using Cons.prems(3,4) c(2) by simp_all
      moreover have "\<forall>v \<in> set (us @ [u]). ParentHash v \<in> set (w_ancestors ?w) \<and> eh_hash e v \<notin> set (w_family ?w)"
        using Cons.prems(5) c(3,4) by simp
      ultimately show ?thesis using Cons.IH [OF r] by simp
    qed
  qed
qed auto

text \<open>
  C27: the miner accepts as an uncle a block with the same parent as the block being mined, which every
  node refuses: the check that the uncle's parent is not the block's parent is missing from
  \<open>commitUncle\<close>.
\<close>
theorem sibling_uncle_refused:
  "\<exists>w us bad w' sh g. w = makeCurrent pow_env [(pow_header 2 20 10, []), (pow_header 1 10 0, []), (pow_header 0 0 99, [])] (w_ps sample_work) (pow_header 3 30 20) \<and>
     choose_uncles pow_env [(31, pow_header 3 31 20)] [] [] w = (us, bad, w') \<and> us = [pow_header 3 31 20] \<and> bad = [] \<and>
     EthVerifyUncles pow_env None 100 100 (pow_header 3 30 20) us NewFaker = Some (Inl EthDanglingUncle, sh, g)"
proof -
  let ?w = "makeCurrent pow_env [(pow_header 2 20 10, []), (pow_header 1 10 0, []), (pow_header 0 0 99, [])] (w_ps sample_work) (pow_header 3 30 20)"
  let ?u = "pow_header 3 31 20"
  have h: "eh_hash pow_env (pow_header n t p) = word_of_int t" "ParentHash (pow_header n t p) = p" "h_number (pow_header n t p) = n" for n t p
    by (simp_all add: pow_env_def pow_header_def)
  have c: "commitUncle pow_env ?u ?w = (Inr (), ?w\<lparr>w_uncles := [31]\<rparr>)"
    by (simp add: commitUncle_def makeCurrent_def h)
  have f: "fakeFull NewFaker = False" by (simp add: NewFaker_def blank_ethash_def)
  have "low64 (h_number (pow_header 3 30 20)) - 1 = 2" by (simp add: h low64_def)
  then have v: "EthVerifyUncles pow_env None 100 100 (pow_header 3 30 20) [?u] NewFaker = Some (Inl EthDanglingUncle, None, NewFaker)"
    by (simp add: EthVerifyUncles_def f maxUncles_def h pow_env_gather Let_def)
  have "choose_uncles pow_env [(31, ?u)] [] [] ?w = ([?u], [], ?w\<lparr>w_uncles := [31]\<rparr>)" by (simp add: c)
  with v show ?thesis by blast
qed

end
