(* ===== verification/HeaderBatch.thy ===== *)
theory HeaderBatch
  imports EthashProps
begin

text \<open>
  \<open>VerifyHeaders\<close> of \<open>consensus/ethash/consensus.go\<close>: a dispatcher and a number of workers verify a batch
  of headers and deliver the results in the order of the headers. The goroutines are a step relation:
  the dispatcher hands an index to an idle worker over the unbuffered channel \<open>inputs\<close>, a worker stores
  its error and then sends the index over the buffered channel \<open>done\<close>, the dispatcher receives an index
  and passes on every result that is next in order; abort stops the dispatcher. The channel of results
  has room for all of them.
\<close>

section \<open>Model\<close>

datatype worker = Idle | Busy nat | Sending nat

record 'r batch =
  b_in :: nat
  b_out :: nat
  b_checked :: "bool list"
  b_errors :: "'r list"
  b_workers :: "worker list"
  b_done :: "nat list"
  b_results :: "'r list"
  b_returned :: bool

function flush :: "bool list \<Rightarrow> 'r list \<Rightarrow> nat \<Rightarrow> 'r list \<Rightarrow> nat \<times> 'r list \<times> bool" where
  "flush checked errs out acc =
     (if out < length checked \<and> checked ! out
      then if Suc out = length checked then (out, acc @ [errs ! out], True)
           else flush checked errs (Suc out) (acc @ [errs ! out])
      else (out, acc, False))"
  by pat_completeness auto
termination by (relation "measure (\<lambda>(checked, errs, out, acc). length checked - out)") auto

declare flush.simps [simp del]

definition batch_collect :: "nat \<Rightarrow> 'r batch \<Rightarrow> 'r batch" where
  "batch_collect i s =
     (let checked = (b_checked s)[i := True];
          (out, results, returned) = flush checked (b_errors s) (b_out s) (b_results s)
      in s\<lparr>b_done := tl (b_done s), b_checked := checked, b_out := out, b_results := results, b_returned := returned\<rparr>)"

inductive batch_step :: "nat \<Rightarrow> (nat \<Rightarrow> 'r) \<Rightarrow> 'r batch \<Rightarrow> 'r batch \<Rightarrow> bool" for n check where
  give: "\<not> b_returned s \<Longrightarrow> b_in s < n \<Longrightarrow> w < length (b_workers s) \<Longrightarrow> b_workers s ! w = Idle \<Longrightarrow>
    batch_step n check s (s\<lparr>b_in := Suc (b_in s), b_workers := (b_workers s)[w := Busy (b_in s)]\<rparr>)"
| verify: "w < length (b_workers s) \<Longrightarrow> b_workers s ! w = Busy i \<Longrightarrow>
    batch_step n check s (s\<lparr>b_errors := (b_errors s)[i := check i], b_workers := (b_workers s)[w := Sending i]\<rparr>)"
| report: "w < length (b_workers s) \<Longrightarrow> b_workers s ! w = Sending i \<Longrightarrow> length (b_done s) < length (b_workers s) \<Longrightarrow>
    batch_step n check s (s\<lparr>b_done := b_done s @ [i], b_workers := (b_workers s)[w := Idle]\<rparr>)"
| receive: "\<not> b_returned s \<Longrightarrow> b_done s = i # rest \<Longrightarrow> batch_step n check s (batch_collect i s)"

definition batch_abort :: "'r batch \<Rightarrow> 'r batch" where
  "batch_abort s = s\<lparr>b_returned := True\<rparr>"

definition batch_init :: "nat \<Rightarrow> nat \<Rightarrow> 'r \<Rightarrow> 'r batch" where
  "batch_init n workers nil =
     \<lparr>b_in = 0, b_out = 0, b_checked = replicate n False, b_errors = replicate n nil,
      b_workers = replicate (min n workers) Idle, b_done = [], b_results = [], b_returned = False\<rparr>"

inductive batch_run :: "nat \<Rightarrow> (nat \<Rightarrow> 'r) \<Rightarrow> 'r batch \<Rightarrow> nat \<Rightarrow> 'r batch \<Rightarrow> bool" for n check s0 where
  start: "batch_run n check s0 0 s0"
| more: "batch_run n check s0 k s \<Longrightarrow> batch_step n check s s' \<Longrightarrow> batch_run n check s0 (Suc k) s'"

inductive_cases batch_stepE: "batch_step n check s s'"

section \<open>Invariant\<close>

fun flying :: "worker \<Rightarrow> nat list" where
  "flying Idle = []"
| "flying (Busy i) = [i]"
| "flying (Sending i) = [i]"

fun load :: "worker \<Rightarrow> nat" where
  "load Idle = 0"
| "load (Busy i) = 3"
| "load (Sending i) = 2"

definition batch_left :: "nat \<Rightarrow> 'r batch \<Rightarrow> nat" where
  "batch_left n s = 4 * (n - b_in s) + sum_list (map load (b_workers s)) + length (b_done s)"

definition marked :: "'r batch \<Rightarrow> nat list" where
  "marked s = filter (\<lambda>i. b_checked s ! i) [0..<length (b_checked s)]"

definition batch_ok :: "nat \<Rightarrow> (nat \<Rightarrow> 'r) \<Rightarrow> 'r batch \<Rightarrow> bool" where
  "batch_ok n check s \<longleftrightarrow> length (b_checked s) = n \<and> length (b_errors s) = n \<and> b_workers s \<noteq> [] \<and> b_in s \<le> n \<and>
     mset (concat (map flying (b_workers s)) @ b_done s @ marked s) = mset [0..<b_in s] \<and>
     (\<forall>i. Sending i \<in> set (b_workers s) \<or> i \<in> set (b_done s) \<or> i \<in> set (marked s) \<longrightarrow> b_errors s ! i = check i) \<and>
     (if b_returned s then b_results s = map check [0..<n]
      else b_results s = map check [0..<b_out s] \<and> b_out s < n \<and> \<not> b_checked s ! b_out s)"

lemma marked_set: "i \<in> set (marked s) \<longleftrightarrow> i < length (b_checked s) \<and> b_checked s ! i"
  by (auto simp: marked_def)

lemma sum_list_update: "w < length xs \<Longrightarrow> sum_list (map f (xs[w := x])) + f (xs ! w) = sum_list (map f xs) + (f x :: nat)"
  by (induction xs arbitrary: w) (auto split: nat.splits simp: less_Suc_eq_0_disj)

lemma mset_concat_update:
  "w < length xs \<Longrightarrow> mset (concat (map f (xs[w := x]))) + mset (f (xs ! w)) = mset (concat (map f xs)) + mset (f x)"
  by (induction xs arbitrary: w) (auto split: nat.splits simp: less_Suc_eq_0_disj ac_simps)

lemma flush_ok:
  "\<forall>i < length checked. checked ! i \<longrightarrow> errs ! i = check i \<Longrightarrow> out < length checked \<Longrightarrow> acc = map check [0..<out] \<Longrightarrow>
   flush checked errs out acc = (out', acc', r) \<Longrightarrow>
   (if r then acc' = map check [0..<length checked] else acc' = map check [0..<out'] \<and> out' < length checked \<and> \<not> checked ! out')"
proof (induction checked errs out acc arbitrary: out' acc' r rule: flush.induct)
  case (1 checked errs out acc)
  note errs = 1(2) and out = 1(3) and acc = 1(4) and fl = 1(5)
  show ?case
  proof (cases "checked ! out")
    case True
    then have e: "acc @ [errs ! out] = map check [0..<Suc out]" using acc out errs by simp
    show ?thesis
    proof (cases "Suc out = length checked")
      case last: True
      then have "r" "acc' = acc @ [errs ! out]" using fl True out by (auto simp: flush.simps [of checked errs out acc])
      then show ?thesis using e last by simp
    next
      case False
      then have f: "flush checked errs (Suc out) (acc @ [errs ! out]) = (out', acc', r)"
        using fl out True by (simp add: flush.simps [of checked errs out acc])
      have "Suc out < length checked" using False out by simp
      from 1(1) [OF conjI [OF out True] False errs this e f] show ?thesis .
    qed
  next
    case False
    then have "out' = out" "acc' = acc" "\<not> r" using fl by (auto simp: flush.simps [of checked errs out acc])
    then show ?thesis using False acc out by simp
  qed
qed

lemma marked_update:
  assumes "i < length (b_checked s)" "\<not> b_checked s ! i"
  shows "mset (filter (\<lambda>j. (b_checked s)[i := True] ! j) [0..<length (b_checked s)]) = add_mset i (mset (marked s))"
proof -
  let ?c = "b_checked s" and ?u = "[0..<length (b_checked s)]"
  have "set (filter (\<lambda>j. ?c[i := True] ! j) ?u) = insert i (set (marked s))" using assms by (auto simp: marked_def nth_list_update)
  moreover have "i \<notin> set (marked s)" using assms(2) by (simp add: marked_set)
  ultimately have "set (filter (\<lambda>j. ?c[i := True] ! j) ?u) = set (i # marked s)" "distinct (i # marked s)" by (simp_all add: marked_def)
  then have "mset (filter (\<lambda>j. ?c[i := True] ! j) ?u) = mset (i # marked s)"
    by (intro set_eq_iff_mset_eq_distinct [THEN iffD1]) simp_all
  then show ?thesis by simp
qed

lemma batch_step_left:
  assumes "batch_step n check s s'" "b_in s \<le> n"
  shows "batch_left n s' < batch_left n s"
  using assms
proof (cases rule: batch_step.cases)
  case (give w)
  then show ?thesis using sum_list_update [of w "b_workers s" load "Busy (b_in s)"] by (simp add: batch_left_def)
next
  case (verify w i)
  then show ?thesis using sum_list_update [of w "b_workers s" load "Sending i"] by (simp add: batch_left_def)
next
  case (report w i)
  then show ?thesis using sum_list_update [of w "b_workers s" load Idle] by (simp add: batch_left_def)
next
  case (receive i rest)
  then show ?thesis by (simp add: batch_left_def batch_collect_def Let_def split: prod.split)
qed

lemma batch_step_ok:
  assumes st: "batch_step n check s s'" and ok: "batch_ok n check s"
  shows "batch_ok n check s'"
  using st
proof (cases rule: batch_step.cases)
  case (give w)
  have "mset (concat (map flying ((b_workers s)[w := Busy (b_in s)]))) = mset (concat (map flying (b_workers s))) + {#b_in s#}"
    using mset_concat_update [of w "b_workers s" flying "Busy (b_in s)"] give by simp
  moreover have "Sending i \<in> set ((b_workers s)[w := Busy (b_in s)]) \<Longrightarrow> Sending i \<in> set (b_workers s)" for i
    using set_update_subset_insert [of "b_workers s" w "Busy (b_in s)"] by auto
  ultimately show ?thesis using ok give unfolding batch_ok_def marked_def by auto
next
  case (verify w i)
  have m: "mset (concat (map flying ((b_workers s)[w := Sending i]))) = mset (concat (map flying (b_workers s)))"
    using mset_concat_update [of w "b_workers s" flying "Sending i"] verify by simp
  have fl: "i \<in> set (concat (map flying (b_workers s)))" using verify nth_mem [of w "b_workers s"] by force
  have all: "mset (concat (map flying (b_workers s)) @ b_done s @ marked s) = mset [0..<b_in s]" using ok by (simp add: batch_ok_def)
  have "i \<in> set [0..<b_in s]" using fl mset_eq_setD [OF all] by auto
  then have "i < n" using ok by (simp add: batch_ok_def)
  moreover have "Sending j \<in> set ((b_workers s)[w := Sending i]) \<Longrightarrow> j = i \<or> Sending j \<in> set (b_workers s)" for j
    using set_update_subset_insert [of "b_workers s" w "Sending i"] by auto
  ultimately show ?thesis using ok verify m unfolding batch_ok_def marked_def by (auto simp: nth_list_update)
next
  case (report w i)
  have m: "mset (concat (map flying ((b_workers s)[w := Idle]))) + {#i#} = mset (concat (map flying (b_workers s)))"
    using mset_concat_update [of w "b_workers s" flying Idle] report by simp
  have "mset (concat (map flying ((b_workers s)[w := Idle])) @ (b_done s @ [i]) @ marked s) =
      mset (concat (map flying (b_workers s)) @ b_done s @ marked s)" unfolding mset_append m [symmetric] by simp
  also have "\<dots> = mset [0..<b_in s]" using ok by (simp add: batch_ok_def)
  finally have "mset (concat (map flying ((b_workers s)[w := Idle])) @ (b_done s @ [i]) @ marked s) = mset [0..<b_in s]" .
  moreover have "Sending i \<in> set (b_workers s)" using report nth_mem [of w "b_workers s"] by auto
  moreover have "Sending j \<in> set ((b_workers s)[w := Idle]) \<Longrightarrow> Sending j \<in> set (b_workers s)" for j
    using set_update_subset_insert [of "b_workers s" w Idle] by auto
  ultimately show ?thesis using ok report(1) unfolding batch_ok_def marked_def by (auto simp del: mset_append mset_upt mset_filter)
next
  case (receive i rest)
  let ?c = "(b_checked s)[i := True]"
  have all: "mset (concat (map flying (b_workers s)) @ b_done s @ marked s) = mset [0..<b_in s]" using ok by (simp add: batch_ok_def)
  have "i \<in> set [0..<b_in s]" using receive mset_eq_setD [OF all] by auto
  then have i: "i < length (b_checked s)" using ok by (simp add: batch_ok_def)
  have "distinct (concat (map flying (b_workers s)) @ b_done s @ marked s)" using mset_eq_imp_distinct_iff [OF all] by simp
  then have "i \<notin> set (marked s)" using receive by auto
  then have fresh: "\<not> b_checked s ! i" using i by (simp add: marked_set)
  obtain out' acc' r where f: "flush ?c (b_errors s) (b_out s) (b_results s) = (out', acc', r)" by (rule prod_cases3)
  have errs: "\<forall>j < length ?c. ?c ! j \<longrightarrow> b_errors s ! j = check j"
    using ok receive i by (auto simp: batch_ok_def marked_set nth_list_update split: if_splits)
  have "b_out s < length ?c" "b_results s = map check [0..<b_out s]" using ok receive by (simp_all add: batch_ok_def)
  note fo = flush_ok [OF errs this f]
  have s': "s' = s\<lparr>b_done := rest, b_checked := ?c, b_out := out', b_results := acc', b_returned := r\<rparr>"
    using receive f by (simp add: batch_collect_def)
  have mk: "mset (marked s') = add_mset i (mset (marked s))" using marked_update [OF i fresh] unfolding s' marked_def by simp
  then have mks: "set (marked s') = insert i (set (marked s))" by (metis set_mset_add_mset_insert set_mset_mset)
  have "length (b_checked s) = n" using ok by (simp add: batch_ok_def)
  then have "(if r then acc' = map check [0..<n] else acc' = map check [0..<out'] \<and> out' < n \<and> \<not> ?c ! out')" using fo by (cases r) simp_all
  moreover have "mset (concat (map flying (b_workers s)) @ rest @ marked s') = mset [0..<b_in s]" using all mk receive by simp
  moreover have "\<forall>j. Sending j \<in> set (b_workers s) \<or> j \<in> set rest \<or> j \<in> set (marked s') \<longrightarrow> b_errors s ! j = check j"
    unfolding mks using ok receive by (auto simp: batch_ok_def)
  ultimately show ?thesis using ok unfolding batch_ok_def by (simp add: s')
qed

lemma batch_init_ok: "0 < n \<Longrightarrow> 0 < workers \<Longrightarrow> batch_ok n check (batch_init n workers nil)"
  by (auto simp: batch_ok_def batch_init_def marked_def map_replicate_const)

lemma batch_run_ok:
  assumes "batch_run n check s0 k s" "batch_ok n check s0"
  shows "batch_ok n check s \<and> k + batch_left n s \<le> batch_left n s0"
  using assms
proof (induction rule: batch_run.induct)
  case (more k s s')
  then have ih: "batch_ok n check s" "k + batch_left n s \<le> batch_left n s0" by simp_all
  have "batch_left n s' < batch_left n s" by (rule batch_step_left [OF more.hyps(2)]) (use ih(1) in \<open>simp add: batch_ok_def\<close>)
  then show ?case using ih batch_step_ok [OF more.hyps(2) ih(1)] by simp
qed simp

text \<open>While the dispatcher has not returned, some goroutine can go on.\<close>

lemma batch_progress:
  assumes ok: "batch_ok n check s" and run: "\<not> b_returned s"
  shows "\<exists>s'. batch_step n check s s'"
proof (rule ccontr)
  assume stuck: "\<nexists>s'. batch_step n check s s'"
  have w: "0 < length (b_workers s)" using ok by (simp add: batch_ok_def)
  have "b_done s = []"
  proof (rule ccontr)
    assume "b_done s \<noteq> []"
    then obtain i rest where "b_done s = i # rest" by (cases "b_done s") simp_all
    then show False using batch_step.receive [OF run] stuck by blast
  qed
  have idle: "b_workers s ! k = Idle" if k: "k < length (b_workers s)" for k
  proof (cases "b_workers s ! k")
    case (Busy i)
    then show ?thesis using batch_step.verify [OF k Busy] stuck by blast
  next
    case (Sending i)
    then show ?thesis using batch_step.report [OF k Sending] \<open>b_done s = []\<close> w stuck by auto
  qed
  have "\<not> b_in s < n" using batch_step.give [OF run _ w idle [OF w]] stuck by blast
  then have full: "b_in s = n" using ok by (simp add: batch_ok_def)
  have "flying x = []" if "x \<in> set (b_workers s)" for x using that idle by (metis flying.simps(1) in_set_conv_nth)
  then have none: "concat (map flying (b_workers s)) = []" by simp
  have "mset (concat (map flying (b_workers s)) @ b_done s @ marked s) = mset [0..<b_in s]" using ok by (simp add: batch_ok_def)
  then have "mset (marked s) = mset [0..<n]" unfolding none full \<open>b_done s = []\<close> by simp
  from mset_eq_setD [OF this] have "set (marked s) = {0..<n}" by simp
  then have "b_out s \<in> set (marked s)" using ok run by (simp add: batch_ok_def)
  then show False using ok run by (simp add: batch_ok_def marked_set)
qed

section \<open>Properties\<close>

text \<open>The result of a worker, on an engine in the state at the start of the batch.\<close>

definition worker_check ::
  "ethashEnv \<Rightarrow> ethash option \<Rightarrow> int \<Rightarrow> int \<Rightarrow> header list \<Rightarrow> bool list \<Rightarrow> ethash \<Rightarrow> nat \<Rightarrow> (ethash_error + unit) option"
where
  "worker_check e sh now now' headers seals g i = map_option fst (verifyHeaderWorker e sh now now' headers seals i g)"

definition EthVerifyHeaders ::
  "ethashEnv \<Rightarrow> ethash option \<Rightarrow> int \<Rightarrow> int \<Rightarrow> header list \<Rightarrow> bool list \<Rightarrow> ethash \<Rightarrow> nat \<Rightarrow>
   nat \<Rightarrow> (ethash_error + unit) option batch \<Rightarrow> bool"
where
  "EthVerifyHeaders e sh now now' headers seals g workers k s \<longleftrightarrow>
     (if fakeFull g \<or> headers = []
      then k = 0 \<and> b_results s = replicate (length headers) (Some (Inr ())) \<and> b_returned s
      else batch_run (length headers) (worker_check e sh now now' headers seals g)
             (batch_init (length headers) workers (Some (Inr ()))) k s)"

text \<open>
  C9: under every interleaving of the dispatcher and the workers, the results delivered are those of
  verifying the headers one after the other, in their order, no header's result is ever delivered
  before it is computed, also when the batch is aborted; no run takes more than four steps per header,
  and a run that cannot go on has delivered every result: there is no deadlock.
\<close>
theorem VerifyHeaders_ordered:
  assumes w: "0 < workers" and run: "EthVerifyHeaders e sh now now' headers seals g workers k s" and g: "\<not> fakeFull g" "headers \<noteq> []"
  shows "k \<le> 4 * length headers \<and> length (b_results s) \<le> length headers \<and>
    b_results s = map (worker_check e sh now now' headers seals g) [0..<length (b_results s)] \<and>
    b_results (batch_abort s) = b_results s \<and>
    ((\<nexists>s'. batch_step (length headers) (worker_check e sh now now' headers seals g) s s') \<longrightarrow>
       b_results s = map (worker_check e sh now now' headers seals g) [0..<length headers])"
proof -
  let ?n = "length headers" and ?c = "worker_check e sh now now' headers seals g"
  let ?s0 = "batch_init ?n workers (Some (Inr ())) :: (ethash_error + unit) option batch"
  have r: "batch_run ?n ?c ?s0 k s" using run g by (simp add: EthVerifyHeaders_def)
  have "batch_ok ?n ?c ?s0" using w g by (intro batch_init_ok) simp_all
  from batch_run_ok [OF r this] have ok: "batch_ok ?n ?c s" and k: "k + batch_left ?n s \<le> batch_left ?n ?s0" by simp_all
  have "batch_left ?n ?s0 = 4 * ?n" by (simp add: batch_left_def batch_init_def sum_list_replicate)
  then have "k \<le> 4 * ?n" using k by simp
  moreover have "b_results s = map ?c [0..<length (b_results s)]" "length (b_results s) \<le> ?n"
    using ok by (auto simp: batch_ok_def split: if_splits)
  moreover have "b_results s = map ?c [0..<?n]" if "\<nexists>s'. batch_step ?n ?c s s'"
  proof -
    have "b_returned s" using batch_progress [OF ok] that by blast
    then show ?thesis using ok by (simp add: batch_ok_def)
  qed
  ultimately show ?thesis by (simp add: batch_abort_def)
qed

theorem VerifyHeaders_ordered_witness:
  "\<exists>s. EthVerifyHeaders pow_env None 100 100 [pow_header 1 10 0, pow_header 3 30 20] [True, True] NewFaker 2 1 s \<and>
     length (b_results s) \<le> 2"
proof -
  let ?hs = "[pow_header 1 10 0, pow_header 3 30 20]"
  let ?c = "worker_check pow_env None 100 100 ?hs [True, True] NewFaker"
  let ?s0 = "batch_init 2 2 (Some (Inr ())) :: (ethash_error + unit) option batch"
  have f: "\<not> fakeFull NewFaker" by (simp add: NewFaker_def blank_ethash_def)
  have w: "\<not> b_returned ?s0" "b_in ?s0 < 2" "0 < length (b_workers ?s0)" "b_workers ?s0 ! 0 = Idle"
    by (simp_all add: batch_init_def)
  from batch_run.more [OF batch_run.start batch_step.give [OF w]] f
  obtain s where s: "EthVerifyHeaders pow_env None 100 100 ?hs [True, True] NewFaker 2 1 s"
    by (simp add: EthVerifyHeaders_def numeral_2_eq_2) blast
  have "(0 :: nat) < 2" by simp
  from VerifyHeaders_ordered [OF this s f] have "length (b_results s) \<le> 2" by simp
  then show ?thesis using s by blast
qed

end
