(* ===== verification/ChainDb.thy ===== *)
theory ChainDb
  imports Header Bytes
begin

text \<open>
  \<open>core/database_util.go\<close>: the layout of the chain in a key-value store. The store is a map from byte
  strings to byte strings; a failing store ends the process (\<open>log.Crit\<close>) and is not modelled. The
  record \<open>dbEnv\<close> holds the library code the layout relies on: header and transaction hashes and the
  RLP codec of each stored value, where encoding fails (\<open>None\<close>) for values RLP does not cover. The lemmas
  show that the keys of different items never meet, so each read sees exactly the last write of its
  own item.
\<close>

section \<open>Store and codec\<close>

type_synonym chaindb = "byte list \<rightharpoonup> byte list"

type_synonym lookupEntry = "hash \<times> uint64 \<times> uint64"

record ('t, 'r) dbEnv =
  hashOf :: "header \<Rightarrow> hash"
  txHash :: "'t \<Rightarrow> hash"
  rlp_header :: "header \<Rightarrow> byte list option"
  unrlp_header :: "byte list \<Rightarrow> header option"
  rlp_td :: "bigint \<Rightarrow> byte list option"
  unrlp_td :: "byte list \<Rightarrow> bigint option"
  rlp_body :: "'t list \<times> header list \<Rightarrow> byte list option"
  unrlp_body :: "byte list \<Rightarrow> ('t list \<times> header list) option"
  rlp_receipts :: "'r list \<Rightarrow> byte list option"
  unrlp_receipts :: "byte list \<Rightarrow> 'r list option"
  rlp_lookup :: "lookupEntry \<Rightarrow> byte list option"
  unrlp_lookup :: "byte list \<Rightarrow> lookupEntry option"
  unrlp_tx :: "byte list \<Rightarrow> 't option"
  unrlp_receipt :: "byte list \<Rightarrow> 'r"

definition codec_ok :: "('a \<Rightarrow> byte list option) \<Rightarrow> (byte list \<Rightarrow> 'a option) \<Rightarrow> bool" where
  "codec_ok enc dec \<longleftrightarrow> (\<forall>x d. enc x = Some d \<longrightarrow> d \<noteq> [] \<and> dec d = Some x)"

definition rlp_ok :: "('t, 'r) dbEnv \<Rightarrow> bool" where
  "rlp_ok e \<longleftrightarrow> codec_ok (rlp_header e) (unrlp_header e) \<and> codec_ok (rlp_td e) (unrlp_td e) \<and>
     codec_ok (rlp_body e) (unrlp_body e) \<and> codec_ok (rlp_receipts e) (unrlp_receipts e) \<and>
     codec_ok (rlp_lookup e) (unrlp_lookup e)"

definition hash_bytes :: "hash \<Rightarrow> byte list" where
  "hash_bytes h = be_bytes 32 (uint h)"

definition bytes_hash :: "byte list \<Rightarrow> hash" where
  "bytes_hash bs = word_of_int (be_int bs)"

section \<open>Keys\<close>

definition headHeaderKey :: "byte list" where "headHeaderKey = [76, 97, 115, 116, 72, 101, 97, 100, 101, 114]"
definition headBlockKey :: "byte list" where "headBlockKey = [76, 97, 115, 116, 66, 108, 111, 99, 107]"
definition headFastKey :: "byte list" where "headFastKey = [76, 97, 115, 116, 70, 97, 115, 116]"
definition headerPrefix :: "byte list" where "headerPrefix = [104]"
definition tdSuffix :: "byte list" where "tdSuffix = [116]"
definition numSuffix :: "byte list" where "numSuffix = [110]"
definition blockHashPrefix :: "byte list" where "blockHashPrefix = [72]"
definition bodyPrefix :: "byte list" where "bodyPrefix = [98]"
definition blockReceiptsPrefix :: "byte list" where "blockReceiptsPrefix = [114]"
definition lookupPrefix :: "byte list" where "lookupPrefix = [108]"
definition bloomBitsPrefix :: "byte list" where "bloomBitsPrefix = [66]"
definition proxyBlockPrefix :: "byte list" where "proxyBlockPrefix = [112]"
definition proxyCntPrefix :: "byte list" where "proxyCntPrefix = [99, 80]"
definition proxyNumSuffix :: "byte list" where "proxyNumSuffix = [109]"
definition oldReceiptsPrefix :: "byte list" where "oldReceiptsPrefix = [114, 101, 99, 101, 105, 112, 116, 115, 45]"
definition oldTxMetaSuffix :: "byte list" where "oldTxMetaSuffix = [1]"

definition missingNumber :: uint64 where "missingNumber = -1"

definition encodeBlockNumber :: "uint64 \<Rightarrow> byte list" where
  "encodeBlockNumber number = be_bytes 8 (uint number)"

definition canonKey :: "uint64 \<Rightarrow> byte list" where
  "canonKey number = headerPrefix @ encodeBlockNumber number @ numSuffix"

definition headerKey :: "hash \<Rightarrow> uint64 \<Rightarrow> byte list" where
  "headerKey h number = headerPrefix @ encodeBlockNumber number @ hash_bytes h"

definition tdKey :: "hash \<Rightarrow> uint64 \<Rightarrow> byte list" where
  "tdKey h number = headerPrefix @ encodeBlockNumber number @ hash_bytes h @ tdSuffix"

definition numberKey :: "hash \<Rightarrow> byte list" where
  "numberKey h = blockHashPrefix @ hash_bytes h"

definition blockBodyKey :: "hash \<Rightarrow> uint64 \<Rightarrow> byte list" where
  "blockBodyKey h number = bodyPrefix @ encodeBlockNumber number @ hash_bytes h"

definition receiptsKey :: "hash \<Rightarrow> uint64 \<Rightarrow> byte list" where
  "receiptsKey h number = blockReceiptsPrefix @ encodeBlockNumber number @ hash_bytes h"

definition lookupKey :: "hash \<Rightarrow> byte list" where
  "lookupKey h = lookupPrefix @ hash_bytes h"

definition bloomKey :: "nat \<Rightarrow> uint64 \<Rightarrow> hash \<Rightarrow> byte list" where
  "bloomKey b section head = bloomBitsPrefix @ be_bytes 2 (int b) @ encodeBlockNumber section @ hash_bytes head"

definition syncNumKey :: "byte list \<Rightarrow> byte list \<Rightarrow> uint64 \<Rightarrow> byte list" where
  "syncNumKey scd sub number = proxyBlockPrefix @ scd @ sub @ encodeBlockNumber number @ proxyNumSuffix"

definition syncBlockKey :: "byte list \<Rightarrow> byte list \<Rightarrow> hash \<Rightarrow> uint64 \<Rightarrow> byte list" where
  "syncBlockKey scd sub h number = proxyBlockPrefix @ scd @ sub @ encodeBlockNumber number @ hash_bytes h"

definition syncCntKey :: "byte list \<Rightarrow> byte list \<Rightarrow> hash \<Rightarrow> byte list" where
  "syncCntKey scd sub h = proxyCntPrefix @ scd @ sub @ hash_bytes h"

section \<open>Reads\<close>

definition get_data :: "chaindb \<Rightarrow> byte list \<Rightarrow> byte list" where
  "get_data db k = (case db k of Some d \<Rightarrow> d | None \<Rightarrow> [])"

definition decode :: "(byte list \<Rightarrow> 'a option) \<Rightarrow> byte list \<Rightarrow> 'a option" where
  "decode dec d = (if d = [] then None else dec d)"

definition get_hash :: "chaindb \<Rightarrow> byte list \<Rightarrow> hash" where
  "get_hash db k = (let d = get_data db k in if d = [] then 0 else bytes_hash d)"

definition GetCanonicalHash :: "chaindb \<Rightarrow> uint64 \<Rightarrow> hash" where
  "GetCanonicalHash db number = get_hash db (canonKey number)"

definition GetBlockNumber :: "chaindb \<Rightarrow> hash \<Rightarrow> uint64" where
  "GetBlockNumber db h =
     (let d = get_data db (numberKey h) in if length d \<noteq> 8 then missingNumber else word_of_int (be_int d))"

definition GetHeadHeaderHash :: "chaindb \<Rightarrow> hash" where
  "GetHeadHeaderHash db = get_hash db headHeaderKey"

definition GetHeadBlockHash :: "chaindb \<Rightarrow> hash" where
  "GetHeadBlockHash db = get_hash db headBlockKey"

definition GetHeadFastBlockHash :: "chaindb \<Rightarrow> hash" where
  "GetHeadFastBlockHash db = get_hash db headFastKey"

definition GetHeaderRLP :: "chaindb \<Rightarrow> hash \<Rightarrow> uint64 \<Rightarrow> byte list" where
  "GetHeaderRLP db h number = get_data db (headerKey h number)"

definition GetHeader :: "('t, 'r) dbEnv \<Rightarrow> chaindb \<Rightarrow> hash \<Rightarrow> uint64 \<Rightarrow> header option" where
  "GetHeader e db h number = decode (unrlp_header e) (GetHeaderRLP db h number)"

definition GetBodyRLP :: "chaindb \<Rightarrow> hash \<Rightarrow> uint64 \<Rightarrow> byte list" where
  "GetBodyRLP db h number = get_data db (blockBodyKey h number)"

definition GetBody :: "('t, 'r) dbEnv \<Rightarrow> chaindb \<Rightarrow> hash \<Rightarrow> uint64 \<Rightarrow> ('t list \<times> header list) option" where
  "GetBody e db h number = decode (unrlp_body e) (GetBodyRLP db h number)"

definition GetTd :: "('t, 'r) dbEnv \<Rightarrow> chaindb \<Rightarrow> hash \<Rightarrow> uint64 \<Rightarrow> bigint option" where
  "GetTd e db h number = decode (unrlp_td e) (get_data db (tdKey h number))"

definition GetBlock :: "('t, 'r) dbEnv \<Rightarrow> chaindb \<Rightarrow> hash \<Rightarrow> uint64 \<Rightarrow> (header \<times> 't list \<times> header list) option" where
  "GetBlock e db h number =
     (case GetHeader e db h number of
        None \<Rightarrow> None
      | Some header \<Rightarrow> map_option (\<lambda>body. (header, body)) (GetBody e db h number))"

definition GetBlockReceipts :: "('t, 'r) dbEnv \<Rightarrow> chaindb \<Rightarrow> hash \<Rightarrow> uint64 \<Rightarrow> 'r list option" where
  "GetBlockReceipts e db h number = decode (unrlp_receipts e) (get_data db (receiptsKey h number))"

definition GetTxLookupEntry :: "('t, 'r) dbEnv \<Rightarrow> chaindb \<Rightarrow> hash \<Rightarrow> lookupEntry" where
  "GetTxLookupEntry e db h =
     (case decode (unrlp_lookup e) (get_data db (lookupKey h)) of None \<Rightarrow> (0, 0, 0) | Some entry \<Rightarrow> entry)"

text \<open>
  An index that is negative as an \<open>int\<close> passes the length check and panics, the outer \<open>None\<close>.
\<close>

definition GetTransaction :: "('t, 'r) dbEnv \<Rightarrow> chaindb \<Rightarrow> hash \<Rightarrow> ('t \<times> lookupEntry) option option" where
  "GetTransaction e db h =
     (let (blockHash, blockNumber, txIndex) = GetTxLookupEntry e db h
      in if blockHash \<noteq> 0 then
           case GetBody e db blockHash blockNumber of
             None \<Rightarrow> Some None
           | Some (txs, _) \<Rightarrow>
               if int (length txs) \<le> sint txIndex then Some None
               else map_option (\<lambda>tx. Some (tx, blockHash, blockNumber, txIndex)) (index_at txs (unat txIndex))
         else Some (do {
           tx \<leftarrow> decode (unrlp_tx e) (get_data db (hash_bytes h));
           entry \<leftarrow> decode (unrlp_lookup e) (get_data db (hash_bytes h @ oldTxMetaSuffix));
           Some (tx, entry)
         }))"

definition GetReceipt :: "('t, 'r) dbEnv \<Rightarrow> chaindb \<Rightarrow> hash \<Rightarrow> ('r \<times> lookupEntry) option option" where
  "GetReceipt e db h =
     (let (blockHash, blockNumber, receiptIndex) = GetTxLookupEntry e db h
      in if blockHash \<noteq> 0 then
           let receipts = (case GetBlockReceipts e db blockHash blockNumber of None \<Rightarrow> [] | Some rs \<Rightarrow> rs)
           in if int (length receipts) \<le> sint receiptIndex then Some None
              else map_option (\<lambda>r. Some (r, blockHash, blockNumber, receiptIndex)) (index_at receipts (unat receiptIndex))
         else let d = get_data db (oldReceiptsPrefix @ hash_bytes h)
              in Some (if d = [] then None else Some (unrlp_receipt e d, 0, 0, 0)))"

definition GetBloomBits :: "chaindb \<Rightarrow> nat \<Rightarrow> uint64 \<Rightarrow> hash \<Rightarrow> byte list" where
  "GetBloomBits db b section head = get_data db (bloomKey b section head)"

definition GetSyncBlockHash :: "chaindb \<Rightarrow> byte list \<Rightarrow> byte list \<Rightarrow> uint64 \<Rightarrow> hash" where
  "GetSyncBlockHash db scd sub number = get_hash db (syncNumKey scd sub number)"

definition GetSyncBlock :: "chaindb \<Rightarrow> byte list \<Rightarrow> byte list \<Rightarrow> hash \<Rightarrow> uint64 \<Rightarrow> byte list" where
  "GetSyncBlock db scd sub h number = get_data db (syncBlockKey scd sub h number)"

definition GetSyncBlockCnt :: "chaindb \<Rightarrow> byte list \<Rightarrow> byte list \<Rightarrow> hash \<Rightarrow> uint64" where
  "GetSyncBlockCnt db scd sub h =
     (let d = get_data db (syncCntKey scd sub h) in if length d \<noteq> 8 then 0 else word_of_int (be_int d))"

section \<open>Writes\<close>

definition WriteCanonicalHash :: "hash \<Rightarrow> uint64 \<Rightarrow> chaindb \<Rightarrow> chaindb" where
  "WriteCanonicalHash h number db = db(canonKey number \<mapsto> hash_bytes h)"

definition WriteHeadHeaderHash :: "hash \<Rightarrow> chaindb \<Rightarrow> chaindb" where
  "WriteHeadHeaderHash h db = db(headHeaderKey \<mapsto> hash_bytes h)"

definition WriteHeadBlockHash :: "hash \<Rightarrow> chaindb \<Rightarrow> chaindb" where
  "WriteHeadBlockHash h db = db(headBlockKey \<mapsto> hash_bytes h)"

definition WriteHeadFastBlockHash :: "hash \<Rightarrow> chaindb \<Rightarrow> chaindb" where
  "WriteHeadFastBlockHash h db = db(headFastKey \<mapsto> hash_bytes h)"

definition WriteHeader :: "('t, 'r) dbEnv \<Rightarrow> header \<Rightarrow> chaindb \<Rightarrow> chaindb option" where
  "WriteHeader e header db = do {
     d \<leftarrow> rlp_header e header;
     let h = hashOf e header;
     let num = low64 (h_number header);
     Some (db(numberKey h \<mapsto> encodeBlockNumber num, headerKey h num \<mapsto> d))
   }"

definition WriteBodyRLP :: "hash \<Rightarrow> uint64 \<Rightarrow> byte list \<Rightarrow> chaindb \<Rightarrow> chaindb" where
  "WriteBodyRLP h number d db = db(blockBodyKey h number \<mapsto> d)"

definition WriteBody :: "('t, 'r) dbEnv \<Rightarrow> hash \<Rightarrow> uint64 \<Rightarrow> 't list \<times> header list \<Rightarrow> chaindb \<Rightarrow> chaindb option" where
  "WriteBody e h number body db = map_option (\<lambda>d. WriteBodyRLP h number d db) (rlp_body e body)"

definition WriteTd :: "('t, 'r) dbEnv \<Rightarrow> hash \<Rightarrow> uint64 \<Rightarrow> bigint \<Rightarrow> chaindb \<Rightarrow> chaindb option" where
  "WriteTd e h number td db = map_option (\<lambda>d. db(tdKey h number \<mapsto> d)) (rlp_td e td)"

definition WriteBlock :: "('t, 'r) dbEnv \<Rightarrow> header \<times> 't list \<times> header list \<Rightarrow> chaindb \<Rightarrow> chaindb option" where
  "WriteBlock e block db = do {
     db1 \<leftarrow> WriteBody e (hashOf e (fst block)) (low64 (h_number (fst block))) (snd block) db;
     WriteHeader e (fst block) db1
   }"

definition WriteBlockReceipts :: "('t, 'r) dbEnv \<Rightarrow> hash \<Rightarrow> uint64 \<Rightarrow> 'r list \<Rightarrow> chaindb \<Rightarrow> chaindb option" where
  "WriteBlockReceipts e h number receipts db =
     map_option (\<lambda>d. db(receiptsKey h number \<mapsto> d)) (rlp_receipts e receipts)"

fun lookup_each :: "('t, 'r) dbEnv \<Rightarrow> hash \<Rightarrow> uint64 \<Rightarrow> nat \<Rightarrow> 't list \<Rightarrow> chaindb \<Rightarrow> chaindb option" where
  "lookup_each e h number i [] db = Some db"
| "lookup_each e h number i (t # ts) db = do {
     d \<leftarrow> rlp_lookup e (h, number, of_nat i);
     lookup_each e h number (Suc i) ts (db(lookupKey (txHash e t) \<mapsto> d))
   }"

definition WriteTxLookupEntries :: "('t, 'r) dbEnv \<Rightarrow> header \<times> 't list \<times> header list \<Rightarrow> chaindb \<Rightarrow> chaindb option" where
  "WriteTxLookupEntries e block db =
     lookup_each e (hashOf e (fst block)) (low64 (h_number (fst block))) 0 (fst (snd block)) db"

definition WriteBloomBits :: "nat \<Rightarrow> uint64 \<Rightarrow> hash \<Rightarrow> byte list \<Rightarrow> chaindb \<Rightarrow> chaindb" where
  "WriteBloomBits b section head bits db = db(bloomKey b section head \<mapsto> bits)"

definition WriteSyncBlock :: "byte list \<Rightarrow> byte list \<Rightarrow> hash \<Rightarrow> uint64 \<Rightarrow> byte list \<Rightarrow> chaindb \<Rightarrow> chaindb" where
  "WriteSyncBlock scd sub h number d db =
     db(syncNumKey scd sub number \<mapsto> hash_bytes h, syncBlockKey scd sub h number \<mapsto> d)"

definition WriteSyncBlockCnt :: "byte list \<Rightarrow> byte list \<Rightarrow> hash \<Rightarrow> uint64 \<Rightarrow> chaindb \<Rightarrow> chaindb" where
  "WriteSyncBlockCnt scd sub h cnt db = db(syncCntKey scd sub h \<mapsto> encodeBlockNumber cnt)"

section \<open>Deletions\<close>

definition DeleteCanonicalHash :: "uint64 \<Rightarrow> chaindb \<Rightarrow> chaindb" where
  "DeleteCanonicalHash number db = db(canonKey number := None)"

definition DeleteHeader :: "hash \<Rightarrow> uint64 \<Rightarrow> chaindb \<Rightarrow> chaindb" where
  "DeleteHeader h number db = db(numberKey h := None, headerKey h number := None)"

definition DeleteBody :: "hash \<Rightarrow> uint64 \<Rightarrow> chaindb \<Rightarrow> chaindb" where
  "DeleteBody h number db = db(blockBodyKey h number := None)"

definition DeleteTd :: "hash \<Rightarrow> uint64 \<Rightarrow> chaindb \<Rightarrow> chaindb" where
  "DeleteTd h number db = db(tdKey h number := None)"

definition DeleteBlockReceipts :: "hash \<Rightarrow> uint64 \<Rightarrow> chaindb \<Rightarrow> chaindb" where
  "DeleteBlockReceipts h number db = db(receiptsKey h number := None)"

definition DeleteBlock :: "hash \<Rightarrow> uint64 \<Rightarrow> chaindb \<Rightarrow> chaindb" where
  "DeleteBlock h number db =
     DeleteTd h number (DeleteBody h number (DeleteHeader h number (DeleteBlockReceipts h number db)))"

definition DeleteTxLookupEntry :: "hash \<Rightarrow> chaindb \<Rightarrow> chaindb" where
  "DeleteTxLookupEntry h db = db(lookupKey h := None)"

definition DeleteSyncBlockHash :: "byte list \<Rightarrow> byte list \<Rightarrow> uint64 \<Rightarrow> chaindb \<Rightarrow> chaindb" where
  "DeleteSyncBlockHash scd sub number db = db(syncNumKey scd sub number := None)"

definition DeleteSyncBlock :: "byte list \<Rightarrow> byte list \<Rightarrow> hash \<Rightarrow> uint64 \<Rightarrow> chaindb \<Rightarrow> chaindb" where
  "DeleteSyncBlock scd sub h number db = db(syncBlockKey scd sub h number := None, syncCntKey scd sub h := None)"

section \<open>Common ancestors\<close>

fun ancestor_down :: "('t, 'r) dbEnv \<Rightarrow> chaindb \<Rightarrow> nat \<Rightarrow> uint64 \<Rightarrow> header \<Rightarrow> header option option" where
  "ancestor_down e db 0 bn a = None"
| "ancestor_down e db (Suc fuel) bn a =
     (if bn < low64 (h_number a)
      then case GetHeader e db (ParentHash a) (low64 (h_number a) - 1) of
             None \<Rightarrow> Some None
           | Some p \<Rightarrow> ancestor_down e db fuel bn p
      else Some (Some a))"

fun ancestor_both :: "('t, 'r) dbEnv \<Rightarrow> chaindb \<Rightarrow> nat \<Rightarrow> header \<Rightarrow> header \<Rightarrow> header option option" where
  "ancestor_both e db 0 a b = None"
| "ancestor_both e db (Suc fuel) a b =
     (if hashOf e a \<noteq> hashOf e b
      then case (GetHeader e db (ParentHash a) (low64 (h_number a) - 1), GetHeader e db (ParentHash b) (low64 (h_number b) - 1)) of
             (Some p, Some q) \<Rightarrow> ancestor_both e db fuel p q
           | _ \<Rightarrow> Some None
      else Some (Some a))"

definition FindCommonAncestor :: "('t, 'r) dbEnv \<Rightarrow> chaindb \<Rightarrow> nat \<Rightarrow> header \<Rightarrow> header \<Rightarrow> header option option" where
  "FindCommonAncestor e db fuel a b =
     (case ancestor_down e db fuel (low64 (h_number b)) a of
        None \<Rightarrow> None
      | Some None \<Rightarrow> Some None
      | Some (Some a1) \<Rightarrow>
          (case ancestor_down e db fuel (low64 (h_number a1)) b of
             None \<Rightarrow> None
           | Some None \<Rightarrow> Some None
           | Some (Some b1) \<Rightarrow> ancestor_both e db fuel a1 b1))"

section \<open>Keys of different items differ\<close>

lemma length_hash_bytes [simp]: "length (hash_bytes h) = 32"
  by (simp add: hash_bytes_def)

lemma length_encodeBlockNumber [simp]: "length (encodeBlockNumber n) = 8"
  by (simp add: encodeBlockNumber_def)

lemma bytes_hash_bytes [simp]: "bytes_hash (hash_bytes h) = h"
proof -
  have "be_int (hash_bytes h) = uint h"
    unfolding hash_bytes_def be_int_bytes using uint_lt2p [of h] by simp
  then show ?thesis by (simp add: bytes_hash_def)
qed

lemma decode_number [simp]: "word_of_int (be_int (encodeBlockNumber n)) = n"
proof -
  have "be_int (encodeBlockNumber n) = uint n"
    unfolding encodeBlockNumber_def be_int_bytes using uint_lt2p [of n] by simp
  then show ?thesis by simp
qed

lemma hash_bytes_inj [simp]: "hash_bytes a = hash_bytes b \<longleftrightarrow> a = b"
  by (metis bytes_hash_bytes)

lemma encodeBlockNumber_inj [simp]: "encodeBlockNumber a = encodeBlockNumber b \<longleftrightarrow> a = b"
  by (metis decode_number)

lemma hash_bytes_nonempty [simp]: "hash_bytes h \<noteq> []"
  by (metis length_hash_bytes list.size(3) zero_neq_numeral)

lemmas key_defs = canonKey_def headerKey_def tdKey_def numberKey_def blockBodyKey_def receiptsKey_def lookupKey_def
  headHeaderKey_def headBlockKey_def headFastKey_def headerPrefix_def tdSuffix_def numSuffix_def blockHashPrefix_def
  bodyPrefix_def blockReceiptsPrefix_def lookupPrefix_def

lemma key_inj [simp]:
  "canonKey n = canonKey m \<longleftrightarrow> n = m"
  "headerKey h n = headerKey g m \<longleftrightarrow> h = g \<and> n = m"
  "tdKey h n = tdKey g m \<longleftrightarrow> h = g \<and> n = m"
  "numberKey h = numberKey g \<longleftrightarrow> h = g"
  "blockBodyKey h n = blockBodyKey g m \<longleftrightarrow> h = g \<and> n = m"
  "receiptsKey h n = receiptsKey g m \<longleftrightarrow> h = g \<and> n = m"
  "lookupKey h = lookupKey g \<longleftrightarrow> h = g"
  by (auto simp: key_defs)

text \<open>A key is told from the keys of the other items by its first byte and its length.\<close>

definition shape :: "byte list \<Rightarrow> byte \<times> nat" where
  "shape k = (hd k, length k)"

lemma shapes [simp]:
  "shape (canonKey n) = (104, 10)" "shape (headerKey h n) = (104, 41)" "shape (tdKey h n) = (104, 42)"
  "shape (numberKey h) = (72, 33)" "shape (blockBodyKey h n) = (98, 41)" "shape (receiptsKey h n) = (114, 41)"
  "shape (lookupKey h) = (108, 33)" "shape headHeaderKey = (76, 10)" "shape headBlockKey = (76, 9)" "shape headFastKey = (76, 8)"
  by (simp_all add: shape_def key_defs)

lemma shapes_differ: "shape a \<noteq> shape b \<Longrightarrow> a \<noteq> b"
  by auto

lemma keys_apart [simp]:
  "canonKey n \<noteq> headerKey h m" "canonKey n \<noteq> tdKey h m" "canonKey n \<noteq> numberKey h" "canonKey n \<noteq> blockBodyKey h m"
  "canonKey n \<noteq> receiptsKey h m" "canonKey n \<noteq> lookupKey h" "canonKey n \<noteq> headHeaderKey" "canonKey n \<noteq> headBlockKey"
  "canonKey n \<noteq> headFastKey" "headerKey h m \<noteq> tdKey g n" "headerKey h m \<noteq> numberKey g" "headerKey h m \<noteq> blockBodyKey g n"
  "headerKey h m \<noteq> receiptsKey g n" "headerKey h m \<noteq> lookupKey g" "headerKey h m \<noteq> headHeaderKey"
  "headerKey h m \<noteq> headBlockKey" "headerKey h m \<noteq> headFastKey" "tdKey h m \<noteq> numberKey g" "tdKey h m \<noteq> blockBodyKey g n"
  "tdKey h m \<noteq> receiptsKey g n" "tdKey h m \<noteq> lookupKey g" "tdKey h m \<noteq> headHeaderKey" "tdKey h m \<noteq> headBlockKey"
  "tdKey h m \<noteq> headFastKey" "numberKey h \<noteq> blockBodyKey g n" "numberKey h \<noteq> receiptsKey g n" "numberKey h \<noteq> lookupKey g"
  "numberKey h \<noteq> headHeaderKey" "numberKey h \<noteq> headBlockKey" "numberKey h \<noteq> headFastKey" "blockBodyKey h m \<noteq> receiptsKey g n"
  "blockBodyKey h m \<noteq> lookupKey g" "blockBodyKey h m \<noteq> headHeaderKey" "blockBodyKey h m \<noteq> headBlockKey"
  "blockBodyKey h m \<noteq> headFastKey" "receiptsKey h m \<noteq> lookupKey g" "receiptsKey h m \<noteq> headHeaderKey"
  "receiptsKey h m \<noteq> headBlockKey" "receiptsKey h m \<noteq> headFastKey" "lookupKey h \<noteq> headHeaderKey" "lookupKey h \<noteq> headBlockKey"
  "lookupKey h \<noteq> headFastKey" "headHeaderKey \<noteq> headBlockKey" "headHeaderKey \<noteq> headFastKey" "headBlockKey \<noteq> headFastKey"
  by (rule shapes_differ, simp)+

lemmas keys_apart' [simp] = keys_apart [symmetric]

section \<open>Reads after writes\<close>

lemma get_data_update [simp]: "get_data (db(k \<mapsto> d)) k' = (if k' = k then d else get_data db k')"
  by (simp add: get_data_def)

lemma get_data_delete [simp]: "get_data (db(k := None)) k' = (if k' = k then [] else get_data db k')"
  by (simp add: get_data_def)

lemma decode_encoded: "codec_ok enc dec \<Longrightarrow> enc x = Some d \<Longrightarrow> decode dec d = Some x"
  by (auto simp: codec_ok_def decode_def)

lemma decode_Nil [simp]: "decode dec [] = None"
  by (simp add: decode_def)

lemmas read_defs = GetCanonicalHash_def GetBlockNumber_def GetHeadHeaderHash_def GetHeadBlockHash_def GetHeadFastBlockHash_def
  GetHeader_def GetHeaderRLP_def GetBody_def GetBodyRLP_def GetTd_def GetBlockReceipts_def GetTxLookupEntry_def get_hash_def Let_def

text \<open>The canonical numbering.\<close>

lemma read_WriteCanonicalHash [simp]:
  "GetCanonicalHash (WriteCanonicalHash h n db) = (GetCanonicalHash db)(n := h)"
  "GetBlockNumber (WriteCanonicalHash h n db) = GetBlockNumber db"
  "GetHeader e (WriteCanonicalHash h n db) = GetHeader e db"
  "GetTd e (WriteCanonicalHash h n db) = GetTd e db"
  "GetBody e (WriteCanonicalHash h n db) = GetBody e db"
  "GetBlockReceipts e (WriteCanonicalHash h n db) = GetBlockReceipts e db"
  "GetHeadHeaderHash (WriteCanonicalHash h n db) = GetHeadHeaderHash db"
  by (auto simp: WriteCanonicalHash_def read_defs fun_eq_iff)

lemma read_DeleteCanonicalHash [simp]:
  "GetCanonicalHash (DeleteCanonicalHash n db) = (GetCanonicalHash db)(n := 0)"
  "GetBlockNumber (DeleteCanonicalHash n db) = GetBlockNumber db"
  "GetHeader e (DeleteCanonicalHash n db) = GetHeader e db"
  "GetTd e (DeleteCanonicalHash n db) = GetTd e db"
  "GetBody e (DeleteCanonicalHash n db) = GetBody e db"
  "GetBlockReceipts e (DeleteCanonicalHash n db) = GetBlockReceipts e db"
  "GetHeadHeaderHash (DeleteCanonicalHash n db) = GetHeadHeaderHash db"
  by (auto simp: DeleteCanonicalHash_def read_defs fun_eq_iff)

text \<open>The head.\<close>

lemma read_WriteHeadHeaderHash [simp]:
  "GetCanonicalHash (WriteHeadHeaderHash h db) = GetCanonicalHash db"
  "GetBlockNumber (WriteHeadHeaderHash h db) = GetBlockNumber db"
  "GetHeader e (WriteHeadHeaderHash h db) = GetHeader e db"
  "GetTd e (WriteHeadHeaderHash h db) = GetTd e db"
  "GetHeadHeaderHash (WriteHeadHeaderHash h db) = h"
  by (auto simp: WriteHeadHeaderHash_def read_defs fun_eq_iff)

text \<open>Headers and total difficulties.\<close>

lemma read_WriteHeader:
  assumes "rlp_ok e" "WriteHeader e x db = Some db'"
  shows "GetHeader e db' = (\<lambda>h n. if h = hashOf e x \<and> n = low64 (h_number x) then Some x else GetHeader e db h n)"
    "GetBlockNumber db' = (GetBlockNumber db)(hashOf e x := low64 (h_number x))"
    "GetCanonicalHash db' = GetCanonicalHash db" "GetTd e db' = GetTd e db" "GetHeadHeaderHash db' = GetHeadHeaderHash db"
proof -
  obtain d where d: "rlp_header e x = Some d"
    and db': "db' = db(numberKey (hashOf e x) \<mapsto> encodeBlockNumber (low64 (h_number x)), headerKey (hashOf e x) (low64 (h_number x)) \<mapsto> d)"
    using assms(2) by (auto simp: WriteHeader_def Let_def split: bind_splits)
  have "decode (unrlp_header e) d = Some x" using assms(1) d by (auto simp: rlp_ok_def intro: decode_encoded)
  then show "GetHeader e db' = (\<lambda>h n. if h = hashOf e x \<and> n = low64 (h_number x) then Some x else GetHeader e db h n)"
    by (auto simp: db' read_defs fun_eq_iff)
  show "GetBlockNumber db' = (GetBlockNumber db)(hashOf e x := low64 (h_number x))"
    "GetCanonicalHash db' = GetCanonicalHash db" "GetTd e db' = GetTd e db" "GetHeadHeaderHash db' = GetHeadHeaderHash db"
    by (simp_all add: db' read_defs fun_eq_iff)
qed

lemma read_WriteTd:
  assumes "rlp_ok e" "WriteTd e h n td db = Some db'"
  shows "GetTd e db' = (\<lambda>g m. if g = h \<and> m = n then Some td else GetTd e db g m)"
    "GetHeader e db' = GetHeader e db" "GetBlockNumber db' = GetBlockNumber db" "GetCanonicalHash db' = GetCanonicalHash db"
    "GetHeadHeaderHash db' = GetHeadHeaderHash db"
proof -
  obtain d where d: "rlp_td e td = Some d" and db': "db' = db(tdKey h n \<mapsto> d)" using assms(2) by (auto simp: WriteTd_def)
  have "decode (unrlp_td e) d = Some td" using assms(1) d by (auto simp: rlp_ok_def intro: decode_encoded)
  then show "GetTd e db' = (\<lambda>g m. if g = h \<and> m = n then Some td else GetTd e db g m)"
    by (auto simp: db' read_defs fun_eq_iff)
  show "GetHeader e db' = GetHeader e db" "GetBlockNumber db' = GetBlockNumber db" "GetCanonicalHash db' = GetCanonicalHash db"
    "GetHeadHeaderHash db' = GetHeadHeaderHash db"
    by (simp_all add: db' read_defs fun_eq_iff)
qed

lemma read_DeleteHeader [simp]:
  "GetHeader e (DeleteHeader h n db) = (\<lambda>g m. if g = h \<and> m = n then None else GetHeader e db g m)"
  "GetBlockNumber (DeleteHeader h n db) = (GetBlockNumber db)(h := missingNumber)"
  "GetCanonicalHash (DeleteHeader h n db) = GetCanonicalHash db"
  "GetTd e (DeleteHeader h n db) = GetTd e db"
  by (auto simp: DeleteHeader_def read_defs fun_eq_iff)

lemma read_DeleteTd [simp]:
  "GetTd e (DeleteTd h n db) = (\<lambda>g m. if g = h \<and> m = n then None else GetTd e db g m)"
  "GetHeader e (DeleteTd h n db) = GetHeader e db"
  "GetBlockNumber (DeleteTd h n db) = GetBlockNumber db"
  "GetCanonicalHash (DeleteTd h n db) = GetCanonicalHash db"
  by (auto simp: DeleteTd_def read_defs fun_eq_iff)

text \<open>Writes of other items leave the header chain alone.\<close>

lemma read_other_writes [simp]:
  "GetCanonicalHash (WriteBodyRLP h n d db) = GetCanonicalHash db" "GetBlockNumber (WriteBodyRLP h n d db) = GetBlockNumber db"
  "GetHeader e (WriteBodyRLP h n d db) = GetHeader e db" "GetTd e (WriteBodyRLP h n d db) = GetTd e db"
  "GetCanonicalHash (WriteHeadBlockHash h db) = GetCanonicalHash db" "GetBlockNumber (WriteHeadBlockHash h db) = GetBlockNumber db"
  "GetHeader e (WriteHeadBlockHash h db) = GetHeader e db" "GetTd e (WriteHeadBlockHash h db) = GetTd e db"
  "GetHeadBlockHash (WriteHeadBlockHash h db) = h" "GetHeadBlockHash (WriteHeadHeaderHash h db) = GetHeadBlockHash db"
  "GetCanonicalHash (DeleteBody h n db) = GetCanonicalHash db" "GetBlockNumber (DeleteBody h n db) = GetBlockNumber db"
  "GetHeader e (DeleteBody h n db) = GetHeader e db" "GetTd e (DeleteBody h n db) = GetTd e db"
  by (auto simp: WriteBodyRLP_def WriteHeadBlockHash_def WriteHeadHeaderHash_def DeleteBody_def read_defs fun_eq_iff)

lemma read_WriteBlockReceipts:
  assumes "WriteBlockReceipts e h n rs db = Some db'"
  shows "GetCanonicalHash db' = GetCanonicalHash db" "GetBlockNumber db' = GetBlockNumber db" "GetHeader d db' = GetHeader d db"
    "GetTd d db' = GetTd d db"
proof -
  obtain b where db': "db' = db(receiptsKey h n \<mapsto> b)" using assms by (auto simp: WriteBlockReceipts_def)
  show "GetCanonicalHash db' = GetCanonicalHash db" "GetBlockNumber db' = GetBlockNumber db" "GetHeader d db' = GetHeader d db"
    "GetTd d db' = GetTd d db" by (simp_all add: db' read_defs fun_eq_iff)
qed

text \<open>Entries with keys of other lengths, such as the nodes of the state, are apart from those of the chain.\<close>

lemma read_foreign_writes:
  assumes "\<And>k. length k \<in> {9, 10, 33, 41, 42} \<Longrightarrow> db' k = db k"
  shows "GetCanonicalHash db' = GetCanonicalHash db" "GetBlockNumber db' = GetBlockNumber db" "GetHeader e db' = GetHeader e db"
    "GetTd e db' = GetTd e db" "GetHeadBlockHash db' = GetHeadBlockHash db"
proof -
  have "length (canonKey n) = 10" "length (numberKey h) = 33" "length (headerKey h n) = 41" "length (tdKey h n) = 42"
    "length headBlockKey = 9" for n h by (simp_all add: key_defs)
  then have d: "get_data db' (canonKey n) = get_data db (canonKey n)" "get_data db' (numberKey h) = get_data db (numberKey h)"
    "get_data db' (headerKey h n) = get_data db (headerKey h n)" "get_data db' (tdKey h n) = get_data db (tdKey h n)"
    "get_data db' headBlockKey = get_data db headBlockKey" for n h
    using assms by (simp_all add: get_data_def)
  show "GetCanonicalHash db' = GetCanonicalHash db" "GetBlockNumber db' = GetBlockNumber db" "GetHeader e db' = GetHeader e db"
    "GetTd e db' = GetTd e db" "GetHeadBlockHash db' = GetHeadBlockHash db" by (simp_all add: read_defs fun_eq_iff d)
qed

end
