(* ===== verification/HeaderChain.thy ===== *)
theory HeaderChain
  imports ChainDb
begin

text \<open>
  \<open>core/headerchain.go\<close>: the chain of headers shared by full and light nodes. The record
  \<open>headerChain\<close> is \<open>HeaderChain\<close> with its database and its three caches; \<open>hcEnv\<close> holds the codec of the
  database, what the caches drop when a value is added, the consensus engine's verdicts and the bad
  hashes. The random choice between chains of equal weight and the sampling of seals are arguments.
  \<open>None\<close> is a panic, an exit of the process or a loop that does not end.
\<close>

section \<open>State\<close>

datatype WriteStatus = NonStatTy | CanonStatTy | SideStatTy

datatype 'err hc_error = HcUnknownAncestor | HcNoGenesis | HcNonContiguous | HcAborted | HcBlacklisted | HcEngine 'err

record ('t, 'r, 'err) hcEnv =
  hc_db :: "('t, 'r) dbEnv"
  evict_header :: "(hash, header) gomap \<Rightarrow> (hash, header) gomap"
  evict_td :: "(hash, bigint) gomap \<Rightarrow> (hash, bigint) gomap"
  evict_number :: "(hash, uint64) gomap \<Rightarrow> (hash, uint64) gomap"
  BadHashes :: "hash \<Rightarrow> bool"
  engine_VerifyHeaders :: "header list \<Rightarrow> bool list \<Rightarrow> 'err option list"

record headerChain =
  chainDb :: chaindb
  genesisHeader :: "header option"
  currentHeader :: "header option"
  currentHeaderHash :: hash
  headerCache :: "(hash, header) gomap"
  tdCache :: "(hash, bigint) gomap"
  numberCache :: "(hash, uint64) gomap"

abbreviation number_of :: "header \<Rightarrow> uint64" where
  "number_of x \<equiv> low64 (h_number x)"

section \<open>Lookups through the caches\<close>

definition hc_GetBlockNumber :: "('t, 'r, 'err) hcEnv \<Rightarrow> hash \<Rightarrow> headerChain \<Rightarrow> uint64 \<times> headerChain" where
  "hc_GetBlockNumber e h hc =
     (case map_of (numberCache hc) h of
        Some n \<Rightarrow> (n, hc)
      | None \<Rightarrow>
          let n = GetBlockNumber (chainDb hc) h
          in (n, if n \<noteq> missingNumber then hc\<lparr>numberCache := evict_number e (AList.update h n (numberCache hc))\<rparr> else hc))"

definition hc_GetTd :: "('t, 'r, 'err) hcEnv \<Rightarrow> hash \<Rightarrow> uint64 \<Rightarrow> headerChain \<Rightarrow> bigint option \<times> headerChain" where
  "hc_GetTd e h n hc =
     (case map_of (tdCache hc) h of
        Some td \<Rightarrow> (Some td, hc)
      | None \<Rightarrow>
          (case GetTd (hc_db e) (chainDb hc) h n of
             None \<Rightarrow> (None, hc)
           | Some td \<Rightarrow> (Some td, hc\<lparr>tdCache := evict_td e (AList.update h td (tdCache hc))\<rparr>)))"

definition hc_GetTdByHash :: "('t, 'r, 'err) hcEnv \<Rightarrow> hash \<Rightarrow> headerChain \<Rightarrow> bigint option \<times> headerChain" where
  "hc_GetTdByHash e h hc = (let (n, hc1) = hc_GetBlockNumber e h hc in hc_GetTd e h n hc1)"

definition hc_WriteTd :: "('t, 'r, 'err) hcEnv \<Rightarrow> hash \<Rightarrow> uint64 \<Rightarrow> bigint \<Rightarrow> headerChain \<Rightarrow> headerChain option" where
  "hc_WriteTd e h n td hc =
     map_option (\<lambda>db. hc\<lparr>chainDb := db, tdCache := evict_td e (AList.update h td (tdCache hc))\<rparr>)
       (WriteTd (hc_db e) h n td (chainDb hc))"

definition hc_GetHeader :: "('t, 'r, 'err) hcEnv \<Rightarrow> hash \<Rightarrow> uint64 \<Rightarrow> headerChain \<Rightarrow> header option \<times> headerChain" where
  "hc_GetHeader e h n hc =
     (case map_of (headerCache hc) h of
        Some x \<Rightarrow> (Some x, hc)
      | None \<Rightarrow>
          (case GetHeader (hc_db e) (chainDb hc) h n of
             None \<Rightarrow> (None, hc)
           | Some x \<Rightarrow> (Some x, hc\<lparr>headerCache := evict_header e (AList.update h x (headerCache hc))\<rparr>)))"

definition hc_GetHeaderByHash :: "('t, 'r, 'err) hcEnv \<Rightarrow> hash \<Rightarrow> headerChain \<Rightarrow> header option \<times> headerChain" where
  "hc_GetHeaderByHash e h hc = (let (n, hc1) = hc_GetBlockNumber e h hc in hc_GetHeader e h n hc1)"

definition HasHeader :: "hash \<Rightarrow> uint64 \<Rightarrow> headerChain \<Rightarrow> bool" where
  "HasHeader h n hc \<longleftrightarrow>
     map_of (numberCache hc) h \<noteq> None \<or> map_of (headerCache hc) h \<noteq> None \<or> chainDb hc (headerKey h n) \<noteq> None"

definition hc_GetHeaderByNumber :: "('t, 'r, 'err) hcEnv \<Rightarrow> uint64 \<Rightarrow> headerChain \<Rightarrow> header option \<times> headerChain" where
  "hc_GetHeaderByNumber e n hc =
     (let h = GetCanonicalHash (chainDb hc) n in if h = 0 then (None, hc) else hc_GetHeader e h n hc)"

fun hashes_loop ::
  "('t, 'r, 'err) hcEnv \<Rightarrow> nat \<Rightarrow> header \<Rightarrow> hash list \<Rightarrow> headerChain \<Rightarrow> hash list \<times> headerChain"
where
  "hashes_loop e 0 x acc hc = (acc, hc)"
| "hashes_loop e (Suc k) x acc hc =
     (case hc_GetHeader e (ParentHash x) (number_of x - 1) hc of
        (None, hc1) \<Rightarrow> (acc, hc1)
      | (Some y, hc1) \<Rightarrow>
          if h_number y = 0 then (acc @ [ParentHash x], hc1) else hashes_loop e k y (acc @ [ParentHash x]) hc1)"

definition GetBlockHashesFromHash ::
  "('t, 'r, 'err) hcEnv \<Rightarrow> hash \<Rightarrow> uint64 \<Rightarrow> headerChain \<Rightarrow> hash list \<times> headerChain"
where
  "GetBlockHashesFromHash e h limit hc =
     (case hc_GetHeaderByHash e h hc of
        (None, hc1) \<Rightarrow> ([], hc1)
      | (Some x, hc1) \<Rightarrow> hashes_loop e (unat limit) x [] hc1)"

definition SetCurrentHeader :: "('t, 'r, 'err) hcEnv \<Rightarrow> header \<Rightarrow> headerChain \<Rightarrow> headerChain" where
  "SetCurrentHeader e x hc =
     hc\<lparr>chainDb := WriteHeadHeaderHash (hashOf (hc_db e) x) (chainDb hc), currentHeader := Some x,
        currentHeaderHash := hashOf (hc_db e) x\<rparr>"

definition SetGenesis :: "header \<Rightarrow> headerChain \<Rightarrow> headerChain" where
  "SetGenesis x hc = hc\<lparr>genesisHeader := Some x\<rparr>"

definition NewHeaderChain :: "('t, 'r, 'err) hcEnv \<Rightarrow> chaindb \<Rightarrow> 'err hc_error + headerChain" where
  "NewHeaderChain e db =
     (let hc0 = \<lparr>chainDb = db, genesisHeader = None, currentHeader = None, currentHeaderHash = 0,
                 headerCache = [], tdCache = [], numberCache = []\<rparr>
      in case hc_GetHeaderByNumber e 0 hc0 of
           (None, _) \<Rightarrow> Inl HcNoGenesis
         | (Some g, hc1) \<Rightarrow>
             let head = GetHeadBlockHash db;
                 (cur, hc2) = (if head \<noteq> 0
                               then case hc_GetHeaderByHash e head hc1 of (Some x, hc) \<Rightarrow> (x, hc) | (None, hc) \<Rightarrow> (g, hc)
                               else (g, hc1))
             in Inr (hc2\<lparr>genesisHeader := Some g, currentHeader := Some cur, currentHeaderHash := hashOf (hc_db e) cur\<rparr>))"

section \<open>Writing a header\<close>

text \<open>Deleting the canonical numbers above the new head ends, for each turn removes one.\<close>

function delete_above :: "uint64 \<Rightarrow> chaindb \<Rightarrow> chaindb" where
  "delete_above i db =
     (if GetCanonicalHash db i = 0 then db else delete_above (i + 1) (DeleteCanonicalHash i db))"
  by pat_completeness auto
termination
proof (relation "measure (\<lambda>(i, db). card {n. GetCanonicalHash db n \<noteq> 0})")
  fix i db assume "GetCanonicalHash db i \<noteq> 0"
  then have "{n. GetCanonicalHash (DeleteCanonicalHash i db) n \<noteq> 0} \<subset> {n. GetCanonicalHash db n \<noteq> 0}" by auto
  then have "card {n. GetCanonicalHash (DeleteCanonicalHash i db) n \<noteq> 0} < card {n. GetCanonicalHash db n \<noteq> 0}"
    by (intro psubset_card_mono) simp_all
  then show "((i + 1, DeleteCanonicalHash i db), (i, db)) \<in> measure (\<lambda>(i, db). card {n. GetCanonicalHash db n \<noteq> 0})"
    by simp
qed simp

declare delete_above.simps [simp del]

partial_function (option) overwrite_canon ::
  "('t, 'r, 'err) hcEnv \<Rightarrow> hash \<Rightarrow> uint64 \<Rightarrow> header option \<Rightarrow> headerChain \<Rightarrow> headerChain option"
where
  "overwrite_canon e headHash headNumber headHeader hc =
     (if GetCanonicalHash (chainDb hc) headNumber = headHash then Some hc
      else case headHeader of
          None \<Rightarrow> None
        | Some x \<Rightarrow>
            (let hc1 = hc\<lparr>chainDb := WriteCanonicalHash headHash headNumber (chainDb hc)\<rparr>;
                 (next_header, hc2) = hc_GetHeader e (ParentHash x) (number_of x - 1) hc1
             in overwrite_canon e (ParentHash x) (number_of x - 1) next_header hc2))"

definition make_canonical :: "('t, 'r, 'err) hcEnv \<Rightarrow> header \<Rightarrow> headerChain \<Rightarrow> headerChain option" where
  "make_canonical e x hc = do {
     let n = number_of x;
     let hc1 = hc\<lparr>chainDb := delete_above (n + 1) (chainDb hc)\<rparr>;
     let (headHeader, hc2) = hc_GetHeader e (ParentHash x) (n - 1) hc1;
     hc3 \<leftarrow> overwrite_canon e (ParentHash x) (n - 1) headHeader hc2;
     let h = hashOf (hc_db e) x;
     Some (hc3\<lparr>chainDb := WriteHeadHeaderHash h (WriteCanonicalHash h n (chainDb hc3)),
               currentHeaderHash := h, currentHeader := Some x\<rparr>)
   }"

definition hc_WriteHeader ::
  "('t, 'r, 'err) hcEnv \<Rightarrow> bool \<Rightarrow> header \<Rightarrow> headerChain \<Rightarrow> (('err hc_error + WriteStatus) \<times> headerChain) option"
where
  "hc_WriteHeader e coin x hc =
     (let h = hashOf (hc_db e) x; n = number_of x
      in case hc_GetTd e (ParentHash x) (n - 1) hc of
           (None, hc1) \<Rightarrow> Some (Inl HcUnknownAncestor, hc1)
         | (Some ptd, hc1) \<Rightarrow> do {
             cur \<leftarrow> currentHeader hc1;
             let (local, hc2) = hc_GetTd e (currentHeaderHash hc1) (number_of cur) hc1;
             let externTd = h_difficulty x + ptd;
             hc3 \<leftarrow> hc_WriteTd e h n externTd hc2;
             db \<leftarrow> WriteHeader (hc_db e) x (chainDb hc3);
             let hc4 = hc3\<lparr>chainDb := db\<rparr>;
             localTd \<leftarrow> local;
             (status, hc5) \<leftarrow> (if localTd < externTd \<or> externTd = localTd \<and> coin
                             then map_option (Pair CanonStatTy) (make_canonical e x hc4)
                             else Some (SideStatTy, hc4));
             Some (Inr status, hc5\<lparr>headerCache := evict_header e (AList.update h x (headerCache hc5)),
                                   numberCache := evict_number e (AList.update h n (numberCache hc5))\<rparr>)
           })"

section \<open>Batches\<close>

definition header_contiguous :: "('t, 'r) dbEnv \<Rightarrow> header list \<Rightarrow> bool" where
  "header_contiguous d chain \<longleftrightarrow>
     (\<forall>i \<in> {1..<length chain}. number_of (chain ! i) = number_of (chain ! (i - 1)) + 1 \<and>
        ParentHash (chain ! i) = hashOf d (chain ! (i - 1)))"

fun seal_requests :: "nat \<Rightarrow> (nat \<Rightarrow> nat) \<Rightarrow> nat \<Rightarrow> bool list \<Rightarrow> bool list" where
  "seal_requests freq intn 0 seals = seals"
| "seal_requests freq intn (Suc i) seals =
     (let s = seal_requests freq intn i seals;
          k = i * freq + intn i
      in s[(if length s \<le> k then length s - 1 else k) := True])"

fun check_results ::
  "('t, 'r, 'err) hcEnv \<Rightarrow> (nat \<Rightarrow> bool) \<Rightarrow> nat \<Rightarrow> header list \<Rightarrow> 'err option list \<Rightarrow>
   (nat \<times> 'err hc_error option) option"
where
  "check_results e stopped i [] results = Some (0, None)"
| "check_results e stopped i (x # xs) results =
     (if stopped i then Some (0, Some HcAborted)
      else if BadHashes e (hashOf (hc_db e) x) then Some (i, Some HcBlacklisted)
      else case results of
          [] \<Rightarrow> None
        | Some err # rest \<Rightarrow> Some (i, Some (HcEngine err))
        | None # rest \<Rightarrow> check_results e stopped (Suc i) xs rest)"

definition ValidateHeaderChain ::
  "('t, 'r, 'err) hcEnv \<Rightarrow> (nat \<Rightarrow> nat) \<Rightarrow> (nat \<Rightarrow> bool) \<Rightarrow> header list \<Rightarrow> nat \<Rightarrow> (nat \<times> 'err hc_error option) option"
where
  "ValidateHeaderChain e intn stopped chain checkFreq =
     (if \<not> header_contiguous (hc_db e) chain then Some (0, Some HcNonContiguous)
      else if checkFreq = 0 \<or> chain = [] then None
      else let n = length chain;
               seals = (seal_requests checkFreq intn (n div checkFreq) (replicate n False))[n - 1 := True]
           in check_results e stopped 0 chain (engine_VerifyHeaders e chain seals))"

fun insert_headers ::
  "('t, 'r, 'err) hcEnv \<Rightarrow> (nat \<Rightarrow> bool) \<Rightarrow> (nat \<Rightarrow> bool) \<Rightarrow> nat \<Rightarrow> header list \<Rightarrow> headerChain \<Rightarrow>
   ((nat \<times> 'err hc_error option) \<times> headerChain) option"
where
  "insert_headers e stopped coin i [] hc = Some ((0, None), hc)"
| "insert_headers e stopped coin i (x # xs) hc =
     (if stopped i then Some ((i, Some HcAborted), hc)
      else if HasHeader (hashOf (hc_db e) x) (number_of x) hc then insert_headers e stopped coin (Suc i) xs hc
      else case hc_WriteHeader e (coin i) x hc of
          None \<Rightarrow> None
        | Some (Inl err, hc1) \<Rightarrow> Some ((i, Some err), hc1)
        | Some (Inr status, hc1) \<Rightarrow> insert_headers e stopped coin (Suc i) xs hc1)"

definition InsertHeaderChain ::
  "('t, 'r, 'err) hcEnv \<Rightarrow> (nat \<Rightarrow> bool) \<Rightarrow> (nat \<Rightarrow> bool) \<Rightarrow> header list \<Rightarrow> headerChain \<Rightarrow>
   ((nat \<times> 'err hc_error option) \<times> headerChain) option"
where
  "InsertHeaderChain e stopped coin chain hc =
     (case insert_headers e stopped coin 0 chain hc of
        Some ((k, None), hc1) \<Rightarrow> if chain = [] then None else Some ((k, None), hc1)
      | r \<Rightarrow> r)"

section \<open>Rewinding\<close>

partial_function (option) rewind_loop ::
  "('t, 'r, 'err) hcEnv \<Rightarrow> (hash \<Rightarrow> uint64 \<Rightarrow> chaindb \<Rightarrow> chaindb) \<Rightarrow> uint64 \<Rightarrow> headerChain \<Rightarrow> headerChain option"
where
  "rewind_loop e delFn head hc =
     (case currentHeader hc of
        None \<Rightarrow> Some hc
      | Some x \<Rightarrow>
          if number_of x \<le> head then Some hc
          else (let h = hashOf (hc_db e) x; n = number_of x;
                    db = DeleteTd h n (DeleteHeader h n (delFn h n (chainDb hc)));
                    (par, hc1) = hc_GetHeader e (ParentHash x) (n - 1) (hc\<lparr>chainDb := db\<rparr>)
                in rewind_loop e delFn head (hc1\<lparr>currentHeader := par\<rparr>)))"

definition delete_down :: "uint64 \<Rightarrow> uint64 \<Rightarrow> chaindb \<Rightarrow> chaindb" where
  "delete_down height head db = fold (\<lambda>i. DeleteCanonicalHash (of_nat i)) (rev [Suc (unat head)..<Suc (unat height)]) db"

definition SetHead ::
  "('t, 'r, 'err) hcEnv \<Rightarrow> (hash \<Rightarrow> uint64 \<Rightarrow> chaindb \<Rightarrow> chaindb) \<Rightarrow> uint64 \<Rightarrow> headerChain \<Rightarrow> headerChain option"
where
  "SetHead e delFn head hc = do {
     let height = (case currentHeader hc of Some x \<Rightarrow> number_of x | None \<Rightarrow> 0);
     hc1 \<leftarrow> rewind_loop e delFn head hc;
     cur \<leftarrow> (case currentHeader hc1 of Some x \<Rightarrow> Some x | None \<Rightarrow> genesisHeader hc1);
     let h = hashOf (hc_db e) cur;
     Some (hc1\<lparr>chainDb := WriteHeadHeaderHash h (delete_down height head (chainDb hc1)),
               headerCache := [], tdCache := [], numberCache := [],
               currentHeader := Some cur, currentHeaderHash := h\<rparr>)
   }"

end
