(* ===== verification/HeaderChainProps.thy ===== *)
theory HeaderChainProps
  imports HeaderChain
begin

text \<open>
  The header chain keeps its canonical numbering on the line of ancestors of its head, and its head
  on the heaviest header it knows. The headers concerned are the members of a set \<open>U\<close> whose hashes are
  distinct and non-zero and whose numbers follow their parents' (what the consensus engine checks).
\<close>

section \<open>Hypotheses\<close>

abbreviation hh :: "('t, 'r, 'err) hcEnv \<Rightarrow> header \<Rightarrow> hash" where
  "hh e x \<equiv> hashOf (hc_db e) x"

definition drops :: "(('k, 'v) gomap \<Rightarrow> ('k, 'v) gomap) \<Rightarrow> bool" where
  "drops evict \<longleftrightarrow> (\<forall>m k v. map_of (evict m) k = Some v \<longrightarrow> map_of m k = Some v)"

definition hcEnv_ok :: "('t, 'r, 'err) hcEnv \<Rightarrow> bool" where
  "hcEnv_ok e \<longleftrightarrow> rlp_ok (hc_db e) \<and> (\<forall>td \<ge> 0. rlp_td (hc_db e) td \<noteq> None) \<and>
     drops (evict_header e) \<and> drops (evict_td e) \<and> drops (evict_number e)"

definition headers_ok :: "('t, 'r, 'err) hcEnv \<Rightarrow> header set \<Rightarrow> bool" where
  "headers_ok e U \<longleftrightarrow> inj_on (hh e) U \<and>
     (\<forall>x \<in> U. hh e x \<noteq> 0 \<and> 0 \<le> h_number x \<and> h_number x < 2 ^ 63 \<and> 0 \<le> h_difficulty x \<and> rlp_header (hc_db e) x \<noteq> None) \<and>
     (\<forall>x \<in> U. \<forall>y \<in> U. ParentHash x = hh e y \<longrightarrow> h_number x = h_number y + 1)"

section \<open>Invariant\<close>

definition stored :: "('t, 'r, 'err) hcEnv \<Rightarrow> chaindb \<Rightarrow> header \<Rightarrow> bool" where
  "stored e db x \<longleftrightarrow> GetHeader (hc_db e) db (hh e x) (number_of x) = Some x"

definition td_of :: "('t, 'r, 'err) hcEnv \<Rightarrow> chaindb \<Rightarrow> header \<Rightarrow> bigint option" where
  "td_of e db x = GetTd (hc_db e) db (hh e x) (number_of x)"

definition hdb_ok :: "('t, 'r, 'err) hcEnv \<Rightarrow> header set \<Rightarrow> header \<Rightarrow> chaindb \<Rightarrow> bool" where
  "hdb_ok e U g db \<longleftrightarrow>
     (\<forall>h n x. GetHeader (hc_db e) db h n = Some x \<longrightarrow> x \<in> U \<and> h = hh e x \<and> n = number_of x) \<and>
     (\<forall>h n td. GetTd (hc_db e) db h n = Some td \<longrightarrow> (\<exists>x. stored e db x \<and> h = hh e x \<and> n = number_of x)) \<and>
     stored e db g \<and> h_number g = 0 \<and>
     (\<forall>x. stored e db x \<longrightarrow> (\<exists>td \<ge> 0. td_of e db x = Some td)) \<and>
     (\<forall>x. stored e db x \<and> x \<noteq> g \<longrightarrow>
        (\<exists>p td. stored e db p \<and> ParentHash x = hh e p \<and> td_of e db p = Some td \<and> td_of e db x = Some (h_difficulty x + td)))"

definition hcache_ok :: "('t, 'r, 'err) hcEnv \<Rightarrow> headerChain \<Rightarrow> bool" where
  "hcache_ok e hc \<longleftrightarrow>
     (\<forall>h x. map_of (headerCache hc) h = Some x \<longrightarrow> stored e (chainDb hc) x \<and> h = hh e x) \<and>
     (\<forall>h td. map_of (tdCache hc) h = Some td \<longrightarrow> (\<exists>x. stored e (chainDb hc) x \<and> h = hh e x \<and> td_of e (chainDb hc) x = Some td)) \<and>
     (\<forall>h n. map_of (numberCache hc) h = Some n \<longrightarrow> (\<exists>x. stored e (chainDb hc) x \<and> h = hh e x \<and> n = number_of x))"

definition link_at :: "('t, 'r, 'err) hcEnv \<Rightarrow> chaindb \<Rightarrow> (uint64 \<Rightarrow> hash) \<Rightarrow> uint64 \<Rightarrow> bool" where
  "link_at e db c n \<longleftrightarrow> (\<exists>x. stored e db x \<and> hh e x = c n \<and> number_of x = n \<and> ParentHash x = c (n - 1))"

definition line_ok :: "('t, 'r, 'err) hcEnv \<Rightarrow> header \<Rightarrow> header \<Rightarrow> chaindb \<Rightarrow> bool" where
  "line_ok e g cur db \<longleftrightarrow> (let c = GetCanonicalHash db in
     c 0 = hh e g \<and> c (number_of cur) = hh e cur \<and> (\<forall>n. c n \<noteq> 0 \<longleftrightarrow> n \<le> number_of cur) \<and>
     (\<forall>n. 0 < n \<and> c n \<noteq> 0 \<longrightarrow> link_at e db c n))"

definition heaviest :: "('t, 'r, 'err) hcEnv \<Rightarrow> header \<Rightarrow> chaindb \<Rightarrow> bool" where
  "heaviest e cur db \<longleftrightarrow> (\<forall>x. stored e db x \<longrightarrow> the (td_of e db x) \<le> the (td_of e db cur))"

definition hc_inv :: "('t, 'r, 'err) hcEnv \<Rightarrow> header set \<Rightarrow> header \<Rightarrow> header \<Rightarrow> headerChain \<Rightarrow> bool" where
  "hc_inv e U g cur hc \<longleftrightarrow> genesisHeader hc = Some g \<and> currentHeader hc = Some cur \<and> currentHeaderHash hc = hh e cur \<and>
     stored e (chainDb hc) cur \<and> hdb_ok e U g (chainDb hc) \<and> hcache_ok e hc \<and> line_ok e g cur (chainDb hc)"

section \<open>Stored headers\<close>

lemma unat_bound: "unat (k :: uint64) < 2 ^ 64"
  by (rule order_less_le_trans [OF unsigned_less]) simp

lemma word_pred_less: "0 < n \<Longrightarrow> n - 1 < (n :: uint64)"
  using unat_minus_one [of n] by (cases "n = 0") (simp_all add: word_less_nat_alt)

lemma word_less_imp_le_pred: "n < k \<Longrightarrow> n \<le> k - (1 :: uint64)"
  using unat_minus_one [of k] by (cases "k = 0") (simp_all add: word_less_nat_alt word_le_nat_alt)

lemma stored_U: "hdb_ok e U g db \<Longrightarrow> stored e db x \<Longrightarrow> x \<in> U"
  unfolding hdb_ok_def stored_def by blast

lemma stored_inj: "headers_ok e U \<Longrightarrow> hdb_ok e U g db \<Longrightarrow> stored e db x \<Longrightarrow> y \<in> U \<Longrightarrow> hh e x = hh e y \<Longrightarrow> x = y"
  using stored_U [of e U g db x] by (auto simp: headers_ok_def dest: inj_onD)

lemma number_step:
  assumes "headers_ok e U" "x \<in> U" "p \<in> U" "ParentHash x = hh e p"
  shows "number_of x - 1 = number_of p" "number_of p < number_of x" "number_of x \<noteq> 0"
proof -
  have n: "h_number x = h_number p + 1" "0 \<le> h_number p" "h_number x < 2 ^ 63"
    using assms by (auto simp: headers_ok_def)
  then have u: "uint (number_of x) = h_number x" "uint (number_of p) = h_number p" by (simp_all add: uint_low64)
  have "number_of x = number_of p + 1" using n by (simp add: low64_def)
  then show "number_of x - 1 = number_of p" by simp
  show "number_of p < number_of x" using u n by (simp add: word_less_def)
  then show "number_of x \<noteq> 0" by auto
qed

lemma hash_nonzero: "headers_ok e U \<Longrightarrow> hdb_ok e U g db \<Longrightarrow> stored e db x \<Longrightarrow> hh e x \<noteq> 0"
  using stored_U [of e U g db x] by (auto simp: headers_ok_def)

lemma parent_stored:
  assumes "hdb_ok e U g db" "stored e db x" "x \<noteq> g"
  obtains p td where "stored e db p" "ParentHash x = hh e p" "td_of e db p = Some td" "td_of e db x = Some (h_difficulty x + td)"
  using assms unfolding hdb_ok_def by blast

section \<open>Lookups\<close>

lemma map_of_evict: "drops evict \<Longrightarrow> map_of (evict (AList.update k v m)) k' = Some w \<Longrightarrow> k' = k \<and> w = v \<or> map_of m k' = Some w"
  unfolding drops_def by (metis (no_types, lifting) map_of_Cons_code(2) update_Some_unfold update_conv)

lemma hcache_add_header:
  assumes "hcEnv_ok e" "hcache_ok e hc" "stored e (chainDb hc) x"
  shows "hcache_ok e (hc\<lparr>headerCache := evict_header e (AList.update (hh e x) x (headerCache hc))\<rparr>)"
proof -
  have "drops (evict_header e)" using assms(1) by (simp add: hcEnv_ok_def)
  note ev = map_of_evict [OF this]
  show ?thesis using assms(2,3) unfolding hcache_ok_def by (auto dest: ev)
qed

lemma hcache_add_td:
  assumes "hcEnv_ok e" "hcache_ok e hc" "stored e (chainDb hc) x" "td_of e (chainDb hc) x = Some td"
  shows "hcache_ok e (hc\<lparr>tdCache := evict_td e (AList.update (hh e x) td (tdCache hc))\<rparr>)"
proof -
  have "drops (evict_td e)" using assms(1) by (simp add: hcEnv_ok_def)
  note ev = map_of_evict [OF this]
  show ?thesis using assms(2-4) unfolding hcache_ok_def by (auto dest: ev)
qed

lemma hcache_add_number:
  assumes "hcEnv_ok e" "hcache_ok e hc" "stored e (chainDb hc) x"
  shows "hcache_ok e (hc\<lparr>numberCache := evict_number e (AList.update (hh e x) (number_of x) (numberCache hc))\<rparr>)"
proof -
  have "drops (evict_number e)" using assms(1) by (simp add: hcEnv_ok_def)
  note ev = map_of_evict [OF this]
  show ?thesis using assms(2,3) unfolding hcache_ok_def by (auto dest: ev)
qed

lemma hcache_grow:
  assumes "hcache_ok e hc" "\<And>y. stored e (chainDb hc) y \<Longrightarrow> stored e db y \<and> td_of e db y = td_of e (chainDb hc) y"
  shows "hcache_ok e (hc\<lparr>chainDb := db\<rparr>)"
  using assms(1) unfolding hcache_ok_def by (auto dest: assms(2)) (metis assms(2))+

lemma line_grow:
  assumes "line_ok e g cur db" "\<And>y. stored e db y \<Longrightarrow> stored e db' y" "GetCanonicalHash db' = GetCanonicalHash db"
  shows "line_ok e g cur db'"
  using assms unfolding line_ok_def link_at_def Let_def by metis

lemma hc_GetHeader_cases:
  assumes e: "hcEnv_ok e" and db: "hdb_ok e U g (chainDb hc)" and c: "hcache_ok e hc"
  obtains r m where "hc_GetHeader e h n hc = (r, hc\<lparr>headerCache := m\<rparr>)" "hcache_ok e (hc\<lparr>headerCache := m\<rparr>)"
    "\<And>x. r = Some x \<Longrightarrow> stored e (chainDb hc) x \<and> h = hh e x"
    "\<And>x. stored e (chainDb hc) x \<Longrightarrow> h = hh e x \<Longrightarrow> n = number_of x \<Longrightarrow> r \<noteq> None"
proof (cases "map_of (headerCache hc) h")
  case (Some x)
  then show ?thesis using that [of "Some x" "headerCache hc"] c by (simp add: hc_GetHeader_def hcache_ok_def)
next
  case cache: None
  show ?thesis
  proof (cases "GetHeader (hc_db e) (chainDb hc) h n")
    case None
    then show ?thesis using c cache by (intro that [of None "headerCache hc"]) (auto simp: hc_GetHeader_def stored_def)
  next
    case (Some x)
    then have x: "stored e (chainDb hc) x" "h = hh e x" using db unfolding hdb_ok_def stored_def by metis+
    show ?thesis
    proof (rule that)
      show "hc_GetHeader e h n hc = (Some x, hc\<lparr>headerCache := evict_header e (AList.update h x (headerCache hc))\<rparr>)"
        using cache Some by (simp add: hc_GetHeader_def)
    qed (use x hcache_add_header [OF e c x(1)] in auto)
  qed
qed

lemma hc_GetHeader_stored:
  assumes "hcEnv_ok e" "headers_ok e U" "hdb_ok e U g (chainDb hc)" "hcache_ok e hc" "stored e (chainDb hc) p"
  obtains m where "hc_GetHeader e (hh e p) (number_of p) hc = (Some p, hc\<lparr>headerCache := m\<rparr>)"
    "hcache_ok e (hc\<lparr>headerCache := m\<rparr>)"
proof (rule hc_GetHeader_cases [OF assms(1,3,4), of "hh e p" "number_of p"])
  fix r m
  assume r: "hc_GetHeader e (hh e p) (number_of p) hc = (r, hc\<lparr>headerCache := m\<rparr>)" "hcache_ok e (hc\<lparr>headerCache := m\<rparr>)"
    and s: "\<And>x. r = Some x \<Longrightarrow> stored e (chainDb hc) x \<and> hh e p = hh e x"
    and n: "\<And>x. stored e (chainDb hc) x \<Longrightarrow> hh e p = hh e x \<Longrightarrow> number_of p = number_of x \<Longrightarrow> r \<noteq> None"
  obtain x where x: "r = Some x" using n [OF assms(5)] by auto
  then have "x = p" using s stored_inj [OF assms(2,3) _ stored_U [OF assms(3,5)]] by metis
  then show thesis using that r x by simp
qed

lemma hc_GetTd_cases:
  assumes e: "hcEnv_ok e" and db: "hdb_ok e U g (chainDb hc)" and c: "hcache_ok e hc"
  obtains r m where "hc_GetTd e h n hc = (r, hc\<lparr>tdCache := m\<rparr>)" "hcache_ok e (hc\<lparr>tdCache := m\<rparr>)"
    "\<And>td. r = Some td \<Longrightarrow> \<exists>x. stored e (chainDb hc) x \<and> h = hh e x \<and> td_of e (chainDb hc) x = Some td"
    "\<And>x. stored e (chainDb hc) x \<Longrightarrow> h = hh e x \<Longrightarrow> n = number_of x \<Longrightarrow> r \<noteq> None"
proof (cases "map_of (tdCache hc) h")
  case (Some td)
  then show ?thesis using that [of "Some td" "tdCache hc"] c by (simp add: hc_GetTd_def hcache_ok_def)
next
  case cache: None
  show ?thesis
  proof (cases "GetTd (hc_db e) (chainDb hc) h n")
    case None
    have "GetTd (hc_db e) (chainDb hc) h n \<noteq> None" if "stored e (chainDb hc) x" "h = hh e x" "n = number_of x" for x
      using db that unfolding hdb_ok_def td_of_def by fastforce
    with None have "\<not> (stored e (chainDb hc) x \<and> h = hh e x \<and> n = number_of x)" for x by blast
    then show ?thesis using c cache None by (intro that [of None "tdCache hc"]) (auto simp: hc_GetTd_def)
  next
    case (Some td)
    then obtain x where x: "stored e (chainDb hc) x" "h = hh e x" "n = number_of x" using db unfolding hdb_ok_def by metis
    then have t: "td_of e (chainDb hc) x = Some td" using Some by (simp add: td_of_def)
    show ?thesis
    proof (rule that)
      show "hc_GetTd e h n hc = (Some td, hc\<lparr>tdCache := evict_td e (AList.update h td (tdCache hc))\<rparr>)"
        using cache Some by (simp add: hc_GetTd_def)
    qed (use x t hcache_add_td [OF e c x(1) t] in auto)
  qed
qed

section \<open>The canonical line\<close>

lemma delete_above_reads [simp]:
  "GetHeader d (delete_above i db) = GetHeader d db"
  "GetTd d (delete_above i db) = GetTd d db"
  by (induction i db rule: delete_above.induct; subst delete_above.simps; simp)+

lemma delete_above_canon:
  assumes "\<forall>n \<ge> i. GetCanonicalHash db n \<noteq> 0 \<longleftrightarrow> n \<le> m" "unat m < 2 ^ 63"
  shows "GetCanonicalHash (delete_above i db) n = (if i \<le> n then 0 else GetCanonicalHash db n)"
  using assms(1)
proof (induction i db rule: delete_above.induct)
  case (1 i db)
  show ?case
  proof (cases "GetCanonicalHash db i = 0")
    case True
    then have "m < i" using 1(2) by (metis not_le order_refl)
    then have "GetCanonicalHash db n = 0" if "i \<le> n" using 1(2) that by (meson leD le_less_trans less_le_trans)
    then show ?thesis using True by (simp add: delete_above.simps)
  next
    case False
    then have "i \<le> m" using 1(2) by blast
    then have "unat i < 2 ^ 63" using assms(2) by (simp add: word_le_nat_alt)
    then have s: "i + 1 \<le> k \<longleftrightarrow> i < k" for k :: uint64 by (simp add: word_less_nat_alt unat_arith_simps Suc_le_eq)
    have "\<forall>n \<ge> i + 1. GetCanonicalHash (DeleteCanonicalHash i db) n \<noteq> 0 \<longleftrightarrow> n \<le> m"
      using 1(2) s by auto
    from 1(1) [OF False this] show ?thesis
      using False s by (subst delete_above.simps) (auto simp: le_less)
  qed
qed

lemma link_cong: "GetHeader (hc_db e) db = GetHeader (hc_db e) db' \<Longrightarrow> c n = c' n \<Longrightarrow> c (n - 1) = c' (n - 1) \<Longrightarrow>
  link_at e db c n = link_at e db' c' n"
  by (simp add: link_at_def stored_def)

text \<open>A number on the line has all smaller numbers on the line below it.\<close>

lemma line_closed:
  assumes u: "headers_ok e U" and db: "hdb_ok e U g db"
    and l: "\<forall>n. 0 < n \<and> n \<le> k \<and> c n \<noteq> 0 \<longrightarrow> link_at e db c n" and k: "c k \<noteq> 0" and n: "n \<le> k"
  shows "c n \<noteq> 0"
proof -
  have "c (of_nat (unat n)) \<noteq> 0"
  proof (rule inc_induct [of "unat n" "unat k" "\<lambda>m. c (of_nat m) \<noteq> 0"])
    fix m assume m: "m < unat k" and c: "c (of_nat (Suc m)) \<noteq> 0"
    define N :: uint64 where "N = of_nat (Suc m)"
    have "Suc m < 2 ^ 64" using m unat_bound [of k] by simp
    then have "unat N = Suc m" by (simp add: N_def unat_of_nat take_bit_nat_eq_self del: of_nat_Suc)
    then have N: "0 < N" "N \<le> k" using m by (simp_all add: word_less_nat_alt word_le_nat_alt)
    then obtain x where x: "stored e db x" "number_of x = N" "ParentHash x = c (N - 1)"
      using l c unfolding link_at_def N_def by blast
    have "number_of g = 0" using db by (simp add: hdb_ok_def low64_def)
    then have "x \<noteq> g" using x(2) N(1) by auto
    then obtain p where "stored e db p" "ParentHash x = hh e p" using db x(1) by (metis parent_stored)
    then have "c (N - 1) \<noteq> 0" using hash_nonzero [OF u db] x(3) by simp
    then show "c (of_nat m) \<noteq> 0" by (simp add: N_def)
  qed (use n k in \<open>simp_all add: word_le_nat_alt\<close>)
  then show ?thesis by simp
qed

text \<open>Overwriting stale numbers ends where the new branch leaves the old one.\<close>

lemma overwrite_canon_ok:
  assumes e: "hcEnv_ok e" and u: "headers_ok e U"
  shows "hdb_ok e U g (chainDb hc) \<Longrightarrow> hcache_ok e hc \<Longrightarrow> stored e (chainDb hc) y \<Longrightarrow>
    \<forall>n. 0 < n \<and> n \<le> number_of y \<and> GetCanonicalHash (chainDb hc) n \<noteq> 0 \<longrightarrow> link_at e (chainDb hc) (GetCanonicalHash (chainDb hc)) n \<Longrightarrow>
    GetCanonicalHash (chainDb hc) 0 = hh e g \<Longrightarrow>
    \<exists>db m. overwrite_canon e (hh e y) (number_of y) (Some y) hc = Some (hc\<lparr>chainDb := db, headerCache := m\<rparr>) \<and>
      hcache_ok e (hc\<lparr>chainDb := db, headerCache := m\<rparr>) \<and>
      GetHeader (hc_db e) db = GetHeader (hc_db e) (chainDb hc) \<and> GetTd (hc_db e) db = GetTd (hc_db e) (chainDb hc) \<and>
      (\<forall>n > number_of y. GetCanonicalHash db n = GetCanonicalHash (chainDb hc) n) \<and>
      GetCanonicalHash db (number_of y) = hh e y \<and> GetCanonicalHash db 0 = hh e g \<and>
      (\<forall>n. 0 < n \<and> n \<le> number_of y \<longrightarrow> link_at e db (GetCanonicalHash db) n)"
proof (induction "unat (number_of y)" arbitrary: y hc rule: less_induct)
  case less
  let ?c = "GetCanonicalHash (chainDb hc)" and ?n = "number_of y"
  note db = less.prems(1) and c = less.prems(2) and y = less.prems(3) and wl = less.prems(4) and c0 = less.prems(5)
  show ?case
  proof (cases "?c ?n = hh e y")
    case True
    have "?c n \<noteq> 0" if "n \<le> ?n" for n
      by (rule line_closed [OF u db wl]) (use True hash_nonzero [OF u db y] that in simp_all)
    then have "\<forall>n. 0 < n \<and> n \<le> ?n \<longrightarrow> link_at e (chainDb hc) ?c n" using wl by blast
    then show ?thesis using True c c0
      by (intro exI [of _ "chainDb hc"] exI [of _ "headerCache hc"]) (simp add: overwrite_canon.simps)
  next
    case False
    have g0: "number_of g = 0" using db by (simp add: hdb_ok_def low64_def)
    then have "y \<noteq> g" using False c0 by auto
    then obtain p where p: "stored e (chainDb hc) p" "ParentHash y = hh e p" using db y by (metis parent_stored)
    note U = stored_U [OF db y] stored_U [OF db p(1)]
    note step = number_step [OF u U p(2)]
    define hc1 where "hc1 = hc\<lparr>chainDb := WriteCanonicalHash (hh e y) ?n (chainDb hc)\<rparr>"
    have r: "GetHeader (hc_db e) (chainDb hc1) = GetHeader (hc_db e) (chainDb hc)" "GetTd (hc_db e) (chainDb hc1) = GetTd (hc_db e) (chainDb hc)"
      "GetCanonicalHash (chainDb hc1) = ?c(?n := hh e y)" "tdCache hc1 = tdCache hc" "headerCache hc1 = headerCache hc"
      "numberCache hc1 = numberCache hc"
      by (simp_all add: hc1_def)
    have st: "stored e (chainDb hc1) = stored e (chainDb hc)" "td_of e (chainDb hc1) = td_of e (chainDb hc)"
      by (simp_all add: stored_def td_of_def r fun_eq_iff)
    have db1: "hdb_ok e U g (chainDb hc1)" using db by (simp add: hdb_ok_def st r)
    have c1: "hcache_ok e hc1" using c by (simp add: hcache_ok_def st r)
    obtain m where q: "hc_GetHeader e (hh e p) (number_of p) hc1 = (Some p, hc1\<lparr>headerCache := m\<rparr>)"
      "hcache_ok e (hc1\<lparr>headerCache := m\<rparr>)"
      by (rule hc_GetHeader_stored [OF e u db1 c1, of p]) (use p(1) st in simp_all)
    have eq: "overwrite_canon e (hh e y) ?n (Some y) hc = overwrite_canon e (hh e p) (number_of p) (Some p) (hc1\<lparr>headerCache := m\<rparr>)"
      using False q(1) p(2) step(1) by (subst overwrite_canon.simps) (simp add: Let_def hc1_def)
    have "\<exists>db m'. overwrite_canon e (hh e p) (number_of p) (Some p) (hc1\<lparr>headerCache := m\<rparr>) = Some ((hc1\<lparr>headerCache := m\<rparr>)\<lparr>chainDb := db, headerCache := m'\<rparr>) \<and>
      hcache_ok e ((hc1\<lparr>headerCache := m\<rparr>)\<lparr>chainDb := db, headerCache := m'\<rparr>) \<and>
      GetHeader (hc_db e) db = GetHeader (hc_db e) (chainDb (hc1\<lparr>headerCache := m\<rparr>)) \<and> GetTd (hc_db e) db = GetTd (hc_db e) (chainDb (hc1\<lparr>headerCache := m\<rparr>)) \<and>
      (\<forall>n > number_of p. GetCanonicalHash db n = GetCanonicalHash (chainDb (hc1\<lparr>headerCache := m\<rparr>)) n) \<and>
      GetCanonicalHash db (number_of p) = hh e p \<and> GetCanonicalHash db 0 = hh e g \<and>
      (\<forall>n. 0 < n \<and> n \<le> number_of p \<longrightarrow> link_at e db (GetCanonicalHash db) n)"
    proof (rule less.hyps)
      show "unat (number_of p) < unat ?n" using step(2) by (simp add: word_less_nat_alt)
      show "GetCanonicalHash (chainDb (hc1\<lparr>headerCache := m\<rparr>)) 0 = hh e g" using c0 step(3) r by simp
      show "\<forall>n. 0 < n \<and> n \<le> number_of p \<and> GetCanonicalHash (chainDb (hc1\<lparr>headerCache := m\<rparr>)) n \<noteq> 0 \<longrightarrow>
        link_at e (chainDb (hc1\<lparr>headerCache := m\<rparr>)) (GetCanonicalHash (chainDb (hc1\<lparr>headerCache := m\<rparr>))) n"
      proof (intro allI impI)
        fix n assume n: "0 < n \<and> n \<le> number_of p \<and> GetCanonicalHash (chainDb (hc1\<lparr>headerCache := m\<rparr>)) n \<noteq> 0"
        then have "n < ?n" using step(2) by (meson le_less_trans)
        then have ne: "n \<noteq> ?n" "n - 1 \<noteq> ?n" using n by (auto dest: word_pred_less)
        then have "link_at e (chainDb hc) ?c n" using wl n \<open>n < ?n\<close> r(3) by simp
        then show "link_at e (chainDb (hc1\<lparr>headerCache := m\<rparr>)) (GetCanonicalHash (chainDb (hc1\<lparr>headerCache := m\<rparr>))) n"
          using ne r by (simp add: link_at_def st)
      qed
    qed (use db1 q(2) p(1) st in simp_all)
    then obtain db m' where R: "overwrite_canon e (hh e p) (number_of p) (Some p) (hc1\<lparr>headerCache := m\<rparr>) = Some (hc\<lparr>chainDb := db, headerCache := m'\<rparr>)"
      "hcache_ok e (hc\<lparr>chainDb := db, headerCache := m'\<rparr>)" "GetHeader (hc_db e) db = GetHeader (hc_db e) (chainDb hc)"
      "GetTd (hc_db e) db = GetTd (hc_db e) (chainDb hc)" "\<forall>n > number_of p. GetCanonicalHash db n = (?c(?n := hh e y)) n"
      "GetCanonicalHash db (number_of p) = hh e p" "GetCanonicalHash db 0 = hh e g"
      "\<forall>n. 0 < n \<and> n \<le> number_of p \<longrightarrow> link_at e db (GetCanonicalHash db) n"
      by (auto simp: r hc1_def)
    have top: "GetCanonicalHash db ?n = hh e y" using R(5) step(2) by simp
    have "stored e db y" using y R(3) by (simp add: stored_def)
    then have "link_at e db (GetCanonicalHash db) ?n" using top R(6) p(2) step(1) by (auto simp: link_at_def)
    moreover have "n \<le> number_of p" if "n \<le> ?n" "n \<noteq> ?n" for n
    proof -
      have "n < ?n" using that by simp
      then have "n \<le> ?n - 1" by (rule word_less_imp_le_pred)
      then show ?thesis using step(1) by simp
    qed
    ultimately have "\<forall>n. 0 < n \<and> n \<le> ?n \<longrightarrow> link_at e db (GetCanonicalHash db) n" using R(8) by metis
    moreover have "\<forall>n > ?n. GetCanonicalHash db n = ?c n" using R(5) step(2) by auto
    ultimately show ?thesis using eq R top by (intro exI [of _ db] exI [of _ m']) simp
  qed
qed

lemma same_headers:
  assumes "GetHeader (hc_db e) db' = GetHeader (hc_db e) db" "GetTd (hc_db e) db' = GetTd (hc_db e) db"
  shows "stored e db' = stored e db" "td_of e db' = td_of e db" "hdb_ok e U g db' = hdb_ok e U g db" "link_at e db' = link_at e db"
  using assms by (simp_all add: stored_def td_of_def hdb_ok_def link_at_def fun_eq_iff)

lemma number_bound: "headers_ok e U \<Longrightarrow> x \<in> U \<Longrightarrow> unat (number_of x) < 2 ^ 63"
proof -
  assume "headers_ok e U" "x \<in> U"
  then have "0 \<le> h_number x" "h_number x < 2 ^ 63" by (auto simp: headers_ok_def)
  then have "uint (number_of x) < 2 ^ 63" by (simp add: uint_low64)
  then show ?thesis by (simp flip: nat_uint_eq add: nat_less_iff)
qed

lemma word_succ_le: "unat (n :: uint64) < 2 ^ 63 \<Longrightarrow> n + 1 \<le> k \<longleftrightarrow> n < k"
  by (simp add: word_less_nat_alt unat_arith_simps Suc_le_eq)

lemma line_extended:
  assumes u: "headers_ok e U" and db: "hdb_ok e U g db" and x: "stored e db x" and p: "stored e db p" "ParentHash x = hh e p"
    and above: "\<forall>k > number_of x. c k = 0" and at: "c (number_of p) = hh e p" "c 0 = hh e g"
    and below: "\<forall>k. 0 < k \<and> k \<le> number_of p \<longrightarrow> link_at e db c k"
    and c: "GetCanonicalHash db = c(number_of x := hh e x)"
  shows "line_ok e g x db"
proof -
  note step = number_step [OF u stored_U [OF db x] stored_U [OF db p(1)] p(2)]
  let ?c = "c(number_of x := hh e x)"
  have le: "k < number_of x \<longleftrightarrow> k \<le> number_of p" for k
    using word_less_imp_le_pred [of k "number_of x"] step(1,2) by (auto intro: le_less_trans)
  have link: "link_at e db ?c k" if "0 < k" "k \<le> number_of x" for k
  proof (cases "k = number_of x")
    case True
    have "?c (number_of p) = hh e p" using less_imp_neq [OF step(2)] at(1) by simp
    then show ?thesis using x p(2) True step(1) unfolding link_at_def by (intro exI [of _ x]) simp
  next
    case False
    then have k: "k < number_of x" using that(2) by simp
    then have "link_at e db c k" using below that(1) le by blast
    moreover have "k - 1 \<noteq> number_of x" using less_trans [OF word_pred_less [OF that(1)] k] by (rule less_imp_neq)
    ultimately show ?thesis using False by (simp add: link_at_def)
  qed
  have "?c k \<noteq> 0" if "k \<le> number_of x" for k
  proof (cases "k = 0")
    case True
    have "stored e db g" using db by (simp add: hdb_ok_def)
    then show ?thesis using True at(2) hash_nonzero [OF u db] x by simp
  next
    case False
    then have "0 < k" by (simp add: word_gt_0)
    from link [OF this that] show ?thesis using hash_nonzero [OF u db] unfolding link_at_def by metis
  qed
  moreover have "?c k = 0" if "\<not> k \<le> number_of x" for k
  proof -
    have k: "number_of x < k" using that by simp
    then have "k \<noteq> number_of x" by (rule less_imp_neq [THEN not_sym])
    then show ?thesis using above k by simp
  qed
  ultimately have nz: "?c k \<noteq> 0 \<longleftrightarrow> k \<le> number_of x" for k by blast
  show ?thesis unfolding line_ok_def Let_def c using link nz at(2) step(3) by simp
qed

lemma make_canonical_ok:
  assumes e: "hcEnv_ok e" and u: "headers_ok e U" and db: "hdb_ok e U g (chainDb hc)" and c: "hcache_ok e hc"
    and x: "stored e (chainDb hc) x" and p: "stored e (chainDb hc) p" "ParentHash x = hh e p"
    and cur: "stored e (chainDb hc) cur" and line: "line_ok e g cur (chainDb hc)" and g: "genesisHeader hc = Some g"
  obtains hc' where "make_canonical e x hc = Some hc'" "hc_inv e U g x hc'"
    "stored e (chainDb hc') = stored e (chainDb hc)" "td_of e (chainDb hc') = td_of e (chainDb hc)"
proof -
  let ?n = "number_of x" and ?c = "GetCanonicalHash (chainDb hc)"
  note U = stored_U [OF db x] stored_U [OF db p(1)] stored_U [OF db cur]
  note step = number_step [OF u U(1,2) p(2)]
  have L: "?c 0 = hh e g" "\<And>k. ?c k \<noteq> 0 \<longleftrightarrow> k \<le> number_of cur" "\<And>k. 0 < k \<Longrightarrow> ?c k \<noteq> 0 \<Longrightarrow> link_at e (chainDb hc) ?c k"
    using line by (simp_all add: line_ok_def Let_def)
  define hc1 where "hc1 = hc\<lparr>chainDb := delete_above (?n + 1) (chainDb hc)\<rparr>"
  have d: "GetCanonicalHash (chainDb hc1) k = (if ?n < k then 0 else ?c k)" for k
    using delete_above_canon [of "?n + 1" "chainDb hc" "number_of cur" k] L(2) number_bound [OF u U(3)]
      word_succ_le [OF number_bound [OF u U(1)]] by (simp add: hc1_def)
  have r1: "GetHeader (hc_db e) (chainDb hc1) = GetHeader (hc_db e) (chainDb hc)" "GetTd (hc_db e) (chainDb hc1) = GetTd (hc_db e) (chainDb hc)"
    by (simp_all add: hc1_def)
  note s1 = same_headers [OF r1]
  have c1: "hcache_ok e hc1" using c s1 by (simp add: hcache_ok_def hc1_def)
  obtain m where m: "hc_GetHeader e (hh e p) (number_of p) hc1 = (Some p, hc1\<lparr>headerCache := m\<rparr>)" "hcache_ok e (hc1\<lparr>headerCache := m\<rparr>)"
    by (rule hc_GetHeader_stored [OF e u _ c1, of g p]) (use db p(1) s1 in simp_all)
  define hc2 where "hc2 = hc1\<lparr>headerCache := m\<rparr>"
  have db2: "chainDb hc2 = chainDb hc1" by (simp add: hc2_def)
  have "\<exists>db' m'. overwrite_canon e (hh e p) (number_of p) (Some p) hc2 = Some (hc2\<lparr>chainDb := db', headerCache := m'\<rparr>) \<and>
      hcache_ok e (hc2\<lparr>chainDb := db', headerCache := m'\<rparr>) \<and>
      GetHeader (hc_db e) db' = GetHeader (hc_db e) (chainDb hc2) \<and> GetTd (hc_db e) db' = GetTd (hc_db e) (chainDb hc2) \<and>
      (\<forall>n > number_of p. GetCanonicalHash db' n = GetCanonicalHash (chainDb hc2) n) \<and>
      GetCanonicalHash db' (number_of p) = hh e p \<and> GetCanonicalHash db' 0 = hh e g \<and>
      (\<forall>n. 0 < n \<and> n \<le> number_of p \<longrightarrow> link_at e db' (GetCanonicalHash db') n)"
  proof (rule overwrite_canon_ok [OF e u])
    show "\<forall>n. 0 < n \<and> n \<le> number_of p \<and> GetCanonicalHash (chainDb hc2) n \<noteq> 0 \<longrightarrow> link_at e (chainDb hc2) (GetCanonicalHash (chainDb hc2)) n"
    proof (intro allI impI)
      fix k assume k: "0 < k \<and> k \<le> number_of p \<and> GetCanonicalHash (chainDb hc2) k \<noteq> 0"
      then have "k < ?n" using step(2) by (meson le_less_trans)
      moreover have "k - 1 < k" using k word_pred_less by blast
      ultimately have "\<not> ?n < k" "\<not> ?n < k - 1" by (simp_all add: not_less less_imp_le)
      then have "GetCanonicalHash (chainDb hc2) k = ?c k" "GetCanonicalHash (chainDb hc2) (k - 1) = ?c (k - 1)" using d by (simp_all add: db2)
      then show "link_at e (chainDb hc2) (GetCanonicalHash (chainDb hc2)) k"
        using L(3) [of k] k s1(1) by (simp add: link_at_def db2)
    qed
    show "GetCanonicalHash (chainDb hc2) 0 = hh e g" using d [of 0] L(1) by (simp add: db2)
  qed (use db p(1) s1 m(2) in \<open>simp_all add: hc2_def\<close>)
  then obtain db' m' where R: "overwrite_canon e (hh e p) (number_of p) (Some p) hc2 = Some (hc2\<lparr>chainDb := db', headerCache := m'\<rparr>)"
      "hcache_ok e (hc2\<lparr>chainDb := db', headerCache := m'\<rparr>)"
      "GetHeader (hc_db e) db' = GetHeader (hc_db e) (chainDb hc)" "GetTd (hc_db e) db' = GetTd (hc_db e) (chainDb hc)"
      "\<forall>n > number_of p. GetCanonicalHash db' n = (if ?n < n then 0 else ?c n)"
      "GetCanonicalHash db' (number_of p) = hh e p" "GetCanonicalHash db' 0 = hh e g"
      "\<forall>n. 0 < n \<and> n \<le> number_of p \<longrightarrow> link_at e db' (GetCanonicalHash db') n"
    using r1 d by (auto simp: db2)
  note s2 = same_headers [OF R(3,4)]
  define db3 where "db3 = WriteHeadHeaderHash (hh e x) (WriteCanonicalHash (hh e x) ?n db')"
  define hc3 where "hc3 = hc2\<lparr>chainDb := db3, headerCache := m', currentHeaderHash := hh e x, currentHeader := Some x\<rparr>"
  have r3: "GetHeader (hc_db e) db3 = GetHeader (hc_db e) (chainDb hc)" "GetTd (hc_db e) db3 = GetTd (hc_db e) (chainDb hc)"
    "GetCanonicalHash db3 = (GetCanonicalHash db')(?n := hh e x)" using R by (simp_all add: db3_def)
  note s3 = same_headers [OF r3(1,2)]
  have "make_canonical e x hc = Some hc3"
    using m(1) R(1) p(2) step(1) by (simp add: make_canonical_def Let_def hc1_def hc2_def hc3_def db3_def)
  moreover have "hcache_ok e hc3" using R(2) s2 s3 by (simp add: hcache_ok_def hc3_def)
  moreover have "line_ok e g x db3"
    by (rule line_extended [OF u _ _ _ p(2), where c = "GetCanonicalHash db'"])
      (use db x p(1) s2 s3 r3(3) R(5-8) step(2) in \<open>auto intro: less_trans\<close>)
  ultimately show thesis
    using that [of hc3] db x g s3 by (simp add: hc_inv_def hc3_def hc2_def hc1_def)
qed

section \<open>Writing a header\<close>

text \<open>The header and its total difficulty in the database.\<close>

lemma stored_written:
  assumes e: "hcEnv_ok e" and u: "headers_ok e U" and db: "hdb_ok e U g db" and x: "x \<in> U"
    and p: "stored e db p" "ParentHash x = hh e p" "td_of e db p = Some ptd"
    and w: "WriteTd (hc_db e) (hh e x) (number_of x) (h_difficulty x + ptd) db = Some db1" "WriteHeader (hc_db e) x db1 = Some db2"
  shows "stored e db2 y \<longleftrightarrow> y = x \<or> stored e db y" "td_of e db2 x = Some (h_difficulty x + ptd)"
    "stored e db y \<Longrightarrow> td_of e db2 y = td_of e db y" "GetCanonicalHash db2 = GetCanonicalHash db"
    "hdb_ok e U g db2"
proof -
  have ok: "rlp_ok (hc_db e)" using e by (simp add: hcEnv_ok_def)
  note t = read_WriteTd [OF ok w(1)] and h = read_WriteHeader [OF ok w(2)]
  have inj: "y = x" if "stored e db y" "hh e y = hh e x" for y using stored_inj [OF u db that(1) x that(2)] .
  have G: "GetHeader (hc_db e) db2 a n = (if a = hh e x \<and> n = number_of x then Some x else GetHeader (hc_db e) db a n)" for a n
    by (simp add: h t)
  have T: "GetTd (hc_db e) db2 a n = (if a = hh e x \<and> n = number_of x then Some (h_difficulty x + ptd) else GetTd (hc_db e) db a n)" for a n
    by (simp add: h t)
  show S: "stored e db2 y \<longleftrightarrow> y = x \<or> stored e db y" for y using inj [of y] G by (auto simp: stored_def)
  show tx: "td_of e db2 x = Some (h_difficulty x + ptd)" using T by (simp add: td_of_def)
  show "GetCanonicalHash db2 = GetCanonicalHash db" by (simp add: h t)
  have xg: "x \<noteq> g"
  proof
    assume "x = g"
    then have "number_of x = 0" using db by (simp add: hdb_ok_def low64_def)
    then show False using number_step(3) [OF u x stored_U [OF db p(1)] p(2)] by simp
  qed
  show T': "td_of e db2 y = td_of e db y" if y: "stored e db y" for y
  proof (cases "y = x")
    case True
    obtain q td where q: "stored e db q" "ParentHash x = hh e q" "td_of e db q = Some td" "td_of e db x = Some (h_difficulty x + td)"
      using parent_stored [OF db] y True xg by metis
    then have "q = p" using stored_inj [OF u db _ stored_U [OF db p(1)]] p(2) by metis
    then show ?thesis using q p(3) tx True by simp
  next
    case False
    then show ?thesis using T inj [OF y] by (auto simp: td_of_def)
  qed
  have nn: "0 \<le> h_difficulty x" using u x by (auto simp: headers_ok_def)
  have "0 \<le> ptd" using db p(1,3) unfolding hdb_ok_def by fastforce
  then have "\<exists>td \<ge> 0. td_of e db2 y = Some td" if "stored e db2 y" for y
    using that S [of y] tx T' [of y] db nn unfolding hdb_ok_def by (metis add_nonneg_nonneg)
  moreover have "\<exists>q td. stored e db2 q \<and> ParentHash y = hh e q \<and> td_of e db2 q = Some td \<and> td_of e db2 y = Some (h_difficulty y + td)"
    if "stored e db2 y" "y \<noteq> g" for y
  proof (cases "stored e db y")
    case True
    then show ?thesis using parent_stored [OF db True that(2)] S T' by metis
  next
    case False
    then have "y = x" using S that(1) by simp
    then show ?thesis using p S T' tx by metis
  qed
  moreover have "\<exists>y. stored e db2 y \<and> a = hh e y \<and> n = number_of y" if "GetTd (hc_db e) db2 a n = Some td" for a n td
    using that T S db unfolding hdb_ok_def by (metis (no_types, lifting))
  moreover have "y \<in> U \<and> a = hh e y \<and> n = number_of y" if "GetHeader (hc_db e) db2 a n = Some y" for a n y
    using that G x db unfolding hdb_ok_def by (metis (no_types, lifting) option.inject)
  ultimately show "hdb_ok e U g db2" using S db unfolding hdb_ok_def by blast
qed

text \<open>A known parent makes the header stored, an unknown one an error; the head moves to heavier headers only.\<close>

lemma unknown_parent:
  assumes "headers_ok e U" "hdb_ok e U g db" "x \<in> U"
    and "\<And>p. stored e db p \<Longrightarrow> ParentHash x = hh e p \<Longrightarrow> number_of x - 1 = number_of p \<Longrightarrow> False"
  shows "\<not> (\<exists>p. stored e db p \<and> ParentHash x = hh e p)"
  using assms number_step(1) [OF assms(1,3)] stored_U [OF assms(2)] by blast

lemma heaviest_head:
  assumes "heaviest e cur db" "td_of e db cur = Some local" "stored e db cur"
    and "\<And>y. stored e db2 y \<longleftrightarrow> y = x \<or> stored e db y" "\<And>y. stored e db y \<Longrightarrow> td_of e db2 y = td_of e db y"
    and "td_of e db2 x = Some ext"
  shows "local \<le> ext \<Longrightarrow> heaviest e x db2" "ext \<le> local \<Longrightarrow> heaviest e cur db2"
  using assms unfolding heaviest_def by fastforce+

text \<open>The end of \<open>WriteHeader\<close>, once the header and its total difficulty are written.\<close>

lemma settle_head:
  assumes e: "hcEnv_ok e" and u: "headers_ok e U" and db: "hdb_ok e U g (chainDb hc)" and c: "hcache_ok e hc"
    and line: "line_ok e g cur (chainDb hc)" and st: "stored e (chainDb hc) x" "stored e (chainDb hc) p" "stored e (chainDb hc) cur"
    and p: "ParentHash x = hh e p"
    and I: "genesisHeader hc = Some g" "currentHeader hc = Some cur" "currentHeaderHash hc = hh e cur"
    and heavy: "canon \<Longrightarrow> heaviest e x (chainDb hc)" "\<not> canon \<Longrightarrow> heaviest e cur (chainDb hc)"
  obtains s hc' cur' where
    "(if canon then map_option (Pair CanonStatTy) (make_canonical e x hc) else Some (SideStatTy, hc)) = Some (s, hc')"
    "hc_inv e U g cur' hc'" "heaviest e cur' (chainDb hc')" "cur' = (if s = CanonStatTy then x else cur)"
    "stored e (chainDb hc') = stored e (chainDb hc)"
proof (cases canon)
  case True
  obtain hc5 where h5: "make_canonical e x hc = Some hc5" "hc_inv e U g x hc5" "stored e (chainDb hc5) = stored e (chainDb hc)"
      "td_of e (chainDb hc5) = td_of e (chainDb hc)"
    by (rule make_canonical_ok [OF e u _ c, of g x p cur]) (use db st line p I in simp_all)
  have "heaviest e x (chainDb hc5)" using heavy(1) True h5(3,4) by (auto simp: heaviest_def)
  then show thesis using that [of CanonStatTy hc5 x] True h5 by simp
next
  case False
  have "hc_inv e U g cur hc" using I c db line st by (simp add: hc_inv_def)
  then show thesis using that [of SideStatTy hc cur] False heavy(2) by simp
qed

lemma cached_head:
  assumes "hcEnv_ok e" "hc_inv e U g cur hc" "stored e (chainDb hc) x"
  shows "hc_inv e U g cur (hc\<lparr>headerCache := evict_header e (AList.update (hh e x) x (headerCache hc)),
    numberCache := evict_number e (AList.update (hh e x) (number_of x) (numberCache hc))\<rparr>)"
proof -
  have "hcache_ok e hc" using assms(2) by (simp add: hc_inv_def)
  then show ?thesis
    using hcache_add_number [OF assms(1) hcache_add_header [OF assms(1), of hc x], of x] assms(2,3) by (simp add: hc_inv_def)
qed

lemma hc_WriteHeader_ok:
  assumes e: "hcEnv_ok e" and u: "headers_ok e U" and inv: "hc_inv e U g cur hc" and w: "heaviest e cur (chainDb hc)" and x: "x \<in> U"
  shows "\<exists>r hc' cur'. hc_WriteHeader e coin x hc = Some (r, hc') \<and> hc_inv e U g cur' hc' \<and> heaviest e cur' (chainDb hc') \<and>
    (case r of Inl err \<Rightarrow> cur' = cur \<and> \<not> (\<exists>p. stored e (chainDb hc) p \<and> ParentHash x = hh e p)
     | Inr st \<Rightarrow> cur' = (if st = CanonStatTy then x else cur) \<and> (\<forall>y. stored e (chainDb hc') y \<longleftrightarrow> y = x \<or> stored e (chainDb hc) y))"
proof -
  let ?db = "chainDb hc" and ?h = "hh e x" and ?n = "number_of x"
  have I: "genesisHeader hc = Some g" "currentHeader hc = Some cur" "currentHeaderHash hc = hh e cur" "stored e ?db cur"
    "hdb_ok e U g ?db" "hcache_ok e hc" "line_ok e g cur ?db" using inv by (simp_all add: hc_inv_def)
  note db = I(5)
  obtain r m where r: "hc_GetTd e (ParentHash x) (?n - 1) hc = (r, hc\<lparr>tdCache := m\<rparr>)" "hcache_ok e (hc\<lparr>tdCache := m\<rparr>)"
    "\<And>td. r = Some td \<Longrightarrow> \<exists>y. stored e ?db y \<and> ParentHash x = hh e y \<and> td_of e ?db y = Some td"
    "\<And>y. stored e ?db y \<Longrightarrow> ParentHash x = hh e y \<Longrightarrow> ?n - 1 = number_of y \<Longrightarrow> r \<noteq> None"
    by (rule hc_GetTd_cases [OF e db I(6), of "ParentHash x" "?n - 1"]) blast
  show ?thesis
  proof (cases r)
    case None
    then have "\<not> (\<exists>p. stored e ?db p \<and> ParentHash x = hh e p)" using unknown_parent [OF u db x] r(4) by blast
    moreover have "hc_inv e U g cur (hc\<lparr>tdCache := m\<rparr>)" using inv r(2) by (simp add: hc_inv_def)
    ultimately show ?thesis using None r(1) w
      by (intro exI [of _ "Inl HcUnknownAncestor"] exI [of _ "hc\<lparr>tdCache := m\<rparr>"] exI [of _ cur]) (simp add: hc_WriteHeader_def Let_def)
  next
    case (Some ptd)
    then obtain p where p: "stored e ?db p" "ParentHash x = hh e p" "td_of e ?db p = Some ptd" using r(3) by blast
    define hc1 where "hc1 = hc\<lparr>tdCache := m\<rparr>"
    have db1: "chainDb hc1 = ?db" by (simp add: hc1_def)
    obtain l m2 where l: "hc_GetTd e (hh e cur) (number_of cur) hc1 = (l, hc1\<lparr>tdCache := m2\<rparr>)" "hcache_ok e (hc1\<lparr>tdCache := m2\<rparr>)"
      "\<And>td. l = Some td \<Longrightarrow> \<exists>y. stored e ?db y \<and> hh e cur = hh e y \<and> td_of e ?db y = Some td"
      "\<And>y. stored e ?db y \<Longrightarrow> hh e cur = hh e y \<Longrightarrow> number_of cur = number_of y \<Longrightarrow> l \<noteq> None"
      by (rule hc_GetTd_cases [OF e, of U g hc1 "hh e cur" "number_of cur"]) (use db r(2) in \<open>auto simp: db1 hc1_def\<close>)
    obtain local where loc: "l = Some local" using l(4) [OF I(4)] by auto
    then obtain y where "stored e ?db y" "hh e cur = hh e y" "td_of e ?db y = Some local" using l(3) by blast
    then have local: "td_of e ?db cur = Some local" using stored_inj [OF u db _ stored_U [OF db I(4)]] by metis
    let ?ext = "h_difficulty x + ptd"
    have "0 \<le> ptd" using db p(1,3) unfolding hdb_ok_def by fastforce
    then have "0 \<le> ?ext" using u x by (auto simp: headers_ok_def)
    then have "rlp_td (hc_db e) ?ext \<noteq> None" using e unfolding hcEnv_ok_def by blast
    then obtain dbt where dbt: "WriteTd (hc_db e) ?h ?n ?ext ?db = Some dbt" by (auto simp: WriteTd_def)
    have "rlp_header (hc_db e) x \<noteq> None" using u x by (auto simp: headers_ok_def)
    then obtain dbh where dbh: "WriteHeader (hc_db e) x dbt = Some dbh" by (auto simp: WriteHeader_def Let_def)
    note W = stored_written [OF e u db x p dbt dbh]
    define hc4 where "hc4 = hc1\<lparr>chainDb := dbh, tdCache := evict_td e (AList.update ?h ?ext m2)\<rparr>"
    have "hcache_ok e ((hc1\<lparr>tdCache := m2\<rparr>)\<lparr>chainDb := dbh\<rparr>)"
      by (rule hcache_grow [OF l(2)]) (use W in \<open>auto simp: db1\<close>)
    from hcache_add_td [OF e this, of x ?ext] have c4: "hcache_ok e hc4" using W(1,2) by (simp add: hc4_def)
    have line4: "line_ok e g cur dbh" by (rule line_grow [OF I(7)]) (use W in auto)
    have st4: "stored e dbh x" "stored e dbh p" "stored e dbh cur" using W(1) p(1) I(4) by simp_all
    note heavy = heaviest_head [OF w local I(4) W(1,3,2)]
    let ?canon = "local < ?ext \<or> ?ext = local \<and> coin"
    have run: "hc_WriteHeader e coin x hc = (case (if ?canon then map_option (Pair CanonStatTy) (make_canonical e x hc4) else Some (SideStatTy, hc4)) of
        None \<Rightarrow> None
      | Some (status, hc5) \<Rightarrow> Some (Inr status, hc5\<lparr>headerCache := evict_header e (AList.update ?h x (headerCache hc5)),
          numberCache := evict_number e (AList.update ?h ?n (numberCache hc5))\<rparr>))"
    proof -
      have "hc_WriteTd e ?h ?n ?ext (hc1\<lparr>tdCache := m2\<rparr>) = Some (hc4\<lparr>chainDb := dbt\<rparr>)"
        using dbt by (simp add: hc_WriteTd_def hc4_def hc1_def)
      moreover have "hc_GetTd e (ParentHash x) (?n - 1) hc = (Some ptd, hc1)" using r(1) Some by (simp add: hc1_def)
      moreover have "currentHeader hc1 = Some cur" "currentHeaderHash hc1 = hh e cur" using I by (simp_all add: hc1_def)
      moreover have "hc4\<lparr>chainDb := dbh\<rparr> = hc4" by (simp add: hc4_def)
      ultimately show ?thesis using l(1) loc dbh
        by (cases "make_canonical e x hc4") (simp_all add: hc_WriteHeader_def Let_def)
    qed
    have I4: "genesisHeader hc4 = Some g" "currentHeader hc4 = Some cur" "currentHeaderHash hc4 = hh e cur" "chainDb hc4 = dbh"
      using I by (simp_all add: hc4_def hc1_def)
    have d4: "hdb_ok e U g (chainDb hc4)" "line_ok e g cur (chainDb hc4)" "stored e (chainDb hc4) x" "stored e (chainDb hc4) p" "stored e (chainDb hc4) cur"
      unfolding I4(4) by (fact W(5) line4 st4)+
    have heavy4: "?canon \<Longrightarrow> heaviest e x (chainDb hc4)" "\<not> ?canon \<Longrightarrow> heaviest e cur (chainDb hc4)"
      using heavy by (auto simp: I4 not_less)
    obtain st hc5 cur' where five: "(if ?canon then map_option (Pair CanonStatTy) (make_canonical e x hc4) else Some (SideStatTy, hc4)) = Some (st, hc5)"
      "hc_inv e U g cur' hc5" "heaviest e cur' (chainDb hc5)" "cur' = (if st = CanonStatTy then x else cur)" "stored e (chainDb hc5) = stored e dbh"
      by (rule settle_head [OF e u d4(1) c4 d4(2-5) p(2) I4(1-3) heavy4, unfolded I4(4)])
    define hc6 where "hc6 = hc5\<lparr>headerCache := evict_header e (AList.update ?h x (headerCache hc5)),
          numberCache := evict_number e (AList.update ?h ?n (numberCache hc5))\<rparr>"
    have "hc_inv e U g cur' hc6" unfolding hc6_def by (rule cached_head [OF e five(2)]) (use st4(1) five(5) in simp)
    then show ?thesis using run five W(1)
      by (intro exI [of _ "Inr st"] exI [of _ hc6] exI [of _ cur']) (simp add: hc6_def)
  qed
qed

end
