(* ===== verification/GenesisBlock.thy ===== *)
theory GenesisBlock
  imports ChainDb
begin

text \<open>
  \<open>core/genesis.go\<close>: the first block and its place in the database. The state database is library code,
  given by the operations \<open>ToBlock\<close> and \<open>Commit\<close> call; the chain configuration keeps the fields
  \<open>SetupGenesisBlock\<close> fills in, the rest of it is a type parameter with its JSON codec. The RLP form of an
  absent difficulty is that of zero. \<open>None\<close> is a panic or an exit of the process.
\<close>

section \<open>Specification of a genesis block\<close>

record 'c chainConfig =
  FuxiBlock :: "bigint option"
  NuwaBlock :: "bigint option"
  PanguBlock :: "bigint option"
  DiffBombDefuse :: "bigint option"
  EnableClassicTx :: "bigint option"
  EnableFuxiPrecompiled :: "bigint option"
  cc_rest :: 'c

record GenesisAccount =
  ga_code :: "byte list"
  ga_storage :: "(hash, hash) gomap"
  ga_balance :: bigint
  ga_nonce :: uint64

record 'c Genesis =
  g_config :: "'c chainConfig option"
  g_nonce :: uint64
  g_timestamp :: uint64
  g_extraData :: "byte list"
  g_gasLimit :: uint64
  g_difficulty :: "bigint option"
  g_mixhash :: hash
  g_coinbase :: address
  g_alloc :: "(address, GenesisAccount) gomap"
  g_number :: uint64
  g_gasUsed :: uint64
  g_parentHash :: hash

record ('s, 't, 'r, 'c) genesisEnv =
  ge_db :: "('t, 'r) dbEnv"
  ge_newState :: 's
  ge_AddBalance :: "address \<Rightarrow> bigint \<Rightarrow> 's \<Rightarrow> 's"
  ge_SetCode :: "address \<Rightarrow> byte list \<Rightarrow> 's \<Rightarrow> 's"
  ge_SetNonce :: "address \<Rightarrow> uint64 \<Rightarrow> 's \<Rightarrow> 's"
  ge_SetState :: "address \<Rightarrow> hash \<Rightarrow> hash \<Rightarrow> 's \<Rightarrow> 's"
  ge_Root :: "'s \<Rightarrow> hash"
  ge_CommitTo :: "'s \<Rightarrow> chaindb \<Rightarrow> chaindb option"
  ge_EmptyUncleHash :: hash
  GenesisGasLimit :: bigint
  GenesisDifficulty :: bigint
  json_config :: "'c chainConfig \<Rightarrow> byte list option"
  unjson_config :: "byte list \<Rightarrow> 'c chainConfig option"
  MainnetGenesis :: "'c Genesis"
  MainnetGenesisHash :: hash
  TestnetGenesisHash :: hash
  MainnetChainConfig :: "'c chainConfig"
  TestnetChainConfig :: "'c chainConfig"
  AllProtocolChanges :: "'c chainConfig"
  CheckCompatible :: "'c chainConfig \<Rightarrow> 'c chainConfig \<Rightarrow> uint64 \<Rightarrow> uint64 option"

datatype genesis_error =
    errGenesisNoConfig | GenesisMismatch hash hash | GenesisNumber | GenesisState | GenesisEncode
  | ErrChainConfigNotFound | ConfigDecode | MissingHeadNumber | ConfigCompat uint64

section \<open>Building and committing\<close>

definition alloc_account :: "('s, 't, 'r, 'c) genesisEnv \<Rightarrow> address \<times> GenesisAccount \<Rightarrow> 's \<Rightarrow> 's" where
  "alloc_account e = (\<lambda>(a, acc) s.
     fold (\<lambda>(k, v). ge_SetState e a k v) (ga_storage acc)
       (ge_SetNonce e a (ga_nonce acc) (ge_SetCode e a (ga_code acc) (ge_AddBalance e a (ga_balance acc) s))))"

definition ToBlock :: "('s, 't, 'r, 'c) genesisEnv \<Rightarrow> 'c Genesis \<Rightarrow> header \<times> 's" where
  "ToBlock e g =
     (let s = fold (alloc_account e) (g_alloc g) (ge_newState e)
      in (\<lparr>ParentHash = g_parentHash g, UncleHash = ge_EmptyUncleHash e, h_coinbase = g_coinbase g, h_root = ge_Root e s,
           h_difficulty = (case g_difficulty g of None \<Rightarrow> GenesisDifficulty e | Some d \<Rightarrow> d),
           h_number = uint (g_number g),
           h_gasLimit = (if g_gasLimit g = 0 then GenesisGasLimit e else uint (g_gasLimit g)),
           h_gasUsed = uint (g_gasUsed g), h_time = uint (g_timestamp g), h_extra = g_extraData g,
           MixDigest = g_mixhash g, h_nonce = be_bytes 8 (uint (g_nonce g))\<rparr>, s))"

definition chainConfigPrefix :: "byte list" where
  "chainConfigPrefix = [101, 116, 104, 101, 114, 101, 117, 109, 45, 99, 111, 110, 102, 105, 103, 45]"

definition configKey :: "hash \<Rightarrow> byte list" where
  "configKey h = chainConfigPrefix @ hash_bytes h"

definition WriteChainConfig ::
  "('s, 't, 'r, 'c) genesisEnv \<Rightarrow> hash \<Rightarrow> 'c chainConfig option \<Rightarrow> chaindb \<Rightarrow> genesis_error option \<times> chaindb"
where
  "WriteChainConfig e h cfg db =
     (case cfg of
        None \<Rightarrow> (None, db)
      | Some c \<Rightarrow> (case json_config e c of None \<Rightarrow> (Some GenesisEncode, db) | Some d \<Rightarrow> (None, db(configKey h \<mapsto> d))))"

definition GetChainConfig :: "('s, 't, 'r, 'c) genesisEnv \<Rightarrow> chaindb \<Rightarrow> hash \<Rightarrow> genesis_error + 'c chainConfig" where
  "GetChainConfig e db h =
     (let d = get_data db (configKey h)
      in if d = [] then Inl ErrChainConfigNotFound
         else case unjson_config e d of None \<Rightarrow> Inl ConfigDecode | Some c \<Rightarrow> Inr c)"

definition write_genesis :: "('s, 't, 'r, 'c) genesisEnv \<Rightarrow> header \<Rightarrow> bigint \<Rightarrow> chaindb \<Rightarrow> chaindb option" where
  "write_genesis e x td db = do {
     let d = ge_db e;
     let h = hashOf d x;
     let n = low64 (h_number x);
     db1 \<leftarrow> WriteTd d h n td db;
     db2 \<leftarrow> WriteBlock d (x, [], []) db1;
     db3 \<leftarrow> WriteBlockReceipts d h n [] db2;
     Some (WriteHeadHeaderHash h (WriteHeadBlockHash h (WriteCanonicalHash h n db3)))
   }"

definition Commit ::
  "('s, 't, 'r, 'c) genesisEnv \<Rightarrow> 'c Genesis \<Rightarrow> chaindb \<Rightarrow> (header option \<times> genesis_error option) \<times> chaindb"
where
  "Commit e g db =
     (let (x, s) = ToBlock e g
      in if h_number x \<noteq> 0 then ((None, Some GenesisNumber), db)
         else case ge_CommitTo e s db of
             None \<Rightarrow> ((None, Some GenesisState), db)
           | Some db1 \<Rightarrow>
               (case write_genesis e x (case g_difficulty g of None \<Rightarrow> 0 | Some d \<Rightarrow> d) db1 of
                  None \<Rightarrow> ((None, Some GenesisEncode), db1)
                | Some db2 \<Rightarrow>
                    let cfg = (case g_config g of None \<Rightarrow> AllProtocolChanges e | Some c \<Rightarrow> c);
                        (err, db3) = WriteChainConfig e (hashOf (ge_db e) x) (Some cfg) db2
                    in ((Some x, err), db3)))"

definition MustCommit :: "('s, 't, 'r, 'c) genesisEnv \<Rightarrow> 'c Genesis \<Rightarrow> chaindb \<Rightarrow> (header option \<times> chaindb) option" where
  "MustCommit e g db = (case Commit e g db of ((x, None), db1) \<Rightarrow> Some (x, db1) | ((x, Some err), db1) \<Rightarrow> None)"

section \<open>Start-up\<close>

definition chain_config :: "('s, 't, 'r, 'c) genesisEnv \<Rightarrow> 'c Genesis option \<Rightarrow> hash \<Rightarrow> 'c chainConfig option" where
  "chain_config e genesis h =
     (case genesis of
        Some g \<Rightarrow> g_config g
      | None \<Rightarrow> Some (if h = MainnetGenesisHash e then MainnetChainConfig e
                      else if h = TestnetGenesisHash e then TestnetChainConfig e else AllProtocolChanges e))"

definition default_to :: "'a option \<Rightarrow> 'a option \<Rightarrow> 'a option" where
  "default_to d x = (if x = None then d else x)"

definition fill_config :: "'c chainConfig \<Rightarrow> 'c chainConfig \<Rightarrow> 'c chainConfig" where
  "fill_config d c = c\<lparr>FuxiBlock := default_to (FuxiBlock d) (FuxiBlock c), NuwaBlock := default_to (NuwaBlock d) (NuwaBlock c),
     PanguBlock := default_to (PanguBlock d) (PanguBlock c), DiffBombDefuse := default_to (DiffBombDefuse d) (DiffBombDefuse c),
     EnableClassicTx := default_to (EnableClassicTx d) (EnableClassicTx c),
     EnableFuxiPrecompiled := default_to (EnableFuxiPrecompiled d) (EnableFuxiPrecompiled c)\<rparr>"

text \<open>The result is the configuration, the hash and the error; \<open>block.Hash()\<close> of an absent block panics.\<close>

definition setup_fresh ::
  "('s, 't, 'r, 'c) genesisEnv \<Rightarrow> 'c Genesis \<Rightarrow> chaindb \<Rightarrow> (('c chainConfig option \<times> hash \<times> genesis_error option) \<times> chaindb) option"
where
  "setup_fresh e g db =
     (case Commit e g db of
        ((None, _), _) \<Rightarrow> None
      | ((Some x, err), db1) \<Rightarrow> Some ((g_config g, hashOf (ge_db e) x, err), db1))"

definition setup_existing ::
  "('s, 't, 'r, 'c) genesisEnv \<Rightarrow> 'c Genesis option \<Rightarrow> bool \<Rightarrow> hash \<Rightarrow> chaindb \<Rightarrow>
   (('c chainConfig option \<times> hash \<times> genesis_error option) \<times> chaindb) option"
where
  "setup_existing e genesis noCompatCheck h db =
     (let cfg = chain_config e genesis h
      in case GetChainConfig e db h of
           Inl ErrChainConfigNotFound \<Rightarrow> (let (err, db1) = WriteChainConfig e h cfg db in Some ((cfg, h, err), db1))
         | Inl err \<Rightarrow> Some ((cfg, h, Some err), db)
         | Inr old \<Rightarrow>
             if genesis = None \<and> h \<noteq> MainnetGenesisHash e
             then Some ((Some (fill_config (AllProtocolChanges e) old), h, None), db)
             else let height = GetBlockNumber db (GetHeadHeaderHash db)
                  in if \<not> noCompatCheck \<and> height = missingNumber then Some ((cfg, h, Some MissingHeadNumber), db)
                     else case cfg of
                         None \<Rightarrow> None
                       | Some new \<Rightarrow>
                           (case if noCompatCheck then None else CheckCompatible e old new height of
                              Some rewind \<Rightarrow>
                                if height \<noteq> 0 \<and> rewind \<noteq> 0 then Some ((cfg, h, Some (ConfigCompat rewind)), db)
                                else (let (err, db1) = WriteChainConfig e h cfg db in Some ((cfg, h, err), db1))
                            | None \<Rightarrow> (let (err, db1) = WriteChainConfig e h cfg db in Some ((cfg, h, err), db1))))"

definition SetupGenesisBlock ::
  "('s, 't, 'r, 'c) genesisEnv \<Rightarrow> 'c Genesis option \<Rightarrow> bool \<Rightarrow> chaindb \<Rightarrow>
   (('c chainConfig option \<times> hash \<times> genesis_error option) \<times> chaindb) option"
where
  "SetupGenesisBlock e genesis noCompatCheck db =
     (if (case genesis of Some g \<Rightarrow> g_config g = None | None \<Rightarrow> False)
      then Some ((Some (AllProtocolChanges e), 0, Some errGenesisNoConfig), db)
      else let h = GetCanonicalHash db 0
           in if h = 0 then setup_fresh e (case genesis of Some g \<Rightarrow> g | None \<Rightarrow> MainnetGenesis e) db
              else case genesis of
                  Some g \<Rightarrow>
                    let new = hashOf (ge_db e) (fst (ToBlock e g))
                    in if new \<noteq> h then Some ((g_config g, new, Some (GenesisMismatch h new)), db)
                       else setup_existing e genesis noCompatCheck h db
                | None \<Rightarrow> setup_existing e genesis noCompatCheck h db)"

end
