(* ===== verification/HeaderChainRun.thy ===== *)
theory HeaderChainRun
  imports HeaderChainProps GenesisBlock
begin

text \<open>
  The header chain from its start: the genesis block written by \<open>Commit\<close> gives a chain that satisfies
  the invariant, and every batch of headers keeps it. Rewinding with \<open>SetHead\<close> keeps the canonical line.
\<close>

section \<open>Start\<close>

definition fresh_db :: "('t, 'r) dbEnv \<Rightarrow> chaindb \<Rightarrow> bool" where
  "fresh_db d db \<longleftrightarrow> (\<forall>n. GetCanonicalHash db n = 0) \<and> (\<forall>h n. GetHeader d db h n = None) \<and> (\<forall>h n. GetTd d db h n = None)"

definition genesisEnv_ok :: "('s, 't, 'r, 'c) genesisEnv \<Rightarrow> bool" where
  "genesisEnv_ok ge \<longleftrightarrow> (\<forall>s db db' k. ge_CommitTo ge s db = Some db' \<longrightarrow> length k \<noteq> 32 \<longrightarrow> db' k = db k)"

lemma write_genesis_reads:
  assumes ok: "rlp_ok (ge_db ge)" and w: "write_genesis ge x td db = Some db'" and f: "fresh_db (ge_db ge) db"
    and n: "h_number x = 0"
  shows "GetHeader (ge_db ge) db' = (\<lambda>h n. if h = hashOf (ge_db ge) x \<and> n = 0 then Some x else None)"
    "GetTd (ge_db ge) db' = (\<lambda>h n. if h = hashOf (ge_db ge) x \<and> n = 0 then Some td else None)"
    "GetCanonicalHash db' = (\<lambda>n. if n = 0 then hashOf (ge_db ge) x else 0)"
    "GetBlockNumber db' (hashOf (ge_db ge) x) = 0" "GetHeadBlockHash db' = hashOf (ge_db ge) x"
proof -
  let ?d = "ge_db ge" and ?h = "hashOf (ge_db ge) x"
  have z: "low64 (h_number x) = 0" using n by (simp add: low64_def)
  obtain db1 db2 db3 where w1: "WriteTd ?d ?h 0 td db = Some db1" and w2: "WriteBlock ?d (x, [], []) db1 = Some db2"
    and w3: "WriteBlockReceipts ?d ?h 0 [] db2 = Some db3"
    and db': "db' = WriteHeadHeaderHash ?h (WriteHeadBlockHash ?h (WriteCanonicalHash ?h 0 db3))"
    using w by (auto simp: write_genesis_def Let_def z split: bind_splits)
  obtain b where w2': "WriteHeader ?d x (WriteBodyRLP ?h 0 b db1) = Some db2"
    using w2 by (auto simp: WriteBlock_def WriteBody_def z split: bind_splits)
  note r = read_WriteTd [OF ok w1] read_WriteHeader [OF ok w2'] read_WriteBlockReceipts [OF w3]
  have f': "GetHeader ?d db = (\<lambda>_ _. None)" "GetTd ?d db = (\<lambda>_ _. None)" "GetCanonicalHash db = (\<lambda>_. 0)"
    using f by (simp_all add: fresh_db_def fun_eq_iff)
  show "GetHeader ?d db' = (\<lambda>h n. if h = ?h \<and> n = 0 then Some x else None)"
    "GetTd ?d db' = (\<lambda>h n. if h = ?h \<and> n = 0 then Some td else None)"
    "GetCanonicalHash db' = (\<lambda>n. if n = 0 then ?h else 0)" "GetBlockNumber db' ?h = 0" "GetHeadBlockHash db' = ?h"
    by (simp_all add: db' r f' z fun_eq_iff)
qed

lemma NewHeaderChain_ok:
  assumes e: "hcEnv_ok e" and u: "headers_ok e U" and x: "x \<in> U" "h_number x = 0"
    and r: "GetHeader (hc_db e) db = (\<lambda>h n. if h = hh e x \<and> n = 0 then Some x else None)"
    "GetTd (hc_db e) db = (\<lambda>h n. if h = hh e x \<and> n = 0 then Some td else None)"
    "GetCanonicalHash db = (\<lambda>n. if n = 0 then hh e x else 0)"
    "GetBlockNumber db (hh e x) = 0" "GetHeadBlockHash db = hh e x" and td: "0 \<le> td"
  obtains hc where "NewHeaderChain e db = Inr hc" "hc_inv e U x x hc" "heaviest e x (chainDb hc)"
proof -
  have z: "number_of x = 0" using x(2) by (simp add: low64_def)
  have nz: "hh e x \<noteq> 0" using u x(1) by (auto simp: headers_ok_def)
  have st: "stored e db y \<longleftrightarrow> y = x" for y using z by (auto simp: stored_def r)
  have tx: "td_of e db x = Some td" using z by (simp add: td_of_def r)
  have db: "hdb_ok e U x db" using x td tx st z by (auto simp: hdb_ok_def r split: if_splits)
  have line: "line_ok e x x db" using nz z by (auto simp: line_ok_def Let_def r)
  define hc0 where "hc0 = \<lparr>chainDb = db, genesisHeader = None, currentHeader = None, currentHeaderHash = 0,
    headerCache = [], tdCache = [], numberCache = []\<rparr>"
  have c0: "hcache_ok e hc0" by (simp add: hcache_ok_def hc0_def)
  obtain m where m: "hc_GetHeader e (hh e x) (number_of x) hc0 = (Some x, hc0\<lparr>headerCache := m\<rparr>)" "hcache_ok e (hc0\<lparr>headerCache := m\<rparr>)"
    by (rule hc_GetHeader_stored [OF e u _ c0, of x x]) (use db st in \<open>simp_all add: hc0_def\<close>)
  define hc1 where "hc1 = hc0\<lparr>headerCache := m, numberCache := evict_number e (AList.update (hh e x) (number_of x) [])\<rparr>"
  have c1: "hcache_ok e hc1" using hcache_add_number [OF e m(2), of x] st by (simp add: hc1_def hc0_def)
  obtain m2 where m2: "hc_GetHeader e (hh e x) (number_of x) hc1 = (Some x, hc1\<lparr>headerCache := m2\<rparr>)" "hcache_ok e (hc1\<lparr>headerCache := m2\<rparr>)"
    by (rule hc_GetHeader_stored [OF e u _ c1, of x x]) (use db st in \<open>simp_all add: hc1_def hc0_def\<close>)
  have "hc_GetBlockNumber e (hh e x) (hc0\<lparr>headerCache := m\<rparr>) = (0, hc1)"
    using r(4) z by (simp add: hc_GetBlockNumber_def hc1_def hc0_def missingNumber_def)
  then have "hc_GetHeaderByHash e (hh e x) (hc0\<lparr>headerCache := m\<rparr>) = (Some x, hc1\<lparr>headerCache := m2\<rparr>)"
    using m2(1) z by (simp add: hc_GetHeaderByHash_def)
  moreover have "hc_GetHeaderByNumber e 0 hc0 = (Some x, hc0\<lparr>headerCache := m\<rparr>)"
    using m(1) nz z r(3) by (simp add: hc_GetHeaderByNumber_def Let_def hc0_def)
  ultimately have "NewHeaderChain e db = Inr (hc1\<lparr>headerCache := m2, genesisHeader := Some x, currentHeader := Some x, currentHeaderHash := hh e x\<rparr>)"
    using r(5) nz by (simp add: NewHeaderChain_def hc0_def Let_def)
  moreover have "hcache_ok e (hc1\<lparr>headerCache := m2, genesisHeader := Some x, currentHeader := Some x, currentHeaderHash := hh e x\<rparr>)"
    using m2(2) by (simp add: hcache_ok_def)
  ultimately show thesis
    using that db line st by (auto simp: hc_inv_def heaviest_def hc1_def hc0_def)
qed

lemma MustCommit_starts:
  assumes e: "hcEnv_ok e" and u: "headers_ok e U" and ge: "genesisEnv_ok ge" "hc_db e = ge_db ge" and f: "fresh_db (ge_db ge) db"
    and x: "x \<in> U" and c: "MustCommit ge spec db = Some (Some x, db1)"
  obtains hc where "NewHeaderChain e db1 = Inr hc" "hc_inv e U x x hc" "heaviest e x (chainDb hc)"
proof -
  let ?td = "case g_difficulty spec of None \<Rightarrow> 0 | Some d \<Rightarrow> d"
  obtain s where s: "ToBlock ge spec = (x, s)" "h_number x = 0"
    using c by (auto simp: MustCommit_def Commit_def Let_def split: prod.splits if_splits option.splits)
  obtain dbs dbg cfg err where dbs: "ge_CommitTo ge s db = Some dbs" and dbg: "write_genesis ge x ?td dbs = Some dbg"
    and cfg: "WriteChainConfig ge (hashOf (ge_db ge) x) (Some cfg) dbg = (err, db1)"
    using c s by (auto simp: MustCommit_def Commit_def Let_def split: prod.splits if_splits option.splits)
  have same: "dbs k = db k" if "length k \<in> {9, 10, 33, 41, 42}" for k
  proof -
    have "length k \<noteq> 32" using that by auto
    then show ?thesis using ge(1) dbs unfolding genesisEnv_ok_def by blast
  qed
  have "GetCanonicalHash dbs = GetCanonicalHash db" "GetHeader (ge_db ge) dbs = GetHeader (ge_db ge) db" "GetTd (ge_db ge) dbs = GetTd (ge_db ge) db"
    by (rule read_foreign_writes, rule same, assumption)+
  then have "fresh_db (ge_db ge) dbs" using f by (simp add: fresh_db_def)
  moreover have ok: "rlp_ok (ge_db ge)" using e ge(2) by (simp add: hcEnv_ok_def)
  ultimately have r: "GetHeader (ge_db ge) dbg = (\<lambda>h n. if h = hashOf (ge_db ge) x \<and> n = 0 then Some x else None)"
    "GetTd (ge_db ge) dbg = (\<lambda>h n. if h = hashOf (ge_db ge) x \<and> n = 0 then Some ?td else None)"
    "GetCanonicalHash dbg = (\<lambda>n. if n = 0 then hashOf (ge_db ge) x else 0)"
    "GetBlockNumber dbg (hashOf (ge_db ge) x) = 0" "GetHeadBlockHash dbg = hashOf (ge_db ge) x"
    using write_genesis_reads [OF _ dbg] s(2) by blast+
  have same1: "db1 k = dbg k" if "length k \<in> {9, 10, 33, 41, 42}" for k
  proof -
    have "length (configKey (hashOf (ge_db ge) x)) = 48" by (simp add: configKey_def chainConfigPrefix_def)
    then have "k \<noteq> configKey (hashOf (ge_db ge) x)" using that by auto
    then show ?thesis using cfg by (auto simp: WriteChainConfig_def split: option.splits)
  qed
  have r1: "GetHeader (ge_db ge) db1 = GetHeader (ge_db ge) dbg" "GetTd (ge_db ge) db1 = GetTd (ge_db ge) dbg"
    "GetCanonicalHash db1 = GetCanonicalHash dbg" "GetBlockNumber db1 = GetBlockNumber dbg" "GetHeadBlockHash db1 = GetHeadBlockHash dbg"
    by (rule read_foreign_writes, rule same1, assumption)+
  have "h_difficulty x = (case g_difficulty spec of None \<Rightarrow> GenesisDifficulty ge | Some d \<Rightarrow> d)"
    using s(1) by (auto simp: ToBlock_def Let_def)
  then have td: "0 \<le> ?td" using u x by (auto simp: headers_ok_def split: option.splits)
  show thesis
    by (rule NewHeaderChain_ok [OF e u x s(2), of db1 ?td, unfolded ge(2)]) (use r td that in \<open>simp_all add: r1\<close>)
qed

section \<open>Batches\<close>

definition chain_inv :: "('t, 'r, 'err) hcEnv \<Rightarrow> header set \<Rightarrow> header \<Rightarrow> headerChain \<Rightarrow> bool" where
  "chain_inv e U g hc \<longleftrightarrow> hcEnv_ok e \<and> headers_ok e U \<and> (\<exists>cur. hc_inv e U g cur hc \<and> heaviest e cur (chainDb hc))"

definition batch_event ::
  "('t, 'r, 'err) hcEnv \<Rightarrow> (nat \<Rightarrow> bool) \<times> (nat \<Rightarrow> bool) \<times> header list \<Rightarrow> headerChain \<Rightarrow> headerChain option"
where
  "batch_event e = (\<lambda>(stopped, coin, chain) hc. map_option snd (InsertHeaderChain e stopped coin chain hc))"

definition batch_adm :: "header set \<Rightarrow> (nat \<Rightarrow> bool) \<times> (nat \<Rightarrow> bool) \<times> header list \<Rightarrow> bool" where
  "batch_adm U = (\<lambda>(stopped, coin, chain). chain \<noteq> [] \<and> set chain \<subseteq> U)"

lemma insert_headers_inv:
  "chain_inv e U g hc \<Longrightarrow> set chain \<subseteq> U \<Longrightarrow> \<exists>r hc'. insert_headers e stopped coin i chain hc = Some (r, hc') \<and> chain_inv e U g hc'"
proof (induction chain arbitrary: i hc)
  case (Cons x chain)
  show ?case
  proof (cases "stopped i")
    case False
    show ?thesis
    proof (cases "HasHeader (hh e x) (number_of x) hc")
      case True
      then show ?thesis using Cons False by simp
    next
      case new: False
      obtain cur where inv: "hcEnv_ok e" "headers_ok e U" "hc_inv e U g cur hc" "heaviest e cur (chainDb hc)"
        using Cons.prems(1) by (auto simp: chain_inv_def)
      have "x \<in> U" using Cons.prems(2) by simp
      then obtain r hc1 cur' where w: "hc_WriteHeader e (coin i) x hc = Some (r, hc1)" "hc_inv e U g cur' hc1" "heaviest e cur' (chainDb hc1)"
        using hc_WriteHeader_ok [OF inv, of x "coin i"] by blast
      then have "chain_inv e U g hc1" using inv by (auto simp: chain_inv_def)
      then show ?thesis using Cons False new w(1) by (cases r) simp_all
    qed
  qed (use Cons.prems in simp)
qed simp

interpretation batches: event_system "batch_event e" "batch_adm U" "chain_inv e U g" for e U g
proof
  fix hc ev assume inv: "chain_inv e U g hc" and adm: "batch_adm U ev"
  obtain stopped coin chain where ev: "ev = (stopped, coin, chain)" by (cases ev) auto
  then have "chain \<noteq> []" and sub: "set chain \<subseteq> U" using adm by (simp_all add: batch_adm_def)
  obtain r hc' where r: "insert_headers e stopped coin 0 chain hc = Some (r, hc')" "chain_inv e U g hc'"
    using insert_headers_inv [OF inv sub] by blast
  have "InsertHeaderChain e stopped coin chain hc = Some (r, hc')"
    using r(1) \<open>chain \<noteq> []\<close> by (cases r; cases "snd r") (simp_all add: InsertHeaderChain_def)
  then show "\<exists>hc'. batch_event e ev hc = Some hc' \<and> chain_inv e U g hc'" using r(2) ev by (simp add: batch_event_def)
qed


section \<open>A small chain\<close>

text \<open>Headers whose hash is their root field; difficulties are coded in unary.\<close>

definition tiny_header :: "hash \<Rightarrow> hash \<Rightarrow> bigint \<Rightarrow> bigint \<Rightarrow> header" where
  "tiny_header par root num diff =
     \<lparr>ParentHash = par, UncleHash = 0, h_coinbase = 0, h_root = root, h_difficulty = diff, h_number = num,
      h_gasLimit = 0, h_gasUsed = 0, h_time = 0, h_extra = [], MixDigest = 0, h_nonce = be_bytes 8 0\<rparr>"

definition tiny_chain :: "header list" where
  "tiny_chain = [tiny_header 0 1 0 4, tiny_header 1 2 1 5, tiny_header 1 3 1 7, tiny_header 2 4 2 3]"

definition tiny_db :: "(unit, unit) dbEnv" where
  "tiny_db = \<lparr>hashOf = h_root, txHash = (\<lambda>_. 0),
     rlp_header = (\<lambda>x. if x \<in> set tiny_chain then Some (hash_bytes (h_root x)) else None),
     unrlp_header = (\<lambda>d. find (\<lambda>x. hash_bytes (h_root x) = d) tiny_chain),
     rlp_td = (\<lambda>td. if 0 \<le> td then Some (replicate (Suc (nat td)) 0) else None),
     unrlp_td = (\<lambda>d. Some (int (length d) - 1)),
     rlp_body = (\<lambda>b. if b = ([], []) then Some [0] else None), unrlp_body = (\<lambda>_. Some ([], [])),
     rlp_receipts = (\<lambda>r. if r = [] then Some [0] else None), unrlp_receipts = (\<lambda>_. Some []),
     rlp_lookup = (\<lambda>_. None), unrlp_lookup = (\<lambda>_. None), unrlp_tx = (\<lambda>_. None), unrlp_receipt = (\<lambda>_. ())\<rparr>"

definition tiny_env :: "(unit, unit, unit) hcEnv" where
  "tiny_env = \<lparr>hc_db = tiny_db, evict_header = (\<lambda>m. take 2 m), evict_td = (\<lambda>m. m), evict_number = (\<lambda>m. m),
     BadHashes = (\<lambda>_. False), engine_VerifyHeaders = (\<lambda>xs _. map (\<lambda>_. None) xs)\<rparr>"

definition tiny_config :: "unit chainConfig" where
  "tiny_config = \<lparr>FuxiBlock = None, NuwaBlock = None, PanguBlock = None, DiffBombDefuse = None, EnableClassicTx = None,
     EnableFuxiPrecompiled = None, cc_rest = ()\<rparr>"

definition tiny_genesis :: "unit Genesis" where
  "tiny_genesis = \<lparr>g_config = None, g_nonce = 0, g_timestamp = 0, g_extraData = [], g_gasLimit = 0, g_difficulty = Some 4,
     g_mixhash = 0, g_coinbase = 0, g_alloc = [], g_number = 0, g_gasUsed = 0, g_parentHash = 0\<rparr>"

definition tiny_genesisEnv :: "(unit, unit, unit, unit) genesisEnv" where
  "tiny_genesisEnv = \<lparr>ge_db = tiny_db, ge_newState = (), ge_AddBalance = (\<lambda>_ _ s. s), ge_SetCode = (\<lambda>_ _ s. s),
     ge_SetNonce = (\<lambda>_ _ s. s), ge_SetState = (\<lambda>_ _ _ s. s), ge_Root = (\<lambda>_. 1), ge_CommitTo = (\<lambda>_ db. Some db),
     ge_EmptyUncleHash = 0, GenesisGasLimit = 0, GenesisDifficulty = 4, json_config = (\<lambda>_. Some [0]), unjson_config = (\<lambda>_. None),
     MainnetGenesis = tiny_genesis, MainnetGenesisHash = 0, TestnetGenesisHash = 0, MainnetChainConfig = tiny_config,
     TestnetChainConfig = tiny_config, AllProtocolChanges = tiny_config, CheckCompatible = (\<lambda>_ _ _. None)\<rparr>"

lemma tiny_rlp: "rlp_ok tiny_db"
  by (auto simp: rlp_ok_def codec_ok_def tiny_db_def tiny_chain_def tiny_header_def split: if_splits)

lemma drops_take: "drops (take n)"
  unfolding drops_def by (metis append_take_drop_id map_add_find_right map_of_append)

lemma tiny_env_ok: "hcEnv_ok tiny_env"
proof -
  have "rlp_td tiny_db td \<noteq> None" if "0 \<le> td" for td using that by (simp add: tiny_db_def)
  then show ?thesis using tiny_rlp drops_take [of 2] by (simp add: hcEnv_ok_def tiny_env_def drops_def)
qed

lemma tiny_headers_ok: "headers_ok tiny_env (set tiny_chain)"
  by (auto simp: headers_ok_def tiny_env_def tiny_db_def tiny_chain_def tiny_header_def inj_on_def)

lemma tiny_fresh: "fresh_db tiny_db Map.empty"
  by (simp add: fresh_db_def read_defs get_data_def)

lemma tiny_commit: "\<exists>db1. MustCommit tiny_genesisEnv tiny_genesis Map.empty = Some (Some (tiny_header 0 1 0 4), db1)"
proof -
  have x: "ToBlock tiny_genesisEnv tiny_genesis = (tiny_header 0 1 0 4, ())"
    by (simp add: ToBlock_def tiny_genesisEnv_def tiny_genesis_def tiny_header_def)
  have "\<exists>db. write_genesis tiny_genesisEnv (tiny_header 0 1 0 4) 4 db0 = Some db" for db0
    by (simp add: write_genesis_def tiny_genesisEnv_def tiny_db_def WriteTd_def WriteBlock_def WriteBody_def WriteHeader_def
      WriteBlockReceipts_def tiny_chain_def Let_def)
  then obtain db where "write_genesis tiny_genesisEnv (tiny_header 0 1 0 4) 4 Map.empty = Some db" by blast
  moreover have "ge_CommitTo tiny_genesisEnv () Map.empty = Some Map.empty" "g_difficulty tiny_genesis = Some 4"
    "json_config tiny_genesisEnv = (\<lambda>_. Some [0])" "h_number (tiny_header 0 1 0 4) = 0"
    by (simp_all add: tiny_genesisEnv_def tiny_genesis_def tiny_header_def)
  ultimately show ?thesis using x by (simp add: MustCommit_def Commit_def WriteChainConfig_def)
qed


end
