(* ===== verification/HeaderChainRewind.thy ===== *)
theory HeaderChainRewind
  imports HeaderChainRun
begin

text \<open>
  Rewinding the header chain: \<open>SetHead\<close> leaves the canonical line up to the new head and nothing above it,
  and what it leaves behind of other branches.
\<close>

section \<open>The canonical numbers\<close>

lemma fold_delete_canon:
  "GetCanonicalHash (fold (\<lambda>i. DeleteCanonicalHash (of_nat i)) is db) n =
     (if n \<in> of_nat ` set is then 0 else GetCanonicalHash db n)"
  "GetHeader d (fold (\<lambda>i. DeleteCanonicalHash (of_nat i)) is db) = GetHeader d db"
  "GetTd d (fold (\<lambda>i. DeleteCanonicalHash (of_nat i)) is db) = GetTd d db"
  by (induction "is" arbitrary: db) auto

lemma delete_down_reads:
  "GetCanonicalHash (delete_down height head db) n = (if head < n \<and> n \<le> height then 0 else GetCanonicalHash db n)"
  "GetHeader d (delete_down height head db) = GetHeader d db" "GetTd d (delete_down height head db) = GetTd d db"
proof -
  have "n \<in> of_nat ` set [Suc (unat head)..<Suc (unat height)] \<longleftrightarrow> head < n \<and> n \<le> height"
  proof
    assume "n \<in> of_nat ` set [Suc (unat head)..<Suc (unat height)]"
    then obtain i where "n = of_nat i" "i \<in> set [Suc (unat head)..<Suc (unat height)]" by blast
    then have i: "n = of_nat i" "unat head < i" "i \<le> unat height" by (simp_all del: upt_Suc)
    have "i < 2 ^ 64" using i(3) unat_bound [of height] by linarith
    then have "unat n = i" using i(1) by (simp add: unat_of_nat take_bit_nat_eq_self)
    then show "head < n \<and> n \<le> height" using i by (simp add: word_less_nat_alt word_le_nat_alt)
  next
    assume "head < n \<and> n \<le> height"
    then have "unat n \<in> set [Suc (unat head)..<Suc (unat height)]" by (simp add: word_less_nat_alt word_le_nat_alt del: upt_Suc)
    then show "n \<in> of_nat ` set [Suc (unat head)..<Suc (unat height)]" by (intro image_eqI [where x = "unat n"]) simp_all
  qed
  then show "GetCanonicalHash (delete_down height head db) n = (if head < n \<and> n \<le> height then 0 else GetCanonicalHash db n)"
    by (simp add: delete_down_def fold_delete_canon del: upt_Suc)
  show "GetHeader d (delete_down height head db) = GetHeader d db" "GetTd d (delete_down height head db) = GetTd d db"
    by (simp_all add: delete_down_def fold_delete_canon)
qed

section \<open>The loop over the headers\<close>

definition keeps_chain :: "(hash \<Rightarrow> uint64 \<Rightarrow> chaindb \<Rightarrow> chaindb) \<Rightarrow> ('t, 'r) dbEnv \<Rightarrow> bool" where
  "keeps_chain delFn d \<longleftrightarrow> (\<forall>h n db. GetHeader d (delFn h n db) = GetHeader d db \<and> GetTd d (delFn h n db) = GetTd d db \<and>
     GetCanonicalHash (delFn h n db) = GetCanonicalHash db)"

text \<open>The database with the canonical headers from number \<open>lo\<close> (exclusive) to \<open>hi\<close> removed.\<close>

definition cut_to :: "('t, 'r) dbEnv \<Rightarrow> uint64 \<Rightarrow> uint64 \<Rightarrow> chaindb \<Rightarrow> chaindb \<Rightarrow> bool" where
  "cut_to d lo hi db0 db \<longleftrightarrow> GetCanonicalHash db = GetCanonicalHash db0 \<and>
     (\<forall>a n. GetHeader d db a n = (if lo < n \<and> n \<le> hi \<and> a = GetCanonicalHash db0 n then None else GetHeader d db0 a n))"

lemma cut_step:
  assumes c: "cut_to d k hi db0 db" and k: "k \<le> hi" "0 < k" and f: "keeps_chain delFn d"
    and h: "h = GetCanonicalHash db0 k"
  shows "cut_to d (k - 1) hi db0 (DeleteTd h k (DeleteHeader h k (delFn h k db)))"
proof -
  have s: "k - 1 < n \<longleftrightarrow> n = k \<or> k < n" for n
  proof -
    have "k \<noteq> 0" using k(2) by (rule less_imp_neq [THEN not_sym])
    then have u: "unat (k - 1) = unat k - 1" "0 < unat k" using k(2) by (simp_all add: unat_minus_one word_less_nat_alt)
    have "k - 1 < n \<longleftrightarrow> k \<le> n" unfolding word_less_nat_alt word_le_nat_alt u(1) using u(2) by linarith
    then show ?thesis by (metis le_less)
  qed
  have r: "GetHeader d (delFn h k db) = GetHeader d db" "GetCanonicalHash (delFn h k db) = GetCanonicalHash db"
    using f by (simp_all add: keeps_chain_def)
  have c': "GetCanonicalHash db = GetCanonicalHash db0"
    "GetHeader d db a n = (if k < n \<and> n \<le> hi \<and> a = GetCanonicalHash db0 n then None else GetHeader d db0 a n)" for a n
    using c by (simp_all add: cut_to_def)
  show ?thesis unfolding cut_to_def
  proof (intro conjI allI)
    fix a n
    show "GetHeader d (DeleteTd h k (DeleteHeader h k (delFn h k db))) a n =
      (if k - 1 < n \<and> n \<le> hi \<and> a = GetCanonicalHash db0 n then None else GetHeader d db0 a n)"
      using k(1) by (cases "n = k") (simp_all add: r c' s h [symmetric])
  qed (simp add: r c')
qed

lemma rewind_loop_ok:
  assumes e: "hcEnv_ok e" and u: "headers_ok e U" and db: "hdb_ok e U g db0" and line: "line_ok e g cur0 db0" and f: "keeps_chain delFn (hc_db e)"
  shows "hcache_ok e (hc\<lparr>chainDb := db0\<rparr>) \<Longrightarrow> currentHeader hc = Some x \<Longrightarrow> stored e db0 x \<Longrightarrow>
    hh e x = GetCanonicalHash db0 (number_of x) \<Longrightarrow> number_of x \<le> number_of cur0 \<Longrightarrow>
    cut_to (hc_db e) (number_of x) (number_of cur0) db0 (chainDb hc) \<Longrightarrow>
    \<exists>hc' y. rewind_loop e delFn head hc = Some hc' \<and> currentHeader hc' = Some y \<and> genesisHeader hc' = genesisHeader hc \<and> stored e db0 y \<and>
      hh e y = GetCanonicalHash db0 (number_of y) \<and> number_of y = min head (number_of x) \<and>
      cut_to (hc_db e) (number_of y) (number_of cur0) db0 (chainDb hc')"
proof (induction "unat (number_of x)" arbitrary: x hc rule: less_induct)
  case less
  let ?n = "number_of x" and ?c = "GetCanonicalHash db0"
  note c = less.prems(1) and cur = less.prems(2) and x = less.prems(3,4) and le = less.prems(5) and cut = less.prems(6)
  show ?case
  proof (cases "?n \<le> head")
    case True
    then show ?thesis using cur x cut by (subst rewind_loop.simps) (simp add: min_def)
  next
    case False
    then have lt: "head < ?n" by simp
    have n0: "0 < ?n" by (rule le_less_trans [OF word_zero_le lt])
    have "number_of g = 0" using db by (simp add: hdb_ok_def low64_def)
    then have "x \<noteq> g" using less_imp_neq [OF n0] by metis
    then obtain p where p: "stored e db0 p" "ParentHash x = hh e p" using db x(1) by (metis parent_stored)
    note U = stored_U [OF db x(1)] stored_U [OF db p(1)]
    note step = number_step [OF u U p(2)]
    have "link_at e db0 ?c ?n" using line n0 x(2) hash_nonzero [OF u db x(1)] by (simp add: line_ok_def Let_def)
    then obtain x' where x': "stored e db0 x'" "hh e x' = ?c ?n" "ParentHash x' = ?c (?n - 1)" unfolding link_at_def by blast
    then have "x' = x" using stored_inj [OF u db _ U(1)] x(2) by simp
    then have pc: "hh e p = ?c (number_of p)" using x'(3) p(2) step(1) by simp
    define db1 where "db1 = DeleteTd (hh e x) ?n (DeleteHeader (hh e x) ?n (delFn (hh e x) ?n (chainDb hc)))"
    have cut1: "cut_to (hc_db e) (number_of p) (number_of cur0) db0 db1"
      using cut_step [OF cut le n0 f x(2)] step(1) by (simp add: db1_def)
    obtain m where m: "hc_GetHeader e (hh e p) (number_of p) (hc\<lparr>chainDb := db1\<rparr>) = (Some p, hc\<lparr>chainDb := db1, headerCache := m\<rparr>)"
      "hcache_ok e (hc\<lparr>chainDb := db0, headerCache := m\<rparr>)"
    proof (cases "map_of (headerCache hc) (hh e p)")
      case None
      have "GetHeader (hc_db e) db1 (hh e p) (number_of p) = Some p" using cut1 p(1) by (simp add: cut_to_def stored_def)
      then have "hc_GetHeader e (hh e p) (number_of p) (hc\<lparr>chainDb := db1\<rparr>) =
        (Some p, hc\<lparr>chainDb := db1, headerCache := evict_header e (AList.update (hh e p) p (headerCache hc))\<rparr>)"
        using None by (simp add: hc_GetHeader_def)
      moreover have "hcache_ok e (hc\<lparr>chainDb := db0, headerCache := evict_header e (AList.update (hh e p) p (headerCache hc))\<rparr>)"
        using hcache_add_header [OF e c, of p] p(1) by simp
      ultimately show thesis by (rule that)
    next
      case (Some y)
      then have "stored e db0 y \<and> hh e p = hh e y" using c by (simp add: hcache_ok_def)
      then have "y = p" using stored_inj [OF u db _ U(2)] by metis
      then show thesis using that [of "headerCache hc"] Some c by (simp add: hc_GetHeader_def)
    qed
    define hc1 where "hc1 = hc\<lparr>chainDb := db1, headerCache := m, currentHeader := Some p\<rparr>"
    have eq: "rewind_loop e delFn head hc = rewind_loop e delFn head hc1"
      using False cur m(1) p(2) step(1) by (subst rewind_loop.simps) (simp add: Let_def db1_def hc1_def)
    have "\<exists>hc' y. rewind_loop e delFn head hc1 = Some hc' \<and> currentHeader hc' = Some y \<and> genesisHeader hc' = genesisHeader hc1 \<and> stored e db0 y \<and>
      hh e y = ?c (number_of y) \<and> number_of y = min head (number_of p) \<and>
      cut_to (hc_db e) (number_of y) (number_of cur0) db0 (chainDb hc')"
    proof (rule less.hyps)
      show "unat (number_of p) < unat ?n" using step(2) by (simp add: word_less_nat_alt)
      show "hcache_ok e (hc1\<lparr>chainDb := db0\<rparr>)" using m(2) by (simp add: hcache_ok_def hc1_def)
      show "number_of p \<le> number_of cur0" using step(2) le by simp
    qed (use p(1) pc cut1 in \<open>simp_all add: hc1_def\<close>)
    moreover have "head \<le> number_of p" using word_less_imp_le_pred [OF lt] step(1) by simp
    then have "min head (number_of p) = min head ?n" using less_imp_le [OF lt] by (simp add: min_absorb1)
    ultimately show ?thesis unfolding eq by (simp add: hc1_def)
  qed
qed

text \<open>
  C23: \<open>SetHead\<close> returns, and the new head is the old canonical header of the number asked for, or the old
  head if that is lower. The canonical numbers up to it are kept and still name its ancestors, no number
  above it is assigned, the canonical headers above it are gone from the database, and the caches are empty.
\<close>
theorem SetHead_rewinds:
  assumes "hcEnv_ok e" "headers_ok e U" "hc_inv e U g cur hc" "keeps_chain delFn (hc_db e)"
  shows "\<exists>hc' y. SetHead e delFn head hc = Some hc' \<and> currentHeader hc' = Some y \<and> currentHeaderHash hc' = hh e y \<and>
    number_of y = min head (number_of cur) \<and> hh e y = GetCanonicalHash (chainDb hc) (number_of y) \<and> line_ok e g y (chainDb hc') \<and>
    (\<forall>n \<le> number_of y. GetCanonicalHash (chainDb hc') n = GetCanonicalHash (chainDb hc) n) \<and>
    (\<forall>n. number_of y < n \<and> n \<le> number_of cur \<longrightarrow> GetHeader (hc_db e) (chainDb hc') (GetCanonicalHash (chainDb hc) n) n = None) \<and>
    headerCache hc' = [] \<and> tdCache hc' = [] \<and> numberCache hc' = []"
proof -
  let ?db = "chainDb hc" and ?c = "GetCanonicalHash (chainDb hc)"
  have I: "currentHeader hc = Some cur" "stored e ?db cur" "hdb_ok e U g ?db" "hcache_ok e hc" "line_ok e g cur ?db"
    using assms(3) by (simp_all add: hc_inv_def)
  have L: "?c 0 = hh e g" "?c (number_of cur) = hh e cur" "\<And>n. ?c n \<noteq> 0 \<longleftrightarrow> n \<le> number_of cur"
    "\<And>n. 0 < n \<Longrightarrow> ?c n \<noteq> 0 \<Longrightarrow> link_at e ?db ?c n" using I(5) by (simp_all add: line_ok_def Let_def)
  have "\<exists>hc' y. rewind_loop e delFn head hc = Some hc' \<and> currentHeader hc' = Some y \<and> genesisHeader hc' = genesisHeader hc \<and> stored e ?db y \<and>
      hh e y = ?c (number_of y) \<and> number_of y = min head (number_of cur) \<and> cut_to (hc_db e) (number_of y) (number_of cur) ?db (chainDb hc')"
    by (rule rewind_loop_ok [OF assms(1,2) I(3,5) assms(4)]) (use I L(2) in \<open>auto simp: cut_to_def\<close>)
  then obtain hc1 y where R: "rewind_loop e delFn head hc = Some hc1" "currentHeader hc1 = Some y" "stored e ?db y" "hh e y = ?c (number_of y)"
    "number_of y = min head (number_of cur)" "cut_to (hc_db e) (number_of y) (number_of cur) ?db (chainDb hc1)" by blast
  define db' where "db' = WriteHeadHeaderHash (hh e y) (delete_down (number_of cur) head (chainDb hc1))"
  have le: "number_of y < n \<and> n \<le> number_of cur \<longleftrightarrow> head < n \<and> n \<le> number_of cur" for n
    unfolding R(5) min_def by auto
  have yc: "number_of y \<le> number_of cur" "number_of y \<le> head" unfolding R(5) by simp_all
  have C: "GetCanonicalHash db' n = (if n \<le> number_of y then ?c n else 0)" for n
  proof -
    have d: "GetCanonicalHash db' n = (if head < n \<and> n \<le> number_of cur then 0 else ?c n)"
      using R(6) by (simp add: db'_def delete_down_reads cut_to_def)
    show ?thesis
    proof (cases "n \<le> number_of y")
      case True
      then have "\<not> head < n" using order_trans [OF True yc(2)] by simp
      then show ?thesis using d True by simp
    next
      case False
      then have "head < n \<and> n \<le> number_of cur \<or> ?c n = 0" using le [of n] L(3) [of n] by (metis not_le)
      then show ?thesis using d False by (simp split: if_splits)
    qed
  qed
  have H: "GetHeader (hc_db e) db' a n = (if number_of y < n \<and> n \<le> number_of cur \<and> a = ?c n then None else GetHeader (hc_db e) ?db a n)" for a n
    using R(6) by (simp add: db'_def delete_down_reads cut_to_def)
  have "line_ok e g y db'"
    unfolding line_ok_def Let_def
  proof (intro conjI allI impI)
    show "GetCanonicalHash db' 0 = hh e g" "GetCanonicalHash db' (number_of y) = hh e y" using C L(1) R(4) by simp_all
    show "GetCanonicalHash db' n \<noteq> 0 \<longleftrightarrow> n \<le> number_of y" for n
      using C [of n] L(3) [of n] order_trans [OF _ yc(1), of n] by simp
    fix n assume "0 < n \<and> GetCanonicalHash db' n \<noteq> 0"
    then have n: "0 < n" "n \<le> number_of y" "?c n \<noteq> 0" using C [of n] by (simp_all split: if_splits)
    have "n - 1 \<le> number_of y" using less_imp_le [OF word_pred_less [OF n(1)]] n(2) by (rule order_trans)
    obtain z where z: "stored e ?db z" "hh e z = ?c n" "number_of z = n" "ParentHash z = ?c (n - 1)"
      using L(4) [OF n(1,3)] unfolding link_at_def by blast
    moreover have "\<not> number_of y < n" using n(2) by simp
    ultimately have "stored e db' z" using H by (simp add: stored_def)
    then show "link_at e db' (GetCanonicalHash db') n"
      unfolding link_at_def using z C n(2) \<open>n - 1 \<le> number_of y\<close> by (intro exI [of _ z]) simp
  qed
  moreover have "SetHead e delFn head hc = Some (hc1\<lparr>chainDb := db', headerCache := [], tdCache := [], numberCache := [],
      currentHeader := Some y, currentHeaderHash := hh e y\<rparr>)"
    using R(1,2) I(1) by (simp add: SetHead_def Let_def db'_def)
  ultimately show ?thesis using R(4,5) C H by simp
qed

theorem SetHead_rewinds_witness:
  "\<exists>hc cur hc' y. hc_inv tiny_env (set tiny_chain) (tiny_header 0 1 0 4) cur hc \<and> SetHead tiny_env DeleteBody 0 hc = Some hc' \<and>
    currentHeader hc' = Some y \<and> number_of y = 0 \<and> line_ok tiny_env (tiny_header 0 1 0 4) y (chainDb hc') \<and> headerCache hc' = []"
proof -
  obtain db1 where c: "MustCommit tiny_genesisEnv tiny_genesis Map.empty = Some (Some (tiny_header 0 1 0 4), db1)"
    using tiny_commit by blast
  obtain hc0 where hc0: "hc_inv tiny_env (set tiny_chain) (tiny_header 0 1 0 4) (tiny_header 0 1 0 4) hc0"
      "heaviest tiny_env (tiny_header 0 1 0 4) (chainDb hc0)"
    by (rule MustCommit_starts [OF tiny_env_ok tiny_headers_ok _ _ _ _ c])
      (use tiny_fresh in \<open>simp_all add: genesisEnv_ok_def tiny_genesisEnv_def tiny_env_def tiny_chain_def\<close>)
  have "tiny_header 1 2 1 5 \<in> set tiny_chain" by (simp add: tiny_chain_def)
  then obtain hc cur where hc: "hc_inv tiny_env (set tiny_chain) (tiny_header 0 1 0 4) cur hc"
    using hc_WriteHeader_ok [OF tiny_env_ok tiny_headers_ok hc0, of _ False] by blast
  have "keeps_chain DeleteBody (hc_db tiny_env)" by (simp add: keeps_chain_def)
  then show ?thesis using SetHead_rewinds [OF tiny_env_ok tiny_headers_ok hc, of DeleteBody 0] hc by (fastforce simp: min_def)
qed

end
