(* ===== verification/Rle.thy ===== *)
theory Rle
  imports Prelude "HOL-Library.Sublist"
begin

text \<open>
  \<open>compression/rle/read_write.go\<close>: run-length coding of stored values. The hash of the library is the
  argument \<open>k256\<close>; it gives the two constants \<open>empty\<close> and \<open>emptyList\<close> that have a code of their own.
  The lemmas show which inputs survive a round trip.
\<close>

section \<open>Coding\<close>

definition token :: byte where "token = 0xfe"
definition emptyShaToken :: byte where "emptyShaToken = 0xfd"
definition emptyListShaToken :: byte where "emptyListShaToken = 0xfe"
definition tokenToken :: byte where "tokenToken = 0xff"

datatype rle_error = TokenWithoutBytes

definition rle_empty :: "(byte list \<Rightarrow> byte list) \<Rightarrow> byte list" where "rle_empty k256 = k256 []"
definition rle_emptyList :: "(byte list \<Rightarrow> byte list) \<Rightarrow> byte list" where "rle_emptyList k256 = k256 [0x80]"

definition expand :: "(byte list \<Rightarrow> byte list) \<Rightarrow> byte \<Rightarrow> byte list" where
  "expand k256 c =
     (if c = emptyShaToken then rle_empty k256
      else if c = emptyListShaToken then rle_emptyList k256
      else if c = tokenToken then [token]
      else replicate (unat (c - 2)) 0)"

fun Decompress :: "(byte list \<Rightarrow> byte list) \<Rightarrow> byte list \<Rightarrow> rle_error + byte list" where
  "Decompress k256 [] = Inr []"
| "Decompress k256 [b] = (if b = token then Inl TokenWithoutBytes else Inr [b])"
| "Decompress k256 (b # c # dat) =
     (if b = token then map_sum (\<lambda>err. err) ((@) (expand k256 c)) (Decompress k256 dat)
      else map_sum (\<lambda>err. err) ((#) b) (Decompress k256 (c # dat)))"

definition zero_run :: "byte list \<Rightarrow> nat" where
  "zero_run dat = length (takeWhile (\<lambda>b. b = 0) (take 255 dat))"

definition compressChunk :: "(byte list \<Rightarrow> byte list) \<Rightarrow> byte list \<Rightarrow> byte list \<times> nat" where
  "compressChunk k256 dat =
     (if dat ! 0 = token then ([token, tokenToken], 1)
      else if 1 < length dat \<and> dat ! 0 = 0 \<and> dat ! 1 = 0 then ([token, of_nat (zero_run dat + 2)], zero_run dat)
      else if 32 \<le> length dat \<and> dat ! 0 = rle_empty k256 ! 0 \<and> take 32 dat = rle_empty k256
      then ([token, emptyShaToken], 32)
      else if 32 \<le> length dat \<and> dat ! 0 = rle_emptyList k256 ! 0 \<and> take 32 dat = rle_emptyList k256
      then ([token, emptyListShaToken], 32)
      else (take 1 dat, 1))"

lemma zero_run_pos: "1 < length dat \<Longrightarrow> dat ! 0 = 0 \<Longrightarrow> 0 < zero_run dat"
  by (cases dat) (simp_all add: zero_run_def numeral_eq_Suc)

lemma compressChunk_pos: "dat \<noteq> [] \<Longrightarrow> compressChunk k256 dat = (b, n) \<Longrightarrow> 0 < n"
  using zero_run_pos [of dat] by (auto simp: compressChunk_def split: if_splits)

function Compress :: "(byte list \<Rightarrow> byte list) \<Rightarrow> byte list \<Rightarrow> byte list" where
  "Compress k256 dat =
     (if dat = [] then [] else let (b, n) = compressChunk k256 dat in b @ Compress k256 (drop n dat))"
  by pat_completeness auto
termination
proof (relation "measure (\<lambda>(k256, dat). length dat)")
  fix k256 dat x b n
  assume a: "dat \<noteq> []" "x = compressChunk k256 dat" "(b, n) = x"
  then have "0 < n" using compressChunk_pos [of dat k256 b n] by simp
  then show "((k256, drop n dat), (k256, dat)) \<in> measure (\<lambda>(k256, dat). length dat)" using a(1) by simp
qed simp

declare Compress.simps [simp del]

section \<open>Round trip\<close>

lemma Decompress_coded: "Decompress k256 (token # c # dat) = map_sum (\<lambda>err. err) ((@) (expand k256 c)) (Decompress k256 dat)"
  by simp

lemma Decompress_plain: "b \<noteq> token \<Longrightarrow> Decompress k256 (b # dat) = map_sum (\<lambda>err. err) ((#) b) (Decompress k256 dat)"
  by (cases dat) simp_all

lemma zero_run_prefix: "take (zero_run dat) dat = replicate (zero_run dat) 0"
proof -
  have "takeWhile (\<lambda>b. b = 0) (take 255 dat) = replicate (zero_run dat) 0"
    unfolding zero_run_def by (rule replicate_eqI [symmetric, THEN sym]) (auto dest: set_takeWhileD)
  moreover have "takeWhile (\<lambda>b. b = 0) (take 255 dat) = take (zero_run dat) (take 255 dat)"
    unfolding zero_run_def by (metis takeWhile_eq_take)
  moreover have "zero_run dat \<le> 255" unfolding zero_run_def
    by (metis length_take length_takeWhile_le le_trans min.cobounded2)
  ultimately show ?thesis by (simp add: min_def)
qed

lemma zero_run_le: "zero_run dat \<le> length dat"
  unfolding zero_run_def by (metis length_takeWhile_le length_take le_trans min.cobounded1)

lemma expand_zeros:
  assumes "2 \<le> n" "n \<le> 250"
  shows "expand k256 (of_nat (n + 2)) = replicate n 0"
proof -
  have u: "unat (of_nat m :: byte) = m" if "m < 256" for m
    using that by (simp add: unat_of_nat take_bit_nat_eq_self)
  have ne: "of_nat (n + 2) \<noteq> (0xfd :: byte)" "of_nat (n + 2) \<noteq> (0xfe :: byte)" "of_nat (n + 2) \<noteq> (0xff :: byte)"
    using arg_cong [of "of_nat (n + 2) :: byte" _ unat] u [of "n + 2"] assms by (auto simp del: of_nat_add)
  have "unat (of_nat (n + 2) - 2 :: byte) = n" using u [of n] assms by simp
  with ne show ?thesis by (simp add: expand_def emptyShaToken_def emptyListShaToken_def tokenToken_def del: of_nat_add)
qed

lemma zero_run_ge2: "1 < length dat \<Longrightarrow> dat ! 0 = 0 \<Longrightarrow> dat ! 1 = 0 \<Longrightarrow> 2 \<le> zero_run dat"
  by (cases dat; cases "tl dat") (simp_all add: zero_run_def numeral_eq_Suc)

lemma zero_run_short:
  assumes "\<not> sublist (replicate 251 0) dat"
  shows "zero_run dat \<le> 250"
proof (rule ccontr)
  assume "\<not> zero_run dat \<le> 250"
  then have "take 251 dat = replicate 251 0"
    using arg_cong [OF zero_run_prefix [of dat], of "take 251"] by (simp add: min_def split: if_splits)
  then show False using assms by (metis sublist_take)
qed

text \<open>One chunk: decoding its code gives back the bytes it stands for.\<close>

lemma chunk_decodes:
  assumes k: "length (rle_empty k256) = 32" "length (rle_emptyList k256) = 32"
    and d: "dat \<noteq> []" "\<not> sublist (replicate 251 0) dat" and c: "compressChunk k256 dat = (b, n)"
  shows "Decompress k256 (b @ rest) = map_sum (\<lambda>err. err) ((@) (take n dat)) (Decompress k256 rest)"
proof -
  let ?zeros = "1 < length dat \<and> dat ! 0 = 0 \<and> dat ! 1 = 0"
  let ?sha = "32 \<le> length dat \<and> dat ! 0 = rle_empty k256 ! 0 \<and> take 32 dat = rle_empty k256"
  let ?list = "32 \<le> length dat \<and> dat ! 0 = rle_emptyList k256 ! 0 \<and> take 32 dat = rle_emptyList k256"
  have one: "take 1 dat = [dat ! 0]" using d(1) by (cases dat) simp_all
  consider (tok) "dat ! 0 = token" | (zeros) "dat ! 0 \<noteq> token" ?zeros | (sha) "dat ! 0 \<noteq> token" "\<not> ?zeros" ?sha
    | (list) "dat ! 0 \<noteq> token" "\<not> ?zeros" "\<not> ?sha" ?list | (plain) "dat ! 0 \<noteq> token" "\<not> ?zeros" "\<not> ?sha" "\<not> ?list"
    by argo
  then show ?thesis
  proof cases
    case tok
    then have "b = [token, tokenToken]" "n = 1" using c by (simp_all add: compressChunk_def)
    with tok one show ?thesis
      by (simp add: Decompress_coded expand_def token_def tokenToken_def emptyShaToken_def emptyListShaToken_def)
  next
    case zeros
    have b: "b = [token, of_nat (zero_run dat + 2)]" "n = zero_run dat"
      using c unfolding compressChunk_def if_not_P [OF zeros(1)] if_P [OF zeros(2)] by auto
    have "expand k256 (of_nat (zero_run dat + 2)) = take n dat"
      using expand_zeros [of "zero_run dat" k256] zero_run_ge2 [of dat] zero_run_short [OF d(2)] zero_run_prefix [of dat]
        zeros b(2) by (simp del: of_nat_add)
    then show ?thesis unfolding b(1) append_Cons append_Nil Decompress_coded by (rule arg_cong)
  next
    case sha
    have b: "b = [token, emptyShaToken]" "n = 32"
      using c unfolding compressChunk_def if_not_P [OF sha(1)] if_not_P [OF sha(2)] if_P [OF sha(3)] by simp_all
    show ?thesis using sha unfolding b append_Cons append_Nil Decompress_coded by (simp add: expand_def)
  next
    case list
    have b: "b = [token, emptyListShaToken]" "n = 32"
      using c unfolding compressChunk_def if_not_P [OF list(1)] if_not_P [OF list(2)] if_not_P [OF list(3)] if_P [OF list(4)] by simp_all
    show ?thesis using list unfolding b append_Cons append_Nil Decompress_coded
      by (simp add: expand_def emptyListShaToken_def emptyShaToken_def)
  next
    case plain
    have b: "b = take 1 dat" "n = 1"
      using c unfolding compressChunk_def if_not_P [OF plain(1)] if_not_P [OF plain(2)] if_not_P [OF plain(3)] if_not_P [OF plain(4)] by auto
    show ?thesis using plain unfolding b one append_Cons append_Nil by (simp add: Decompress_plain)
  qed
qed

text \<open>
  C28: data without 251 zero bytes in a row survives the round trip: \<open>Decompress\<close> of \<open>Compress\<close> of it is
  the data itself, for every hash of 32 bytes, tokens and the two special hashes inside it included.
\<close>
theorem Compress_roundtrip:
  assumes "length (k256 []) = 32" "length (k256 [0x80]) = 32" "\<not> sublist (replicate 251 0) dat"
  shows "Decompress k256 (Compress k256 dat) = Inr dat"
  using assms(3)
proof (induction dat rule: length_induct)
  case (1 dat)
  show ?case
  proof (cases "dat = []")
    case False
    obtain b n where c: "compressChunk k256 dat = (b, n)" by (cases "compressChunk k256 dat") auto
    have "length (drop n dat) < length dat" using compressChunk_pos [OF False c] False by simp
    moreover have "\<not> sublist (replicate 251 0) (drop n dat)"
      using 1(2) by (meson sublist_drop sublist_order.order_trans)
    ultimately have "Decompress k256 (Compress k256 (drop n dat)) = Inr (drop n dat)" using 1(1) by blast
    then show ?thesis
      using chunk_decodes [OF _ _ False 1(2) c] assms False c
      by (simp add: Compress.simps [of k256 dat] rle_empty_def rle_emptyList_def)
  qed (simp add: Compress.simps)
qed

theorem Compress_roundtrip_witness:
  "Decompress (\<lambda>b. replicate 32 (of_nat (length b) + 3))
     (Compress (\<lambda>b. replicate 32 (of_nat (length b) + 3)) [0xfe, 0, 0, 0, 7, 0]) = Inr [0xfe, 0, 0, 0, 7, 0]"
proof (rule Compress_roundtrip)
  show "\<not> sublist (replicate 251 0) [0xfe, 0, 0, 0, 7, 0 :: byte]"
    using sublist_length_le [of "replicate 251 0" "[0xfe, 0, 0, 0, 7, 0 :: byte]"] by auto
qed simp_all

lemma Compress_zeros:
  assumes "2 \<le> n" "n \<le> 255"
  shows "Compress k256 (replicate n 0) = [token, of_nat (n + 2)]"
proof -
  have "zero_run (replicate n 0) = n" using assms by (simp add: zero_run_def min_def)
  then have "compressChunk k256 (replicate n 0) = ([token, of_nat (n + 2)], n)"
    using assms by (simp add: compressChunk_def token_def del: of_nat_add)
  moreover have "replicate n (0 :: byte) \<noteq> []" using assms by simp
  ultimately show ?thesis
    by (simp add: Compress.simps [of k256 "replicate n 0"] Compress.simps [of k256 "[]"] del: of_nat_add replicate_empty)
qed


end
