(* ===== verification/DownloadQueue.thy ===== *)
theory DownloadQueue
  imports Header "HOL-Library.Multiset"
begin

text \<open>
  \<open>mc/downloader/queue.go\<close> with the lists of lacking hashes of \<open>peer.go\<close>: the queue that hands out headers,
  bodies and receipts to peers and collects what they deliver. The four containers that the code passes
  to \<open>reserveHeaders\<close>, \<open>deliver\<close>, \<open>cancel\<close> and \<open>expire\<close> together are the record \<open>fetchKind\<close>, one for bodies and
  one for receipts. A priority queue of the library is the list of its items in push order; which item
  \<open>Pop\<close> takes is given by the environment, since the priority is a function of the item. A skeleton request
  has \<open>From\<close> and no headers, a request for bodies or receipts has headers and \<open>From\<close> 0, and none has \<open>Hashes\<close>.
  The lacking hashes are kept per peer id. Times are arguments; locks, metrics and the wake-up of
  \<open>WaitResults\<close> are left out. \<open>None\<close> is a panic, or a call that waits.
\<close>

section \<open>State\<close>

datatype SyncMode = FullSync | FastSync | LightSync

datatype queue_error = errNoFetchesPending | errStaleDelivery | errInvalidChain | errInvalidBody | errInvalidReceipt
  | PartialFailure queue_error | NotAccepted

record fetchRequest =
  rq_Peer :: string
  rq_From :: uint64
  rq_Headers :: "header list"
  rq_Time :: int

record ('t, 'r) fetchResult =
  fr_Pending :: int
  fr_Header :: header
  fr_Uncles :: "header list"
  fr_Transactions :: "'t list"
  fr_Receipts :: "'r list"

record fetchKind =
  TaskPool :: "(hash, header) gomap"
  TaskQueue :: "header list"
  PendPool :: "(string, fetchRequest) gomap"
  DonePool :: "hash list"

record ('t, 'r) queueEnv =
  q_Hash :: "header \<Rightarrow> hash"
  q_NilHash :: "hash option"
  q_TxHash :: "header \<Rightarrow> hash"
  q_ReceiptHash :: "header \<Rightarrow> hash"
  q_EmptyRoot :: hash
  q_EmptyUncle :: hash
  DeriveShaTxs :: "'t list \<Rightarrow> hash"
  DeriveShaReceipts :: "'r list \<Rightarrow> hash"
  CalcUncleHash :: "header list \<Rightarrow> hash"
  pop_header :: "header list \<Rightarrow> header \<times> header list"
  pop_from :: "uint64 list \<Rightarrow> uint64 \<times> uint64 list"

record ('t, 'r) queue =
  q_mode :: SyncMode
  fastSyncPivot :: uint64
  headerHead :: hash
  headerTaskPool :: "(uint64, header) gomap"
  headerTaskQueue :: "uint64 list option"
  headerPeerMiss :: "(string, uint64 list) gomap"
  headerPendPool :: "(string, fetchRequest) gomap"
  headerResults :: "header option list option"
  headerProced :: nat
  headerOffset :: uint64
  headerContCh :: "nat \<times> bool list"
  bodies :: fetchKind
  receipts :: fetchKind
  resultCache :: "('t, 'r) fetchResult option list"
  resultOffset :: uint64
  closed :: bool
  lacking :: "(string, hash list) gomap"

definition MaxHeaderFetch :: nat where "MaxHeaderFetch = 192"
definition fsHeaderForceVerify :: nat where "fsHeaderForceVerify = 24"
definition blockCacheLimit :: nat where "blockCacheLimit = 8192"
definition maxLackingHashes :: nat where "maxLackingHashes = 4096"

definition empty_kind :: fetchKind where
  "empty_kind = \<lparr>TaskPool = [], TaskQueue = [], PendPool = [], DonePool = []\<rparr>"

text \<open>The limit of the result cache is a variable of the package; its value is \<open>blockCacheLimit\<close>.\<close>

definition newQueue :: "nat \<Rightarrow> ('t, 'r) queue" where
  "newQueue limit =
     \<lparr>q_mode = FullSync, fastSyncPivot = 0, headerHead = 0, headerTaskPool = [], headerTaskQueue = None, headerPeerMiss = [],
      headerPendPool = [], headerResults = None, headerProced = 0, headerOffset = 0, headerContCh = (0, []), bodies = empty_kind,
      receipts = empty_kind, resultCache = replicate limit None, resultOffset = 0, closed = False, lacking = []\<rparr>"

definition Reset :: "nat \<Rightarrow> ('t, 'r) queue \<Rightarrow> ('t, 'r) queue" where
  "Reset limit q = q\<lparr>closed := False, q_mode := FullSync, fastSyncPivot := 0, headerHead := 0, headerPendPool := [],
     bodies := empty_kind, receipts := empty_kind, resultCache := replicate limit None, resultOffset := 0\<rparr>"

definition CloseQueue :: "('t, 'r) queue \<Rightarrow> ('t, 'r) queue" where
  "CloseQueue q = q\<lparr>closed := True\<rparr>"

definition PrepareQueue :: "uint64 \<Rightarrow> SyncMode \<Rightarrow> uint64 \<Rightarrow> ('t, 'r) queue \<Rightarrow> ('t, 'r) queue" where
  "PrepareQueue offset mode pivot q =
     q\<lparr>resultOffset := (if resultOffset q < offset then offset else resultOffset q), fastSyncPivot := pivot, q_mode := mode\<rparr>"

section \<open>Counters\<close>

definition PendingHeaders :: "('t, 'r) queue \<Rightarrow> nat option" where "PendingHeaders q = map_option length (headerTaskQueue q)"
definition PendingBlocks :: "('t, 'r) queue \<Rightarrow> nat" where "PendingBlocks q = length (TaskQueue (bodies q))"
definition PendingReceipts :: "('t, 'r) queue \<Rightarrow> nat" where "PendingReceipts q = length (TaskQueue (receipts q))"
definition InFlightHeaders :: "('t, 'r) queue \<Rightarrow> bool" where "InFlightHeaders q \<longleftrightarrow> headerPendPool q \<noteq> []"
definition InFlightBlocks :: "('t, 'r) queue \<Rightarrow> bool" where "InFlightBlocks q \<longleftrightarrow> PendPool (bodies q) \<noteq> []"
definition InFlightReceipts :: "('t, 'r) queue \<Rightarrow> bool" where "InFlightReceipts q \<longleftrightarrow> PendPool (receipts q) \<noteq> []"

definition in_flight :: "fetchKind \<Rightarrow> nat" where
  "in_flight k = sum_list (map (\<lambda>p. length (rq_Headers (snd p))) (PendPool k))"

definition IdleQueue :: "('t, 'r) queue \<Rightarrow> bool" where
  "IdleQueue q \<longleftrightarrow> length (TaskQueue (bodies q)) + length (TaskQueue (receipts q)) + (length (PendPool (bodies q)) + length (PendPool (receipts q))) +
     (length (DonePool (bodies q)) + length (DonePool (receipts q))) = 0"

definition ShouldThrottleBlocks :: "('t, 'r) queue \<Rightarrow> bool" where
  "ShouldThrottleBlocks q \<longleftrightarrow> int (length (resultCache q)) - int (length (DonePool (bodies q))) \<le> int (in_flight (bodies q))"

definition ShouldThrottleReceipts :: "('t, 'r) queue \<Rightarrow> bool" where
  "ShouldThrottleReceipts q \<longleftrightarrow> int (length (resultCache q)) - int (length (DonePool (receipts q))) \<le> int (in_flight (receipts q))"

section \<open>Scheduling\<close>

definition ScheduleSkeleton :: "uint64 \<Rightarrow> header list \<Rightarrow> ('t, 'r) queue \<Rightarrow> ('t, 'r) queue option" where
  "ScheduleSkeleton from0 skeleton q =
     (if headerResults q \<noteq> None then None
      else let n = length skeleton; idx = (\<lambda>i. from0 + of_nat (i * MaxHeaderFetch))
           in Some (q\<lparr>headerTaskPool := foldl (\<lambda>m i. AList.update (idx i) (skeleton ! i) m) [] [0..<n],
                      headerTaskQueue := Some (map idx [0..<n]), headerPeerMiss := [],
                      headerResults := Some (replicate (n * MaxHeaderFetch) None), headerProced := 0, headerOffset := from0,
                      headerContCh := (1, [])\<rparr>))"

definition RetrieveHeaders :: "('t, 'r) queue \<Rightarrow> (header option list option \<times> nat) \<times> ('t, 'r) queue" where
  "RetrieveHeaders q = ((headerResults q, headerProced q), q\<lparr>headerResults := None, headerProced := 0\<rparr>)"

definition push_task :: "hash \<Rightarrow> header \<Rightarrow> fetchKind \<Rightarrow> fetchKind" where
  "push_task h x k = k\<lparr>TaskPool := AList.update h x (TaskPool k), TaskQueue := TaskQueue k @ [x]\<rparr>"

definition needs_receipts :: "('t, 'r) queue \<Rightarrow> header \<Rightarrow> bool" where
  "needs_receipts q x \<longleftrightarrow> q_mode q = FastSync \<and> low64 (h_number x) \<le> fastSyncPivot q"

fun Schedule :: "('t, 'r) queueEnv \<Rightarrow> header list \<Rightarrow> uint64 \<Rightarrow> header list \<Rightarrow> ('t, 'r) queue \<Rightarrow> header list \<times> ('t, 'r) queue" where
  "Schedule e [] from0 inserts q = (inserts, q)"
| "Schedule e (x # xs) from0 inserts q =
     (let h = q_Hash e x
      in if low64 (h_number x) \<noteq> from0 then (inserts, q)
         else if headerHead q \<noteq> 0 \<and> headerHead q \<noteq> ParentHash x then (inserts, q)
         else if map_of (TaskPool (bodies q)) h \<noteq> None then Schedule e xs from0 inserts q
         else if map_of (TaskPool (receipts q)) h \<noteq> None then Schedule e xs from0 inserts q
         else Schedule e xs (from0 + 1) (inserts @ [x])
                (q\<lparr>bodies := push_task h x (bodies q),
                   receipts := (if needs_receipts q x then push_task h x (receipts q) else receipts q), headerHead := h\<rparr>))"

section \<open>Results\<close>

definition verified_ahead :: "('t, 'r) queue \<Rightarrow> nat \<Rightarrow> bool" where
  "verified_ahead q i \<longleftrightarrow>
     (\<forall>j < fsHeaderForceVerify. i + j + 1 < length (resultCache q) \<and> resultCache q ! (i + j + 1) \<noteq> None)"

fun count_items :: "('t, 'r) queue \<Rightarrow> nat \<Rightarrow> ('t, 'r) fetchResult option list \<Rightarrow> nat" where
  "count_items q i [] = i"
| "count_items q i (r # rs) =
     (case r of
        None \<Rightarrow> i
      | Some res \<Rightarrow>
          if 0 < fr_Pending res then i
          else if q_mode q = FastSync \<and> low64 (h_number (fr_Header res)) = fastSyncPivot q \<and> \<not> verified_ahead q i then i
          else count_items q (Suc i) rs)"

definition countProcessableItems :: "('t, 'r) queue \<Rightarrow> nat" where
  "countProcessableItems q = count_items q 0 (resultCache q)"

definition forget_done :: "hash list \<Rightarrow> fetchKind \<Rightarrow> fetchKind" where
  "forget_done hs k = k\<lparr>DonePool := filter (\<lambda>h. h \<notin> set hs) (DonePool k)\<rparr>"

text \<open>\<open>None\<close> is a call that waits.\<close>

definition WaitResults :: "('t, 'r) queueEnv \<Rightarrow> ('t, 'r) queue \<Rightarrow> (('t, 'r) fetchResult option list \<times> ('t, 'r) queue) option" where
  "WaitResults e q =
     (let nproc = countProcessableItems q
      in if nproc = 0 \<and> \<not> closed q then None
         else let results = take nproc (resultCache q);
                  hs = map (\<lambda>r. q_Hash e (fr_Header (the r))) results
              in Some (results,
                   if results = [] then q
                   else q\<lparr>bodies := forget_done hs (bodies q), receipts := forget_done hs (receipts q),
                          resultCache := drop nproc (resultCache q) @ replicate nproc None,
                          resultOffset := resultOffset q + of_nat nproc\<rparr>))"

section \<open>Peers\<close>

definition lacking_of :: "string \<Rightarrow> (string, hash list) gomap \<Rightarrow> hash list" where
  "lacking_of p m = (case map_of m p of None \<Rightarrow> [] | Some hs \<Rightarrow> hs)"

definition Lacks :: "string \<Rightarrow> hash \<Rightarrow> (string, hash list) gomap \<Rightarrow> bool" where
  "Lacks p h m \<longleftrightarrow> h \<in> set (lacking_of p m)"

definition MarkLacking :: "string \<Rightarrow> hash \<Rightarrow> (string, hash list) gomap \<Rightarrow> (string, hash list) gomap" where
  "MarkLacking p h m = (let hs = lacking_of p m in AList.update p (List.insert h (drop (Suc (length hs) - maxLackingHashes) hs)) m)"

section \<open>Reservations\<close>

fun skip_missing ::
  "('t, 'r) queueEnv \<Rightarrow> uint64 list \<Rightarrow> nat \<Rightarrow> uint64 list \<Rightarrow> uint64 list \<Rightarrow> uint64 \<times> uint64 list \<times> uint64 list"
where
  "skip_missing e missing 0 queue skip = (0, queue, skip)"
| "skip_missing e missing (Suc fuel) queue skip =
     (if queue = [] then (0, queue, skip)
      else let (start, queue') = pop_from e queue
           in if start \<in> set missing then skip_missing e missing fuel queue' (skip @ [start])
              else if start = 0 then skip_missing e missing fuel queue' skip
              else (start, queue', skip))"

definition ReserveHeaders ::
  "('t, 'r) queueEnv \<Rightarrow> int \<Rightarrow> string \<Rightarrow> ('t, 'r) queue \<Rightarrow> (fetchRequest option \<times> ('t, 'r) queue) option"
where
  "ReserveHeaders e now p q =
     (if map_of (headerPendPool q) p \<noteq> None then Some (None, q)
      else do {
        tasks \<leftarrow> headerTaskQueue q;
        let missing = (case map_of (headerPeerMiss q) p of None \<Rightarrow> [] | Some ms \<Rightarrow> ms);
        let (send, queue, skip) = skip_missing e missing (length tasks) tasks [];
        let q1 = q\<lparr>headerTaskQueue := Some (queue @ skip)\<rparr>;
        if send = 0 then Some (None, q1)
        else let request = \<lparr>rq_Peer = p, rq_From = send, rq_Headers = [], rq_Time = now\<rparr>
             in Some (Some request, q1\<lparr>headerPendPool := AList.update p request (headerPendPool q1)\<rparr>)
      })"

text \<open>\<open>x.Int64()\<close> of a big integer, as the word of its two's complement.\<close>

definition big_Int64 :: "bigint \<Rightarrow> uint64" where
  "big_Int64 x = (if x < 0 then - low64 x else low64 x)"

definition result_index :: "('t, 'r) queue \<Rightarrow> header \<Rightarrow> int" where
  "result_index q x = sint (big_Int64 (h_number x) - resultOffset q)"

definition init_result :: "nat \<Rightarrow> header \<Rightarrow> ('t, 'r) queue \<Rightarrow> ('t, 'r) queue" where
  "init_result i x q =
     (if resultCache q ! i = None
      then q\<lparr>resultCache := (resultCache q)[i := Some \<lparr>fr_Pending = (if needs_receipts q x then 2 else 1), fr_Header = x,
                fr_Uncles = [], fr_Transactions = [], fr_Receipts = []\<rparr>]\<rparr>
      else q)"

definition finish_part :: "nat \<Rightarrow> ('t, 'r) queue \<Rightarrow> ('t, 'r) queue" where
  "finish_part i q =
     q\<lparr>resultCache := (resultCache q)[i := map_option (\<lambda>res. res\<lparr>fr_Pending := fr_Pending res - 1\<rparr>) (resultCache q ! i)]\<rparr>"

definition complete_task :: "hash \<Rightarrow> fetchKind \<Rightarrow> fetchKind" where
  "complete_task h k = k\<lparr>DonePool := List.insert h (DonePool k), TaskPool := AList.delete h (TaskPool k)\<rparr>"

text \<open>
  The loop takes one task per turn, so it ends with the queue of tasks; the fuel is the length of that
  queue. The state of the kind at hand is threaded apart from the rest of the queue.
\<close>

fun reserve_loop ::
  "('t, 'r) queueEnv \<Rightarrow> (header \<Rightarrow> bool) \<Rightarrow> string \<Rightarrow> nat \<Rightarrow> nat \<Rightarrow> int \<Rightarrow> int \<Rightarrow> header list \<Rightarrow> header list \<Rightarrow> bool \<Rightarrow>
   fetchKind \<Rightarrow> ('t, 'r) queue \<Rightarrow> (queue_error + header list \<times> header list \<times> bool) \<times> fetchKind \<times> ('t, 'r) queue"
where
  "reserve_loop e isNoop p cnt 0 proc space send skip progress k q = (Inr (send, skip, progress), k, q)"
| "reserve_loop e isNoop p cnt (Suc fuel) proc space send skip progress k q =
     (if \<not> (proc < space \<and> length send < cnt \<and> TaskQueue k \<noteq> []) then (Inr (send, skip, progress), k, q)
      else let (x, queue) = pop_header e (TaskQueue k);
               k1 = k\<lparr>TaskQueue := queue\<rparr>;
               i = result_index q x
           in if int (length (resultCache q)) \<le> i \<or> i < 0 then (Inl errInvalidChain, k1, q)
              else let q1 = init_result (nat i) x q
                   in if isNoop x
                      then reserve_loop e isNoop p cnt fuel proc (space - 1) send skip True
                             (complete_task (q_Hash e x) k1) (finish_part (nat i) q1)
                      else if Lacks p (q_Hash e x) (lacking q1)
                      then reserve_loop e isNoop p cnt fuel (proc + 1) space send (skip @ [x]) progress k1 q1
                      else reserve_loop e isNoop p cnt fuel (proc + 1) space (send @ [x]) skip progress k1 q1)"

definition reserveHeaders ::
  "('t, 'r) queueEnv \<Rightarrow> (header \<Rightarrow> bool) \<Rightarrow> int \<Rightarrow> string \<Rightarrow> nat \<Rightarrow> fetchKind \<Rightarrow> ('t, 'r) queue \<Rightarrow>
   (queue_error + fetchRequest option \<times> bool) \<times> fetchKind \<times> ('t, 'r) queue"
where
  "reserveHeaders e isNoop now p cnt k q =
     (if TaskQueue k = [] \<or> map_of (PendPool k) p \<noteq> None then (Inr (None, False), k, q)
      else let space = int (length (resultCache q)) - int (length (DonePool k)) - int (in_flight k)
           in case reserve_loop e isNoop p cnt (length (TaskQueue k)) 0 space [] [] False k q of
                (Inl err, k1, q1) \<Rightarrow> (Inl err, k1, q1)
              | (Inr (send, skip, progress), k1, q1) \<Rightarrow>
                  let k2 = k1\<lparr>TaskQueue := TaskQueue k1 @ skip\<rparr>
                  in if send = [] then (Inr (None, progress), k2, q1)
                     else let request = \<lparr>rq_Peer = p, rq_From = 0, rq_Headers = send, rq_Time = now\<rparr>
                          in (Inr (Some request, progress), k2\<lparr>PendPool := AList.update p request (PendPool k2)\<rparr>, q1))"

definition body_noop :: "('t, 'r) queueEnv \<Rightarrow> header \<Rightarrow> bool" where
  "body_noop e x \<longleftrightarrow> q_TxHash e x = q_EmptyRoot e \<and> UncleHash x = q_EmptyUncle e"

definition receipt_noop :: "('t, 'r) queueEnv \<Rightarrow> header \<Rightarrow> bool" where
  "receipt_noop e x \<longleftrightarrow> q_ReceiptHash e x = q_EmptyRoot e"

definition ReserveBodies ::
  "('t, 'r) queueEnv \<Rightarrow> int \<Rightarrow> string \<Rightarrow> nat \<Rightarrow> ('t, 'r) queue \<Rightarrow> (queue_error + fetchRequest option \<times> bool) \<times> ('t, 'r) queue"
where
  "ReserveBodies e now p cnt q =
     (case reserveHeaders e (body_noop e) now p cnt (bodies q) q of (r, k, q1) \<Rightarrow> (r, q1\<lparr>bodies := k\<rparr>))"

definition ReserveReceipts ::
  "('t, 'r) queueEnv \<Rightarrow> int \<Rightarrow> string \<Rightarrow> nat \<Rightarrow> ('t, 'r) queue \<Rightarrow> (queue_error + fetchRequest option \<times> bool) \<times> ('t, 'r) queue"
where
  "ReserveReceipts e now p cnt q =
     (case reserveHeaders e (receipt_noop e) now p cnt (receipts q) q of (r, k, q1) \<Rightarrow> (r, q1\<lparr>receipts := k\<rparr>))"

section \<open>Giving tasks back\<close>

definition give_back :: "string \<Rightarrow> fetchRequest \<Rightarrow> fetchKind \<Rightarrow> fetchKind" where
  "give_back p request k = k\<lparr>TaskQueue := TaskQueue k @ rq_Headers request, PendPool := AList.delete p (PendPool k)\<rparr>"

definition CancelHeaders :: "fetchRequest \<Rightarrow> ('t, 'r) queue \<Rightarrow> ('t, 'r) queue option" where
  "CancelHeaders request q = do {
     tasks \<leftarrow> (if 0 < rq_From request then map_option (\<lambda>ts. Some (ts @ [rq_From request])) (headerTaskQueue q) else Some (headerTaskQueue q));
     Some (q\<lparr>headerTaskQueue := tasks, headerPendPool := AList.delete (rq_Peer request) (headerPendPool q)\<rparr>)
   }"

definition CancelBodies :: "fetchRequest \<Rightarrow> ('t, 'r) queue \<Rightarrow> ('t, 'r) queue" where
  "CancelBodies request q = q\<lparr>bodies := give_back (rq_Peer request) request (bodies q)\<rparr>"

definition CancelReceipts :: "fetchRequest \<Rightarrow> ('t, 'r) queue \<Rightarrow> ('t, 'r) queue" where
  "CancelReceipts request q = q\<lparr>receipts := give_back (rq_Peer request) request (receipts q)\<rparr>"

definition revoke_kind :: "string \<Rightarrow> fetchKind \<Rightarrow> fetchKind" where
  "revoke_kind p k = (case map_of (PendPool k) p of None \<Rightarrow> k | Some request \<Rightarrow> give_back p request k)"

definition Revoke :: "string \<Rightarrow> ('t, 'r) queue \<Rightarrow> ('t, 'r) queue" where
  "Revoke p q = q\<lparr>bodies := revoke_kind p (bodies q), receipts := revoke_kind p (receipts q)\<rparr>"

definition expired :: "int \<Rightarrow> int \<Rightarrow> string \<times> fetchRequest \<Rightarrow> bool" where
  "expired now timeout p \<longleftrightarrow> timeout < now - rq_Time (snd p)"

definition expire_kind :: "int \<Rightarrow> int \<Rightarrow> fetchKind \<Rightarrow> (string, nat) gomap \<times> fetchKind" where
  "expire_kind now timeout k =
     (let old = filter (expired now timeout) (PendPool k)
      in (map (\<lambda>p. (fst p, length (rq_Headers (snd p)))) old,
          k\<lparr>TaskQueue := TaskQueue k @ concat (map (\<lambda>p. rq_Headers (snd p)) old),
            PendPool := filter (\<lambda>p. \<not> expired now timeout p) (PendPool k)\<rparr>))"

definition ExpireHeaders :: "int \<Rightarrow> int \<Rightarrow> ('t, 'r) queue \<Rightarrow> ((string, nat) gomap \<times> ('t, 'r) queue) option" where
  "ExpireHeaders now timeout q =
     (let old = filter (expired now timeout) (headerPendPool q);
          froms = map (\<lambda>p. rq_From (snd p)) (filter (\<lambda>p. 0 < rq_From (snd p)) old)
      in do {
        tasks \<leftarrow> (if froms = [] then Some (headerTaskQueue q) else map_option (\<lambda>ts. Some (ts @ froms)) (headerTaskQueue q));
        Some (map (\<lambda>p. (fst p, length (rq_Headers (snd p)))) old,
          q\<lparr>headerTaskQueue := tasks, headerPendPool := filter (\<lambda>p. \<not> expired now timeout p) (headerPendPool q)\<rparr>)
      })"

definition ExpireBodies :: "int \<Rightarrow> int \<Rightarrow> ('t, 'r) queue \<Rightarrow> (string, nat) gomap \<times> ('t, 'r) queue" where
  "ExpireBodies now timeout q = (case expire_kind now timeout (bodies q) of (ex, k) \<Rightarrow> (ex, q\<lparr>bodies := k\<rparr>))"

definition ExpireReceipts :: "int \<Rightarrow> int \<Rightarrow> ('t, 'r) queue \<Rightarrow> (string, nat) gomap \<times> ('t, 'r) queue" where
  "ExpireReceipts now timeout q = (case expire_kind now timeout (receipts q) of (ex, k) \<Rightarrow> (ex, q\<lparr>receipts := k\<rparr>))"

section \<open>Deliveries of headers\<close>

fun chain_follows :: "('t, 'r) queueEnv \<Rightarrow> uint64 \<Rightarrow> header \<Rightarrow> header list \<Rightarrow> bool" where
  "chain_follows e want prev [] \<longleftrightarrow> True"
| "chain_follows e want prev (x # xs) \<longleftrightarrow>
     low64 (h_number x) = want \<and> q_Hash e prev = ParentHash x \<and> chain_follows e (want + 1) x xs"

definition fills_skeleton :: "('t, 'r) queueEnv \<Rightarrow> uint64 \<Rightarrow> hash \<Rightarrow> header list \<Rightarrow> bool" where
  "fills_skeleton e from0 target headers \<longleftrightarrow>
     length headers = MaxHeaderFetch \<and> low64 (h_number (hd headers)) = from0 \<and> q_Hash e (last headers) = target \<and>
     chain_follows e (from0 + 1) (hd headers) (tl headers)"

definition copy_at :: "nat \<Rightarrow> 'a list \<Rightarrow> 'a list \<Rightarrow> 'a list" where
  "copy_at i ys xs = take i xs @ take (length xs - i) ys @ drop (i + length ys) xs"

fun count_ready :: "nat \<Rightarrow> header option list \<Rightarrow> nat \<Rightarrow> nat \<Rightarrow> nat" where
  "count_ready 0 results proced ready = ready"
| "count_ready (Suc fuel) results proced ready =
     (if proced + ready < length results \<and> results ! (proced + ready) \<noteq> None
      then count_ready fuel results proced (ready + MaxHeaderFetch) else ready)"

definition reject_headers :: "string \<Rightarrow> uint64 \<Rightarrow> ('t, 'r) queue \<Rightarrow> ('t, 'r) queue option" where
  "reject_headers p from0 q = do {
     tasks \<leftarrow> headerTaskQueue q;
     let miss = (case map_of (headerPeerMiss q) p of None \<Rightarrow> [] | Some ms \<Rightarrow> ms);
     Some (q\<lparr>headerPeerMiss := AList.update p (List.insert from0 miss) (headerPeerMiss q), headerTaskQueue := Some (tasks @ [from0])\<rparr>)
   }"

text \<open>\<open>room\<close> tells whether the processing channel takes the ready headers at once. Each turn of the loop that
  counts them advances by a batch, so the length of the results is enough fuel.\<close>

definition accept_headers :: "bool \<Rightarrow> uint64 \<Rightarrow> header list \<Rightarrow> ('t, 'r) queue \<Rightarrow> (header option list \<times> ('t, 'r) queue) option" where
  "accept_headers room from0 headers q =
     (let old = (case headerResults q of None \<Rightarrow> [] | Some rs \<Rightarrow> rs); i = unat (from0 - headerOffset q)
      in if length old < i then None
         else let results = copy_at i (map Some headers) old;
                  pool = AList.delete from0 (headerTaskPool q);
                  ready = count_ready (length results) results (headerProced q) 0
              in if 0 < ready \<and> length results < headerProced q + ready then None
                 else if pool = [] \<and> fst (headerContCh q) \<le> length (snd (headerContCh q)) then None
                 else let sent = (if room then take ready (drop (headerProced q) results) else [])
                      in Some (sent,
                           q\<lparr>headerResults := map_option (\<lambda>_. results) (headerResults q), headerTaskPool := pool,
                             headerProced := headerProced q + length sent,
                             headerContCh := (if pool = [] then (fst (headerContCh q), snd (headerContCh q) @ [False]) else headerContCh q)\<rparr>))"

definition DeliverHeaders ::
  "('t, 'r) queueEnv \<Rightarrow> bool \<Rightarrow> string \<Rightarrow> header list \<Rightarrow> ('t, 'r) queue \<Rightarrow>
   ((nat \<times> queue_error option \<times> header option list) \<times> ('t, 'r) queue) option"
where
  "DeliverHeaders e room p headers q =
     (case map_of (headerPendPool q) p of
        None \<Rightarrow> Some ((0, Some errNoFetchesPending, []), q)
      | Some request \<Rightarrow> do {
          let q1 = q\<lparr>headerPendPool := AList.delete p (headerPendPool q)\<rparr>;
          target \<leftarrow> (case map_of (headerTaskPool q1) (rq_From request) of None \<Rightarrow> q_NilHash e | Some x \<Rightarrow> Some (q_Hash e x));
          if fills_skeleton e (rq_From request) target headers
          then do { (sent, q2) \<leftarrow> accept_headers room (rq_From request) headers q1; Some ((length headers, None, sent), q2) }
          else do { q2 \<leftarrow> reject_headers p (rq_From request) q1; Some ((0, Some NotAccepted, []), q2) }
        })"

section \<open>Deliveries of bodies and receipts\<close>

fun deliver_loop ::
  "('t, 'r) queueEnv \<Rightarrow> (header \<Rightarrow> nat \<Rightarrow> ('t, 'r) fetchResult \<Rightarrow> (queue_error + ('t, 'r) fetchResult) option) \<Rightarrow> nat \<Rightarrow> nat \<Rightarrow>
   header list \<Rightarrow> fetchKind \<Rightarrow> ('t, 'r) queue \<Rightarrow> ((queue_error option \<times> nat \<times> header list) \<times> fetchKind \<times> ('t, 'r) queue) option"
where
  "deliver_loop e reconstruct results i [] k q = Some ((None, i, []), k, q)"
| "deliver_loop e reconstruct results i (x # xs) k q =
     (if results \<le> i then Some ((None, i, x # xs), k, q)
      else let j = result_index q x
           in if int (length (resultCache q)) \<le> j \<or> j < 0 then Some ((Some errInvalidChain, i, x # xs), k, q)
              else case resultCache q ! nat j of
                     None \<Rightarrow> Some ((Some errInvalidChain, i, x # xs), k, q)
                   | Some res \<Rightarrow>
                       (case reconstruct x i res of
                          None \<Rightarrow> None
                        | Some (Inl err) \<Rightarrow> Some ((Some err, i, x # xs), k, q)
                        | Some (Inr res') \<Rightarrow>
                            deliver_loop e reconstruct results (Suc i) xs (complete_task (q_Hash e x) k)
                              (q\<lparr>resultCache := (resultCache q)[nat j := Some (res'\<lparr>fr_Pending := fr_Pending res' - 1\<rparr>)]\<rparr>)))"

definition delivery_error :: "queue_error option \<Rightarrow> nat \<Rightarrow> queue_error option" where
  "delivery_error failure accepted =
     (case failure of
        None \<Rightarrow> None
      | Some err \<Rightarrow> Some (if err = errInvalidChain then err else if 0 < accepted then PartialFailure err else errStaleDelivery))"

definition mark_all :: "('t, 'r) queueEnv \<Rightarrow> string \<Rightarrow> header list \<Rightarrow> ('t, 'r) queue \<Rightarrow> ('t, 'r) queue" where
  "mark_all e p xs q = q\<lparr>lacking := foldl (\<lambda>m x. MarkLacking p (q_Hash e x) m) (lacking q) xs\<rparr>"

definition deliver ::
  "('t, 'r) queueEnv \<Rightarrow> (header \<Rightarrow> nat \<Rightarrow> ('t, 'r) fetchResult \<Rightarrow> (queue_error + ('t, 'r) fetchResult) option) \<Rightarrow> nat \<Rightarrow> string \<Rightarrow>
   fetchKind \<Rightarrow> ('t, 'r) queue \<Rightarrow> ((nat \<times> queue_error option) \<times> fetchKind \<times> ('t, 'r) queue) option"
where
  "deliver e reconstruct results p k q =
     (case map_of (PendPool k) p of
        None \<Rightarrow> Some ((0, Some errNoFetchesPending), k, q)
      | Some request \<Rightarrow> do {
          let k1 = k\<lparr>PendPool := AList.delete p (PendPool k)\<rparr>;
          let q1 = (if results = 0 then mark_all e (rq_Peer request) (rq_Headers request) q else q);
          ((failure, accepted, rest), k2, q2) \<leftarrow> deliver_loop e reconstruct results 0 (rq_Headers request) k1 q1;
          Some ((accepted, delivery_error failure accepted), k2\<lparr>TaskQueue := TaskQueue k2 @ rest\<rparr>, q2)
        })"

definition body_part ::
  "('t, 'r) queueEnv \<Rightarrow> 't list list \<Rightarrow> header list list \<Rightarrow> header \<Rightarrow> nat \<Rightarrow> ('t, 'r) fetchResult \<Rightarrow> (queue_error + ('t, 'r) fetchResult) option"
where
  "body_part e txLists uncleLists x i res = do {
     txs \<leftarrow> index_at txLists i;
     if DeriveShaTxs e txs \<noteq> q_TxHash e x then Some (Inl errInvalidBody)
     else do {
       uncles \<leftarrow> index_at uncleLists i;
       if CalcUncleHash e uncles \<noteq> UncleHash x then Some (Inl errInvalidBody)
       else Some (Inr (res\<lparr>fr_Transactions := txs, fr_Uncles := uncles\<rparr>))
     }
   }"

definition receipt_part ::
  "('t, 'r) queueEnv \<Rightarrow> 'r list list \<Rightarrow> header \<Rightarrow> nat \<Rightarrow> ('t, 'r) fetchResult \<Rightarrow> (queue_error + ('t, 'r) fetchResult) option"
where
  "receipt_part e receiptList x i res = do {
     rs \<leftarrow> index_at receiptList i;
     if DeriveShaReceipts e rs \<noteq> q_ReceiptHash e x then Some (Inl errInvalidReceipt)
     else Some (Inr (res\<lparr>fr_Receipts := rs\<rparr>))
   }"

definition DeliverBodies ::
  "('t, 'r) queueEnv \<Rightarrow> string \<Rightarrow> 't list list \<Rightarrow> header list list \<Rightarrow> ('t, 'r) queue \<Rightarrow> ((nat \<times> queue_error option) \<times> ('t, 'r) queue) option"
where
  "DeliverBodies e p txLists uncleLists q = do {
     (r, k, q1) \<leftarrow> deliver e (body_part e txLists uncleLists) (length txLists) p (bodies q) q;
     Some (r, q1\<lparr>bodies := k\<rparr>)
   }"

definition DeliverReceipts ::
  "('t, 'r) queueEnv \<Rightarrow> string \<Rightarrow> 'r list list \<Rightarrow> ('t, 'r) queue \<Rightarrow> ((nat \<times> queue_error option) \<times> ('t, 'r) queue) option"
where
  "DeliverReceipts e p receiptList q = do {
     (r, k, q1) \<leftarrow> deliver e (receipt_part e receiptList) (length receiptList) p (receipts q) q;
     Some (r, q1\<lparr>receipts := k\<rparr>)
   }"

end
