(* ===== verification/DownloadQueueProps.thy ===== *)
theory DownloadQueueProps
  imports DownloadQueue
begin

text \<open>
  The invariant of the download queue. Of a fetch kind: the queued and the requested headers are tasks of
  the pool, each at most once, and exactly once as long as no reservation has failed. Of the result cache:
  a slot belongs to one header, counts the parts that are still tasks, and holds the parts that are not.
\<close>

section \<open>The tasks of a kind\<close>

definition tasks_of :: "fetchKind \<Rightarrow> header set" where
  "tasks_of k = snd ` set (TaskPool k)"

definition flight :: "fetchKind \<Rightarrow> header multiset" where
  "flight k = mset (concat (map (\<lambda>p. rq_Headers (snd p)) (PendPool k)))"

text \<open>\<open>X\<close> are the tasks held by a loop that is under way.\<close>

definition tasks_ok :: "bool \<Rightarrow> ('t, 'r) queueEnv \<Rightarrow> header multiset \<Rightarrow> fetchKind \<Rightarrow> bool" where
  "tasks_ok strict e X k \<longleftrightarrow>
     gomap_ok (TaskPool k) \<and> gomap_ok (PendPool k) \<and> (\<forall>(h, x) \<in> set (TaskPool k). h = q_Hash e x) \<and>
     mset (TaskQueue k) + flight k + X \<subseteq># mset (map snd (TaskPool k)) \<and>
     (strict \<longrightarrow> mset (TaskQueue k) + flight k + X = mset (map snd (TaskPool k)))"

definition queueEnv_ok :: "('t, 'r) queueEnv \<Rightarrow> bool" where
  "queueEnv_ok e \<longleftrightarrow>
     (\<forall>xs x ys. xs \<noteq> [] \<and> pop_header e xs = (x, ys) \<longrightarrow> mset xs = add_mset x (mset ys)) \<and>
     (\<forall>ns n ms. ns \<noteq> [] \<and> pop_from e ns = (n, ms) \<longrightarrow> mset ns = add_mset n (mset ms)) \<and>
     DeriveShaTxs e [] = q_EmptyRoot e \<and> DeriveShaReceipts e [] = q_EmptyRoot e \<and> CalcUncleHash e [] = q_EmptyUncle e"

lemma pop_header_mset: "queueEnv_ok e \<Longrightarrow> xs \<noteq> [] \<Longrightarrow> pop_header e xs = (x, ys) \<Longrightarrow> mset xs = add_mset x (mset ys)"
  unfolding queueEnv_ok_def by blast

lemma pop_from_mset: "queueEnv_ok e \<Longrightarrow> ns \<noteq> [] \<Longrightarrow> pop_from e ns = (n, ms) \<Longrightarrow> mset ns = add_mset n (mset ms)"
  unfolding queueEnv_ok_def by blast

text \<open>The loops end before their fuel: more of it than the length of the queue, or of the results, changes nothing.\<close>

lemma reserve_loop_fuel:
  assumes "queueEnv_ok e" "length (TaskQueue k) \<le> fuel"
  shows "reserve_loop e noop p cnt (fuel + extra) proc space send skip progress k q = reserve_loop e noop p cnt fuel proc space send skip progress k q"
  using assms(2)
proof (induction fuel arbitrary: proc space send skip progress k q)
  case 0
  then show ?case by (cases extra) simp_all
next
  case (Suc fuel)
  obtain x ts where pop: "pop_header e (TaskQueue k) = (x, ts)" by (cases "pop_header e (TaskQueue k)")
  have "length ts \<le> fuel" if "TaskQueue k \<noteq> []"
    using arg_cong [OF pop_header_mset [OF assms(1) that pop], of size] Suc.prems by simp
  then have "TaskQueue k \<noteq> [] \<Longrightarrow> length (TaskQueue (k\<lparr>TaskQueue := ts\<rparr>)) \<le> fuel \<and>
      length (TaskQueue (complete_task (q_Hash e x) (k\<lparr>TaskQueue := ts\<rparr>))) \<le> fuel" by (simp add: complete_task_def)
  then show ?case using Suc.IH pop by (simp add: Let_def)
qed

lemma skip_missing_fuel:
  assumes "queueEnv_ok e" "length ns \<le> fuel"
  shows "skip_missing e missing (fuel + extra) ns skip = skip_missing e missing fuel ns skip"
  using assms(2)
proof (induction fuel arbitrary: ns skip)
  case 0
  then show ?case by (cases extra) simp_all
next
  case (Suc fuel)
  obtain n ms where pop: "pop_from e ns = (n, ms)" by (cases "pop_from e ns")
  have "length ms \<le> fuel" if "ns \<noteq> []"
    using arg_cong [OF pop_from_mset [OF assms(1) that pop], of size] Suc.prems by simp
  then show ?case using Suc.IH pop by simp
qed

lemma count_ready_fuel:
  "length results \<le> fuel + proced + ready \<Longrightarrow> count_ready (fuel + extra) results proced ready = count_ready fuel results proced ready"
proof (induction fuel arbitrary: ready)
  case 0
  then show ?case by (cases extra) simp_all
next
  case (Suc fuel)
  then show ?case by (auto simp: MaxHeaderFetch_def)
qed

lemma held_task: "tasks_ok strict e X k \<Longrightarrow> x \<in># X \<Longrightarrow> x \<in> tasks_of k"
proof -
  assume ok: "tasks_ok strict e X k" and "x \<in># X"
  then have "x \<in># mset (TaskQueue k) + flight k + X" by simp
  then have "x \<in># mset (map snd (TaskPool k))" using ok unfolding tasks_ok_def by (meson mset_subset_eqD)
  then show ?thesis by (auto simp: tasks_of_def)
qed

lemma tasks_ok_drop: "tasks_ok strict e (X + Y) k \<Longrightarrow> tasks_ok False e X k"
proof -
  assume ok: "tasks_ok strict e (X + Y) k"
  have "mset (TaskQueue k) + flight k + X \<subseteq># mset (TaskQueue k) + flight k + (X + Y)" by (simp add: ac_simps)
  then show ?thesis using ok unfolding tasks_ok_def by (meson subset_mset.order_trans)
qed

lemma tasks_ok_weak: "tasks_ok strict e X k \<Longrightarrow> tasks_ok False e X k"
  by (simp add: tasks_ok_def)

lemma tasks_ok_pop:
  assumes "queueEnv_ok e" "tasks_ok strict e X k" "TaskQueue k \<noteq> []" "pop_header e (TaskQueue k) = (x, ys)"
  shows "tasks_ok strict e (add_mset x X) (k\<lparr>TaskQueue := ys\<rparr>)"
  using assms(2) pop_header_mset [OF assms(1,3,4)] by (simp add: tasks_ok_def flight_def)

lemma tasks_ok_requeue: "tasks_ok strict e (X + mset ys) k \<Longrightarrow> tasks_ok strict e X (k\<lparr>TaskQueue := TaskQueue k @ ys\<rparr>)"
  by (simp add: tasks_ok_def flight_def ac_simps)

lemma tasks_ok_pend:
  assumes "tasks_ok strict e (X + mset (rq_Headers r)) k" "map_of (PendPool k) p = None"
  shows "tasks_ok strict e X (k\<lparr>PendPool := AList.update p r (PendPool k)\<rparr>)"
proof -
  have "p \<notin> fst ` set (PendPool k)" using assms(2) by (simp add: map_of_eq_None_iff)
  then show ?thesis using assms(1) update_fresh [of p "PendPool k" r] gomap_ok_update [of "PendPool k" p r]
    by (simp add: tasks_ok_def flight_def ac_simps)
qed

lemma concat_delete:
  assumes "gomap_ok m" "map_of m p = Some r"
  shows "mset (concat (map (\<lambda>p. f (snd p)) m)) = mset (f r) + mset (concat (map (\<lambda>p. f (snd p)) (AList.delete p m)))"
  using assms
proof (induction m)
  case (Cons a m)
  show ?case
  proof (cases "fst a = p")
    case True
    then have "AList.delete p (a # m) = m" using Cons.prems by (cases a) (auto simp: gomap_ok_def)
    then show ?thesis using True Cons.prems(2) by (cases a) simp
  next
    case False
    then show ?thesis using Cons by (cases a) (auto simp: gomap_ok_def)
  qed
qed simp

lemma tasks_ok_unpend:
  assumes "tasks_ok strict e X k" "map_of (PendPool k) p = Some r"
  shows "tasks_ok strict e (X + mset (rq_Headers r)) (k\<lparr>PendPool := AList.delete p (PendPool k)\<rparr>)"
  using assms(1) concat_delete [OF _ assms(2), of rq_Headers] by (simp add: tasks_ok_def flight_def ac_simps)

lemma pool_delete:
  assumes "gomap_ok m" "(h, x) \<in> set m"
  shows "mset (map snd m) = add_mset x (mset (map snd (AList.delete h m)))"
  using concat_delete [of m h x "\<lambda>x. [x]"] assms by (simp add: map_of_gomap)

lemma task_key: "tasks_ok strict e X k \<Longrightarrow> x \<in> tasks_of k \<Longrightarrow> (q_Hash e x, x) \<in> set (TaskPool k)"
  by (auto simp: tasks_ok_def tasks_of_def)

lemma tasks_ok_complete:
  assumes "tasks_ok strict e (add_mset x X) k"
  shows "tasks_ok strict e X (complete_task (q_Hash e x) k)"
proof -
  have "x \<in> tasks_of k" by (rule held_task [OF assms]) simp
  then have key: "(q_Hash e x, x) \<in> set (TaskPool k)" by (rule task_key [OF assms])
  have "mset (map snd (TaskPool k)) = add_mset x (mset (map snd (AList.delete (q_Hash e x) (TaskPool k))))"
    by (rule pool_delete [OF _ key]) (use assms in \<open>simp add: tasks_ok_def\<close>)
  then show ?thesis using assms set_delete_subset [of "q_Hash e x" "TaskPool k"]
    by (auto simp: tasks_ok_def complete_task_def flight_def ac_simps)
qed

lemma tasks_of_complete:
  assumes "tasks_ok strict e X k" "x \<in> tasks_of k"
  shows "tasks_of (complete_task (q_Hash e x) k) = tasks_of k - {x}"
proof -
  have keys: "\<And>h y. (h, y) \<in> set (TaskPool k) \<Longrightarrow> h = q_Hash e y" using assms(1) by (auto simp: tasks_ok_def)
  have one: "\<And>h y z. (h, y) \<in> set (TaskPool k) \<Longrightarrow> (h, z) \<in> set (TaskPool k) \<Longrightarrow> y = z"
    using assms(1) by (auto simp: tasks_ok_def gomap_ok_def dest: eq_key_imp_eq_value)
  show ?thesis
  proof (intro equalityI subsetI)
    fix y assume "y \<in> tasks_of (complete_task (q_Hash e x) k)"
    then obtain h where y: "(h, y) \<in> set (TaskPool k)" "h \<noteq> q_Hash e x"
      by (auto simp: tasks_of_def complete_task_def delete_as_filter)
    then have "y \<noteq> x" using keys by blast
    then show "y \<in> tasks_of k - {x}" using y(1) by (force simp: tasks_of_def)
  next
    fix y assume "y \<in> tasks_of k - {x}"
    then have y: "y \<in> tasks_of k" "y \<noteq> x" by simp_all
    have "q_Hash e y \<noteq> q_Hash e x"
      using one [of "q_Hash e x" y x] task_key [OF assms(1) y(1)] task_key [OF assms] y(2) by metis
    then have "(q_Hash e y, y) \<in> set (AList.delete (q_Hash e x) (TaskPool k))"
      using task_key [OF assms(1) y(1)] by (simp add: delete_as_filter)
    then show "y \<in> tasks_of (complete_task (q_Hash e x) k)" by (force simp: tasks_of_def complete_task_def)
  qed
qed

lemma tasks_ok_push:
  assumes "tasks_ok strict e X k" "map_of (TaskPool k) (q_Hash e x) = None"
  shows "tasks_ok strict e X (push_task (q_Hash e x) x k)" "tasks_of (push_task (q_Hash e x) x k) = insert x (tasks_of k)"
proof -
  have fresh: "q_Hash e x \<notin> fst ` set (TaskPool k)" using assms(2) by (simp add: map_of_eq_None_iff)
  note upd = update_fresh [OF fresh, of x] gomap_ok_update [of "TaskPool k" "q_Hash e x" x]
  show "tasks_ok strict e X (push_task (q_Hash e x) x k)" using assms(1) upd by (simp add: tasks_ok_def push_task_def flight_def ac_simps)
  show "tasks_of (push_task (q_Hash e x) x k) = insert x (tasks_of k)" using upd by (simp add: tasks_of_def push_task_def)
qed

lemma give_back_ok:
  assumes "tasks_ok strict e {#} k" "map_of (PendPool k) p = Some r"
  shows "tasks_ok strict e {#} (give_back p r k)"
  using tasks_ok_unpend [OF assms] by (simp add: give_back_def tasks_ok_def flight_def ac_simps)

lemma revoke_kind_ok: "tasks_ok strict e {#} k \<Longrightarrow> tasks_ok strict e {#} (revoke_kind p k)"
  by (auto simp: revoke_kind_def give_back_ok split: option.split)

lemma concat_partition:
  "mset (concat (map f xs)) = mset (concat (map f (filter P xs))) + mset (concat (map f (filter (\<lambda>x. \<not> P x) xs)))"
  by (induction xs) simp_all

lemma expire_kind_ok: "tasks_ok strict e {#} k \<Longrightarrow> tasks_ok strict e {#} (snd (expire_kind now timeout k))"
  using concat_partition [of "\<lambda>p. rq_Headers (snd p)" "PendPool k" "expired now timeout"]
  by (simp add: tasks_ok_def expire_kind_def flight_def Let_def ac_simps)

lemma tasks_of_simps [simp]:
  "tasks_of (k\<lparr>TaskQueue := ts\<rparr>) = tasks_of k" "tasks_of (k\<lparr>PendPool := m\<rparr>) = tasks_of k"
  "tasks_of (give_back p r k) = tasks_of k" "tasks_of (revoke_kind p k) = tasks_of k"
  "tasks_of (snd (expire_kind now timeout k)) = tasks_of k" "tasks_of (forget_done hs k) = tasks_of k"
  "tasks_of empty_kind = {}"
  by (simp_all add: tasks_of_def give_back_def revoke_kind_def expire_kind_def Let_def forget_done_def empty_kind_def split: option.split)

lemma tasks_ok_forget [simp]: "tasks_ok strict e X (forget_done hs k) = tasks_ok strict e X k"
  by (simp add: tasks_ok_def forget_done_def flight_def)

lemma tasks_ok_empty [simp]: "tasks_ok strict e {#} empty_kind"
  by (simp add: tasks_ok_def empty_kind_def flight_def)

section \<open>The result cache\<close>

definition queue_headers_ok :: "('t, 'r) queueEnv \<Rightarrow> header set \<Rightarrow> bool" where
  "queue_headers_ok e U \<longleftrightarrow>
     inj_on (q_Hash e) U \<and> (\<forall>x \<in> U. 0 \<le> h_number x \<and> h_number x < 2 ^ 63 \<and> q_Hash e x \<noteq> 0) \<and>
     (\<forall>x \<in> U. \<forall>y \<in> U. ParentHash x = q_Hash e y \<longrightarrow> h_number x = h_number y + 1)"

definition cached :: "('t, 'r) queue \<Rightarrow> header set" where
  "cached q = {fr_Header res | res. Some res \<in> set (resultCache q)}"

text \<open>The scheduled headers \<open>A\<close> are part of one chain, of which \<open>h\<close> is the last hash.\<close>

definition one_chain :: "('t, 'r) queueEnv \<Rightarrow> header set \<Rightarrow> bool" where
  "one_chain e A \<longleftrightarrow> inj_on h_number A \<and> (\<forall>x \<in> A. \<forall>z \<in> A. h_number z = h_number x + 1 \<longrightarrow> ParentHash z = q_Hash e x)"

definition head_ok :: "('t, 'r) queueEnv \<Rightarrow> header set \<Rightarrow> header set \<Rightarrow> hash \<Rightarrow> bool" where
  "head_ok e U A h \<longleftrightarrow>
     (if h = 0 then A = {}
      else \<exists>y \<in> U. q_Hash e y = h \<and> (\<forall>x \<in> A. h_number x \<le> h_number y) \<and> one_chain e (insert y A))"

definition body_matches :: "('t, 'r) queueEnv \<Rightarrow> ('t, 'r) fetchResult \<Rightarrow> bool" where
  "body_matches e res \<longleftrightarrow>
     DeriveShaTxs e (fr_Transactions res) = q_TxHash e (fr_Header res) \<and> CalcUncleHash e (fr_Uncles res) = UncleHash (fr_Header res)"

definition receipts_match :: "('t, 'r) queueEnv \<Rightarrow> ('t, 'r) fetchResult \<Rightarrow> bool" where
  "receipts_match e res \<longleftrightarrow> DeriveShaReceipts e (fr_Receipts res) = q_ReceiptHash e (fr_Header res)"

definition slot_ok :: "('t, 'r) queueEnv \<Rightarrow> ('t, 'r) queue \<Rightarrow> header set \<Rightarrow> header set \<Rightarrow> nat \<Rightarrow> ('t, 'r) fetchResult \<Rightarrow> bool" where
  "slot_ok e q B R i res \<longleftrightarrow>
     low64 (h_number (fr_Header res)) = resultOffset q + of_nat i \<and>
     fr_Pending res = of_bool (fr_Header res \<in> B) + of_bool (fr_Header res \<in> R) \<and>
     (if fr_Header res \<in> B then fr_Transactions res = [] \<and> fr_Uncles res = [] else body_matches e res) \<and>
     (if fr_Header res \<in> R then fr_Receipts res = [] else needs_receipts q (fr_Header res) \<longrightarrow> receipts_match e res)"

text \<open>\<open>B\<close> and \<open>R\<close> are the headers whose body and whose receipts are still tasks.\<close>

definition cache_inv :: "('t, 'r) queueEnv \<Rightarrow> header set \<Rightarrow> header set \<Rightarrow> header set \<Rightarrow> ('t, 'r) queue \<Rightarrow> bool" where
  "cache_inv e U B R q \<longleftrightarrow>
     length (resultCache q) < 2 ^ 64 \<and> B \<union> R \<union> cached q \<subseteq> U \<and> head_ok e U (B \<union> R \<union> cached q) (headerHead q) \<and>
     (\<forall>i res. i < length (resultCache q) \<and> resultCache q ! i = Some res \<longrightarrow> slot_ok e q B R i res) \<and>
     (\<forall>x \<in> B \<union> R. x \<notin> cached q \<longrightarrow> x \<in> B \<and> (x \<in> R \<longleftrightarrow> needs_receipts q x))"

lemma cache_new:
  assumes "cache_inv e U B R q" "x \<in> B \<union> R" "x \<notin> cached q"
  shows "x \<in> B" "x \<in> R \<longleftrightarrow> needs_receipts q x"
proof -
  have "\<forall>y \<in> B \<union> R. y \<notin> cached q \<longrightarrow> y \<in> B \<and> (y \<in> R \<longleftrightarrow> needs_receipts q y)"
    using assms(1) unfolding cache_inv_def by (elim conjE)
  note parts = mp [OF bspec [OF this assms(2)] assms(3)]
  show "x \<in> B" "x \<in> R \<longleftrightarrow> needs_receipts q x" by (rule conjunct1 [OF parts], rule conjunct2 [OF parts])
qed

lemma cache_parts:
  assumes "cache_inv e U B R q"
  shows "length (resultCache q) < 2 ^ 64" "B \<union> R \<union> cached q \<subseteq> U" "head_ok e U (B \<union> R \<union> cached q) (headerHead q)"
    "i < length (resultCache q) \<Longrightarrow> resultCache q ! i = Some res \<Longrightarrow> slot_ok e q B R i res"
  using assms unfolding cache_inv_def by blast+

lemma cache_invI:
  assumes "length (resultCache q) < 2 ^ 64" "B \<union> R \<union> cached q \<subseteq> U" "head_ok e U (B \<union> R \<union> cached q) (headerHead q)"
    and "\<And>i res. i < length (resultCache q) \<Longrightarrow> resultCache q ! i = Some res \<Longrightarrow> slot_ok e q B R i res"
    and "\<And>x. x \<in> B \<union> R \<Longrightarrow> x \<notin> cached q \<Longrightarrow> x \<in> B \<and> (x \<in> R \<longleftrightarrow> needs_receipts q x)"
  shows "cache_inv e U B R q"
  unfolding cache_inv_def using assms by blast

lemma one_chain_mono: "one_chain e A \<Longrightarrow> A' \<subseteq> A \<Longrightarrow> one_chain e A'"
  unfolding one_chain_def by (meson inj_on_subset subsetD)

lemma head_ok_mono: "head_ok e U A h \<Longrightarrow> A' \<subseteq> A \<Longrightarrow> head_ok e U A' h"
  unfolding head_ok_def by (auto split: if_splits intro: one_chain_mono)

lemma head_ok_chain: "head_ok e U A h \<Longrightarrow> one_chain e A"
  unfolding head_ok_def by (auto split: if_splits intro: one_chain_mono simp: one_chain_def)

lemma cachedI: "i < length (resultCache q) \<Longrightarrow> resultCache q ! i = Some res \<Longrightarrow> fr_Header res \<in> cached q"
  unfolding cached_def by (metis (mono_tags, lifting) mem_Collect_eq nth_mem)

lemma cachedE:
  assumes "x \<in> cached q"
  obtains i res where "i < length (resultCache q)" "resultCache q ! i = Some res" "fr_Header res = x"
  using assms unfolding cached_def by (auto simp: in_set_conv_nth)

lemma queue_number:
  assumes "queue_headers_ok e U" "x \<in> U"
  shows "0 \<le> h_number x" "uint (low64 (h_number x)) = h_number x" "h_number x < 2 ^ 63"
proof -
  show x: "0 \<le> h_number x" "h_number x < 2 ^ 63" using assms unfolding queue_headers_ok_def by blast+
  then show "uint (low64 (h_number x)) = h_number x" by (intro uint_low64) simp_all
qed

lemma low64_eq:
  assumes "queue_headers_ok e U" "x \<in> U" "y \<in> U" "low64 (h_number x) = low64 (h_number y)"
  shows "h_number x = h_number y"
proof -
  note xy = queue_number [OF assms(1,2)] queue_number [OF assms(1,3)]
  have "h_number x = uint (low64 (h_number x))" by (rule xy(2) [symmetric])
  also have "\<dots> = uint (low64 (h_number y))" by (simp only: assms(4))
  also have "\<dots> = h_number y" by (rule xy(5))
  finally show ?thesis .
qed

lemma same_header:
  assumes "queue_headers_ok e U" "cache_inv e U B R q" "x \<in> B \<union> R \<union> cached q" "y \<in> B \<union> R \<union> cached q"
    and "low64 (h_number x) = low64 (h_number y)"
  shows "x = y"
proof -
  have inv: "B \<union> R \<union> cached q \<subseteq> U" "head_ok e U (B \<union> R \<union> cached q) (headerHead q)"
    using cache_parts [OF assms(2)] by simp_all
  have inj: "inj_on h_number (B \<union> R \<union> cached q)" using head_ok_chain [OF inv(2)] unfolding one_chain_def by simp
  have "h_number x = h_number y"
    by (rule low64_eq [OF assms(1) subsetD [OF inv(1) assms(3)] subsetD [OF inv(1) assms(4)] assms(5)])
  then show ?thesis by (rule inj_onD [OF inj _ assms(3,4)])
qed

lemmas cache_slot = cache_parts(4)

lemma slot_header:
  assumes "queue_headers_ok e U" "cache_inv e U B R q" "x \<in> B \<union> R" "low64 (h_number x) = resultOffset q + of_nat i"
    and "i < length (resultCache q)" "resultCache q ! i = Some res"
  shows "fr_Header res = x"
proof (rule same_header [OF assms(1,2)])
  show "fr_Header res \<in> B \<union> R \<union> cached q" using cachedI [OF assms(5,6)] by simp
  show "x \<in> B \<union> R \<union> cached q" using assms(3) by auto
  show "low64 (h_number (fr_Header res)) = low64 (h_number x)" using cache_slot [OF assms(2,5,6)] assms(4) by (simp add: slot_ok_def)
qed

lemma of_nat_small_inj:
  assumes "i < 2 ^ 64" "j < 2 ^ 64" "(of_nat i :: uint64) = of_nat j"
  shows "i = j"
proof -
  have i: "unat (of_nat i :: uint64) = i" and j: "unat (of_nat j :: uint64) = j"
    using assms(1,2) by (simp_all add: unat_of_nat)
  have "i = unat (of_nat i :: uint64)" by (rule i [symmetric])
  also have "\<dots> = unat (of_nat j :: uint64)" by (simp only: assms(3))
  also have "\<dots> = j" by (rule j)
  finally show ?thesis .
qed

lemma slot_unique:
  assumes "cache_inv e U B R q" "i < length (resultCache q)" "resultCache q ! i = Some res"
    and "j < length (resultCache q)" "resultCache q ! j = Some res'" "fr_Header res = fr_Header res'"
  shows "i = j"
proof -
  have "low64 (h_number (fr_Header res)) = resultOffset q + of_nat i" "low64 (h_number (fr_Header res')) = resultOffset q + of_nat j"
    using cache_slot [OF assms(1-3)] cache_slot [OF assms(1,4,5)] unfolding slot_ok_def by blast+
  then have "resultOffset q + of_nat i = resultOffset q + of_nat j" by (simp only: assms(6))
  then have "(of_nat i :: uint64) = of_nat j" by (rule add_left_imp_eq)
  moreover have "i < 2 ^ 64" "j < 2 ^ 64" using cache_parts(1) [OF assms(1)] assms(2,4) by linarith+
  ultimately show ?thesis by (rule of_nat_small_inj [rotated 2])
qed

lemma index_word:
  assumes "0 \<le> h_number x" "0 \<le> result_index q x"
  shows "low64 (h_number x) = resultOffset q + of_nat (nat (result_index q x))"
proof -
  have "(of_nat (nat (result_index q x)) :: uint64) = of_int (result_index q x)" using assms(2) by (simp add: of_nat_nat)
  also have "\<dots> = low64 (h_number x) - resultOffset q" using assms(1) by (simp add: result_index_def big_Int64_def)
  finally show ?thesis by simp
qed

lemma cached_update:
  assumes "i < length (resultCache q)" "resultCache q ! i = None \<or> (\<exists>r. resultCache q ! i = Some r \<and> fr_Header r = fr_Header res)"
  shows "cached (q\<lparr>resultCache := (resultCache q)[i := Some res]\<rparr>) = insert (fr_Header res) (cached q)"
proof (intro equalityI subsetI)
  fix x assume "x \<in> cached (q\<lparr>resultCache := (resultCache q)[i := Some res]\<rparr>)"
  then obtain j r where j: "j < length (resultCache q)" "(resultCache q)[i := Some res] ! j = Some r" "fr_Header r = x"
    by (rule cachedE) simp
  then show "x \<in> insert (fr_Header res) (cached q)" by (cases "j = i") (auto simp: cachedI)
next
  let ?q = "q\<lparr>resultCache := (resultCache q)[i := Some res]\<rparr>"
  fix x assume x: "x \<in> insert (fr_Header res) (cached q)"
  have new: "fr_Header res \<in> cached ?q" using assms(1) by (intro cachedI [of i]) simp_all
  show "x \<in> cached ?q"
  proof (cases "x = fr_Header res")
    case False
    then obtain j r where j: "j < length (resultCache q)" "resultCache q ! j = Some r" "fr_Header r = x"
      using x by (auto elim: cachedE)
    then have "j \<noteq> i" using assms(2) False by auto
    then show ?thesis using j cachedI [of j ?q r] by simp
  qed (use new in simp)
qed

section \<open>Changes of the cache\<close>

lemma slot_ok_upd: "slot_ok e (q\<lparr>resultCache := c\<rparr>) B R i res = slot_ok e q B R i res"
  unfolding slot_ok_def needs_receipts_def by simp

text \<open>A slot is filled when the first part of its header is reserved.\<close>

lemma init_result_inv:
  fixes q :: "('t, 'r) queue"
  assumes U: "queue_headers_ok e U" and inv: "cache_inv e U B R q" and x: "x \<in> B \<union> R"
    and i: "low64 (h_number x) = resultOffset q + of_nat i" "i < length (resultCache q)"
  shows "cache_inv e U B R (init_result i x q)"
    and "\<exists>res. resultCache (init_result i x q) ! i = Some res \<and> fr_Header res = x"
proof -
  show "\<exists>res. resultCache (init_result i x q) ! i = Some res \<and> fr_Header res = x"
    using slot_header [OF U inv x i] i(2) by (cases "resultCache q ! i") (auto simp: init_result_def)
  show "cache_inv e U B R (init_result i x q)"
  proof (cases "resultCache q ! i = None")
    case True
    have new: "x \<notin> cached q"
    proof
      assume "x \<in> cached q"
      then obtain j r where j: "j < length (resultCache q)" "resultCache q ! j = Some r" "fr_Header r = x" by (rule cachedE)
      then have "low64 (h_number x) = resultOffset q + of_nat j" using cache_slot [OF inv j(1,2)] unfolding slot_ok_def by blast
      then have "resultOffset q + of_nat i = resultOffset q + of_nat j" by (simp only: i(1))
      then have "(of_nat i :: uint64) = of_nat j" by (rule add_left_imp_eq)
      moreover have "i < 2 ^ 64" "j < 2 ^ 64" using cache_parts(1) [OF inv] i(2) j(1) by linarith+
      ultimately have "i = j" by (rule of_nat_small_inj [rotated 2])
      then show False using True j(2) by simp
    qed
    note parts = cache_new [OF inv x new]
    define res :: "('t, 'r) fetchResult" where "res = \<lparr>fr_Pending = (if needs_receipts q x then 2 else 1), fr_Header = x,
      fr_Uncles = [], fr_Transactions = [], fr_Receipts = []\<rparr>"
    have q': "init_result i x q = q\<lparr>resultCache := (resultCache q)[i := Some res]\<rparr>" using True by (simp add: init_result_def res_def)
    have c: "cached (q\<lparr>resultCache := (resultCache q)[i := Some res]\<rparr>) = insert x (cached q)"
      using cached_update [OF i(2), of res] True by (simp add: res_def)
    have A: "B \<union> R \<union> insert x (cached q) = B \<union> R \<union> cached q" using x by auto
    have res: "slot_ok e q B R i res" using i(1) parts unfolding slot_ok_def res_def by simp
    have slots: "slot_ok e q B R j r" if j: "j < length (resultCache q)" "(resultCache q)[i := Some res] ! j = Some r" for j r
      using j res cache_slot [OF inv j(1)] i(2) by (cases "j = i") simp_all
    show ?thesis unfolding q'
    proof (rule cache_invI, unfold c A)
      fix y assume "y \<in> B \<union> R" "y \<notin> insert x (cached q)"
      then have "y \<in> B \<and> (y \<in> R \<longleftrightarrow> needs_receipts q y)" using cache_new [OF inv] by blast
      then show "y \<in> B \<and> (y \<in> R \<longleftrightarrow> needs_receipts (q\<lparr>resultCache := (resultCache q)[i := Some res]\<rparr>) y)"
        by (simp add: needs_receipts_def)
    qed (use cache_parts(1-3) [OF inv] slots in \<open>simp_all add: slot_ok_upd\<close>)
  next
    case False
    then have "init_result i x q = q" unfolding init_result_def by (simp only: if_False)
    then show ?thesis using inv by (simp only:)
  qed
qed

text \<open>A slot is replaced when a part of its header is finished.\<close>

lemma store_part_inv:
  assumes U: "queue_headers_ok e U" and inv: "cache_inv e U B R q"
    and i: "i < length (resultCache q)" "resultCache q ! i = Some res" "fr_Header res = x" "fr_Header res' = x"
    and sub: "B' \<subseteq> B" "R' \<subseteq> R" "B - B' \<subseteq> {x}" "R - R' \<subseteq> {x}" and ok: "slot_ok e q B' R' i res'"
  shows "cache_inv e U B' R' (q\<lparr>resultCache := (resultCache q)[i := Some res']\<rparr>)"
proof -
  let ?q = "q\<lparr>resultCache := (resultCache q)[i := Some res']\<rparr>"
  have c: "cached ?q = cached q" using cached_update [OF i(1), of res'] i(2-4) cachedI [OF i(1,2)] by (simp add: insert_absorb)
  have mem: "y \<noteq> x \<Longrightarrow> (y \<in> B' \<longleftrightarrow> y \<in> B) \<and> (y \<in> R' \<longleftrightarrow> y \<in> R)" for y using sub by auto
  have slots: "slot_ok e ?q B' R' j r" if j: "j < length (resultCache q)" "(resultCache q)[i := Some res'] ! j = Some r" for j r
  proof (cases "j = i")
    case True
    then show ?thesis using j i(1) ok by (simp add: slot_ok_upd)
  next
    case False
    then have r: "resultCache q ! j = Some r" using j(2) by simp
    then have "fr_Header r \<noteq> x" using slot_unique [OF inv j(1) r i(1,2)] False i(3) by auto
    then show ?thesis using cache_slot [OF inv j(1) r] mem unfolding slot_ok_upd unfolding slot_ok_def by simp
  qed
  have "x \<in> cached q" using cachedI [OF i(1,2)] i(3) by simp
  have rest: "\<forall>y \<in> B' \<union> R'. y \<notin> cached q \<longrightarrow> y \<in> B' \<and> (y \<in> R' \<longleftrightarrow> needs_receipts ?q y)"
  proof (intro ballI impI)
    fix y assume y: "y \<in> B' \<union> R'" "y \<notin> cached q"
    then have old: "y \<in> B \<union> R" "y \<noteq> x" using sub \<open>x \<in> cached q\<close> by auto
    have "needs_receipts ?q y = needs_receipts q y" by (simp add: needs_receipts_def)
    then show "y \<in> B' \<and> (y \<in> R' \<longleftrightarrow> needs_receipts ?q y)" using cache_new [OF inv old(1) y(2)] mem [OF old(2)] by blast
  qed
  have A: "B' \<union> R' \<union> cached q \<subseteq> B \<union> R \<union> cached q" using sub by auto
  have head: "head_ok e U (B' \<union> R' \<union> cached q) (headerHead q)" by (rule head_ok_mono [OF cache_parts(3) [OF inv] A])
  show ?thesis
  proof (rule cache_invI, unfold c)
    show "B' \<union> R' \<union> cached q \<subseteq> U" using A cache_parts(2) [OF inv] by (rule subset_trans)
    show "y \<in> B' \<and> (y \<in> R' \<longleftrightarrow> needs_receipts ?q y)" if "y \<in> B' \<union> R'" "y \<notin> cached q" for y
      using rest that by blast
  qed (use cache_parts(1) [OF inv] head slots in simp_all)
qed

section \<open>Reserving and delivering one kind\<close>

text \<open>
  What the loops of \<open>reserveHeaders\<close> and \<open>deliver\<close> need of the cache, as the code shares them between bodies
  and receipts: \<open>I P\<close> is the invariant when the headers \<open>P\<close> still lack their part, \<open>noop\<close> tells the headers whose
  part is empty, and \<open>fits\<close> that a result has taken up a part that matches the header.
\<close>

locale fetch_part =
  fixes e :: "('t, 'r) queueEnv"
    and I :: "header set \<Rightarrow> ('t, 'r) queue \<Rightarrow> bool"
    and noop :: "header \<Rightarrow> bool"
    and fits :: "('t, 'r) fetchResult \<Rightarrow> ('t, 'r) fetchResult \<Rightarrow> bool"
  assumes env: "I P q \<Longrightarrow> queueEnv_ok e"
    and slot_of: "I P q \<Longrightarrow> x \<in> P \<Longrightarrow> 0 \<le> result_index q x \<Longrightarrow> result_index q x < int (length (resultCache q)) \<Longrightarrow>
      resultCache q ! nat (result_index q x) = Some res \<Longrightarrow> fr_Header res = x"
    and init: "I P q \<Longrightarrow> x \<in> P \<Longrightarrow> 0 \<le> result_index q x \<Longrightarrow> result_index q x < int (length (resultCache q)) \<Longrightarrow>
      I P (init_result (nat (result_index q x)) x q)"
    and finish: "I P q \<Longrightarrow> x \<in> P \<Longrightarrow> i < length (resultCache q) \<Longrightarrow> resultCache q ! i = Some res \<Longrightarrow> fr_Header res = x \<Longrightarrow>
      noop x \<Longrightarrow> I (P - {x}) (finish_part i q)"
    and store: "I P q \<Longrightarrow> x \<in> P \<Longrightarrow> i < length (resultCache q) \<Longrightarrow> resultCache q ! i = Some res \<Longrightarrow> fr_Header res = x \<Longrightarrow>
      fits res res' \<Longrightarrow> I (P - {x}) (q\<lparr>resultCache := (resultCache q)[i := Some (res'\<lparr>fr_Pending := fr_Pending res' - 1\<rparr>)]\<rparr>)"
begin

lemma init_slot:
  assumes "I P q" "x \<in> P" "0 \<le> result_index q x" "result_index q x < int (length (resultCache q))"
  obtains res where "resultCache (init_result (nat (result_index q x)) x q) ! nat (result_index q x) = Some res" "fr_Header res = x"
    "nat (result_index q x) < length (resultCache (init_result (nat (result_index q x)) x q))"
  using slot_of [OF assms] assms(3,4) that
  by (cases "resultCache q ! nat (result_index q x)") (auto simp: init_result_def)

lemma reserve_loop_inv:
  assumes "tasks_ok strict e (X + mset send + mset skip) k" "I (tasks_of k) q"
    and "reserve_loop e noop p cnt fuel proc space send skip progress k q = (r, k', q')"
  shows "I (tasks_of k') q' \<and> PendPool k' = PendPool k \<and>
    (case r of Inl err \<Rightarrow> tasks_ok False e X k' | Inr (send', skip', progress') \<Rightarrow> tasks_ok strict e (X + mset send' + mset skip') k')"
  using assms
proof (induction fuel arbitrary: proc space send skip progress k q)
  case 0
  then show ?case by auto
next
  case (Suc fuel)
  show ?case
  proof (cases "proc < space \<and> length send < cnt \<and> TaskQueue k \<noteq> []")
    case False
    then have "r = Inr (send, skip, progress) \<and> k' = k \<and> q' = q" using Suc.prems(3) by auto
    then show ?thesis using Suc.prems(1,2) by simp
  next
    case True
    obtain x ts where pop: "pop_header e (TaskQueue k) = (x, ts)" by (cases "pop_header e (TaskQueue k)")
    define k1 where "k1 = k\<lparr>TaskQueue := ts\<rparr>"
    define i where "i = result_index q x"
    have k1: "tasks_ok strict e (add_mset x (X + mset send + mset skip)) k1"
      unfolding k1_def by (rule tasks_ok_pop [OF env [OF Suc.prems(2)] Suc.prems(1) _ pop]) (use True in simp)
    then have x: "x \<in> tasks_of k1" by (rule held_task) simp
    have I1: "I (tasks_of k1) q" using Suc.prems(2) by (simp add: k1_def)
    show ?thesis
    proof (cases "int (length (resultCache q)) \<le> i \<or> i < 0")
      case True2: True
      then have "r = Inl errInvalidChain \<and> k' = k1 \<and> q' = q"
        using Suc.prems(3) True pop by (auto simp: Let_def k1_def i_def)
      moreover have "tasks_ok False e X k1" using tasks_ok_drop [of strict e X "add_mset x (mset send + mset skip)" k1] k1 by (simp add: ac_simps)
      ultimately show ?thesis using I1 by (simp add: k1_def)
    next
      case False
      define q1 where "q1 = init_result (nat i) x q"
      have idx: "0 \<le> result_index q x" "result_index q x < int (length (resultCache q))" using False by (simp_all add: i_def)
      have I2: "I (tasks_of k1) q1" unfolding q1_def i_def by (rule init [OF I1 x idx])
      obtain res where res: "resultCache q1 ! nat i = Some res" "fr_Header res = x" "nat i < length (resultCache q1)"
        unfolding q1_def i_def by (rule init_slot [OF I1 x idx])
      have step: "reserve_loop e noop p cnt (Suc fuel) proc space send skip progress k q =
        (if noop x then reserve_loop e noop p cnt fuel proc (space - 1) send skip True (complete_task (q_Hash e x) k1) (finish_part (nat i) q1)
         else if Lacks p (q_Hash e x) (lacking q1)
         then reserve_loop e noop p cnt fuel (proc + 1) space send (skip @ [x]) progress k1 q1
         else reserve_loop e noop p cnt fuel (proc + 1) space (send @ [x]) skip progress k1 q1)"
        using True False pop by (auto simp: Let_def k1_def i_def q1_def)
      consider (noop) "noop x" | (skip) "\<not> noop x" "Lacks p (q_Hash e x) (lacking q1)" | (send) "\<not> noop x" "\<not> Lacks p (q_Hash e x) (lacking q1)"
        by blast
      then show ?thesis
      proof cases
        case noop
        let ?k = "complete_task (q_Hash e x) k1"
        have "tasks_ok strict e (X + mset send + mset skip) ?k" by (rule tasks_ok_complete [OF k1])
        moreover have "I (tasks_of ?k) (finish_part (nat i) q1)"
          unfolding tasks_of_complete [OF k1 x] by (rule finish [OF I2 x res(3,1,2) noop])
        ultimately have "I (tasks_of k') q' \<and> PendPool k' = PendPool ?k \<and>
            (case r of Inl err \<Rightarrow> tasks_ok False e X k' | Inr (send', skip', progress') \<Rightarrow> tasks_ok strict e (X + mset send' + mset skip') k')"
          by (rule Suc.IH) (use Suc.prems(3) step noop in simp)
        then show ?thesis by (simp add: complete_task_def k1_def)
      next
        case skip
        have "tasks_ok strict e (X + mset send + mset (skip @ [x])) k1" using k1 by (simp add: ac_simps)
        from Suc.IH [OF this I2] show ?thesis using Suc.prems(3) step skip by (simp add: k1_def)
      next
        case send
        have "tasks_ok strict e (X + mset (send @ [x]) + mset skip) k1" using k1 by (simp add: ac_simps)
        from Suc.IH [OF this I2] show ?thesis using Suc.prems(3) step send by (simp add: k1_def)
      qed
    qed
  qed
qed

lemma reserveHeaders_inv:
  assumes "tasks_ok strict e {#} k" "I (tasks_of k) q" "reserveHeaders e noop now p cnt k q = (r, k', q')"
  shows "I (tasks_of k') q' \<and> tasks_ok (strict \<and> \<not> isl r) e {#} k'"
proof (cases "TaskQueue k = [] \<or> map_of (PendPool k) p \<noteq> None")
  case True
  then have "r = Inr (None, False) \<and> k' = k \<and> q' = q" using assms(3) unfolding reserveHeaders_def by auto
  then show ?thesis using assms(1,2) by simp
next
  case False
  define space where "space = int (length (resultCache q)) - int (length (DonePool k)) - int (in_flight k)"
  obtain r1 k1 q1 where loop: "reserve_loop e noop p cnt (length (TaskQueue k)) 0 space [] [] False k q = (r1, k1, q1)"
    by (rule prod_cases3)
  have k: "tasks_ok strict e ({#} + mset [] + mset []) k" using assms(1) by simp
  note inv = reserve_loop_inv [OF k assms(2) loop]
  show ?thesis
  proof (cases r1)
    case (Inl err)
    then have "r = Inl err \<and> k' = k1 \<and> q' = q1" using assms(3) loop False unfolding reserveHeaders_def space_def [symmetric] by simp
    then show ?thesis using inv Inl by simp
  next
    case (Inr v)
    obtain send skip progress where v: "v = (send, skip, progress)" by (rule prod_cases3)
    define k2 where "k2 = k1\<lparr>TaskQueue := TaskQueue k1 @ skip\<rparr>"
    have k2: "tasks_ok strict e (mset send) k2"
      unfolding k2_def by (rule tasks_ok_requeue) (use inv Inr v in simp)
    have free: "map_of (PendPool k2) p = None" using inv False by (simp add: k2_def)
    have I2: "I (tasks_of k2) q1" using inv by (simp add: k2_def)
    show ?thesis
    proof (cases "send = []")
      case True
      then have "r = Inr (None, progress) \<and> k' = k2 \<and> q' = q1"
        using assms(3) loop False Inr v unfolding reserveHeaders_def space_def [symmetric] by (simp add: k2_def)
      then show ?thesis using k2 I2 True by simp
    next
      case some: False
      define rq where "rq = \<lparr>rq_Peer = p, rq_From = 0, rq_Headers = send, rq_Time = now\<rparr>"
      have "r = Inr (Some rq, progress) \<and> k' = k2\<lparr>PendPool := AList.update p rq (PendPool k2)\<rparr> \<and> q' = q1"
        using assms(3) loop False Inr v some unfolding reserveHeaders_def space_def [symmetric] by (simp add: k2_def rq_def Let_def)
      moreover have "tasks_ok strict e {#} (k2\<lparr>PendPool := AList.update p rq (PendPool k2)\<rparr>)"
        by (rule tasks_ok_pend [OF _ free]) (use k2 in \<open>simp add: rq_def\<close>)
      ultimately show ?thesis using I2 by simp
    qed
  qed
qed

lemma deliver_loop_inv:
  assumes "\<And>x i res res'. reconstruct x i res = Some (Inr res') \<Longrightarrow> fr_Header res = x \<Longrightarrow> fits res res'"
    and "tasks_ok strict e (X + mset xs) k" "I (tasks_of k) q"
    and "deliver_loop e reconstruct results i xs k q = Some ((failure, accepted, rest), k', q')"
  shows "I (tasks_of k') q' \<and> tasks_ok strict e (X + mset rest) k'"
  using assms(2-4)
proof (induction xs arbitrary: i k q)
  case (Cons x xs)
  define j where "j = result_index q x"
  have x: "x \<in> tasks_of k" by (rule held_task [OF Cons.prems(1)]) simp
  show ?case
  proof (cases "results \<le> i \<or> int (length (resultCache q)) \<le> j \<or> j < 0 \<or> resultCache q ! nat j = None")
    case True
    then have "rest = x # xs \<and> k' = k \<and> q' = q" using Cons.prems(3) by (auto simp: Let_def j_def split: if_splits)
    then show ?thesis using Cons.prems(1,2) by simp
  next
    case False
    then obtain res where res: "resultCache q ! nat j = Some res" by auto
    have idx: "0 \<le> result_index q x" "result_index q x < int (length (resultCache q))" using False by (simp_all add: j_def)
    have hdr: "fr_Header res = x" by (rule slot_of [OF Cons.prems(2) x idx]) (use res in \<open>simp add: j_def\<close>)
    let ?r = "reconstruct x i res"
    consider "?r = None" | err where "?r = Some (Inl err)" | res' where "?r = Some (Inr res')"
      by (cases ?r; cases "the ?r") auto
    then show ?thesis
    proof cases
      case 1
      then show ?thesis using Cons.prems(3) False res by (simp add: Let_def j_def)
    next
      case 2
      then have "rest = x # xs \<and> k' = k \<and> q' = q" using Cons.prems(3) False res by (auto simp: Let_def j_def)
      then show ?thesis using Cons.prems(1,2) by simp
    next
      case 3
      let ?k = "complete_task (q_Hash e x) k"
      let ?q = "q\<lparr>resultCache := (resultCache q)[nat j := Some (res'\<lparr>fr_Pending := fr_Pending res' - 1\<rparr>)]\<rparr>"
      have "tasks_ok strict e (add_mset x (X + mset xs)) k" using Cons.prems(1) by simp
      then have k: "tasks_ok strict e (X + mset xs) ?k" by (rule tasks_ok_complete)
      have j: "nat j < length (resultCache q)" using False by linarith
      have I: "I (tasks_of ?k) ?q"
        unfolding tasks_of_complete [OF Cons.prems(1) x] by (rule store [OF Cons.prems(2) x j res hdr assms(1) [OF 3 hdr]])
      show ?thesis by (rule Cons.IH [OF k I]) (use Cons.prems(3) False res 3 in \<open>simp add: Let_def j_def\<close>)
    qed
  qed
qed simp

lemma deliver_inv:
  assumes "\<And>x i res res'. reconstruct x i res = Some (Inr res') \<Longrightarrow> fr_Header res = x \<Longrightarrow> fits res res'"
    and "\<And>P q p xs. I P (mark_all e p xs q) = I P q"
    and "tasks_ok strict e {#} k" "I (tasks_of k) q" "deliver e reconstruct results p k q = Some (r, k', q')"
  shows "I (tasks_of k') q' \<and> tasks_ok strict e {#} k'"
proof (cases "map_of (PendPool k) p")
  case None
  then show ?thesis using assms(3-5) by (simp add: deliver_def)
next
  case (Some rq)
  define k1 where "k1 = k\<lparr>PendPool := AList.delete p (PendPool k)\<rparr>"
  define q1 where "q1 = (if results = 0 then mark_all e (rq_Peer rq) (rq_Headers rq) q else q)"
  obtain failure accepted rest k2 where loop: "deliver_loop e reconstruct results 0 (rq_Headers rq) k1 q1 = Some ((failure, accepted, rest), k2, q')"
    and k': "k' = k2\<lparr>TaskQueue := TaskQueue k2 @ rest\<rparr>"
    using assms(5) Some by (auto simp: deliver_def k1_def q1_def Let_def split: Option.bind_splits)
  have k1: "tasks_ok strict e ({#} + mset (rq_Headers rq)) k1" unfolding k1_def by (rule tasks_ok_unpend [OF assms(3) Some])
  have "I (tasks_of k1) q1" using assms(2,4) by (simp add: k1_def q1_def)
  from deliver_loop_inv [OF assms(1) k1 this loop] have "I (tasks_of k2) q'" "tasks_ok strict e ({#} + mset rest) k2" by simp_all
  then show ?thesis unfolding k' using tasks_ok_requeue [of strict e "{#}" rest k2] by simp
qed

end

end
