(* ===== verification/DownloadQueueRun.thy ===== *)
theory DownloadQueueRun
  imports DownloadQueueProps
begin

text \<open>
  The shared loops of the download queue instantiated for bodies and for receipts, and the invariant of the
  whole queue, which reservations and deliveries keep.
\<close>

section \<open>Bodies and receipts\<close>

definition body_fits :: "('t, 'r) queueEnv \<Rightarrow> ('t, 'r) fetchResult \<Rightarrow> ('t, 'r) fetchResult \<Rightarrow> bool" where
  "body_fits e res res' \<longleftrightarrow> body_matches e res' \<and> fr_Header res' = fr_Header res \<and> fr_Pending res' = fr_Pending res \<and>
     fr_Receipts res' = fr_Receipts res"

definition receipts_fit :: "('t, 'r) queueEnv \<Rightarrow> ('t, 'r) fetchResult \<Rightarrow> ('t, 'r) fetchResult \<Rightarrow> bool" where
  "receipts_fit e res res' \<longleftrightarrow> receipts_match e res' \<and> fr_Header res' = fr_Header res \<and> fr_Pending res' = fr_Pending res \<and>
     fr_Transactions res' = fr_Transactions res \<and> fr_Uncles res' = fr_Uncles res"

definition part_inv :: "('t, 'r) queueEnv \<Rightarrow> header set \<Rightarrow> header set \<Rightarrow> header set \<Rightarrow> ('t, 'r) queue \<Rightarrow> bool" where
  "part_inv e U B R q \<longleftrightarrow> queueEnv_ok e \<and> queue_headers_ok e U \<and> cache_inv e U B R q"

lemma part_invD:
  assumes "part_inv e U B R q"
  shows "queueEnv_ok e" "queue_headers_ok e U" "cache_inv e U B R q"
  using assms unfolding part_inv_def by simp_all

lemma task_number:
  assumes "part_inv e U B R q" "x \<in> B \<union> R" "0 \<le> result_index q x"
  shows "low64 (h_number x) = resultOffset q + of_nat (nat (result_index q x))"
proof -
  have "x \<in> U" using cache_parts(2) [OF part_invD(3) [OF assms(1)]] assms(2) by blast
  then have "0 \<le> h_number x" using part_invD(2) [OF assms(1)] unfolding queue_headers_ok_def by blast
  then show ?thesis by (rule index_word [OF _ assms(3)])
qed

lemma part_slot:
  assumes "part_inv e U B R q" "x \<in> B \<union> R" "0 \<le> result_index q x" "result_index q x < int (length (resultCache q))"
    and "resultCache q ! nat (result_index q x) = Some res"
  shows "fr_Header res = x"
  by (rule slot_header [OF part_invD(2,3) [OF assms(1)] assms(2) task_number [OF assms(1-3)] _ assms(5)]) (use assms(3,4) in linarith)

lemma part_init:
  assumes "part_inv e U B R q" "x \<in> B \<union> R" "0 \<le> result_index q x" "result_index q x < int (length (resultCache q))"
  shows "part_inv e U B R (init_result (nat (result_index q x)) x q)"
  unfolding part_inv_def
  by (intro conjI part_invD [OF assms(1)] init_result_inv(1) [OF part_invD(2,3) [OF assms(1)] assms(2) task_number [OF assms(1-3)]])
     (use assms(3,4) in linarith)

lemma part_store:
  assumes "part_inv e U B R q" "i < length (resultCache q)" "resultCache q ! i = Some res" "fr_Header res = x" "fr_Header res' = x"
    and "B' \<subseteq> B" "R' \<subseteq> R" "B - B' \<subseteq> {x}" "R - R' \<subseteq> {x}" "slot_ok e q B' R' i res'"
  shows "part_inv e U B' R' (q\<lparr>resultCache := (resultCache q)[i := Some res']\<rparr>)"
  unfolding part_inv_def by (intro conjI part_invD [OF assms(1)] store_part_inv [OF part_invD(2,3) [OF assms(1)] assms(2-)])

lemma body_slot:
  assumes "slot_ok e q B R i res" "fr_Header res \<in> B" "body_fits e res res'"
  shows "slot_ok e q (B - {fr_Header res}) R i (res'\<lparr>fr_Pending := fr_Pending res' - 1\<rparr>)"
  using assms unfolding slot_ok_def body_fits_def body_matches_def receipts_match_def by simp

lemma receipt_slot:
  assumes "slot_ok e q B R i res" "fr_Header res \<in> R" "receipts_fit e res res'"
  shows "slot_ok e q B (R - {fr_Header res}) i (res'\<lparr>fr_Pending := fr_Pending res' - 1\<rparr>)"
  using assms unfolding slot_ok_def receipts_fit_def body_matches_def receipts_match_def by simp

lemma body_noop_fits:
  assumes "queueEnv_ok e" "slot_ok e q B R i res" "fr_Header res \<in> B" "body_noop e (fr_Header res)"
  shows "body_fits e res res"
proof -
  have "fr_Transactions res = []" "fr_Uncles res = []" using assms(2,3) by (simp_all add: slot_ok_def)
  then show ?thesis using assms(1,4) by (simp add: body_fits_def body_matches_def body_noop_def queueEnv_ok_def)
qed

lemma receipt_noop_fits:
  assumes "queueEnv_ok e" "slot_ok e q B R i res" "fr_Header res \<in> R" "receipt_noop e (fr_Header res)"
  shows "receipts_fit e res res"
proof -
  have "fr_Receipts res = []" using assms(2,3) by (simp add: slot_ok_def)
  then show ?thesis using assms(1,4) by (simp add: receipts_fit_def receipts_match_def receipt_noop_def queueEnv_ok_def)
qed

lemma finish_part_store:
  "resultCache q ! i = Some res \<Longrightarrow> finish_part i q = q\<lparr>resultCache := (resultCache q)[i := Some (res\<lparr>fr_Pending := fr_Pending res - 1\<rparr>)]\<rparr>"
  by (simp add: finish_part_def)

lemma store_body:
  assumes "part_inv e U P R q" "x \<in> P" "i < length (resultCache q)" "resultCache q ! i = Some res" "fr_Header res = x" "body_fits e res res'"
  shows "part_inv e U (P - {x}) R (q\<lparr>resultCache := (resultCache q)[i := Some (res'\<lparr>fr_Pending := fr_Pending res' - 1\<rparr>)]\<rparr>)"
proof (rule part_store [OF assms(1,3,4,5)])
  show "slot_ok e q (P - {x}) R i (res'\<lparr>fr_Pending := fr_Pending res' - 1\<rparr>)"
    using body_slot [OF cache_slot [OF part_invD(3) [OF assms(1)] assms(3,4)] _ assms(6)] assms(2,5) by simp
qed (use assms(5,6) in \<open>auto simp: body_fits_def\<close>)

lemma store_receipts:
  assumes "part_inv e U B P q" "x \<in> P" "i < length (resultCache q)" "resultCache q ! i = Some res" "fr_Header res = x" "receipts_fit e res res'"
  shows "part_inv e U B (P - {x}) (q\<lparr>resultCache := (resultCache q)[i := Some (res'\<lparr>fr_Pending := fr_Pending res' - 1\<rparr>)]\<rparr>)"
proof (rule part_store [OF assms(1,3,4,5)])
  show "slot_ok e q B (P - {x}) i (res'\<lparr>fr_Pending := fr_Pending res' - 1\<rparr>)"
    using receipt_slot [OF cache_slot [OF part_invD(3) [OF assms(1)] assms(3,4)] _ assms(6)] assms(2,5) by simp
qed (use assms(5,6) in \<open>auto simp: receipts_fit_def\<close>)

interpretation body_fetch: fetch_part e "\<lambda>P. part_inv e U P R" "body_noop e" "body_fits e" for e U R
proof
  fix P q x i res
  assume a: "part_inv e U P R q" "x \<in> P" "i < length (resultCache q)" "resultCache q ! i = Some res" "fr_Header res = x" "body_noop e x"
  have "body_fits e res res"
    by (rule body_noop_fits [OF part_invD(1) [OF a(1)] cache_slot [OF part_invD(3) [OF a(1)] a(3,4)]]) (use a in simp_all)
  then show "part_inv e U (P - {x}) R (finish_part i q)" unfolding finish_part_store [OF a(4)] by (rule store_body [OF a(1-5)])
qed (auto intro: part_invD part_slot part_init store_body)

interpretation receipt_fetch: fetch_part e "part_inv e U B" "receipt_noop e" "receipts_fit e" for e U B
proof
  fix P q x i res
  assume a: "part_inv e U B P q" "x \<in> P" "i < length (resultCache q)" "resultCache q ! i = Some res" "fr_Header res = x" "receipt_noop e x"
  have "receipts_fit e res res"
    by (rule receipt_noop_fits [OF part_invD(1) [OF a(1)] cache_slot [OF part_invD(3) [OF a(1)] a(3,4)]]) (use a in simp_all)
  then show "part_inv e U B (P - {x}) (finish_part i q)" unfolding finish_part_store [OF a(4)] by (rule store_receipts [OF a(1-5)])
qed (auto intro: part_invD part_slot part_init store_receipts)

section \<open>The whole queue\<close>

definition queue_inv :: "bool \<Rightarrow> ('t, 'r) queueEnv \<Rightarrow> header set \<Rightarrow> ('t, 'r) queue \<Rightarrow> bool" where
  "queue_inv strict e U q \<longleftrightarrow>
     part_inv e U (tasks_of (bodies q)) (tasks_of (receipts q)) q \<and> tasks_ok strict e {#} (bodies q) \<and> tasks_ok strict e {#} (receipts q)"

lemma part_inv_cong:
  assumes "resultCache q' = resultCache q" "resultOffset q' = resultOffset q" "headerHead q' = headerHead q"
    and "q_mode q' = q_mode q" "fastSyncPivot q' = fastSyncPivot q"
  shows "part_inv e U B R q' = part_inv e U B R q"
proof -
  have "cached q' = cached q" "\<And>x. needs_receipts q' x = needs_receipts q x" using assms by (simp_all add: cached_def needs_receipts_def)
  then show ?thesis unfolding part_inv_def cache_inv_def slot_ok_def by (simp only: assms)
qed

lemma queue_inv_cong:
  assumes "resultCache q' = resultCache q" "resultOffset q' = resultOffset q" "headerHead q' = headerHead q"
    and "q_mode q' = q_mode q" "fastSyncPivot q' = fastSyncPivot q"
    and "tasks_of (bodies q') = tasks_of (bodies q)" "tasks_of (receipts q') = tasks_of (receipts q)"
    and "tasks_ok strict e {#} (bodies q')" "tasks_ok strict e {#} (receipts q')"
    and "queue_inv strict' e U q"
  shows "queue_inv strict e U q'"
  using assms(6-) part_inv_cong [OF assms(1-5)] unfolding queue_inv_def by simp

lemma queue_invD:
  assumes "queue_inv strict e U q"
  shows "part_inv e U (tasks_of (bodies q)) (tasks_of (receipts q)) q" "tasks_ok strict e {#} (bodies q)" "tasks_ok strict e {#} (receipts q)"
  using assms unfolding queue_inv_def by simp_all

lemma reserve_loop_kinds:
  "reserve_loop e noop p cnt fuel proc space send skip progress k q = (r, k', q') \<Longrightarrow> bodies q' = bodies q \<and> receipts q' = receipts q"
proof (induction fuel arbitrary: proc space send skip progress k q)
  case (Suc fuel)
  obtain x ts where pop: "pop_header e (TaskQueue k) = (x, ts)" by (cases "pop_header e (TaskQueue k)")
  have keep: "bodies (finish_part i (init_result i x q)) = bodies q \<and> receipts (finish_part i (init_result i x q)) = receipts q"
    "bodies (init_result i x q) = bodies q \<and> receipts (init_result i x q) = receipts q" for i
    by (simp_all add: finish_part_def init_result_def)
  show ?case using Suc.prems pop keep by (auto simp: Let_def split: if_splits dest!: Suc.IH)
qed simp

lemma reserveHeaders_kinds:
  assumes "reserveHeaders e noop now p cnt k q = (r, k', q')"
  shows "bodies q' = bodies q \<and> receipts q' = receipts q"
proof -
  define space where "space = int (length (resultCache q)) - int (length (DonePool k)) - int (in_flight k)"
  obtain r1 k1 q1 where loop: "reserve_loop e noop p cnt (length (TaskQueue k)) 0 space [] [] False k q = (r1, k1, q1)"
    by (rule prod_cases3)
  have "q' = q \<or> q' = q1"
    using assms loop unfolding reserveHeaders_def space_def [symmetric] by (auto simp: Let_def split: if_splits sum.splits prod.splits)
  then show ?thesis using reserve_loop_kinds [OF loop] by blast
qed

lemma deliver_loop_kinds:
  "deliver_loop e reconstruct results i xs k q = Some (v, k', q') \<Longrightarrow> bodies q' = bodies q \<and> receipts q' = receipts q"
  by (induction xs arbitrary: i k q) (auto simp: Let_def split: if_splits option.splits sum.splits)

lemma deliver_kinds:
  assumes "deliver e reconstruct results p k q = Some (v, k', q')"
  shows "bodies q' = bodies q \<and> receipts q' = receipts q"
  using assms deliver_loop_kinds
  by (fastforce simp: deliver_def Let_def mark_all_def split: option.splits if_splits Option.bind_splits)

lemma part_inv_mark: "part_inv e U B R (mark_all e' p xs q) = part_inv e U B R q"
  by (rule part_inv_cong) (simp_all add: mark_all_def)

lemma part_inv_kind [simp]:
  "part_inv e U B R (q\<lparr>bodies := k\<rparr>) = part_inv e U B R q" "part_inv e U B R (q\<lparr>receipts := k\<rparr>) = part_inv e U B R q"
  by (rule part_inv_cong; simp)+

lemma ReserveBodies_inv:
  assumes "queue_inv strict e U q" "ReserveBodies e now p cnt q = (r, q')"
  shows "queue_inv (strict \<and> \<not> isl r) e U q'"
proof -
  obtain k q1 where res: "reserveHeaders e (body_noop e) now p cnt (bodies q) q = (r, k, q1)" "q' = q1\<lparr>bodies := k\<rparr>"
    using assms(2) by (auto simp: ReserveBodies_def split: prod.splits)
  have "part_inv e U (tasks_of k) (tasks_of (receipts q)) q1 \<and> tasks_ok (strict \<and> \<not> isl r) e {#} k"
    by (rule body_fetch.reserveHeaders_inv [OF queue_invD(2,1) [OF assms(1)] res(1)])
  then show ?thesis using reserveHeaders_kinds [OF res(1)] queue_invD(3) [OF assms(1)]
    by (cases "strict \<and> \<not> isl r") (auto simp: queue_inv_def res(2) intro: tasks_ok_weak)
qed

lemma ReserveReceipts_inv:
  assumes "queue_inv strict e U q" "ReserveReceipts e now p cnt q = (r, q')"
  shows "queue_inv (strict \<and> \<not> isl r) e U q'"
proof -
  obtain k q1 where res: "reserveHeaders e (receipt_noop e) now p cnt (receipts q) q = (r, k, q1)" "q' = q1\<lparr>receipts := k\<rparr>"
    using assms(2) by (auto simp: ReserveReceipts_def split: prod.splits)
  have "part_inv e U (tasks_of (bodies q)) (tasks_of k) q1 \<and> tasks_ok (strict \<and> \<not> isl r) e {#} k"
    by (rule receipt_fetch.reserveHeaders_inv [OF queue_invD(3,1) [OF assms(1)] res(1)])
  then show ?thesis using reserveHeaders_kinds [OF res(1)] queue_invD(2) [OF assms(1)]
    by (cases "strict \<and> \<not> isl r") (auto simp: queue_inv_def res(2) intro: tasks_ok_weak)
qed

lemma body_part_fits: "body_part e txs us x i res = Some (Inr res') \<Longrightarrow> fr_Header res = x \<Longrightarrow> body_fits e res res'"
  by (auto simp: body_part_def body_fits_def body_matches_def split: Option.bind_splits if_splits)

lemma receipt_part_fits: "receipt_part e rs x i res = Some (Inr res') \<Longrightarrow> fr_Header res = x \<Longrightarrow> receipts_fit e res res'"
  by (auto simp: receipt_part_def receipts_fit_def receipts_match_def split: Option.bind_splits if_splits)

lemma DeliverBodies_inv:
  assumes "queue_inv strict e U q" "DeliverBodies e p txs us q = Some (r, q')"
  shows "queue_inv strict e U q'"
proof -
  obtain k q1 where del: "deliver e (body_part e txs us) (length txs) p (bodies q) q = Some (r, k, q1)" "q' = q1\<lparr>bodies := k\<rparr>"
    using assms(2) by (auto simp: DeliverBodies_def split: Option.bind_splits)
  have "part_inv e U (tasks_of k) (tasks_of (receipts q)) q1 \<and> tasks_ok strict e {#} k"
    by (rule body_fetch.deliver_inv [OF body_part_fits part_inv_mark queue_invD(2,1) [OF assms(1)] del(1)])
  then show ?thesis using deliver_kinds [OF del(1)] queue_invD(3) [OF assms(1)] by (simp add: queue_inv_def del(2))
qed

lemma DeliverReceipts_inv:
  assumes "queue_inv strict e U q" "DeliverReceipts e p rs q = Some (r, q')"
  shows "queue_inv strict e U q'"
proof -
  obtain k q1 where del: "deliver e (receipt_part e rs) (length rs) p (receipts q) q = Some (r, k, q1)" "q' = q1\<lparr>receipts := k\<rparr>"
    using assms(2) by (auto simp: DeliverReceipts_def split: Option.bind_splits)
  have "part_inv e U (tasks_of (bodies q)) (tasks_of k) q1 \<and> tasks_ok strict e {#} k"
    by (rule receipt_fetch.deliver_inv [OF receipt_part_fits part_inv_mark queue_invD(3,1) [OF assms(1)] del(1)])
  then show ?thesis using deliver_kinds [OF del(1)] queue_invD(2) [OF assms(1)] by (simp add: queue_inv_def del(2))
qed

end
