(* ===== verification/DownloadQueueResults.thy ===== *)
theory DownloadQueueResults
  imports DownloadQueueRun
begin

text \<open>
  Scheduling and collecting keep the invariant of the download queue, so it holds of every state the queue
  reaches; from it follow the two promises of the queue, on its tasks and on its results.
\<close>

section \<open>Scheduling\<close>

lemma head_ok_extend:
  assumes U: "queue_headers_ok e U" and x: "x \<in> U" and h: "head_ok e U A h" "h = 0 \<or> h = ParentHash x" and A: "A \<subseteq> U"
  shows "head_ok e U (insert x A) (q_Hash e x)" "x \<notin> A"
proof -
  have nz: "q_Hash e x \<noteq> 0" using U x unfolding queue_headers_ok_def by blast
  have "x \<notin> A \<and> (\<forall>z \<in> A. h_number z < h_number x) \<and> one_chain e (insert x A)"
  proof (cases "h = 0")
    case True
    then show ?thesis using h(1) by (simp add: head_ok_def one_chain_def)
  next
    case False
    then obtain y where y: "y \<in> U" "q_Hash e y = h" "\<forall>z \<in> A. h_number z \<le> h_number y" "one_chain e (insert y A)"
      using h(1) by (auto simp: head_ok_def)
    have par: "ParentHash x = q_Hash e y" using h(2) False y(2) by simp
    then have nx: "h_number x = h_number y + 1" using U x y(1) unfolding queue_headers_ok_def by blast
    have less: "\<forall>z \<in> A. h_number z < h_number x" using y(3) nx by force
    have inj: "inj_on h_number (insert y A)" using y(4) by (simp add: one_chain_def)
    have "inj_on h_number (insert x A)" using inj less by (auto simp: inj_on_def)
    moreover have "ParentHash c = q_Hash e b" if bc: "b \<in> insert x A" "c \<in> insert x A" "h_number c = h_number b + 1" for b c
    proof (cases "c = x")
      case True
      then have "h_number b = h_number y" using bc(3) nx by simp
      moreover have "b \<in> insert y A" using bc(1) True bc(3) by auto
      ultimately have "b = y" using inj by (meson inj_onD insertI1)
      then show ?thesis using True par by simp
    next
      case False
      then have "c \<in> A" "b \<noteq> x" using bc less by auto
      then have "b \<in> insert y A" "c \<in> insert y A" using bc(1) by auto
      then show ?thesis using y(4) bc(3) unfolding one_chain_def by blast
    qed
    ultimately have "one_chain e (insert x A)" unfolding one_chain_def by blast
    then show ?thesis using less by blast
  qed
  then show "head_ok e U (insert x A) (q_Hash e x)" "x \<notin> A"
    using nz x by (auto simp: head_ok_def less_imp_le insert_absorb)
qed

lemma schedule_cache:
  assumes U: "queue_headers_ok e U" and inv: "cache_inv e U B R q" and x: "x \<in> U" "headerHead q = 0 \<or> headerHead q = ParentHash x"
    and R': "R' = (if needs_receipts q x then insert x R else R)"
  shows "cache_inv e U (insert x B) R' (q\<lparr>headerHead := q_Hash e x\<rparr>)"
proof -
  let ?q = "q\<lparr>headerHead := q_Hash e x\<rparr>"
  note head = head_ok_extend [OF U x(1) cache_parts(3) [OF inv] x(2) cache_parts(2) [OF inv]]
  have same: "cached ?q = cached q" "\<And>y. needs_receipts ?q y = needs_receipts q y" by (simp_all add: cached_def needs_receipts_def)
  have A: "insert x B \<union> R' \<union> cached q = insert x (B \<union> R \<union> cached q)" using R' by auto
  have slots: "slot_ok e ?q (insert x B) R' i res" if i: "i < length (resultCache q)" "resultCache q ! i = Some res" for i res
  proof -
    have "fr_Header res \<noteq> x" using cachedI [OF i] head(2) by auto
    then have "(fr_Header res \<in> insert x B \<longleftrightarrow> fr_Header res \<in> B) \<and> (fr_Header res \<in> R' \<longleftrightarrow> fr_Header res \<in> R)" using R' by auto
    then show ?thesis using cache_slot [OF inv i] unfolding slot_ok_def same by simp
  qed
  show ?thesis
  proof (rule cache_invI, unfold same A)
    show "insert x (B \<union> R \<union> cached q) \<subseteq> U" using cache_parts(2) [OF inv] x(1) by simp
    fix y assume y: "y \<in> insert x B \<union> R'" "y \<notin> cached q"
    show "y \<in> insert x B \<and> (y \<in> R' \<longleftrightarrow> needs_receipts q y)"
    proof (cases "y = x")
      case True
      then show ?thesis using R' head(2) by auto
    next
      case False
      then have "y \<in> B \<union> R" "y \<in> R' \<longleftrightarrow> y \<in> R" using y(1) R' by (auto split: if_splits)
      then show ?thesis using cache_new [OF inv _ y(2)] by blast
    qed
  qed (use cache_parts(1) [OF inv] head(1) slots in simp_all)
qed

lemma Schedule_inv: "queue_inv strict e U q \<Longrightarrow> set xs \<subseteq> U \<Longrightarrow> Schedule e xs from0 ins q = (ins', q') \<Longrightarrow> queue_inv strict e U q'"
proof (induction xs arbitrary: from0 ins q)
  case (Cons x xs)
  let ?h = "q_Hash e x"
  consider (stop) "low64 (h_number x) \<noteq> from0 \<or> headerHead q \<noteq> 0 \<and> headerHead q \<noteq> ParentHash x"
    | (known) "low64 (h_number x) = from0" "headerHead q = 0 \<or> headerHead q = ParentHash x"
        "map_of (TaskPool (bodies q)) ?h \<noteq> None \<or> map_of (TaskPool (receipts q)) ?h \<noteq> None"
    | (new) "low64 (h_number x) = from0" "headerHead q = 0 \<or> headerHead q = ParentHash x"
        "map_of (TaskPool (bodies q)) ?h = None" "map_of (TaskPool (receipts q)) ?h = None"
    by blast
  then show ?case
  proof cases
    case stop
    then show ?thesis using Cons.prems(1,3) by (auto simp: Let_def split: if_splits)
  next
    case known
    then have "Schedule e xs from0 ins q = (ins', q')" using Cons.prems(3) by (auto simp: Let_def split: if_splits)
    then show ?thesis using Cons by simp
  next
    case new
    define R where "R = (if needs_receipts q x then push_task ?h x (receipts q) else receipts q)"
    define q1 where "q1 = q\<lparr>bodies := push_task ?h x (bodies q), receipts := R, headerHead := ?h\<rparr>"
    note inv = queue_invD [OF Cons.prems(1)]
    note push = tasks_ok_push [OF inv(2) new(3)] tasks_ok_push [OF inv(3) new(4)]
    have R: "tasks_of R = (if needs_receipts q x then insert x (tasks_of (receipts q)) else tasks_of (receipts q))" "tasks_ok strict e {#} R"
      using push(3,4) inv(3) by (simp_all add: R_def)
    have "x \<in> U" using Cons.prems(2) by simp
    then have "part_inv e U (insert x (tasks_of (bodies q))) (tasks_of R) (q\<lparr>headerHead := ?h\<rparr>)"
      using schedule_cache [OF part_invD(2,3) [OF inv(1)] _ new(2) R(1)] part_invD [OF inv(1)] unfolding part_inv_def by blast
    then have "part_inv e U (tasks_of (bodies q1)) (tasks_of (receipts q1)) q1"
      using part_inv_cong [of q1 "q\<lparr>headerHead := ?h\<rparr>" e U] push(2) by (simp add: q1_def)
    then have "queue_inv strict e U q1" using push(1) R(2) by (simp add: queue_inv_def q1_def)
    moreover have "Schedule e (x # xs) from0 ins q = Schedule e xs (from0 + 1) (ins @ [x]) q1"
      unfolding q1_def R_def using new by (auto simp: Let_def)
    ultimately show ?thesis using Cons.IH [of q1 "from0 + 1" "ins @ [x]"] Cons.prems(2,3) by simp
  qed
qed simp

section \<open>Collecting\<close>

lemma count_items_done:
  "\<exists>m. count_items q i rs = i + m \<and> m \<le> length rs \<and> (\<forall>j < m. \<exists>res. rs ! j = Some res \<and> fr_Pending res \<le> 0)"
proof (induction rs arbitrary: i)
  case (Cons r rs)
  show ?case
  proof (cases "count_items q i (r # rs) = i")
    case True
    then show ?thesis by (intro exI [of _ 0]) simp
  next
    case False
    then obtain res where r: "r = Some res" "\<not> 0 < fr_Pending res" "count_items q i (r # rs) = count_items q (Suc i) rs"
      by (auto split: option.splits if_splits)
    obtain m where m: "count_items q (Suc i) rs = Suc i + m" "m \<le> length rs" "\<forall>j < m. \<exists>res. rs ! j = Some res \<and> fr_Pending res \<le> 0"
      using Cons.IH by blast
    have "\<exists>res. (r # rs) ! j = Some res \<and> fr_Pending res \<le> 0" if "j < Suc m" for j
      using that r(1,2) m(3) by (cases j) auto
    then show ?thesis using m(1,2) r(3) by (intro exI [of _ "Suc m"]) auto
  qed
qed simp

lemma countProcessableItems_done:
  "countProcessableItems q \<le> length (resultCache q)"
  "j < countProcessableItems q \<Longrightarrow> \<exists>res. resultCache q ! j = Some res \<and> fr_Pending res \<le> 0"
  using count_items_done [of q 0 "resultCache q"] by (auto simp: countProcessableItems_def)

lemma done_slot:
  assumes "cache_inv e U B R q" "j < countProcessableItems q"
  obtains res where "resultCache q ! j = Some res" "slot_ok e q B R j res" "fr_Header res \<notin> B \<union> R"
proof -
  obtain res where res: "resultCache q ! j = Some res" "fr_Pending res \<le> 0" using countProcessableItems_done(2) [OF assms(2)] by blast
  have slot: "slot_ok e q B R j res"
    by (rule cache_slot [OF assms(1) _ res(1)]) (use assms(2) countProcessableItems_done(1) [of q] in linarith)
  then have "fr_Header res \<notin> B \<union> R" using res(2) by (auto simp: slot_ok_def of_bool_def split: if_splits)
  then show thesis using that res(1) slot by blast
qed

lemma wait_cache:
  assumes inv: "cache_inv e U B R q" and n: "n = countProcessableItems q"
  shows "cache_inv e U B R (q\<lparr>resultCache := drop n (resultCache q) @ replicate n None, resultOffset := resultOffset q + of_nat n\<rparr>)"
proof -
  let ?c = "drop n (resultCache q) @ replicate n None"
  let ?q = "q\<lparr>resultCache := ?c, resultOffset := resultOffset q + of_nat n\<rparr>"
  have le: "n \<le> length (resultCache q)" using countProcessableItems_done(1) n by simp
  have old: "i + n < length (resultCache q) \<and> resultCache q ! (i + n) = Some res" if "i < length (resultCache q)" "?c ! i = Some res" for i res
    using that le by (cases "i < length (resultCache q) - n") (auto simp: nth_append ac_simps)
  have c: "cached ?q \<subseteq> cached q"
  proof
    fix x assume "x \<in> cached ?q"
    then obtain i res where "i < length (resultCache ?q)" "resultCache ?q ! i = Some res" "fr_Header res = x" by (rule cachedE)
    then show "x \<in> cached q" using old [of i res] le cachedI [of "i + n" q res] by simp
  qed
  have A: "B \<union> R \<union> cached ?q \<subseteq> B \<union> R \<union> cached q" using c by blast
  have need: "needs_receipts ?q y = needs_receipts q y" for y by (simp add: needs_receipts_def)
  show ?thesis
  proof (rule cache_invI)
    show "length (resultCache ?q) < 2 ^ 64" using cache_parts(1) [OF inv] le by simp
    show "B \<union> R \<union> cached ?q \<subseteq> U" using A cache_parts(2) [OF inv] by (rule subset_trans)
    show "head_ok e U (B \<union> R \<union> cached ?q) (headerHead ?q)" using head_ok_mono [OF cache_parts(3) [OF inv] A] by simp
  next
    fix i res assume i: "i < length (resultCache ?q)" "resultCache ?q ! i = Some res"
    then have o: "i + n < length (resultCache q)" "resultCache q ! (i + n) = Some res" using old [of i res] le by simp_all
    show "slot_ok e ?q B R i res" using cache_slot [OF inv o] unfolding slot_ok_def need by (simp add: ac_simps)
  next
    fix x assume x: "x \<in> B \<union> R" "x \<notin> cached ?q"
    have "x \<notin> cached q"
    proof
      assume "x \<in> cached q"
      then obtain j res where j: "j < length (resultCache q)" "resultCache q ! j = Some res" "fr_Header res = x" by (rule cachedE)
      show False
      proof (cases "j < n")
        case True
        then obtain res' where "resultCache q ! j = Some res'" "fr_Header res' \<notin> B \<union> R" using done_slot [OF inv] n by metis
        then show False using j(2,3) x(1) by simp
      next
        case False
        then have "?c ! (j - n) = Some res" "j - n < length ?c" using j(1,2) le by (simp_all add: nth_append)
        then show False using cachedI [of "j - n" ?q res] j(3) x(2) by simp
      qed
    qed
    then show "x \<in> B \<and> (x \<in> R \<longleftrightarrow> needs_receipts ?q x)" using cache_new [OF inv x(1)] unfolding need by blast
  qed
qed

lemma WaitResults_inv:
  assumes "queue_inv strict e U q" "WaitResults e q = Some (rs, q')"
  shows "queue_inv strict e U q'"
proof (cases "take (countProcessableItems q) (resultCache q) = []")
  case True
  then show ?thesis using assms by (simp add: WaitResults_def Let_def split: if_splits)
next
  case False
  define n where "n = countProcessableItems q"
  define hs where "hs = map (\<lambda>r. q_Hash e (fr_Header (the r))) (take n (resultCache q))"
  define q1 where "q1 = q\<lparr>resultCache := drop n (resultCache q) @ replicate n None, resultOffset := resultOffset q + of_nat n\<rparr>"
  have "cache_inv e U (tasks_of (bodies q)) (tasks_of (receipts q)) q1"
    unfolding q1_def by (rule wait_cache [OF part_invD(3) [OF queue_invD(1) [OF assms(1)]] n_def])
  then have inv: "part_inv e U (tasks_of (bodies q)) (tasks_of (receipts q)) q1"
    using part_invD(1,2) [OF queue_invD(1) [OF assms(1)]] unfolding part_inv_def by blast
  define q2 where "q2 = q\<lparr>bodies := forget_done hs (bodies q), receipts := forget_done hs (receipts q),
    resultCache := drop n (resultCache q) @ replicate n None, resultOffset := resultOffset q + of_nat n\<rparr>"
  have "WaitResults e q = Some (take n (resultCache q), q2)"
    using False unfolding WaitResults_def Let_def q2_def n_def hs_def by simp
  then have q': "q' = q2" using assms(2) by simp
  have "part_inv e U B R q2 = part_inv e U B R q1" for B R by (rule part_inv_cong) (simp_all add: q1_def q2_def)
  then show ?thesis unfolding queue_inv_def q' using inv queue_invD(2,3) [OF assms(1)] by (simp add: q2_def)
qed

section \<open>Steps\<close>

text \<open>
  One operation on the queue. With \<open>strict\<close>, reservations that fail are left out; a cancelled request is one that
  is under way, as it is where the downloader cancels it. A new sync resets and prepares the queue.
\<close>

inductive queue_step ::
  "bool \<Rightarrow> nat \<Rightarrow> ('t, 'r) queueEnv \<Rightarrow> header set \<Rightarrow> ('t, 'r) queue \<Rightarrow> ('t, 'r) queue \<Rightarrow> bool" for strict limit e U
where
  schedule: "set xs \<subseteq> U \<Longrightarrow> Schedule e xs from0 [] q = (ins, q') \<Longrightarrow> queue_step strict limit e U q q'"
| reserve_bodies: "ReserveBodies e now p cnt q = (r, q') \<Longrightarrow> \<not> (strict \<and> isl r) \<Longrightarrow> queue_step strict limit e U q q'"
| reserve_receipts: "ReserveReceipts e now p cnt q = (r, q') \<Longrightarrow> \<not> (strict \<and> isl r) \<Longrightarrow> queue_step strict limit e U q q'"
| deliver_bodies: "DeliverBodies e p txs us q = Some (v, q') \<Longrightarrow> queue_step strict limit e U q q'"
| deliver_receipts: "DeliverReceipts e p rs q = Some (v, q') \<Longrightarrow> queue_step strict limit e U q q'"
| cancel_bodies: "map_of (PendPool (bodies q)) (rq_Peer rq) = Some rq \<Longrightarrow> queue_step strict limit e U q (CancelBodies rq q)"
| cancel_receipts: "map_of (PendPool (receipts q)) (rq_Peer rq) = Some rq \<Longrightarrow> queue_step strict limit e U q (CancelReceipts rq q)"
| revoke: "queue_step strict limit e U q (Revoke p q)"
| expire_bodies: "ExpireBodies now timeout q = (ex, q') \<Longrightarrow> queue_step strict limit e U q q'"
| expire_receipts: "ExpireReceipts now timeout q = (ex, q') \<Longrightarrow> queue_step strict limit e U q q'"
| wait: "WaitResults e q = Some (results, q') \<Longrightarrow> queue_step strict limit e U q q'"
| close: "queue_step strict limit e U q (CloseQueue q)"
| skeleton: "ScheduleSkeleton from0 xs q = Some q' \<Longrightarrow> queue_step strict limit e U q q'"
| reserve_headers: "ReserveHeaders e now p q = Some (h, q') \<Longrightarrow> queue_step strict limit e U q q'"
| deliver_headers: "DeliverHeaders e room p xs q = Some (w, q') \<Longrightarrow> queue_step strict limit e U q q'"
| cancel_headers: "CancelHeaders rq q = Some q' \<Longrightarrow> queue_step strict limit e U q q'"
| expire_headers: "ExpireHeaders now timeout q = Some (ex, q') \<Longrightarrow> queue_step strict limit e U q q'"
| retrieve_headers: "RetrieveHeaders q = (hs, q') \<Longrightarrow> queue_step strict limit e U q q'"
| restart: "queue_step strict limit e U q (PrepareQueue offset mode pivot (Reset limit q))"

inductive queue_reach :: "bool \<Rightarrow> nat \<Rightarrow> ('t, 'r) queueEnv \<Rightarrow> header set \<Rightarrow> ('t, 'r) queue \<Rightarrow> bool" for strict limit e U where
  start: "queue_reach strict limit e U (PrepareQueue offset mode pivot (newQueue limit))"
| step: "queue_reach strict limit e U q \<Longrightarrow> queue_step strict limit e U q q' \<Longrightarrow> queue_reach strict limit e U q'"

text \<open>An operation on the skeleton leaves the bodies, the receipts and the results alone.\<close>

definition same_parts :: "('t, 'r) queue \<Rightarrow> ('t, 'r) queue \<Rightarrow> bool" where
  "same_parts q q' \<longleftrightarrow> resultCache q' = resultCache q \<and> resultOffset q' = resultOffset q \<and> headerHead q' = headerHead q \<and>
     q_mode q' = q_mode q \<and> fastSyncPivot q' = fastSyncPivot q \<and> bodies q' = bodies q \<and> receipts q' = receipts q"

lemma same_parts_inv: "same_parts q q' \<Longrightarrow> queue_inv strict e U q \<Longrightarrow> queue_inv strict e U q'"
  by (rule queue_inv_cong [where q = q and strict' = strict]) (simp_all add: same_parts_def queue_inv_def)

lemma ScheduleSkeleton_parts: "ScheduleSkeleton from0 xs q = Some q' \<Longrightarrow> same_parts q q'"
  by (auto simp: ScheduleSkeleton_def Let_def same_parts_def split: if_splits)

lemma ReserveHeaders_parts: "ReserveHeaders e now p q = Some (h, q') \<Longrightarrow> same_parts q q'"
  by (auto simp: ReserveHeaders_def Let_def same_parts_def split: if_splits prod.splits Option.bind_splits)

lemma reject_headers_parts: "reject_headers p from0 q = Some q' \<Longrightarrow> same_parts q q'"
  by (auto simp: reject_headers_def Let_def same_parts_def split: Option.bind_splits)

lemma guard_Some: "(if b then None else x) = Some y \<longleftrightarrow> \<not> b \<and> x = Some y"
  by simp

lemma accept_headers_parts: "accept_headers room from0 xs q = Some (sent, q') \<Longrightarrow> same_parts q q'"
  unfolding accept_headers_def Let_def guard_Some by (elim conjE; hypsubst?) (clarsimp simp: same_parts_def)

lemma DeliverHeaders_parts:
  assumes "DeliverHeaders e room p xs q = Some (w, q')"
  shows "same_parts q q'"
proof -
  let ?q = "q\<lparr>headerPendPool := AList.delete p (headerPendPool q)\<rparr>"
  have "q' = q \<or> (\<exists>f sent. accept_headers room f xs ?q = Some (sent, q')) \<or> (\<exists>f. reject_headers p f ?q = Some q')"
    using assms unfolding DeliverHeaders_def Let_def by (auto split: option.splits if_splits Option.bind_splits)
  moreover have "same_parts ?q q' = same_parts q q'" by (simp add: same_parts_def)
  moreover have "same_parts q q" by (simp add: same_parts_def)
  ultimately show ?thesis using accept_headers_parts reject_headers_parts by metis
qed

lemma CancelHeaders_parts: "CancelHeaders rq q = Some q' \<Longrightarrow> same_parts q q'"
  by (auto simp: CancelHeaders_def same_parts_def split: if_splits Option.bind_splits)

lemma ExpireHeaders_parts: "ExpireHeaders now timeout q = Some (ex, q') \<Longrightarrow> same_parts q q'"
  by (auto simp: ExpireHeaders_def Let_def same_parts_def split: if_splits Option.bind_splits)

lemma RetrieveHeaders_parts: "RetrieveHeaders q = (hs, q') \<Longrightarrow> same_parts q q'"
  by (auto simp: RetrieveHeaders_def same_parts_def)

lemma CloseQueue_parts: "same_parts q (CloseQueue q)"
  by (simp add: CloseQueue_def same_parts_def)

lemmas skeleton_inv =
  ScheduleSkeleton_parts [THEN same_parts_inv] ReserveHeaders_parts [THEN same_parts_inv] DeliverHeaders_parts [THEN same_parts_inv]
  CancelHeaders_parts [THEN same_parts_inv] ExpireHeaders_parts [THEN same_parts_inv] RetrieveHeaders_parts [THEN same_parts_inv]
  CloseQueue_parts [THEN same_parts_inv]

text \<open>Giving tasks back moves them between the queue and the requests.\<close>

lemma bodies_moved:
  assumes "queue_inv strict e U q" "tasks_ok strict e {#} k" "tasks_of k = tasks_of (bodies q)"
  shows "queue_inv strict e U (q\<lparr>bodies := k\<rparr>)"
  using queue_invD [OF assms(1)] assms(2,3) by (simp add: queue_inv_def)

lemma receipts_moved:
  assumes "queue_inv strict e U q" "tasks_ok strict e {#} k" "tasks_of k = tasks_of (receipts q)"
  shows "queue_inv strict e U (q\<lparr>receipts := k\<rparr>)"
  using queue_invD [OF assms(1)] assms(2,3) by (simp add: queue_inv_def)

lemma CancelBodies_inv:
  assumes "queue_inv strict e U q" "map_of (PendPool (bodies q)) (rq_Peer rq) = Some rq"
  shows "queue_inv strict e U (CancelBodies rq q)"
  unfolding CancelBodies_def by (rule bodies_moved [OF assms(1) give_back_ok [OF queue_invD(2) [OF assms(1)] assms(2)]]) simp

lemma CancelReceipts_inv:
  assumes "queue_inv strict e U q" "map_of (PendPool (receipts q)) (rq_Peer rq) = Some rq"
  shows "queue_inv strict e U (CancelReceipts rq q)"
  unfolding CancelReceipts_def by (rule receipts_moved [OF assms(1) give_back_ok [OF queue_invD(3) [OF assms(1)] assms(2)]]) simp

lemma Revoke_inv:
  assumes "queue_inv strict e U q"
  shows "queue_inv strict e U (Revoke p q)"
  using queue_invD(1) [OF assms] revoke_kind_ok [OF queue_invD(2) [OF assms]] revoke_kind_ok [OF queue_invD(3) [OF assms]]
  by (simp add: queue_inv_def Revoke_def)

lemma ExpireBodies_inv:
  assumes "queue_inv strict e U q" "ExpireBodies now timeout q = (ex, q')"
  shows "queue_inv strict e U q'"
proof -
  have "q' = q\<lparr>bodies := snd (expire_kind now timeout (bodies q))\<rparr>" using assms(2) by (auto simp: ExpireBodies_def split: prod.splits)
  then show ?thesis using bodies_moved [OF assms(1) expire_kind_ok [OF queue_invD(2) [OF assms(1)]]] by simp
qed

lemma ExpireReceipts_inv:
  assumes "queue_inv strict e U q" "ExpireReceipts now timeout q = (ex, q')"
  shows "queue_inv strict e U q'"
proof -
  have "q' = q\<lparr>receipts := snd (expire_kind now timeout (receipts q))\<rparr>" using assms(2) by (auto simp: ExpireReceipts_def split: prod.splits)
  then show ?thesis using receipts_moved [OF assms(1) expire_kind_ok [OF queue_invD(3) [OF assms(1)]]] by simp
qed

lemma fresh_queue_inv:
  assumes "queueEnv_ok e" "queue_headers_ok e U" "limit < 2 ^ 64"
    and "resultCache q = replicate limit None" "headerHead q = 0" "bodies q = empty_kind" "receipts q = empty_kind"
  shows "queue_inv strict e U q"
proof -
  have "cached q = {}" using assms(4) by (auto simp: cached_def)
  then have "cache_inv e U {} {} q" using assms(3-5) by (intro cache_invI) (simp_all add: head_ok_def)
  then show ?thesis using assms by (simp add: queue_inv_def part_inv_def)
qed

lemma queue_step_inv:
  assumes "queue_step strict limit e U q q'" "limit < 2 ^ 64" and inv: "queue_inv strict e U q"
  shows "queue_inv strict e U q'"
  using assms(1)
proof cases
  case (reserve_bodies now p cnt r)
  then have "(strict \<and> \<not> isl r) = strict" by blast
  then show ?thesis using ReserveBodies_inv [OF inv reserve_bodies(1)] by simp
next
  case (reserve_receipts now p cnt r)
  then have "(strict \<and> \<not> isl r) = strict" by blast
  then show ?thesis using ReserveReceipts_inv [OF inv reserve_receipts(1)] by simp
next
  case (restart offset mode pivot)
  show ?thesis unfolding restart
    by (rule fresh_queue_inv [OF part_invD(1,2) [OF queue_invD(1) [OF inv]] assms(2)]) (simp_all add: PrepareQueue_def Reset_def)
qed (use inv in \<open>auto intro: Schedule_inv DeliverBodies_inv DeliverReceipts_inv CancelBodies_inv CancelReceipts_inv Revoke_inv
    ExpireBodies_inv ExpireReceipts_inv WaitResults_inv skeleton_inv\<close>)

lemma queue_reach_inv:
  assumes "queue_reach strict limit e U q" "queueEnv_ok e" "queue_headers_ok e U" "limit < 2 ^ 64"
  shows "queue_inv strict e U q"
  using assms(1)
proof (induction rule: queue_reach.induct)
  case (start offset mode pivot)
  show ?case by (rule fresh_queue_inv [OF assms(2-4)]) (simp_all add: PrepareQueue_def newQueue_def)
next
  case (step q q')
  then show ?case using queue_step_inv assms(4) by blast
qed

section \<open>What the queue promises\<close>

definition outstanding :: "fetchKind \<Rightarrow> header multiset" where
  "outstanding k = mset (TaskQueue k) + flight k"

definition queue_accounts :: "('t, 'r) queue \<Rightarrow> bool" where
  "queue_accounts q \<longleftrightarrow>
     outstanding (bodies q) = mset (map snd (TaskPool (bodies q))) \<and>
     outstanding (receipts q) = mset (map snd (TaskPool (receipts q))) \<and>
     (\<forall>res. Some res \<in> set (resultCache q) \<longrightarrow>
        fr_Pending res = int (count (outstanding (bodies q)) (fr_Header res) + count (outstanding (receipts q)) (fr_Header res)))"

definition verified_chain :: "('t, 'r) queueEnv \<Rightarrow> ('t, 'r) queue \<Rightarrow> ('t, 'r) fetchResult option list \<Rightarrow> bool" where
  "verified_chain e q rs \<longleftrightarrow>
     (\<forall>j < length rs. \<exists>res. rs ! j = Some res \<and> low64 (h_number (fr_Header res)) = resultOffset q + of_nat j \<and>
        body_matches e res \<and> (needs_receipts q (fr_Header res) \<longrightarrow> receipts_match e res)) \<and>
     (\<forall>j. Suc j < length rs \<longrightarrow> ParentHash (fr_Header (the (rs ! Suc j))) = q_Hash e (fr_Header (the (rs ! j))))"

lemma distinct_tasks:
  assumes "tasks_ok strict e X k"
  shows "distinct (map snd (TaskPool k))"
proof -
  have eq: "map fst (TaskPool k) = map (q_Hash e) (map snd (TaskPool k))" using assms by (auto simp: tasks_ok_def)
  have "distinct (map fst (TaskPool k))" using assms by (simp add: tasks_ok_def gomap_ok_def)
  then show ?thesis unfolding eq distinct_map [of "q_Hash e"] by simp
qed

lemma count_outstanding:
  assumes "tasks_ok True e {#} k"
  shows "count (outstanding k) x = of_bool (x \<in> tasks_of k)"
proof -
  have "outstanding k = mset (map snd (TaskPool k))" using assms by (simp add: tasks_ok_def outstanding_def)
  moreover have "count (mset (map snd (TaskPool k))) x = of_bool (x \<in> set (map snd (TaskPool k)))"
    using distinct_tasks [OF assms] distinct_count_atmost_1 [of "map snd (TaskPool k)"] by simp
  ultimately show ?thesis by (simp add: tasks_of_def)
qed

lemma uint_succ: "uint (w :: uint64) < 2 ^ 63 \<Longrightarrow> uint (w + 1) = uint w + 1"
  by (simp add: uint_word_ariths)

lemma next_number:
  assumes "queue_headers_ok e U" "x \<in> U" "y \<in> U" "low64 (h_number y) = low64 (h_number x) + 1"
  shows "h_number y = h_number x + 1"
proof -
  note x = queue_number [OF assms(1,2)]
  have "uint (low64 (h_number x)) < 2 ^ 63" unfolding x(2) by (rule x(3))
  then have "uint (low64 (h_number x) + 1) = uint (low64 (h_number x)) + 1" by (rule uint_succ)
  then have "uint (low64 (h_number y)) = h_number x + 1" unfolding assms(4) x(2) .
  then show ?thesis unfolding queue_number(2) [OF assms(1,3)] .
qed

lemma done_results:
  assumes U: "queue_headers_ok e U" and inv: "cache_inv e U B R q" and rs: "rs = take (countProcessableItems q) (resultCache q)"
  shows "verified_chain e q rs"
proof -
  have le: "countProcessableItems q \<le> length (resultCache q)" by (rule countProcessableItems_done)
  have nth: "rs ! j = resultCache q ! j" "j < countProcessableItems q" if "j < length rs" for j using that rs by simp_all
  have slot: "\<exists>res. rs ! j = Some res \<and> slot_ok e q B R j res \<and> fr_Header res \<notin> B \<union> R" if "j < length rs" for j
    using done_slot [OF inv nth(2) [OF that]] nth(1) [OF that] by metis
  have link: "ParentHash (fr_Header (the (rs ! Suc j))) = q_Hash e (fr_Header (the (rs ! j)))" if j: "Suc j < length rs" for j
  proof -
    obtain a where a: "rs ! j = Some a" "slot_ok e q B R j a" using slot [of j] j by auto
    obtain b where b: "rs ! Suc j = Some b" "slot_ok e q B R (Suc j) b" using slot [OF j] by auto
    have mem: "fr_Header a \<in> cached q" "fr_Header b \<in> cached q"
      using cachedI [of j q a] cachedI [of "Suc j" q b] a(1) b(1) nth [of j] nth [OF j] j le by auto
    have low: "low64 (h_number (fr_Header a)) = resultOffset q + of_nat j" "low64 (h_number (fr_Header b)) = resultOffset q + of_nat (Suc j)"
      using a(2) b(2) unfolding slot_ok_def by blast+
    have "low64 (h_number (fr_Header b)) = low64 (h_number (fr_Header a)) + 1" unfolding low by (simp add: ac_simps)
    then have "h_number (fr_Header b) = h_number (fr_Header a) + 1"
      using next_number [OF U] mem cache_parts(2) [OF inv] by blast
    moreover have "one_chain e (B \<union> R \<union> cached q)" by (rule head_ok_chain [OF cache_parts(3) [OF inv]])
    ultimately have "ParentHash (fr_Header b) = q_Hash e (fr_Header a)" using mem unfolding one_chain_def by blast
    then show ?thesis using a(1) b(1) by simp
  qed
  show ?thesis unfolding verified_chain_def using slot link unfolding slot_ok_def by (metis UnI1 UnI2)
qed

text \<open>
  C8: whatever the peers deliver, and whatever reservations fail, expire, are cancelled or revoked on the way, the
  results that \<open>WaitResults\<close> hands out are complete: their headers have consecutive numbers from the result offset on
  and each is the parent of the next, their transactions and uncles hash to what the header says, and so do
  their receipts up to the pivot of a fast sync. The offset moves past them, so no result is handed out twice.
\<close>
theorem WaitResults_verified:
  assumes "queueEnv_ok e" "queue_headers_ok e U" "limit < 2 ^ 64"
    and "queue_reach False limit e U q" "WaitResults e q = Some (rs, q')"
  shows "verified_chain e q rs \<and> resultOffset q' = resultOffset q + of_nat (length rs)"
proof -
  have inv: "cache_inv e U (tasks_of (bodies q)) (tasks_of (receipts q)) q"
    using part_invD(3) [OF queue_invD(1) [OF queue_reach_inv [OF assms(4,1-3)]]] .
  have rs: "rs = take (countProcessableItems q) (resultCache q)"
    using assms(5) by (simp add: WaitResults_def Let_def split: if_splits)
  have "resultOffset q' = resultOffset q + of_nat (length rs)"
    using assms(5) countProcessableItems_done(1) [of q] by (auto simp: WaitResults_def Let_def min_def split: if_splits)
  then show ?thesis using done_results [OF assms(2) inv rs] by blast
qed

text \<open>
  C13: no task is lost and none is duplicated. As long as no reservation has failed, the headers that are queued
  or requested from a peer are, each exactly once, the headers of the task pool, for bodies and for receipts, and
  the pending count of every cached result is the number of its parts that are queued or requested.
\<close>
theorem queue_tasks_conserved:
  assumes "queueEnv_ok e" "queue_headers_ok e U" "limit < 2 ^ 64" "queue_reach True limit e U q"
  shows "queue_accounts q"
proof -
  note inv = queue_invD [OF queue_reach_inv [OF assms(4,1-3)]]
  have "fr_Pending res = int (count (outstanding (bodies q)) (fr_Header res) + count (outstanding (receipts q)) (fr_Header res))"
    if res: "Some res \<in> set (resultCache q)" for res
  proof -
    obtain i where "i < length (resultCache q)" "resultCache q ! i = Some res" using res by (auto simp: in_set_conv_nth)
    then have "slot_ok e q (tasks_of (bodies q)) (tasks_of (receipts q)) i res" by (rule cache_slot [OF part_invD(3) [OF inv(1)]])
    then show ?thesis unfolding count_outstanding [OF inv(2)] count_outstanding [OF inv(3)] by (simp add: slot_ok_def)
  qed
  moreover have "outstanding (bodies q) = mset (map snd (TaskPool (bodies q)))" "outstanding (receipts q) = mset (map snd (TaskPool (receipts q)))"
    using inv(2,3) by (simp_all add: tasks_ok_def outstanding_def)
  ultimately show ?thesis unfolding queue_accounts_def by blast
qed

section \<open>A small download\<close>

text \<open>Two headers, the second with an empty body; a list hashes to its length, a header to its root field.\<close>

definition small_header :: "hash \<Rightarrow> hash \<Rightarrow> bigint \<Rightarrow> header" where
  "small_header par root num =
     \<lparr>ParentHash = par, UncleHash = 0, h_coinbase = 0, h_root = root, h_difficulty = 1, h_number = num,
      h_gasLimit = 0, h_gasUsed = 0, h_time = 0, h_extra = [], MixDigest = 0, h_nonce = []\<rparr>"

definition small_headers :: "header list" where
  "small_headers = [small_header 1 2 1, small_header 2 3 2]"

definition small_queueEnv :: "(nat, nat) queueEnv" where
  "small_queueEnv =
     \<lparr>q_Hash = h_root, q_NilHash = None, q_TxHash = (\<lambda>x. if h_root x = 2 then 1 else 0), q_ReceiptHash = (\<lambda>_. 0), q_EmptyRoot = 0,
      q_EmptyUncle = 0, DeriveShaTxs = (\<lambda>xs. of_nat (length xs)), DeriveShaReceipts = (\<lambda>xs. of_nat (length xs)),
      CalcUncleHash = (\<lambda>xs. of_nat (length xs)), pop_header = (\<lambda>xs. (hd xs, tl xs)), pop_from = (\<lambda>xs. (hd xs, tl xs))\<rparr>"

definition small_scheduled :: "(nat, nat) queue" where
  "small_scheduled = snd (Schedule small_queueEnv small_headers 1 [] (PrepareQueue 1 FullSync 0 (newQueue 2)))"

definition small_reserved :: "(nat, nat) queue" where
  "small_reserved = snd (ReserveBodies small_queueEnv 0 ''peer'' 5 small_scheduled)"

definition small_delivered :: "(nat, nat) queue" where
  "small_delivered = snd (the (DeliverBodies small_queueEnv ''peer'' [[7]] [[]] small_reserved))"

lemma small_env_ok: "queueEnv_ok small_queueEnv"
proof -
  have "mset xs = add_mset (hd xs) (mset (tl xs))" if "xs \<noteq> []" for xs :: "header list" using that by (cases xs) simp_all
  moreover have "mset ns = add_mset (hd ns) (mset (tl ns))" if "ns \<noteq> []" for ns :: "uint64 list" using that by (cases ns) simp_all
  ultimately show ?thesis by (simp add: queueEnv_ok_def small_queueEnv_def)
qed

lemma small_headers_ok: "queue_headers_ok small_queueEnv (set small_headers)"
  by (simp add: queue_headers_ok_def small_queueEnv_def small_headers_def small_header_def)

lemma small_reserve: "\<not> isl (fst (ReserveBodies small_queueEnv 0 ''peer'' 5 small_scheduled))" "PendPool (bodies small_reserved) \<noteq> []"
  by code_simp+

lemma small_deliver: "DeliverBodies small_queueEnv ''peer'' [[7]] [[]] small_reserved \<noteq> None"
  by code_simp

lemma small_wait: "map_option (\<lambda>v. length (fst v)) (WaitResults small_queueEnv small_delivered) = Some 2"
  by code_simp

lemma small_reach_reserved: "queue_reach strict 2 small_queueEnv (set small_headers) small_reserved"
proof -
  have "queue_reach strict 2 small_queueEnv (set small_headers) small_scheduled"
    unfolding small_scheduled_def
    by (rule queue_reach.step [OF queue_reach.start queue_step.schedule [OF subset_refl prod.collapse [symmetric]]])
  then show ?thesis
    unfolding small_reserved_def
    by (rule queue_reach.step [OF _ queue_step.reserve_bodies [OF prod.collapse [symmetric]]]) (use small_reserve(1) in simp)
qed

lemma small_reach_delivered: "queue_reach strict 2 small_queueEnv (set small_headers) small_delivered"
proof -
  obtain v where "DeliverBodies small_queueEnv ''peer'' [[7]] [[]] small_reserved = Some v" using small_deliver by blast
  then have "DeliverBodies small_queueEnv ''peer'' [[7]] [[]] small_reserved = Some (fst v, small_delivered)" by (simp add: small_delivered_def)
  then show ?thesis by (rule queue_reach.step [OF small_reach_reserved queue_step.deliver_bodies])
qed

theorem WaitResults_verified_witness:
  "\<exists>rs q'. WaitResults small_queueEnv small_delivered = Some (rs, q') \<and> length rs = 2 \<and>
     verified_chain small_queueEnv small_delivered rs \<and> resultOffset q' = resultOffset small_delivered + 2"
proof -
  obtain rs q' where w: "WaitResults small_queueEnv small_delivered = Some (rs, q')" "length rs = 2" using small_wait by auto
  show ?thesis using WaitResults_verified [OF small_env_ok small_headers_ok _ small_reach_delivered w(1)] w by simp
qed

theorem queue_tasks_conserved_witness: "queue_accounts small_reserved \<and> PendPool (bodies small_reserved) \<noteq> []"
  using queue_tasks_conserved [OF small_env_ok small_headers_ok _ small_reach_reserved [of True]] small_reserve(2) by simp

end
