(* ===== verification/Spec2Isabelle.thy ===== *)
theory Spec2Isabelle
  imports TxPoolProps CliqueProps Worker HeaderBatch HeaderChainRewind Rle DownloadQueueResults
begin

text \<open>
  Verification of the MOAC vnode, the node program of the MOAC block chain. The Go sources are under \<open>src/\<close>.

  \<^bold>\<open>The program and its parts.\<close> A node collects transactions in a pool (\<open>core/tx_pool.go\<close>). The miner (\<open>miner/worker.go\<close>)
  takes them from the pool, runs them by the state processor (\<open>core/state_processor.go\<close>, which applies one message
  at a time by \<open>core/state_transition.go\<close>), and has the consensus engine complete and seal the header: ethash (proof of
  work) or clique (proof of authority). Blocks and headers of other nodes come in by the download queue
  (\<open>mc/downloader/queue.go\<close>), are checked by the engine and the validator (\<open>core/block_validator.go\<close>), and
  headers are entered in the header chain (\<open>core/headerchain.go\<close>), which lies in a key-value store
  (\<open>core/database_util.go\<close>) that starts with the genesis block (\<open>core/genesis.go\<close>).

  \<^bold>\<open>Conventions.\<close> A Go map is an association list with distinct keys, in whichever order the run time visits it;
  a struct is a record; \<open>uint64\<close>, \<open>uint32\<close>, addresses and hashes are words of their width and \<open>*big.Int\<close> is \<open>int\<close>.
  An operation that may panic returns an option and \<open>None\<close> is the panic; errors are values of a datatype, in a sum
  with the result. Times, random choices and what the scheduler decides are arguments. Code that is not under
  \<open>src/\<close> (the state database, the interpreter, RLP, signatures, Keccak, priority queues, LRU caches) is a field of an
  environment record, and a predicate such as \<open>cliqueEnv_ok\<close>, \<open>hcEnv_ok\<close> or \<open>queueEnv_ok\<close> states the documented behaviour
  a theorem relies on; the witnesses instantiate it by concrete functions.

  \<^bold>\<open>Theories.\<close>
  \<^item> \<open>Prelude\<close>: types, Go maps, slices, and the locale \<open>event_system\<close>, which lifts an invariant of one step to runs.
  \<^item> \<open>GoHeap\<close>: Go's \<open>container/heap\<close>, with the locale \<open>heap_queue\<close> of what its clients use.
  \<^item> \<open>TxSortedMap\<close>, \<open>TxList\<close>: \<open>core/tx_list.go\<close>. The lists are shown to refine sorted lists of nonces (locale
    \<open>nonce_list\<close>); \<open>Add\<close>, \<open>Filter\<close>, \<open>Cap\<close>, \<open>Discard\<close> and \<open>Underpriced\<close> meet their contracts in spite of lazy
    heaps and short circuits.
  \<^item> \<open>TxPool\<close>, \<open>TxPoolInv\<close>, \<open>TxPoolMoves\<close>, \<open>TxPoolLimits\<close>, \<open>TxPoolRun\<close>, \<open>TxPoolProps\<close>: \<open>core/tx_pool.go\<close> and
    \<open>core/tx_journal.go\<close>. No run of pool events panics, the limits are enforced fairly, pending transactions are
    executable, the journal survives a round trip, the walks of a chain reorganisation end.
  \<^item> \<open>Gas\<close>, \<open>StateTransition\<close>, \<open>StateProcessor\<close>: \<open>core/gaspool.go\<close>, \<open>state_transition.go\<close>, \<open>state_processor.go\<close>,
    \<open>evm.go\<close>. Funds are conserved, gas adds up and stays within the block's limit, the checks before a message refuse
    exactly what they should.
  \<^item> \<open>Header\<close>, \<open>Bytes\<close>: data of headers and big-endian byte strings.
  \<^item> \<open>CliqueSnapshot\<close>, \<open>Clique\<close>, \<open>CliqueProps\<close>: \<open>consensus/clique\<close>. The signers change only by a majority, votes and
    tally agree, a sealed block verifies, verification returns, some signer may always sign.
  \<^item> \<open>Hashimoto\<close>, \<open>HashimotoProps\<close>, \<open>Ethash\<close>, \<open>EthashProps\<close>, \<open>HeaderBatch\<close>: \<open>consensus/ethash\<close>. Light and full
    evaluation agree, the difficulty follows its closed rule, uncles are rewarded within bounds, the epochs in
    memory are bounded, and the concurrent verification of a batch refines the sequential one and ends.
  \<^item> \<open>BlockValidator\<close>, \<open>Worker\<close>: \<open>core/block_validator.go\<close>, \<open>miner/worker.go\<close>, \<open>miner/unconfirmed.go\<close>. The miner's
    block keeps within the gas limit and its header verifies.
  \<^item> \<open>ChainDb\<close>, \<open>HeaderChain\<close>, \<open>HeaderChainProps\<close>, \<open>GenesisBlock\<close>, \<open>HeaderChainRun\<close>, \<open>HeaderChainRewind\<close>:
    \<open>core/database_util.go\<close>, \<open>headerchain.go\<close>, \<open>genesis.go\<close>. A read sees the last write of its item; from the genesis
    block on, batches of headers keep the canonical numbers on the ancestors of a heaviest head; \<open>SetHead\<close> rewinds.
  \<^item> \<open>DownloadQueue\<close>, \<open>DownloadQueueProps\<close>, \<open>DownloadQueueRun\<close>, \<open>DownloadQueueResults\<close>: \<open>mc/downloader/queue.go\<close>. The loops
    that bodies and receipts share are verified once (locale \<open>fetch_part\<close>); no task is lost or duplicated, and the
    results are complete, linked and match their headers, whatever the peers deliver.
  \<^item> \<open>Rle\<close>: \<open>compression/rle\<close>. Which data survive compression.

  \<^bold>\<open>Fuel.\<close> Loops without a structural measure take fuel. The reduction loops of the pool take the length of the
  list they shorten, the walks to a common ancestor and to a block hash the block numbers, the search for a
  snapshot the number of the header, the eviction of epochs the size of the map, the search for prime sizes the
  size, and the loops of the download queue the length of the queue or of the results; lemmas next to
  them or the theorems on totality show that this is enough, except for the search for primes, which returns
  \<open>None\<close> when it finds none. The fuel of the mining loop is the number of attempts before it is stopped, and the
  loop of \<open>FindCommonAncestor\<close> has its bound as an argument. The loops of \<open>WriteHeader\<close> and \<open>SetHead\<close> that may run
  forever on a corrupt database are partial functions, and the theorems on them state that they return.

  \<^bold>\<open>What the theorems leave open.\<close> The canonical numbering is shown for insertion from a genesis block on, and \<open>SetHead\<close>
  for a chain so made; insertion after a rewind is not covered, since a side branch may have lost its fork
  point. The download queue keeps all its tasks as long as no reservation fails; a failing reservation
  abandons the headers it has taken, and only the promise on the results covers it. Priorities of the download
  queue are not modelled, so the order in which tasks are handed out is arbitrary.

  \<^bold>\<open>Not modelled.\<close> Insertion of whole blocks (\<open>core/blockchain.go\<close>), the chain indexer and the bloom bits, which work over
  tries, caches and goroutines of the library; the fetcher, the downloader's control loops, the protocol handlers,
  the light client, the peer-to-peer network and the relay to subchains, which are network input and output;
  accounts, wallets, remote procedure calls, the console and the commands, which are key files, reflection, JSON and
  process set-up; event feeds, which dispatch by reflection. Within the modelled parts, locks, logs, metrics, event
  subscriptions, memory-mapped files of ethash, and JSON forms of snapshots and genesis specifications are left out.
\<close>

end
